(* ===== verification/Prelude.thy ===== *)
theory Prelude
  imports Main "HOL-Library.Word"
begin

text \<open>
  Shared vocabulary of the development: the C character classes and string functions the
  sources call (\<open>isspace\<close>, \<open>tolower\<close>, \<open>strcasecmp\<close>, \<open>strtoll\<close>, \<open>sscanf\<close>, \<open>snprintf\<close> of
  integers), the result type of fallible operations, and the generic lemmas on lists and
  numerals that the component theories share. A C string is the list of its characters
  without the terminating NUL; character classes are those of the C locale.
\<close>

named_theorems char_class "evaluation of the C character classes"

section \<open>Results\<close>

text \<open>
  An error of the error stack of \<open>lib/error.c\<close>: its numeric code (0 when the call site
  passes 0) and the format literal of the \<open>error_push\<close> call that raised it. The
  formatted arguments of the message and the text of \<open>strerror\<close> are not represented.
\<close>

datatype err = Err (err_code: int) (err_what: string)

type_synonym 'a res = "err + 'a"

abbreviation (input) Fail :: "int \<Rightarrow> string \<Rightarrow> 'a res" where
  "Fail c w \<equiv> Inl (Err c w)"

text \<open>
  The outcome of a C function that may also leave defined behaviour: \<open>Crash\<close> stands for
  a failed \<open>assert\<close>, a dereference of a null or dangling pointer, an access outside an
  array or a read of uninitialised memory.
\<close>

datatype 'a outcome = Done 'a | Raised err | Crash

definition obind :: "'a outcome \<Rightarrow> ('a \<Rightarrow> 'b outcome) \<Rightarrow> 'b outcome" where
  "obind m f = (case m of Done a \<Rightarrow> f a | Raised e \<Rightarrow> Raised e | Crash \<Rightarrow> Crash)"

lemma obind_simps [simp]:
  "obind (Done a) f = f a" "obind (Raised e) f = Raised e" "obind Crash f = Crash"
  by (simp_all add: obind_def)

lemma obind_eq_Done: "(obind m f = Done b) = (\<exists>a. m = Done a \<and> f a = Done b)"
  by (cases m) auto

text \<open>
  Operations on a state: the state and the result or the pending error when the operation
  returns. An error does not undo what was done to the state before it.
\<close>

type_synonym ('s, 'a) act = "'s \<Rightarrow> ('s \<times> 'a res) outcome"

definition ret :: "'a \<Rightarrow> ('s, 'a) act" where
  "ret x s = Done (s, Inr x)"

definition failure :: "int \<Rightarrow> string \<Rightarrow> ('s, 'a) act" where
  "failure c w s = Done (s, Inl (Err c w))"

definition bnd :: "('s, 'a) act \<Rightarrow> ('a \<Rightarrow> ('s, 'b) act) \<Rightarrow> ('s, 'b) act" where
  "bnd m f s = (case m s of
     Done (s', Inr x) \<Rightarrow> f x s' | Done (s', Inl e) \<Rightarrow> Done (s', Inl e)
   | Raised e \<Rightarrow> Raised e | Crash \<Rightarrow> Crash)"

definition attempt :: "('s, 'a) act \<Rightarrow> ('s, 'a res) act" where
  "attempt m s = (case m s of
     Done (s', r) \<Rightarrow> Done (s', Inr r) | Raised e \<Rightarrow> Raised e | Crash \<Rightarrow> Crash)"

lemma ret_apply [simp]: "ret x s = Done (s, Inr x)"
  by (simp add: ret_def)

lemma failure_apply [simp]: "failure c w s = Done (s, Inl (Err c w))"
  by (simp add: failure_def)

lemma bnd_eq_Done:
  "(bnd m f s = Done (t, Inr y)) = (\<exists>s' x. m s = Done (s', Inr x) \<and> f x s' = Done (t, Inr y))"
  by (auto simp: bnd_def split: outcome.splits sum.splits)

lemma bnd_Done [simp]: "m s = Done (s', Inr x) \<Longrightarrow> bnd m f s = f x s'"
  by (simp add: bnd_def)

lemma bnd_Fail [simp]: "m s = Done (s', Inl e) \<Longrightarrow> bnd m f s = Done (s', Inl e)"
  by (simp add: bnd_def)

definition ENOENT :: int where "ENOENT = 2"
definition EINTR :: int where "EINTR = 4"
definition E2BIG :: int where "E2BIG = 7"
definition EAGAIN :: int where "EAGAIN = 11"
definition EFAULT :: int where "EFAULT = 14"
definition EEXIST :: int where "EEXIST = 17"
definition ENOTDIR :: int where "ENOTDIR = 20"
definition EINVAL :: int where "EINVAL = 22"
definition EDOM :: int where "EDOM = 33"
definition ELOOP :: int where "ELOOP = 40"
definition ENOMSG :: int where "ENOMSG = 42"

section \<open>Characters\<close>

abbreviation NL :: char where "NL \<equiv> CHR 0x0A"
abbreviation CR :: char where "CR \<equiv> CHR 0x0D"
abbreviation TAB :: char where "TAB \<equiv> CHR 0x09"
abbreviation SP :: char where "SP \<equiv> CHR 0x20"

definition isspace :: "char \<Rightarrow> bool" where
  "isspace c \<longleftrightarrow> (let n = (of_char c :: nat) in n = 32 \<or> (9 \<le> n \<and> n \<le> 13))"

definition isblank :: "char \<Rightarrow> bool" where
  "isblank c \<longleftrightarrow> c = SP \<or> c = TAB"

definition isdigit :: "char \<Rightarrow> bool" where
  "isdigit c \<longleftrightarrow> (let n = (of_char c :: nat) in 48 \<le> n \<and> n \<le> 57)"

definition tolower :: "char \<Rightarrow> char" where
  "tolower c = (let n = (of_char c :: nat) in if 65 \<le> n \<and> n \<le> 90 then char_of (n + 32) else c)"

definition strcasecmp_eq :: "string \<Rightarrow> string \<Rightarrow> bool" where
  "strcasecmp_eq a b \<longleftrightarrow> map tolower a = map tolower b"

text \<open>\<open>0 == strncasecmp (a, b, strlen (a))\<close>.\<close>

definition strncasecmp_pre :: "string \<Rightarrow> string \<Rightarrow> bool" where
  "strncasecmp_pre a b \<longleftrightarrow> map tolower (take (length a) b) = map tolower a"

lemma isspace_simps [simp, char_class]:
  "isspace SP" "isspace NL" "isspace CR" "isspace TAB"
  "\<not> isspace CHR '':''" "\<not> isspace CHR ''+''" "\<not> isspace CHR ''-''" "\<not> isspace CHR ''%''"
  by (simp_all add: isspace_def)

lemma isblank_simps [simp, char_class]:
  "isblank SP" "isblank TAB" "\<not> isblank NL" "\<not> isblank CR" "\<not> isblank CHR '':''"
  by (simp_all add: isblank_def)

lemma isblank_isspace: "isblank c \<Longrightarrow> isspace c"
  by (auto simp: isblank_def)

lemma of_char_less_256 [simp]: "(of_char c :: nat) < 256"
  using nat_of_char_less_256 [of c] by simp

lemma char_of_nat_inject_small:
  "m < 256 \<Longrightarrow> n < 256 \<Longrightarrow> (char_of (m :: nat) = char_of n) = (m = n)"
  by (metis of_char_of mod_less)

lemma of_char_tolower:
  "(of_char (tolower c) :: nat) =
     (if 65 \<le> (of_char c :: nat) \<and> (of_char c :: nat) \<le> 90 then of_char c + 32 else of_char c)"
  by (simp add: tolower_def Let_def)

lemma tolower_idem [simp]: "tolower (tolower c) = tolower c"
proof -
  have "(of_char (tolower (tolower c)) :: nat) = of_char (tolower c)"
    by (simp add: of_char_tolower)
  then show ?thesis by (simp only: of_char_eq_iff)
qed

lemma map_tolower_idem [simp]: "map tolower (map tolower s) = map tolower s"
  by simp

lemma isspace_tolower [simp]: "isspace (tolower c) = isspace c"
  by (auto simp: isspace_def Let_def of_char_tolower)

lemma tolower_eq_nonletter:
  assumes "\<not> (65 \<le> (of_char d :: nat) \<and> (of_char d :: nat) \<le> 122)"
  shows "(tolower c = d) = (c = d)"
proof -
  have "((of_char (tolower c) :: nat) = of_char d) = ((of_char c :: nat) = of_char d)"
    using assms by (auto simp: of_char_tolower)
  then show ?thesis by (simp only: of_char_eq_iff)
qed

lemma tolower_eq_simps [simp, char_class]:
  "(tolower c = CHR '':'') = (c = CHR '':'')"
  "(tolower c = NL) = (c = NL)"
  "(tolower c = CR) = (c = CR)"
  by (rule tolower_eq_nonletter, simp)+

lemma strcasecmp_eq_refl [simp]: "strcasecmp_eq a a"
  by (simp add: strcasecmp_eq_def)

lemma strcasecmp_eq_sym: "strcasecmp_eq a b = strcasecmp_eq b a"
  by (auto simp: strcasecmp_eq_def)

section \<open>Numerals\<close>

definition digit_val :: "char \<Rightarrow> nat option" where
  "digit_val c = (let n = (of_char c :: nat) in
     if 48 \<le> n \<and> n \<le> 57 then Some (n - 48)
     else if 97 \<le> n \<and> n \<le> 122 then Some (n - 87)
     else if 65 \<le> n \<and> n \<le> 90 then Some (n - 55)
     else None)"

text \<open>The digits of base \<open>b\<close> at the head of a string, and what follows them.\<close>

fun read_digits :: "nat \<Rightarrow> nat \<Rightarrow> string \<Rightarrow> nat \<times> string" where
  "read_digits b acc [] = (acc, [])"
| "read_digits b acc (c # cs) =
     (case digit_val c of
        Some d \<Rightarrow> if d < b then read_digits b (acc * b + d) cs else (acc, c # cs)
      | None \<Rightarrow> (acc, c # cs))"

definition starts_digit :: "nat \<Rightarrow> string \<Rightarrow> bool" where
  "starts_digit b s = (case s of [] \<Rightarrow> False
     | c # _ \<Rightarrow> (case digit_val c of Some d \<Rightarrow> d < b | None \<Rightarrow> False))"

text \<open>Leading white space and sign, as \<open>strtol\<close> and \<open>sscanf\<close> skip them.\<close>

definition skip_sign :: "string \<Rightarrow> bool \<times> string" where
  "skip_sign s = (case dropWhile isspace s of
     [] \<Rightarrow> (False, [])
   | c # cs \<Rightarrow> if c = CHR ''-'' then (True, cs)
               else if c = CHR ''+'' then (False, cs) else (False, c # cs))"

definition hex_prefix :: "string \<Rightarrow> bool" where
  "hex_prefix s = (case s of
     a # b # cs \<Rightarrow> a = CHR ''0'' \<and> (b = CHR ''x'' \<or> b = CHR ''X'') \<and> starts_digit 16 cs
   | _ \<Rightarrow> False)"

definition base0 :: "string \<Rightarrow> nat \<times> string" where
  "base0 s = (if hex_prefix s then (16, drop 2 s)
              else if take 1 s = ''0'' then (8, s) else (10, s))"

definition clamp64 :: "int \<Rightarrow> int" where
  "clamp64 v = max (- (2 ^ 63)) (min (2 ^ 63 - 1) v)"

text \<open>
  \<open>strtoll (s, &end, 10)\<close> and \<open>strtoll (s, &end, 0)\<close>: the value and the string \<open>end\<close>
  points to; when no digit is found the value is 0 and \<open>end\<close> is \<open>s\<close> itself.
\<close>

definition strtoll10 :: "string \<Rightarrow> int \<times> string" where
  "strtoll10 s = (case skip_sign s of (neg, t) \<Rightarrow>
     if starts_digit 10 t then
       (case read_digits 10 0 t of (n, r) \<Rightarrow> (clamp64 (if neg then - int n else int n), r))
     else (0, s))"

definition strtoll0 :: "string \<Rightarrow> int \<times> string" where
  "strtoll0 s = (case skip_sign s of (neg, t) \<Rightarrow> case base0 t of (b, u) \<Rightarrow>
     if starts_digit b u then
       (case read_digits b 0 u of (n, r) \<Rightarrow> (clamp64 (if neg then - int n else int n), r))
     else (0, s))"

text \<open>\<open>strtoull (s, &end, 10)\<close> converted to a signed 64 bit integer.\<close>

definition wrap64 :: "int \<Rightarrow> int" where
  "wrap64 v = (v + 2 ^ 63) mod 2 ^ 64 - 2 ^ 63"

definition strtoull10 :: "string \<Rightarrow> int \<times> string" where
  "strtoull10 s = (case skip_sign s of (neg, t) \<Rightarrow>
     if starts_digit 10 t then
       (case read_digits 10 0 t of (n, r) \<Rightarrow>
          (if 2 ^ 64 \<le> n then wrap64 (2 ^ 64 - 1)
           else wrap64 (if neg then - int n else int n), r))
     else (0, s))"

text \<open>\<open>sscanf (s, "%lld", &v)\<close>: \<open>None\<close> when no conversion happens.\<close>

definition sscanf_lld :: "string \<Rightarrow> int option" where
  "sscanf_lld s = (case skip_sign s of (neg, t) \<Rightarrow>
     if starts_digit 10 t then
       (case read_digits 10 0 t of (n, r) \<Rightarrow> Some (clamp64 (if neg then - int n else int n)))
     else None)"

definition digit_char :: "nat \<Rightarrow> char" where
  "digit_char d = char_of (48 + d)"

fun dec_nat :: "nat \<Rightarrow> string" where
  "dec_nat n = (if n < 10 then [digit_char n] else dec_nat (n div 10) @ [digit_char (n mod 10)])"

declare dec_nat.simps [simp del]

definition dec_int :: "int \<Rightarrow> string" where
  "dec_int v = (if v < 0 then CHR ''-'' # dec_nat (nat (- v)) else dec_nat (nat v))"

text \<open>\<open>%020lld\<close> of a non-negative number and, for a negative one, with the sign counted.\<close>

definition pad0 :: "nat \<Rightarrow> string \<Rightarrow> string" where
  "pad0 w s = replicate (w - length s) CHR ''0'' @ s"

definition dec20 :: "int \<Rightarrow> string" where
  "dec20 v = (if v < 0 then CHR ''-'' # pad0 19 (dec_nat (nat (- v))) else pad0 20 (dec_nat (nat v)))"

subsection \<open>Reading back what was printed\<close>

lemma of_char_digit_char [simp]: "d < 10 \<Longrightarrow> (of_char (digit_char d) :: nat) = 48 + d"
  by (simp add: digit_char_def)

lemma digit_val_digit_char [simp]: "d < 10 \<Longrightarrow> digit_val (digit_char d) = Some d"
  by (simp add: digit_val_def Let_def)

lemma digit_val_zero [simp]: "digit_val CHR ''0'' = Some 0"
  by (simp add: digit_val_def)

lemma digit_char_not_space [simp]: "d < 10 \<Longrightarrow> \<not> isspace (digit_char d)"
  by (simp add: isspace_def Let_def)

lemma digit_char_neq [simp]:
  assumes "d < 10"
  shows "digit_char d \<noteq> CHR ''-''" "digit_char d \<noteq> CHR ''+''" "digit_char d \<noteq> CHR ''_''"
    "digit_char d \<noteq> NL" "digit_char d \<noteq> CR" "digit_char d \<noteq> SP" "digit_char d \<noteq> CHR ''/''"
    "digit_char d \<noteq> CHR ''.''"
  using assms by (auto simp flip: of_char_eq_iff [where 'a = nat])

lemma dec_nat_nonempty [simp]: "dec_nat n \<noteq> []"
  by (subst dec_nat.simps) simp

lemma dec_nat_digits: "\<forall>c \<in> set (dec_nat n). \<exists>d < 10. c = digit_char d"
proof (induction n rule: dec_nat.induct)
  case (1 n)
  show ?case
  proof (cases "n < 10")
    case True
    then show ?thesis by (subst dec_nat.simps) auto
  next
    case False
    moreover have "\<exists>d < 10. digit_char (n mod 10) = digit_char d"
      by (rule exI [of _ "n mod 10"]) simp
    ultimately show ?thesis using "1.IH" by (subst dec_nat.simps) auto
  qed
qed

lemma read_digits_append_digits:
  "\<forall>c \<in> set s. \<exists>d < 10. c = digit_char d \<Longrightarrow>
     read_digits 10 acc (s @ t) = read_digits 10 (fst (read_digits 10 acc s)) t"
  by (induction s arbitrary: acc) auto

lemma read_digits_stop: "\<not> starts_digit b t \<Longrightarrow> read_digits b acc t = (acc, t)"
  by (cases t) (auto simp: starts_digit_def split: option.splits)

lemma read_digits_dec_nat_acc:
  "fst (read_digits 10 acc (dec_nat n)) = acc * 10 ^ length (dec_nat n) + n"
proof (induction n arbitrary: acc rule: dec_nat.induct)
  case (1 n)
  show ?case
  proof (cases "n < 10")
    case True
    then show ?thesis by (simp add: dec_nat.simps [of n])
  next
    case False
    then have "read_digits 10 acc (dec_nat n)
        = read_digits 10 (fst (read_digits 10 acc (dec_nat (n div 10)))) [digit_char (n mod 10)]"
      by (simp add: dec_nat.simps [of n] read_digits_append_digits dec_nat_digits)
    with False "1.IH" show ?thesis
      by (simp add: dec_nat.simps [of n] algebra_simps)
  qed
qed

lemma read_digits_dec_nat:
  assumes "\<not> starts_digit 10 t"
  shows "read_digits 10 0 (dec_nat n @ t) = (n, t)"
  using read_digits_dec_nat_acc [of 0 n]
  by (simp add: read_digits_append_digits dec_nat_digits read_digits_stop assms)

lemma read_digits_zeros:
  "read_digits 10 0 (replicate k CHR ''0'' @ s) = read_digits 10 0 s"
  by (induction k) auto

lemma dec_nat_hd: "\<exists>d < 10. \<exists>cs. dec_nat n = digit_char d # cs"
proof -
  obtain c cs where "dec_nat n = c # cs" by (cases "dec_nat n") auto
  with dec_nat_digits [of n] show ?thesis by auto
qed

lemma starts_digit_dec_nat [simp]: "starts_digit 10 (dec_nat n @ t)"
  using dec_nat_hd [of n] by (auto simp: starts_digit_def)

lemma starts_digit_dec_nat' [simp]: "starts_digit 10 (dec_nat n)"
  using starts_digit_dec_nat [of n "[]"] by simp

lemma starts_digit_zeros [simp]:
  "starts_digit 10 (replicate k CHR ''0'' @ dec_nat n @ t)"
  by (cases k) (simp, simp add: starts_digit_def)

lemma skip_sign_digit: "starts_digit 10 s \<Longrightarrow> skip_sign s = (False, s)"
  by (cases s) (auto simp: starts_digit_def skip_sign_def digit_val_def Let_def isspace_def
      split: option.splits if_splits)

lemma skip_sign_minus [simp]: "skip_sign (CHR ''-'' # s) = (True, s)"
  by (simp add: skip_sign_def)

lemma clamp64_id [simp]: "- (2 ^ 63) \<le> v \<Longrightarrow> v < 2 ^ 63 \<Longrightarrow> clamp64 v = v"
  by (simp add: clamp64_def)

lemma sscanf_dec_int:
  assumes "- (2 ^ 63) \<le> v" "v < 2 ^ 63" "\<not> starts_digit 10 t"
  shows "sscanf_lld (dec_int v @ t) = Some v"
  using assms
  by (auto simp: sscanf_lld_def dec_int_def skip_sign_digit read_digits_dec_nat)

lemma not_starts_digit_Nil [simp]: "\<not> starts_digit b []"
  by (simp add: starts_digit_def)

lemma strtoull10_dec20:
  assumes "0 \<le> v" "v < 2 ^ 63" "\<not> starts_digit 10 t"
  shows "strtoull10 (dec20 v @ t) = (v, t)"
proof -
  have "\<not> (2::nat) ^ 64 \<le> nat v" using assms by simp
  with assms show ?thesis
    by (simp add: strtoull10_def dec20_def pad0_def skip_sign_digit read_digits_zeros
        read_digits_dec_nat wrap64_def)
qed

lemma length_dec_nat: "0 < k \<Longrightarrow> n < 10 ^ k \<Longrightarrow> length (dec_nat n) \<le> k"
proof (induction k arbitrary: n)
  case (Suc k)
  show ?case
  proof (cases "n < 10")
    case True
    then show ?thesis by (simp add: dec_nat.simps [of n])
  next
    case False
    with Suc.prems have "0 < k" by (cases k) auto
    moreover have "n div 10 < 10 ^ k" using Suc.prems(2) by (simp add: less_mult_imp_div_less)
    ultimately show ?thesis using False Suc.IH [of "n div 10"] by (simp add: dec_nat.simps [of n])
  qed
qed simp

section \<open>Relations between the states before and after\<close>

lemma bnd_ret: "bnd (ret x) f = f x" "bnd m ret = m"
  by (auto simp: bnd_def fun_eq_iff split: outcome.splits sum.splits prod.splits)

lemma bnd_assoc: "bnd (bnd m f) g = bnd m (\<lambda>x. bnd (f x) g)"
  by (auto simp: bnd_def fun_eq_iff split: outcome.splits sum.splits prod.splits)

lemma bnd_ext: "(\<And>x. f x = f' x) \<Longrightarrow> bnd m f = bnd m f'"
  by presburger

text \<open>An operation, when it returns, leaves the state in a relation to the state it found.\<close>

definition within :: "('s \<Rightarrow> 's \<Rightarrow> bool) \<Rightarrow> ('s, 'a) act \<Rightarrow> bool" where
  "within R m \<longleftrightarrow> (\<forall>s s' r. m s = Done (s', r) \<longrightarrow> R s s')"

lemma withinI: "(\<And>s s' r. m s = Done (s', r) \<Longrightarrow> R s s') \<Longrightarrow> within R m"
  by (auto simp: within_def)

lemma withinD: "within R m \<Longrightarrow> m s = Done (s', r) \<Longrightarrow> R s s'"
  by (auto simp: within_def)

lemma within_state: "(\<And>t. within R (f t)) \<Longrightarrow> within R (\<lambda>s. f s s)"
  by (auto simp: within_def)

lemma within_attempt: "within R m \<Longrightarrow> within R (attempt m)"
  by (auto simp: within_def attempt_def split: outcome.splits)

lemma within_Crash: "within R (\<lambda>_. Crash)"
  by (simp add: within_def)

lemma within_option: "(\<And>x. within R (m x)) \<Longrightarrow> within R (\<lambda>s. case f s of None \<Rightarrow> Crash | Some x \<Rightarrow> m x s)"
  by (auto simp: within_def split: option.splits)

lemma within_if: "within R m \<Longrightarrow> within R m' \<Longrightarrow> within R (\<lambda>s. if P s then m s else m' s)"
  by (auto simp: within_def)

lemma within_sum: "(\<And>e. within R (f e)) \<Longrightarrow> (\<And>x. within R (g x)) \<Longrightarrow> within R (case r of Inl e \<Rightarrow> f e | Inr x \<Rightarrow> g x)"
  by (cases r) auto

text \<open>Such a relation passes through sequences of operations when it is reflexive and transitive.\<close>

locale state_order =
  fixes R :: "'s \<Rightarrow> 's \<Rightarrow> bool"
  assumes refl: "R s s"
    and trans: "R s t \<Longrightarrow> R t u \<Longrightarrow> R s u"
begin

lemma within_bnd:
  assumes "within R m" "\<And>x. within R (f x)"
  shows "within R (bnd m f)"
proof (rule withinI)
  fix s s' r assume "bnd m f s = Done (s', r)"
  then consider e where "m s = Done (s', Inl e)" | s1 x where "m s = Done (s1, Inr x)" "f x s1 = Done (s', r)"
    by (auto simp: bnd_def split: outcome.splits sum.splits)
  then show "R s s'"
    by cases (use assms in \<open>auto dest: withinD intro: trans\<close>)
qed

lemma within_same: "within R (\<lambda>s. Done (s, r))" "within R (ret x)" "within R (failure c w)"
  by (auto simp: within_def refl)

lemmas within_intros = within_bnd within_same within_attempt within_Crash

end

end
