(* ===== verification/Errors.thy ===== *)
theory Errors
  imports Prelude
begin

text \<open>
  The error stack of \<open>lib/error.c\<close>: every thread owns an \<open>errbuf\<close> with a stack of pushed
  errors and a stack of acknowledged depths; \<open>is_error\<close> compares the two. The arrays of
  the C structure are functions of the index, their size is the bound the assertions
  check. The main result is that a bracket \<open>error_save ... error_restore\<close> leaves the
  errors pending at its start exactly as they were, whatever is done inside.
\<close>

section \<open>Data\<close>

record error =
  code :: int
  str :: string

record errbuf =
  nb_errors :: nat
  nb_acks :: nat
  ack_stack :: "nat \<Rightarrow> nat"
  err_stack :: "nat \<Rightarrow> error"

definition MAX_ACKS :: nat where "MAX_ACKS = 16"
definition MAX_ERRORS :: nat where "MAX_ERRORS = 64"
definition ERR_STR_LEN :: nat where "ERR_STR_LEN = 1024"

section \<open>Operations\<close>

text \<open>\<open>malloc\<close> leaves the arrays uninitialised: their contents are arguments.\<close>

definition errbuf_new :: "(nat \<Rightarrow> nat) \<Rightarrow> (nat \<Rightarrow> error) \<Rightarrow> errbuf" where
  "errbuf_new acks errs = \<lparr>nb_errors = 0, nb_acks = 1, ack_stack = acks(0 := 0), err_stack = errs\<rparr>"

text \<open>The thread-specific storage behind \<open>pth_key_getdata\<close> and \<open>pth_key_setdata\<close>.\<close>

type_synonym err_keys = "nat \<Rightarrow> errbuf option"

definition get_errbuf :: "errbuf \<Rightarrow> nat \<Rightarrow> err_keys \<Rightarrow> errbuf \<times> err_keys" where
  "get_errbuf fresh tid keys =
     (case keys tid of Some eb \<Rightarrow> (eb, keys) | None \<Rightarrow> (fresh, keys(tid := Some fresh)))"

definition nb_expected_errors :: "errbuf \<Rightarrow> nat" where
  "nb_expected_errors eb = ack_stack eb (nb_acks eb - 1)"

definition is_error :: "errbuf \<Rightarrow> bool" where
  "is_error eb \<longleftrightarrow> nb_expected_errors eb < nb_errors eb"

definition error_code :: "errbuf \<Rightarrow> int outcome" where
  "error_code eb = (if nb_errors eb = 0 then Crash else Done (code (err_stack eb (nb_errors eb - 1))))"

definition error_str :: "errbuf \<Rightarrow> string outcome" where
  "error_str eb = (if nb_errors eb = 0 then Crash else Done (str (err_stack eb (nb_errors eb - 1))))"

text \<open>
  The text stored by \<open>error_push\<close>: the formatted message cut to the buffer, then the text
  of \<open>strerror\<close> in what is left of it.
\<close>

definition error_text :: "(int \<Rightarrow> string) \<Rightarrow> int \<Rightarrow> string \<Rightarrow> string" where
  "error_text strerror c msg =
     (let m = take (ERR_STR_LEN - 1) msg in
      if c = 0 then m
      else m @ take (ERR_STR_LEN - 1 - length m)
                 ((if 0 < length m then '' : '' else '''') @ strerror c))"

definition error_push :: "(int \<Rightarrow> string) \<Rightarrow> int \<Rightarrow> string \<Rightarrow> errbuf \<Rightarrow> errbuf outcome" where
  "error_push strerror c msg eb =
     (if MAX_ERRORS \<le> nb_errors eb then Crash
      else Done (eb\<lparr>err_stack := (err_stack eb)(nb_errors eb := \<lparr>code = c, str = error_text strerror c msg\<rparr>),
                    nb_errors := Suc (nb_errors eb)\<rparr>))"

definition error_save :: "errbuf \<Rightarrow> errbuf outcome" where
  "error_save eb =
     (if MAX_ACKS \<le> nb_acks eb then Crash
      else Done (eb\<lparr>ack_stack := (ack_stack eb)(nb_acks eb := nb_errors eb),
                    nb_acks := Suc (nb_acks eb)\<rparr>))"

definition error_clear :: "errbuf \<Rightarrow> errbuf outcome" where
  "error_clear eb =
     (if nb_errors eb < nb_expected_errors eb then Crash
      else Done (eb\<lparr>nb_errors := nb_expected_errors eb\<rparr>))"

definition error_restore :: "errbuf \<Rightarrow> errbuf outcome" where
  "error_restore eb = obind (error_clear eb)
     (\<lambda>eb. if nb_acks eb = 0 then Crash else Done (eb\<lparr>nb_acks := nb_acks eb - 1\<rparr>))"

lemmas error_op_defs = error_push_def error_save_def error_clear_def error_restore_def
  nb_expected_errors_def is_error_def

section \<open>Invariant\<close>

text \<open>At least one depth is acknowledged, depths never exceed the errors pending.\<close>

definition errbuf_ok :: "errbuf \<Rightarrow> bool" where
  "errbuf_ok eb \<longleftrightarrow> 0 < nb_acks eb \<and> nb_acks eb \<le> MAX_ACKS \<and> nb_errors eb \<le> MAX_ERRORS \<and>
     (\<forall>i < nb_acks eb. ack_stack eb i \<le> ack_stack eb (nb_acks eb - 1)) \<and>
     ack_stack eb (nb_acks eb - 1) \<le> nb_errors eb"

lemma errbuf_ok_new: "errbuf_ok (errbuf_new acks errs)"
  by (simp add: errbuf_ok_def errbuf_new_def MAX_ACKS_def)

lemma errbuf_ok_push:
  "errbuf_ok eb \<Longrightarrow> error_push se c m eb = Done eb' \<Longrightarrow> errbuf_ok eb'"
  by (auto simp: errbuf_ok_def error_push_def split: if_splits)

lemma errbuf_ok_clear: "errbuf_ok eb \<Longrightarrow> error_clear eb = Done eb' \<Longrightarrow> errbuf_ok eb'"
  by (auto simp: errbuf_ok_def error_op_defs split: if_splits)

lemma errbuf_ok_save: "errbuf_ok eb \<Longrightarrow> error_save eb = Done eb' \<Longrightarrow> errbuf_ok eb'"
  by (force simp: errbuf_ok_def error_save_def less_Suc_eq intro: order_trans split: if_splits)

lemma error_clear_defined: "errbuf_ok eb \<Longrightarrow> \<exists>eb'. error_clear eb = Done eb'"
  by (simp add: errbuf_ok_def error_op_defs)

section \<open>Programs over the error stack\<close>

text \<open>
  What a function may do with the stack of its thread: push an error, clear the pending
  ones, or run a clean-up between \<open>error_save\<close> and \<open>error_restore\<close>.
\<close>

datatype ecmd = CPush int string | CClear | CBracket "ecmd list"

fun erun :: "(int \<Rightarrow> string) \<Rightarrow> ecmd list \<Rightarrow> errbuf \<Rightarrow> errbuf outcome" where
  "erun se [] eb = Done eb"
| "erun se (CPush c m # cs) eb = obind (error_push se c m eb) (erun se cs)"
| "erun se (CClear # cs) eb = obind (error_clear eb) (erun se cs)"
| "erun se (CBracket bs # cs) eb =
     obind (error_save eb) (\<lambda>eb1. obind (erun se bs eb1) (\<lambda>eb2.
       obind (error_restore eb2) (erun se cs)))"

text \<open>What a run leaves alone: the acknowledged depths and the errors below them.\<close>

definition eframe :: "errbuf \<Rightarrow> errbuf \<Rightarrow> bool" where
  "eframe eb eb' \<longleftrightarrow> errbuf_ok eb' \<and> nb_acks eb' = nb_acks eb \<and>
     (\<forall>i < nb_acks eb. ack_stack eb' i = ack_stack eb i) \<and>
     (\<forall>i < nb_expected_errors eb. err_stack eb' i = err_stack eb i)"

lemma eframe_refl: "errbuf_ok eb \<Longrightarrow> eframe eb eb"
  by (simp add: eframe_def)

lemma eframe_expected: "errbuf_ok eb \<Longrightarrow> eframe eb eb' \<Longrightarrow> nb_expected_errors eb' = nb_expected_errors eb"
  by (simp add: eframe_def nb_expected_errors_def errbuf_ok_def)

lemma eframe_trans: "errbuf_ok a \<Longrightarrow> eframe a b \<Longrightarrow> eframe b c \<Longrightarrow> eframe a c"
  using eframe_expected [of a b] by (simp add: eframe_def)

lemma eframe_push: "errbuf_ok eb \<Longrightarrow> error_push se c m eb = Done eb' \<Longrightarrow> eframe eb eb'"
  using errbuf_ok_push [of eb se c m eb']
  by (auto simp: eframe_def error_op_defs errbuf_ok_def split: if_splits)

lemma eframe_clear: "errbuf_ok eb \<Longrightarrow> error_clear eb = Done eb' \<Longrightarrow> eframe eb eb'"
  using errbuf_ok_clear [of eb eb']
  by (auto simp: eframe_def error_op_defs split: if_splits)

text \<open>The bracket, given that its body respects the frame.\<close>

lemma bracket_exact:
  assumes ok: "errbuf_ok eb" and s: "error_save eb = Done eb1" and f: "eframe eb1 eb2"
  obtains eb3 where "error_restore eb2 = Done eb3" "nb_errors eb3 = nb_errors eb"
    "nb_acks eb3 = nb_acks eb" "\<forall>i < nb_acks eb. ack_stack eb3 i = ack_stack eb i"
    "\<forall>i < nb_errors eb. err_stack eb3 i = err_stack eb i"
proof -
  from s have eb1: "nb_acks eb1 = Suc (nb_acks eb)" "nb_errors eb1 = nb_errors eb"
    "ack_stack eb1 = (ack_stack eb)(nb_acks eb := nb_errors eb)" "err_stack eb1 = err_stack eb"
    by (auto simp: error_save_def split: if_splits)
  from errbuf_ok_save [OF ok s] f have exp2: "nb_expected_errors eb2 = nb_errors eb"
    by (simp add: eframe_expected) (simp add: eb1 nb_expected_errors_def)
  from f have ok2: "errbuf_ok eb2" by (simp add: eframe_def)
  then have "nb_errors eb \<le> nb_errors eb2"
    using exp2 by (simp add: errbuf_ok_def nb_expected_errors_def)
  moreover have "nb_acks eb2 = Suc (nb_acks eb)" "\<forall>i < nb_acks eb. ack_stack eb2 i = ack_stack eb i"
    using f eb1 by (simp_all add: eframe_def)
  moreover have "\<forall>i < nb_errors eb. err_stack eb2 i = err_stack eb i"
    using f eb1 by (simp add: eframe_def nb_expected_errors_def)
  ultimately show thesis
    using exp2
    by (intro that [of "eb2\<lparr>nb_errors := nb_errors eb, nb_acks := nb_acks eb\<rparr>"])
      (simp_all add: error_restore_def error_clear_def)
qed

lemma bracket_frame:
  assumes "errbuf_ok eb" and "error_save eb = Done eb1" and "eframe eb1 eb2"
    and "error_restore eb2 = Done eb3"
  shows "eframe eb eb3" and "nb_errors eb3 = nb_errors eb"
proof -
  from bracket_exact [OF assms(1-3)] assms(4)
  have e: "nb_errors eb3 = nb_errors eb" "nb_acks eb3 = nb_acks eb"
    "\<forall>i < nb_acks eb. ack_stack eb3 i = ack_stack eb i"
    "\<forall>i < nb_errors eb. err_stack eb3 i = err_stack eb i"
    by (metis outcome.inject(1))+
  then show "nb_errors eb3 = nb_errors eb" by simp
  from e assms(1) show "eframe eb eb3"
    by (auto simp: eframe_def errbuf_ok_def nb_expected_errors_def)
qed

lemma erun_frame: "errbuf_ok eb \<Longrightarrow> erun se cs eb = Done eb' \<Longrightarrow> eframe eb eb'"
proof (induction se cs eb arbitrary: eb' rule: erun.induct)
  case (1 se eb)
  then show ?case by (simp add: eframe_refl)
next
  case (2 se c m cs eb)
  then show ?case by (auto simp: obind_eq_Done dest: eframe_push errbuf_ok_push intro: eframe_trans)
next
  case (3 se cs eb)
  then show ?case by (auto simp: obind_eq_Done dest: eframe_clear errbuf_ok_clear intro: eframe_trans)
next
  case (4 se bs cs eb)
  from "4.prems"(2) obtain eb1 eb2 eb3 where
    r: "error_save eb = Done eb1" "erun se bs eb1 = Done eb2" "error_restore eb2 = Done eb3"
      "erun se cs eb3 = Done eb'"
    by (auto simp: obind_eq_Done)
  have f: "eframe eb1 eb2"
    using "4.IH"(1) [OF errbuf_ok_save [OF "4.prems"(1) r(1)] r(2)] .
  have g: "eframe eb eb3" by (rule bracket_frame [OF "4.prems"(1) r(1) f r(3)])
  then have "errbuf_ok eb3" by (simp add: eframe_def)
  then have "eframe eb3 eb'" using "4.IH"(2) r(4) by blast
  with g "4.prems"(1) show ?case by (blast intro: eframe_trans)
qed

section \<open>Properties\<close>

text \<open>C21. The contract of \<open>error_save\<close> and \<open>error_restore\<close> stated in \<open>error.h\<close>: whatever a
  clean-up does with the error stack between the two (pushing, clearing, nested
  brackets), the restore is defined and puts back the errors that were pending at the
  save, with the same depth, the same contents and the same answer of \<open>is_error\<close>.\<close>

theorem error_bracket_restores:
  assumes "errbuf_ok eb" and "error_save eb = Done eb1" and "erun se cs eb1 = Done eb2"
  shows "\<exists>eb3. error_restore eb2 = Done eb3 \<and> nb_errors eb3 = nb_errors eb \<and>
    is_error eb3 = is_error eb \<and> (\<forall>i < nb_errors eb. err_stack eb3 i = err_stack eb i)"
proof -
  have f: "eframe eb1 eb2"
    by (rule erun_frame [OF errbuf_ok_save [OF assms(1,2)] assms(3)])
  from bracket_exact [OF assms(1,2) f] obtain eb3 where
    "error_restore eb2 = Done eb3" "nb_errors eb3 = nb_errors eb" "nb_acks eb3 = nb_acks eb"
    "\<forall>i < nb_acks eb. ack_stack eb3 i = ack_stack eb i"
    "\<forall>i < nb_errors eb. err_stack eb3 i = err_stack eb i" by metis
  with assms(1) show ?thesis
    by (auto simp: is_error_def nb_expected_errors_def errbuf_ok_def)
qed

definition eb_sample :: errbuf where
  "eb_sample = \<lparr>nb_errors = 1, nb_acks = 1, ack_stack = (\<lambda>_. 0),
     err_stack = (\<lambda>_. \<lparr>code = 0, str = ''x''\<rparr>)\<rparr>"

lemma eb_sample_facts:
  "errbuf_ok eb_sample"
  "error_save eb_sample = Done (eb_sample\<lparr>ack_stack := (\<lambda>_. 0)(1 := 1), nb_acks := 2\<rparr>)"
  "erun (\<lambda>_. []) [CClear] (eb_sample\<lparr>ack_stack := (\<lambda>_. 0)(1 := 1), nb_acks := 2\<rparr>)
     = Done (eb_sample\<lparr>ack_stack := (\<lambda>_. 0)(1 := 1), nb_acks := 2\<rparr>)"
  by (simp_all add: eb_sample_def errbuf_ok_def error_op_defs MAX_ACKS_def MAX_ERRORS_def)

theorem error_bracket_restores_witness:
  "\<exists>eb3. error_restore (eb_sample\<lparr>ack_stack := (\<lambda>_. 0)(1 := 1), nb_acks := 2\<rparr>) = Done eb3 \<and>
     nb_errors eb3 = nb_errors eb_sample \<and> is_error eb3 = is_error eb_sample \<and>
     (\<forall>i < nb_errors eb_sample. err_stack eb3 i = err_stack eb_sample i)"
  by (rule error_bracket_restores [OF eb_sample_facts])

end
