(* ===== verification/Varbuf.thy ===== *)
theory Varbuf
  imports Prelude
begin

text \<open>
  The growing buffer of \<open>commons/varbuf.c\<close> and \<open>commons/varbuf.h\<close>. The allocated memory is
  the list \<open>buf\<close>, of length \<open>actual\<close>; a write outside it is a \<open>Crash\<close>. What the rest of the
  program sees of a buffer is its contents \<open>take used buf\<close>; the locale \<open>byte_buffer\<close> is the
  contract its clients rely on, and the exact condition under which an operation writes
  past the end of the allocation is a theorem.
\<close>

section \<open>Data\<close>

record varbuf =
  used :: nat
  actual :: nat
  relocatable :: bool
  buf :: "char list"

abbreviation NUL :: char where "NUL \<equiv> CHR 0x00"

text \<open>
  The allocator: whether \<open>realloc\<close> moves the block, and the bytes found in fresh memory.
  Allocation failure is not represented.
\<close>

record allocator =
  moves :: bool
  fresh :: "nat \<Rightarrow> char"

section \<open>Operations\<close>

definition varbuf_ctor :: "allocator \<Rightarrow> nat \<Rightarrow> bool \<Rightarrow> varbuf" where
  "varbuf_ctor al init_size reloc =
     \<lparr>used = 0, actual = init_size + 1, relocatable = reloc, buf = map (fresh al) [0..<init_size + 1]\<rparr>"

definition varbuf_make_room :: "allocator \<Rightarrow> varbuf \<Rightarrow> nat \<Rightarrow> varbuf outcome" where
  "varbuf_make_room al vb new_size =
     (let new_size = new_size + 1 in
      if new_size \<le> actual vb then Done vb
      else if moves al \<and> \<not> relocatable vb then Raised (Err 12 ''Cannot extend not relocatable varbuf'')
      else Done (vb\<lparr>buf := buf vb @ map (fresh al) [actual vb..<new_size], actual := new_size\<rparr>))"

definition nulterm :: "varbuf \<Rightarrow> varbuf outcome" where
  "nulterm vb = (if used vb < length (buf vb) then Done (vb\<lparr>buf := (buf vb)[used vb := NUL]\<rparr>) else Crash)"

definition varbuf_put :: "allocator \<Rightarrow> varbuf \<Rightarrow> nat \<Rightarrow> varbuf outcome" where
  "varbuf_put al vb sz =
     obind (if actual vb < used vb + sz
            then (let inc = used vb + sz - actual vb
                  in varbuf_make_room al vb (actual vb + inc + (inc + 1) div 2))
            else Done vb)
       (\<lambda>vb. nulterm (vb\<lparr>used := used vb + sz\<rparr>))"

definition blit :: "nat \<Rightarrow> char list \<Rightarrow> char list \<Rightarrow> char list" where
  "blit pos bytes mem = take pos mem @ bytes @ drop (pos + length bytes) mem"

definition varbuf_append :: "allocator \<Rightarrow> varbuf \<Rightarrow> string \<Rightarrow> varbuf outcome" where
  "varbuf_append al vb bytes =
     (let pos = used vb in
      obind (varbuf_put al vb (length bytes)) (\<lambda>vb. Done (vb\<lparr>buf := blit pos bytes (buf vb)\<rparr>)))"

fun varbuf_append_strs :: "allocator \<Rightarrow> varbuf \<Rightarrow> string list \<Rightarrow> varbuf outcome" where
  "varbuf_append_strs al vb [] = Done vb"
| "varbuf_append_strs al vb (s # ss) =
     obind (varbuf_append al vb s) (\<lambda>vb. varbuf_append_strs al vb ss)"

definition varbuf_chop :: "varbuf \<Rightarrow> nat \<Rightarrow> varbuf outcome" where
  "varbuf_chop vb sz = (if sz < used vb then nulterm (vb\<lparr>used := used vb - sz\<rparr>) else Crash)"

text \<open>The new end is given by its offset in the buffer.\<close>

definition varbuf_cut :: "varbuf \<Rightarrow> nat \<Rightarrow> varbuf outcome" where
  "varbuf_cut vb new_end = (if new_end \<le> used vb then nulterm (vb\<lparr>used := new_end\<rparr>) else Crash)"

definition varbuf_clean :: "varbuf \<Rightarrow> varbuf outcome" where
  "varbuf_clean vb = nulterm (vb\<lparr>used := 0\<rparr>)"

text \<open>What the following calls of \<open>pth_read\<close> on one byte answer; past the script, end of file.\<close>

datatype rd = Got char | RdErr int

type_synonym input = "rd list"

fun read_line_loop ::
  "allocator \<Rightarrow> varbuf \<Rightarrow> bool \<Rightarrow> nat \<Rightarrow> nat \<Rightarrow> input \<Rightarrow> (varbuf \<times> err option \<times> input) outcome" where
  "read_line_loop al vb was_CR prev_used maxlen inp =
     (if maxlen \<le> used vb - prev_used then Done (vb, None, inp)
      else case inp of
        [] \<Rightarrow> Done (vb, Some (Err ENOENT ''End of file''), [])
      | RdErr e # inp \<Rightarrow>
          if e \<noteq> EINTR \<and> e \<noteq> EAGAIN then Done (vb, Some (Err e ''Cannot pth_read''), inp)
          else read_line_loop al vb was_CR prev_used maxlen inp
      | Got byte # inp \<Rightarrow>
          if byte = CR then read_line_loop al vb True prev_used maxlen inp
          else obind (if byte \<noteq> NL \<and> was_CR then varbuf_append al vb [CR] else Done vb) (\<lambda>vb.
               obind (varbuf_append al vb [byte]) (\<lambda>vb.
                 if byte = NL then Done (vb, None, inp)
                 else read_line_loop al vb False prev_used maxlen inp)))"

declare read_line_loop.simps [simp del]

definition varbuf_read_line ::
  "allocator \<Rightarrow> varbuf \<Rightarrow> nat \<Rightarrow> input \<Rightarrow> (varbuf \<times> err option \<times> input) outcome" where
  "varbuf_read_line al vb maxlen inp = read_line_loop al vb False (used vb) maxlen inp"

section \<open>Contents and invariant\<close>

definition content :: "varbuf \<Rightarrow> string" where
  "content vb = take (used vb) (buf vb)"

definition varbuf_ok :: "varbuf \<Rightarrow> bool" where
  "varbuf_ok vb \<longleftrightarrow> used vb < actual vb \<and> length (buf vb) = actual vb"

text \<open>The number of bytes for which \<open>varbuf_put\<close> neither grows the block nor leaves room.\<close>

definition exact_fill :: "varbuf \<Rightarrow> nat \<Rightarrow> bool" where
  "exact_fill vb sz \<longleftrightarrow> used vb + sz = actual vb"

lemma varbuf_ok_ctor: "varbuf_ok (varbuf_ctor al n r)"
  by (simp add: varbuf_ok_def varbuf_ctor_def)

lemma content_ctor [simp]: "content (varbuf_ctor al n r) = []"
  by (simp add: content_def varbuf_ctor_def)

lemma nulterm_ok:
  "used vb < actual vb \<Longrightarrow> length (buf vb) = actual vb \<Longrightarrow>
     \<exists>vb'. nulterm vb = Done vb' \<and> varbuf_ok vb' \<and> used vb' = used vb \<and> actual vb' = actual vb \<and>
       relocatable vb' = relocatable vb \<and> content vb' = content vb \<and> buf vb' ! used vb' = NUL"
  by (auto simp: nulterm_def varbuf_ok_def content_def)

lemma make_room_grows:
  assumes "varbuf_ok vb" "\<not> (moves al \<and> \<not> relocatable vb)" "actual vb \<le> n"
  shows "varbuf_make_room al vb n =
    Done (vb\<lparr>buf := buf vb @ map (fresh al) [actual vb..<n + 1], actual := n + 1\<rparr>)"
  using assms by (simp add: varbuf_make_room_def Let_def)

lemma put_ok:
  assumes ok: "varbuf_ok vb" and al: "\<not> (moves al \<and> \<not> relocatable vb)"
    and ne: "\<not> exact_fill vb sz"
  shows "\<exists>vb'. varbuf_put al vb sz = Done vb' \<and> varbuf_ok vb' \<and> used vb' = used vb + sz \<and>
    relocatable vb' = relocatable vb \<and> take (used vb) (buf vb') = content vb \<and> buf vb' ! used vb' = NUL"
proof (cases "actual vb < used vb + sz")
  case True
  define n where "n = (let inc = used vb + sz - actual vb in actual vb + inc + (inc + 1) div 2)"
  define vb1 where "vb1 = vb\<lparr>buf := buf vb @ map (fresh al) [actual vb..<n + 1], actual := n + 1,
    used := used vb + sz\<rparr>"
  have n: "used vb + sz \<le> n" "actual vb \<le> n" using True by (simp_all add: n_def Let_def)
  have put: "varbuf_put al vb sz = nulterm vb1"
    using True make_room_grows [OF ok al n(2)]
    by (simp add: varbuf_put_def n_def vb1_def Let_def)
  have "used vb1 < actual vb1" "length (buf vb1) = actual vb1"
    using ok n by (simp_all add: vb1_def varbuf_ok_def)
  from nulterm_ok [OF this] obtain vb' where v: "nulterm vb1 = Done vb'" "varbuf_ok vb'"
    "used vb' = used vb1" "relocatable vb' = relocatable vb1" "content vb' = content vb1"
    "buf vb' ! used vb' = NUL" by blast
  have "take (used vb) (buf vb') = take (used vb) (content vb')"
    using v(3) by (simp add: content_def vb1_def min_def)
  also have "\<dots> = content vb"
    using ok v(5) by (simp add: content_def vb1_def varbuf_ok_def min_def)
  finally show ?thesis using put v by (simp add: vb1_def)
next
  case False
  define vb1 where "vb1 = vb\<lparr>used := used vb + sz\<rparr>"
  have "used vb1 < actual vb1" "length (buf vb1) = actual vb1"
    using ok ne False by (simp_all add: vb1_def varbuf_ok_def exact_fill_def)
  from nulterm_ok [OF this] obtain vb' where v: "nulterm vb1 = Done vb'" "varbuf_ok vb'"
    "used vb' = used vb1" "relocatable vb' = relocatable vb1" "content vb' = content vb1"
    "buf vb' ! used vb' = NUL" by blast
  have "take (used vb) (buf vb') = take (used vb) (content vb')"
    using v(3) by (simp add: content_def vb1_def min_def)
  also have "\<dots> = content vb"
    using ok v(5) by (simp add: content_def vb1_def varbuf_ok_def min_def)
  finally show ?thesis using False v by (simp add: varbuf_put_def vb1_def)
qed

lemma put_exact_fill: "varbuf_ok vb \<Longrightarrow> exact_fill vb sz \<Longrightarrow> varbuf_put al vb sz = Crash"
  by (simp add: varbuf_put_def exact_fill_def nulterm_def varbuf_ok_def)

lemma append_ok:
  assumes ok: "varbuf_ok vb" and al: "\<not> (moves al \<and> \<not> relocatable vb)"
    and ne: "\<not> exact_fill vb (length bytes)"
  shows "\<exists>vb'. varbuf_append al vb bytes = Done vb' \<and> varbuf_ok vb' \<and>
    relocatable vb' = relocatable vb \<and> content vb' = content vb @ bytes \<and> buf vb' ! used vb' = NUL"
proof -
  from put_ok [OF ok al ne] obtain vb1 where p: "varbuf_put al vb (length bytes) = Done vb1"
    "varbuf_ok vb1" "used vb1 = used vb + length bytes" "relocatable vb1 = relocatable vb"
    "take (used vb) (buf vb1) = content vb" "buf vb1 ! used vb1 = NUL" by blast
  define vb' where "vb' = vb1\<lparr>buf := blit (used vb) bytes (buf vb1)\<rparr>"
  have len: "used vb + length bytes < length (buf vb1)" using p(2,3) by (simp add: varbuf_ok_def)
  then have "content vb' = content vb @ bytes"
    using p(3,5) ok by (simp add: vb'_def content_def blit_def varbuf_ok_def)
  moreover have "varbuf_ok vb'" using p(2) len by (simp add: vb'_def varbuf_ok_def blit_def)
  moreover have "buf vb' ! used vb' = NUL"
    using p(3,6) len by (simp add: vb'_def blit_def nth_append)
  ultimately show ?thesis using p(1,4) by (simp add: varbuf_append_def vb'_def)
qed

lemma append_exact_fill:
  "varbuf_ok vb \<Longrightarrow> exact_fill vb (length bytes) \<Longrightarrow> varbuf_append al vb bytes = Crash"
  by (simp add: varbuf_append_def put_exact_fill Let_def)

lemma append_Done:
  assumes "varbuf_ok vb" "relocatable vb" "varbuf_append al vb bytes = Done vb'"
  shows "varbuf_ok vb'" "relocatable vb'" "content vb' = content vb @ bytes" "buf vb' ! used vb' = NUL"
proof -
  have ne: "\<not> exact_fill vb (length bytes)"
    using assms append_exact_fill [of vb bytes al] by auto
  from append_ok [OF assms(1) _ ne, of al] assms(2,3)
  show "varbuf_ok vb'" "relocatable vb'" "content vb' = content vb @ bytes" "buf vb' ! used vb' = NUL"
    by auto
qed

section \<open>The contract of the buffer\<close>

text \<open>
  What clients rely on: below a bound on its size, an append extends the contents and
  keeps the buffer usable. Everything they derive from it is proved here once.
\<close>

locale byte_buffer =
  fixes invar :: "'b \<Rightarrow> bool"
    and contents :: "'b \<Rightarrow> string"
    and overflows :: "'b \<Rightarrow> nat \<Rightarrow> bool"
    and append :: "'b \<Rightarrow> string \<Rightarrow> 'b outcome"
  assumes append_defined: "invar b \<Longrightarrow> \<not> overflows b (length s) \<Longrightarrow> \<exists>b'. append b s = Done b'"
    and append_invar: "invar b \<Longrightarrow> append b s = Done b' \<Longrightarrow> invar b'"
    and append_contents: "invar b \<Longrightarrow> append b s = Done b' \<Longrightarrow> contents b' = contents b @ s"
    and append_overflow: "invar b \<Longrightarrow> overflows b (length s) \<Longrightarrow> append b s = Crash"
begin

fun append_all :: "'b \<Rightarrow> string list \<Rightarrow> 'b outcome" where
  "append_all b [] = Done b"
| "append_all b (s # ss) = obind (append b s) (\<lambda>b. append_all b ss)"

lemma append_all_contents:
  "invar b \<Longrightarrow> append_all b ss = Done b' \<Longrightarrow> invar b' \<and> contents b' = contents b @ concat ss"
proof (induction ss arbitrary: b)
  case (Cons s ss)
  then obtain b1 where "append b s = Done b1" "append_all b1 ss = Done b'"
    by (auto simp: obind_eq_Done)
  with Cons show ?case using append_invar append_contents by fastforce
qed simp

lemma append_crash_iff: "invar b \<Longrightarrow> (append b s = Crash) = overflows b (length s)"
  using append_defined [of b s] append_overflow [of b s] by (cases "overflows b (length s)") auto

end

definition varbuf_usable :: "varbuf \<Rightarrow> bool" where
  "varbuf_usable vb \<longleftrightarrow> varbuf_ok vb \<and> relocatable vb"

interpretation vbuf: byte_buffer varbuf_usable content exact_fill "varbuf_append al" for al
proof unfold_locales
  fix b :: varbuf and s :: string
  assume "varbuf_usable b" "\<not> exact_fill b (length s)"
  then show "\<exists>b'. varbuf_append al b s = Done b'"
    using append_ok [of b al s] by (auto simp: varbuf_usable_def)
next
  fix b b' :: varbuf and s :: string
  assume "varbuf_usable b" "varbuf_append al b s = Done b'"
  then show "varbuf_usable b'" "content b' = content b @ s"
    using append_Done [of b al s b'] by (simp_all add: varbuf_usable_def)
next
  fix b :: varbuf and s :: string
  assume "varbuf_usable b" "exact_fill b (length s)"
  then show "varbuf_append al b s = Crash"
    using append_exact_fill [of b s al] by (simp add: varbuf_usable_def)
qed

lemma varbuf_append_strs_eq: "varbuf_append_strs al vb ss = vbuf.append_all al vb ss"
  by (induction ss arbitrary: vb) (auto intro!: arg_cong [where f = "obind _"])

section \<open>Lines at the level of contents\<close>

text \<open>
  The loop of \<open>varbuf_read_line\<close> on the contents of the buffer alone; the readers of lines
  in the other components are stated over it.
\<close>

fun line_loop :: "string \<Rightarrow> bool \<Rightarrow> nat \<Rightarrow> nat \<Rightarrow> input \<Rightarrow> string \<times> err option \<times> input" where
  "line_loop s was_CR prev_used maxlen inp =
     (if maxlen \<le> length s - prev_used then (s, None, inp)
      else case inp of
        [] \<Rightarrow> (s, Some (Err ENOENT ''End of file''), [])
      | RdErr e # inp \<Rightarrow>
          if e \<noteq> EINTR \<and> e \<noteq> EAGAIN then (s, Some (Err e ''Cannot pth_read''), inp)
          else line_loop s was_CR prev_used maxlen inp
      | Got byte # inp \<Rightarrow>
          if byte = CR then line_loop s True prev_used maxlen inp
          else let s = (if byte \<noteq> NL \<and> was_CR then s @ [CR] else s) @ [byte] in
            if byte = NL then (s, None, inp) else line_loop s False prev_used maxlen inp)"

declare line_loop.simps [simp del]

definition read_line :: "string \<Rightarrow> nat \<Rightarrow> input \<Rightarrow> string \<times> err option \<times> input" where
  "read_line s maxlen inp = line_loop s False (length s) maxlen inp"

lemma used_content: "varbuf_ok vb \<Longrightarrow> length (content vb) = used vb"
  by (simp add: content_def varbuf_ok_def)

lemma read_line_loop_refines:
  assumes "varbuf_usable vb" "read_line_loop al vb cr p m inp = Done (vb', e, inp')"
  shows "varbuf_usable vb' \<and> line_loop (content vb) cr p m inp = (content vb', e, inp')"
  using assms
proof (induction inp arbitrary: vb cr)
  case Nil
  then show ?case
    by (auto simp: read_line_loop.simps [of al vb] line_loop.simps [of "content vb"]
        used_content varbuf_usable_def split: if_splits)
next
  case (Cons x inp)
  have u: "length (content vb) = used vb" using Cons.prems(1) by (simp add: used_content varbuf_usable_def)
  show ?case
  proof (cases x)
    case (RdErr n)
    with Cons u show ?thesis
      by (auto simp: read_line_loop.simps [of al vb cr p m "RdErr n # inp"] line_loop.simps [of "content vb" cr p m "RdErr n # inp"] split: if_splits)
  next
    case (Got byte)
    show ?thesis
    proof (cases "m \<le> used vb - p \<or> byte = CR")
      case True
      with Cons u Got show ?thesis
        by (auto simp: read_line_loop.simps [of al vb cr p m "Got byte # inp"] line_loop.simps [of "content vb" cr p m "Got byte # inp"] split: if_splits)
    next
      case False
      with Cons.prems(2) Got obtain vb1 vb2 where
        a: "(if byte \<noteq> NL \<and> cr then varbuf_append al vb [CR] else Done vb) = Done vb1"
          "varbuf_append al vb1 [byte] = Done vb2"
          "(if byte = NL then Done (vb2, None, inp) else read_line_loop al vb2 False p m inp)
             = Done (vb', e, inp')"
        by (auto simp: read_line_loop.simps [of al vb cr p m "Got byte # inp"] obind_eq_Done)
      have u1: "varbuf_usable vb1" "content vb1 = (if byte \<noteq> NL \<and> cr then content vb @ [CR] else content vb)"
        using a(1) Cons.prems(1) by (auto dest: vbuf.append_invar vbuf.append_contents split: if_splits)
      have u2: "varbuf_usable vb2" "content vb2 = content vb1 @ [byte]"
        using a(2) u1 by (auto dest: vbuf.append_invar vbuf.append_contents)
      from False Got u have "line_loop (content vb) cr p m (x # inp) =
        (if byte = NL then (content vb2, None, inp) else line_loop (content vb2) False p m inp)"
        by (simp add: line_loop.simps [of "content vb" cr p m "Got byte # inp"] u1 u2 Let_def)
      with a(3) Cons.IH [OF u2(1), of False] u2 show ?thesis by (auto split: if_splits)
    qed
  qed
qed

text \<open>A line without carriage return and no longer than the limit is read whole.\<close>

lemma line_loop_plain:
  assumes "\<forall>c \<in> set l. c \<noteq> NL \<and> c \<noteq> CR" "length s - p + length l < m" "p \<le> length s"
  shows "line_loop s False p m (map Got (l @ [NL]) @ rest) = (s @ l @ [NL], None, rest)"
  using assms
proof (induction l arbitrary: s)
  case Nil
  then show ?case by (simp add: line_loop.simps [of s])
next
  case (Cons c l)
  from Cons.prems have "line_loop (s @ [c]) False p m (map Got (l @ [NL]) @ rest) = ((s @ [c]) @ l @ [NL], None, rest)"
    by (intro Cons.IH) auto
  with Cons.prems show ?case by (simp add: line_loop.simps [of s] Let_def)
qed

section \<open>Properties\<close>

text \<open>C22. The only way \<open>varbuf_append\<close> leaves its allocation: on a well-formed relocatable
  buffer the terminating NUL is written past the block exactly when the new contents fill
  the block to its last byte; in every other case the call succeeds, the contents are
  extended by the bytes given, the buffer stays well-formed (\<open>used < actual\<close>) and the byte
  after the contents is NUL.\<close>

theorem varbuf_append_spec:
  assumes "varbuf_usable vb"
  shows "(varbuf_append al vb bytes = Crash \<longleftrightarrow> used vb + length bytes = actual vb) \<and>
    (used vb + length bytes \<noteq> actual vb \<longrightarrow>
      (\<exists>vb'. varbuf_append al vb bytes = Done vb' \<and> varbuf_usable vb' \<and>
         content vb' = content vb @ bytes \<and> buf vb' ! used vb' = NUL))"
  using vbuf.append_crash_iff [OF assms, of al bytes] append_ok [of vb al bytes] assms
  by (auto simp: exact_fill_def varbuf_usable_def)

definition al0 :: allocator where
  "al0 = \<lparr>moves = False, fresh = (\<lambda>_. CHR ''?'')\<rparr>"

theorem varbuf_append_spec_witness:
  "varbuf_append al0 (varbuf_ctor al0 2 True) ''abc'' = Crash \<and>
   (\<exists>vb'. varbuf_append al0 (varbuf_ctor al0 2 True) ''ab'' = Done vb' \<and> content vb' = ''ab'')"
proof -
  have u: "varbuf_usable (varbuf_ctor al0 2 True)"
    by (simp add: varbuf_usable_def varbuf_ok_ctor) (simp add: varbuf_ctor_def)
  have n: "used (varbuf_ctor al0 2 True) = 0" "actual (varbuf_ctor al0 2 True) = 3"
    "content (varbuf_ctor al0 2 True) = []"
    by (simp_all add: varbuf_ctor_def content_def)
  from varbuf_append_spec [OF u, of al0 "''abc''"] varbuf_append_spec [OF u, of al0 "''ab''"]
  show ?thesis unfolding n by auto
qed

text \<open>\<open>varbuf_read_line\<close> refines line reading on contents: whenever it returns, the
  buffer is still well-formed and its contents, the error raised and the input left are
  those of \<open>read_line\<close>; and a line of the input without carriage return, shorter than the
  limit, is appended whole with its newline and nothing more is consumed.\<close>

theorem varbuf_read_line_refines:
  assumes "varbuf_usable vb"
  shows "(varbuf_read_line al vb maxlen inp = Done (vb', e, inp') \<longrightarrow>
      varbuf_usable vb' \<and> read_line (content vb) maxlen inp = (content vb', e, inp')) \<and>
    ((\<forall>c \<in> set l. c \<noteq> NL \<and> c \<noteq> CR) \<and> length l < maxlen \<longrightarrow>
      read_line (content vb) maxlen (map Got (l @ [NL]) @ rest) = (content vb @ l @ [NL], None, rest))"
  using read_line_loop_refines [OF assms, of al False "used vb" maxlen inp vb' e inp']
    line_loop_plain [of l "content vb" "length (content vb)" maxlen rest] assms
  by (auto simp: varbuf_read_line_def read_line_def used_content varbuf_usable_def)

theorem varbuf_read_line_refines_witness:
  "read_line [] 10 [Got CHR ''a'', Got NL, Got CHR ''b''] = (''a'' @ [NL], None, [Got CHR ''b''])"
proof -
  have u: "varbuf_usable (varbuf_ctor al0 2 True)"
    by (simp add: varbuf_usable_def varbuf_ok_ctor) (simp add: varbuf_ctor_def)
  from varbuf_read_line_refines [OF u, of al0 10 "[]" undefined None "[]" "''a''" "[Got CHR ''b'']"]
  show ?thesis by simp
qed

end
