(* ===== verification/Misc.thy ===== *)
theory Misc
  imports Varbuf "HOL-Library.Sublist"
begin

text \<open>
  The input/output loops and the path helpers of \<open>commons/misc.c\<close>. The kernel's answers to
  \<open>pth_write\<close>, \<open>pth_read\<close>, \<open>pth_pread\<close> and \<open>pth_pwrite\<close> are a script: short transfers,
  interruptions and failures in any order, after which every request is served in full.
  The loops are proved to hide the script from their callers, which is what allows the
  other components to treat a transfer as atomic; \<open>WriteTo\<close> does not.
\<close>

section \<open>Files and the kernel\<close>

record fdesc =
  bytes :: string
  pos :: nat
  o_append :: bool

datatype kres = Moved nat | KErr int

definition pwrite_bytes :: "string \<Rightarrow> nat \<Rightarrow> string \<Rightarrow> string" where
  "pwrite_bytes f off data =
     (if off \<le> length f then take off f else f @ replicate (off - length f) NUL)
       @ data @ drop (off + length data) f"

text \<open>One \<open>write (2)\<close> of \<open>data\<close>: at the end for a descriptor in append mode, else at its offset.\<close>

definition sys_write :: "fdesc \<Rightarrow> string \<Rightarrow> fdesc" where
  "sys_write f data =
     (let off = (if o_append f then length (bytes f) else pos f)
      in f\<lparr>bytes := pwrite_bytes (bytes f) off data, pos := off + length data\<rparr>)"

section \<open>Operations\<close>

definition retryable :: "int \<Rightarrow> bool" where
  "retryable e \<longleftrightarrow> e = EINTR \<or> e = EAGAIN"

fun Write_loop :: "kres list \<Rightarrow> fdesc \<Rightarrow> string \<Rightarrow> nat \<Rightarrow> fdesc \<times> err option" where
  "Write_loop [] f b done =
     (if done < length b then (sys_write f (drop done b), None) else (f, None))"
| "Write_loop (KErr e # ks) f b done =
     (if done < length b then
        (if \<not> retryable e then (f, Some (Err e ''Cannot write'')) else Write_loop ks f b done)
      else (f, None))"
| "Write_loop (Moved n # ks) f b done =
     (if done < length b then
        (let r = min n (length b - done)
         in Write_loop ks (sys_write f (take r (drop done b))) b (done + r))
      else (f, None))"

definition Write :: "kres list \<Rightarrow> fdesc \<Rightarrow> string \<Rightarrow> fdesc \<times> err option" where
  "Write ks f b = Write_loop ks f b 0"

text \<open>One script per string; nothing more is written after an error.\<close>

fun Write_strs :: "kres list list \<Rightarrow> fdesc \<Rightarrow> string list \<Rightarrow> fdesc \<times> err option" where
  "Write_strs kss f [] = (f, None)"
| "Write_strs kss f (s # ss) =
     (case Write (case kss of [] \<Rightarrow> [] | ks # _ \<Rightarrow> ks) f s of
        (f, Some e) \<Rightarrow> (f, Some e)
      | (f, None) \<Rightarrow> Write_strs (tl kss) f ss)"

text \<open>A read of a file answers 0 bytes only at its end, so a \<open>Moved 0\<close> counts as one byte.\<close>

fun ReadFrom_loop :: "kres list \<Rightarrow> string \<Rightarrow> nat \<Rightarrow> nat \<Rightarrow> string \<Rightarrow> string res" where
  "ReadFrom_loop [] f offset len acc =
     (if length acc < len then
        (let got = take (len - length acc) (drop (offset + length acc) f) in
         if length acc + length got < len then Fail 0 ''EOF'' else Inr (acc @ got))
      else Inr acc)"
| "ReadFrom_loop (KErr e # ks) f offset len acc =
     (if length acc < len then
        (if \<not> retryable e then Fail e ''Cannot pth_pread'' else ReadFrom_loop ks f offset len acc)
      else Inr acc)"
| "ReadFrom_loop (Moved n # ks) f offset len acc =
     (if length acc < len then
        (let got = take (min (max 1 n) (len - length acc)) (drop (offset + length acc) f) in
         if got = [] then Fail 0 ''EOF'' else ReadFrom_loop ks f offset len (acc @ got))
      else Inr acc)"

definition ReadFrom :: "kres list \<Rightarrow> string \<Rightarrow> nat \<Rightarrow> nat \<Rightarrow> string res" where
  "ReadFrom ks f offset len = ReadFrom_loop ks f offset len []"

text \<open>
  \<open>Read\<close> is the same loop at the descriptor's own offset, which advances by what was read;
  on an error it stays after the bytes already consumed, which no caller looks at.
\<close>

definition Read :: "kres list \<Rightarrow> fdesc \<Rightarrow> nat \<Rightarrow> (string \<times> fdesc) res" where
  "Read ks f len = (case ReadFrom ks (bytes f) (pos f) len of
     Inl e \<Rightarrow> Inl e | Inr s \<Rightarrow> Inr (s, f\<lparr>pos := pos f + len\<rparr>))"

text \<open>The offset given to \<open>pth_pwrite\<close> is the one of the call at every turn of the loop.\<close>

fun WriteTo_loop :: "kres list \<Rightarrow> string \<Rightarrow> nat \<Rightarrow> string \<Rightarrow> nat \<Rightarrow> string \<times> err option" where
  "WriteTo_loop [] f offset b done =
     (if done < length b then (pwrite_bytes f offset (drop done b), None) else (f, None))"
| "WriteTo_loop (KErr e # ks) f offset b done =
     (if done < length b then
        (if \<not> retryable e then (f, Some (Err e ''Cannot write'')) else WriteTo_loop ks f offset b done)
      else (f, None))"
| "WriteTo_loop (Moved n # ks) f offset b done =
     (if done < length b then
        (let r = min n (length b - done)
         in WriteTo_loop ks (pwrite_bytes f offset (take r (drop done b))) offset b (done + r))
      else (f, None))"

definition WriteTo :: "kres list \<Rightarrow> string \<Rightarrow> nat \<Rightarrow> string \<Rightarrow> string \<times> err option" where
  "WriteTo ks f offset b = WriteTo_loop ks f offset b 0"

definition BUFFER_SIZE :: nat where "BUFFER_SIZE = 65536"

text \<open>\<open>Copy\<close>: the source is rewound and read block by block until end of file.\<close>

function Copy_loop :: "kres list \<Rightarrow> fdesc \<Rightarrow> string \<Rightarrow> fdesc \<times> err option" where
  "Copy_loop ks dst rest =
     (case ks of
        KErr e # ks' \<Rightarrow>
          if \<not> retryable e then (dst, Some (Err e ''Cannot pth_read'')) else Copy_loop ks' dst rest
      | Moved n # ks' \<Rightarrow>
          if rest = [] then (dst, None)
          else let r = min (max 1 n) BUFFER_SIZE
               in Copy_loop ks' (fst (Write [] dst (take r rest))) (drop r rest)
      | [] \<Rightarrow>
          if rest = [] then (dst, None)
          else Copy_loop [] (fst (Write [] dst (take BUFFER_SIZE rest))) (drop BUFFER_SIZE rest))"
  by pat_completeness auto
termination
  by (relation "measure (\<lambda>(ks, dst, rest). length ks + length rest)") (auto simp: BUFFER_SIZE_def)

declare Copy_loop.simps [simp del]

definition Copy :: "kres list \<Rightarrow> fdesc \<Rightarrow> fdesc \<Rightarrow> fdesc \<times> err option" where
  "Copy ks dst src = Copy_loop ks dst (bytes src)"

subsection \<open>Paths and lines\<close>

definition PATH_MAX :: nat where "PATH_MAX = 4096"

text \<open>The directory \<open>Mkdir_for_file\<close> creates: what precedes the last slash, if there is one.\<close>

fun last_index :: "char \<Rightarrow> nat \<Rightarrow> nat option \<Rightarrow> string \<Rightarrow> nat option" where
  "last_index c i found [] = found"
| "last_index c i found (x # xs) = last_index c (Suc i) (if x = c then Some i else found) xs"

definition dir_of_file :: "string \<Rightarrow> string option" where
  "dir_of_file path = map_option (\<lambda>i. take i path) (last_index CHR ''/'' 0 None path)"

definition line_match :: "string \<Rightarrow> string \<Rightarrow> bool" where
  "line_match line delim \<longleftrightarrow>
     take (length delim) line = delim \<and> list_all isspace (drop (length delim) line)"

text \<open>The arguments of \<open>snprintf (buf + len, size - len, ...)\<close> cut what does not fit.\<close>

fun Make_path_loop :: "nat \<Rightarrow> nat \<Rightarrow> string \<Rightarrow> string list \<Rightarrow> string" where
  "Make_path_loop buf_size buf_len acc [] = acc"
| "Make_path_loop buf_size buf_len acc (s # ss) =
     (if buf_len < buf_size then
        (let sep = (if take 1 s \<noteq> ''/'' \<and> (buf_len = 0 \<or> last acc \<noteq> CHR ''/'') then ''/'' else '''');
             piece = sep @ s
         in Make_path_loop buf_size (buf_len + length piece)
              (acc @ take (buf_size - buf_len - 1) piece) ss)
      else acc)"

definition Make_path :: "nat \<Rightarrow> string list \<Rightarrow> string" where
  "Make_path buf_size ss = Make_path_loop buf_size 0 [] ss"

definition path_push :: "string \<Rightarrow> string \<Rightarrow> string outcome" where
  "path_push path next =
     (let p = (if path = [] \<or> last path \<noteq> CHR ''/'' then path @ ''/'' else path)
      in if length p + length next < PATH_MAX then Done (p @ next) else Crash)"

definition path_pop :: "string \<Rightarrow> string" where
  "path_pop path = (case last_index CHR ''/'' 0 None path of None \<Rightarrow> [] | Some i \<Rightarrow> take i path)"

definition Basename :: "string \<Rightarrow> string" where
  "Basename path = (case last_index CHR ''/'' 0 None path of None \<Rightarrow> path | Some i \<Rightarrow> drop (Suc i) path)"

section \<open>Lemmas\<close>

lemma pwrite_bytes_end [simp]: "pwrite_bytes f (length f) data = f @ data"
  by (simp add: pwrite_bytes_def)

lemma pwrite_bytes_id: "off + n \<le> length f \<Longrightarrow> pwrite_bytes f off (take n (drop off f)) = f"
  by (simp add: pwrite_bytes_def) (metis append_take_drop_id drop_drop add.commute)

lemma length_pwrite_bytes: "length (pwrite_bytes f off d) = max (length f) (off + length d)"
  by (auto simp: pwrite_bytes_def)

lemma sys_write_append [simp]:
  "o_append f \<Longrightarrow> bytes (sys_write f d) = bytes f @ d"
  "o_append (sys_write f d) = o_append f"
  by (simp_all add: sys_write_def Let_def)

definition no_fatal :: "kres list \<Rightarrow> bool" where
  "no_fatal ks \<longleftrightarrow> (\<forall>e. KErr e \<in> set ks \<longrightarrow> retryable e)"

lemma no_fatal_Cons [simp]:
  "no_fatal (Moved n # ks) = no_fatal ks" "no_fatal (KErr e # ks) = (retryable e \<and> no_fatal ks)"
  "no_fatal []"
  by (auto simp: no_fatal_def)

lemma Write_loop_append:
  assumes "no_fatal ks" "o_append f" "done \<le> length b"
  shows "\<exists>f'. Write_loop ks f b done = (f', None) \<and> o_append f' \<and> bytes f' = bytes f @ drop done b"
  using assms
proof (induction ks arbitrary: f "done")
  case Nil
  then show ?case by auto
next
  case (Cons x ks)
  show ?case
  proof (cases x)
    case (KErr e)
    with Cons show ?thesis by auto
  next
    case (Moved n)
    define r where "r = min n (length b - done)"
    define g where "g = sys_write f (take r (drop done b))"
    have split: "drop done b = take r (drop done b) @ drop (done + r) b"
      by (metis append_take_drop_id drop_drop add.commute)
    have "\<exists>f'. Write_loop ks g b (done + r) = (f', None) \<and> o_append f' \<and> bytes f' = bytes g @ drop (done + r) b"
      using Cons Moved by (intro Cons.IH) (auto simp: g_def r_def)
    then have "\<exists>f'. Write_loop ks g b (done + r) = (f', None) \<and> o_append f' \<and> bytes f' = bytes f @ drop done b"
      using Cons.prems(2) split by (auto simp: g_def)
    with Moved Cons.prems show ?thesis by (simp add: g_def r_def Let_def)
  qed
qed

lemma Write_append:
  "no_fatal ks \<Longrightarrow> o_append f \<Longrightarrow>
     \<exists>f'. Write ks f b = (f', None) \<and> o_append f' \<and> bytes f' = bytes f @ b"
  using Write_loop_append [of ks f 0 b] by (simp add: Write_def)

lemma take_drop_extend:
  "take (k + m) (drop off f) = take k (drop off f) @ take m (drop (off + k) f)"
  by (simp only: take_add drop_drop add.commute [of k off])

lemma ReadFrom_loop_full:
  assumes "no_fatal ks" "offset + len \<le> length f" "k \<le> len"
  shows "ReadFrom_loop ks f offset len (take k (drop offset f)) = Inr (take len (drop offset f))"
  using assms
proof (induction ks arbitrary: k)
  case Nil
  then have "take k (drop offset f) @ take (len - k) (drop (offset + k) f) = take len (drop offset f)"
    using take_drop_extend [of k "len - k" offset f] by simp
  with Nil show ?case by (auto simp: Let_def min_def)
next
  case (Cons x ks)
  show ?case
  proof (cases x)
    case (KErr e)
    with Cons show ?thesis by auto
  next
    case (Moved n)
    define m where "m = min (max (Suc 0) n) (len - k)"
    have "ReadFrom_loop ks f offset len (take (k + m) (drop offset f)) = Inr (take len (drop offset f))"
      using Cons Moved by (intro Cons.IH) (auto simp: m_def)
    moreover have "ReadFrom_loop (x # ks) f offset len (take k (drop offset f)) =
        ReadFrom_loop ks f offset len (take (k + m) (drop offset f))" if "k < len"
    proof -
      have "length (take k (drop offset f)) = k" "take m (drop (offset + k) f) \<noteq> []"
        using that Cons.prems(2) by (auto simp: m_def)
      then show ?thesis using that Moved by (auto simp: Let_def m_def take_drop_extend)
    qed
    ultimately show ?thesis using Cons.prems Moved by (cases "k < len") simp_all
  qed
qed

lemma ReadFrom_loop_eof:
  assumes "no_fatal ks" "length f < offset + len" "length acc < len" "length acc \<le> length f - offset"
  shows "ReadFrom_loop ks f offset len acc = Fail 0 ''EOF''"
  using assms
proof (induction ks arbitrary: acc)
  case Nil
  then show ?case by (auto simp: Let_def)
next
  case (Cons x ks)
  show ?case
  proof (cases x)
    case (KErr e)
    with Cons show ?thesis by auto
  next
    case (Moved n)
    define got where "got = take (min (max (Suc 0) n) (len - length acc)) (drop (offset + length acc) f)"
    have "got \<noteq> [] \<Longrightarrow> ReadFrom_loop ks f offset len (acc @ got) = Fail 0 ''EOF''"
      using Cons Moved by (intro Cons.IH) (auto simp: got_def)
    with Moved Cons.prems(3) show ?thesis by (auto simp: got_def [symmetric] Let_def)
  qed
qed

lemma Copy_loop_unfold:
  "Copy_loop [] dst [] = (dst, None)"
  "Copy_loop (Moved n # ks) dst [] = (dst, None)"
  "rest \<noteq> [] \<Longrightarrow> Copy_loop [] dst rest =
     Copy_loop [] (fst (Write [] dst (take BUFFER_SIZE rest))) (drop BUFFER_SIZE rest)"
  "rest \<noteq> [] \<Longrightarrow> Copy_loop (Moved n # ks) dst rest =
     Copy_loop ks (fst (Write [] dst (take (min (max 1 n) BUFFER_SIZE) rest)))
       (drop (min (max 1 n) BUFFER_SIZE) rest)"
  "retryable e \<Longrightarrow> Copy_loop (KErr e # ks) dst rest = Copy_loop ks dst rest"
  by (subst Copy_loop.simps, simp add: Let_def)+

lemma Copy_write: "o_append dst \<Longrightarrow> o_append (fst (Write [] dst b)) \<and> bytes (fst (Write [] dst b)) = bytes dst @ b"
  using Write_append [of "[]" dst b] by auto

lemma Copy_loop_append:
  assumes "no_fatal ks" "o_append dst"
  shows "\<exists>d. Copy_loop ks dst rest = (d, None) \<and> bytes d = bytes dst @ rest"
  using assms
proof (induction ks dst rest rule: Copy_loop.induct)
  case (1 ks dst rest)
  show ?case
  proof (cases ks)
    case Nil
    show ?thesis
    proof (cases "rest = []")
      case False
      from "1.IH"(1) [OF Nil False] Copy_write [OF "1.prems"(2), of "take BUFFER_SIZE rest"] Nil
      show ?thesis by (auto simp: Copy_loop_unfold(3) [OF False])
    qed (use Nil in \<open>simp add: Copy_loop_unfold\<close>)
  next
    case (Cons k ks')
    show ?thesis
    proof (cases k)
      case (Moved n)
      show ?thesis
      proof (cases "rest = []")
        case False
        from "1.IH"(2) [OF Cons Moved False refl]
          Copy_write [OF "1.prems"(2), of "take (min (max 1 n) BUFFER_SIZE) rest"] Cons Moved "1.prems"(1)
        show ?thesis by (auto simp: Copy_loop_unfold(4) [OF False])
      qed (use Cons Moved in \<open>simp add: Copy_loop_unfold\<close>)
    next
      case (KErr e)
      with Cons "1.IH"(3) "1.prems" show ?thesis by (auto simp: Copy_loop_unfold(5))
    qed
  qed
qed

section \<open>Lines and paths\<close>

lemma line_match_iff: "line_match line delim = (\<exists>ws. line = delim @ ws \<and> list_all isspace ws)"
  by (auto simp: line_match_def) (metis append_take_drop_id)

lemma last_index_none: "CHR ''/'' \<notin> set s \<Longrightarrow> last_index CHR ''/'' i found s = found"
  by (induction s arbitrary: i found) auto

lemma last_index_append:
  "CHR ''/'' \<notin> set t \<Longrightarrow> last_index CHR ''/'' i found (s @ ''/'' @ t) = Some (i + length s)"
  by (induction s arbitrary: i found) (auto simp: last_index_none)

lemma path_pop_slash: "CHR ''/'' \<notin> set t \<Longrightarrow> path_pop (s @ ''/'' @ t) = s"
  by (simp add: path_pop_def last_index_append [of t 0 None s, simplified])

lemma Basename_slash: "CHR ''/'' \<notin> set t \<Longrightarrow> Basename (s @ ''/'' @ t) = t"
  by (simp add: Basename_def last_index_append [of t 0 None s, simplified])

lemma dir_of_file_slash: "CHR ''/'' \<notin> set t \<Longrightarrow> dir_of_file (s @ ''/'' @ t) = Some s"
  by (simp add: dir_of_file_def last_index_append [of t 0 None s, simplified])

section \<open>Properties\<close>

text \<open>\<open>Write\<close> hides the kernel from its callers: on a descriptor in append mode, for any
  script of short writes and interruptions without a fatal error, it returns without
  error and exactly the buffer has been added at the end of the file.\<close>

theorem Write_complete:
  assumes "no_fatal ks" and "o_append f"
  shows "\<exists>f'. Write ks f b = (f', None) \<and> bytes f' = bytes f @ b"
  using Write_append [OF assms] by auto

theorem Write_complete_witness:
  "\<exists>f'. Write [Moved 1, KErr EINTR, Moved 2] \<lparr>bytes = ''x'', pos = 0, o_append = True\<rparr> ''hello'' = (f', None) \<and>
     bytes f' = ''xhello''"
  using Write_complete [of "[Moved 1, KErr EINTR, Moved 2]" "\<lparr>bytes = ''x'', pos = 0, o_append = True\<rparr>" "''hello''"]
  by (simp add: retryable_def)

text \<open>\<open>ReadFrom\<close> hides short and interrupted reads: without a fatal error it returns the
  bytes of the file between \<open>offset\<close> and \<open>offset + len\<close> when the file has them, and raises
  the end-of-file error when it has not (and something was asked).\<close>

theorem ReadFrom_exact:
  assumes "no_fatal ks"
  shows "(offset + len \<le> length f \<longrightarrow> ReadFrom ks f offset len = Inr (take len (drop offset f))) \<and>
    (length f < offset + len \<and> 0 < len \<longrightarrow> ReadFrom ks f offset len = Fail 0 ''EOF'')"
  using ReadFrom_loop_full [OF assms, of offset len f 0] ReadFrom_loop_eof [OF assms, of f offset len "[]"]
  by (simp add: ReadFrom_def)

theorem ReadFrom_exact_witness:
  "ReadFrom [Moved 1, KErr EAGAIN] ''abcdef'' 2 3 = Inr ''cde'' \<and>
   ReadFrom [Moved 1, KErr EAGAIN] ''abcdef'' 4 3 = Fail 0 ''EOF''"
  using ReadFrom_exact [of "[Moved 1, KErr EAGAIN]" 2 3 "''abcdef''"]
    ReadFrom_exact [of "[Moved 1, KErr EAGAIN]" 4 3 "''abcdef''"]
  by (simp add: retryable_def)

text \<open>\<open>WriteTo\<close> does not hide short writes: served in one piece it replaces the bytes of
  the file from \<open>offset\<close> on by the buffer, but after a short write of \<open>n\<close> bytes the rest of the
  buffer is written at \<open>offset\<close> again, over the part just written.\<close>

theorem WriteTo_short_write:
  assumes "n < length b"
  shows "WriteTo [] f offset b = (pwrite_bytes f offset b, None) \<and>
    WriteTo [Moved n] f offset b = (pwrite_bytes (pwrite_bytes f offset (take n b)) offset (drop n b), None)"
  using assms by (auto simp: WriteTo_def Let_def min_def)

theorem WriteTo_short_write_witness:
  "WriteTo [] ''......'' 1 ''abcd'' = (''.abcd.'', None) \<and>
   WriteTo [Moved 2] ''......'' 1 ''abcd'' = (''.cd...'', None)"
  using WriteTo_short_write [of 2 "''abcd''" "''......''" 1] by (simp add: pwrite_bytes_def)

text \<open>\<open>Copy\<close> appends the whole source to the destination, whatever the sizes of the
  reads, and terminates.\<close>

theorem Copy_complete:
  assumes "no_fatal ks" and "o_append dst"
  shows "\<exists>d. Copy ks dst src = (d, None) \<and> bytes d = bytes dst @ bytes src"
  using Copy_loop_append [OF assms] by (simp add: Copy_def)

theorem Copy_complete_witness:
  "\<exists>d. Copy [Moved 1, KErr EINTR] \<lparr>bytes = ''a'', pos = 0, o_append = True\<rparr>
         \<lparr>bytes = ''bc'', pos = 1, o_append = False\<rparr> = (d, None) \<and> bytes d = ''abc''"
  using Copy_complete [of "[Moved 1, KErr EINTR]" "\<lparr>bytes = ''a'', pos = 0, o_append = True\<rparr>"
      "\<lparr>bytes = ''bc'', pos = 1, o_append = False\<rparr>"]
  by (simp add: retryable_def)

text \<open>\<open>path_push\<close> and \<open>path_pop\<close> are inverse: pushing a component without slash onto a
  path that does not end in a slash, within \<open>PATH_MAX\<close>, and popping it gives the path
  back, and \<open>Basename\<close> of the pushed path is the component.\<close>

theorem path_push_pop:
  assumes "CHR ''/'' \<notin> set c" and "p = [] \<or> last p \<noteq> CHR ''/''" and "length p + 1 + length c < PATH_MAX"
  shows "\<exists>q. path_push p c = Done q \<and> path_pop q = p \<and> Basename q = c"
  using assms path_pop_slash [OF assms(1), of p] Basename_slash [OF assms(1), of p]
  by (simp add: path_push_def)

theorem path_push_pop_witness:
  "\<exists>q. path_push ''/a/b'' ''c'' = Done q \<and> path_pop q = ''/a/b'' \<and> Basename q = ''c''"
  by (rule path_push_pop) (simp_all add: PATH_MAX_def)

end
