(* ===== verification/Header.thy ===== *)
theory Header
  imports Misc
begin

text \<open>
  Message headers, after \<open>lib/header.c\<close> and \<open>include/scambio/header.h\<close>: an ordered list of
  named fields with case-insensitive names, parameters inside field values, the parser that
  unfolds and compacts the text of a header, and the printer used for journals, transient
  patches and the network protocol. A pointer to a field of a header is its index in the
  list. The contents of the buffers the parser fills are strings (see \<open>Varbuf\<close>); a pointer
  into a buffer to which nothing was ever appended is \<open>None\<close>, because the buffer is then
  uninitialised memory.
\<close>

section \<open>Data\<close>

record header_field =
  hf_name :: string
  hf_value :: string

record header =
  h_fields :: "header_field list"
  h_count :: int

datatype mdir_action = MDIR_ADD | MDIR_REM

type_synonym mdir_version = int

definition SC_TYPE_FIELD :: string where "SC_TYPE_FIELD = ''sc-type''"
definition SC_TARGET_FIELD :: string where "SC_TARGET_FIELD = ''sc-target''"
definition SC_DIRID_FIELD :: string where "SC_DIRID_FIELD = ''sc-dirId''"
definition SC_NAME_FIELD :: string where "SC_NAME_FIELD = ''sc-name''"
definition SC_LOCALID_FIELD :: string where "SC_LOCALID_FIELD = ''sc-localid''"
definition SC_STATUS_FIELD :: string where "SC_STATUS_FIELD = ''sc-status''"
definition SC_HAVE_READ_FIELD :: string where "SC_HAVE_READ_FIELD = ''sc-read''"
definition SC_ERRMSG_FIELD :: string where "SC_ERRMSG_FIELD = ''sc-errmsg''"
definition SC_ALIAS_FIELD :: string where "SC_ALIAS_FIELD = ''sc-alias''"
definition SC_ALLOW_WRITE_FIELD :: string where "SC_ALLOW_WRITE_FIELD = ''sc-allow-write''"
definition SC_ALLOW_READ_FIELD :: string where "SC_ALLOW_READ_FIELD = ''sc-allow-read''"
definition SC_ALLOW_ADMIN_FIELD :: string where "SC_ALLOW_ADMIN_FIELD = ''sc-allow-admin''"
definition SC_DENY_WRITE_FIELD :: string where "SC_DENY_WRITE_FIELD = ''sc-deny-write''"
definition SC_DENY_READ_FIELD :: string where "SC_DENY_READ_FIELD = ''sc-deny-read''"
definition SC_DENY_ADMIN_FIELD :: string where "SC_DENY_ADMIN_FIELD = ''sc-deny-admin''"
definition SC_USER_FIELD :: string where "SC_USER_FIELD = ''sc-user''"

definition SC_DIR_TYPE :: string where "SC_DIR_TYPE = ''dir''"
definition SC_MARK_TYPE :: string where "SC_MARK_TYPE = ''mark''"
definition SC_PERM_TYPE :: string where "SC_PERM_TYPE = ''perms''"

lemmas sc_names = SC_TYPE_FIELD_def SC_TARGET_FIELD_def SC_DIRID_FIELD_def SC_NAME_FIELD_def
  SC_LOCALID_FIELD_def SC_STATUS_FIELD_def SC_HAVE_READ_FIELD_def SC_ERRMSG_FIELD_def
  SC_ALIAS_FIELD_def SC_ALLOW_WRITE_FIELD_def SC_ALLOW_READ_FIELD_def SC_ALLOW_ADMIN_FIELD_def
  SC_DENY_WRITE_FIELD_def SC_DENY_READ_FIELD_def SC_DENY_ADMIN_FIELD_def SC_USER_FIELD_def
  SC_DIR_TYPE_def SC_MARK_TYPE_def SC_PERM_TYPE_def

section \<open>Fields\<close>

definition str_tolower :: "string \<Rightarrow> string" where
  "str_tolower s = map tolower s"

definition header_field_ctor :: "string \<Rightarrow> string \<Rightarrow> header_field" where
  "header_field_ctor nm v = \<lparr>hf_name = str_tolower nm, hf_value = v\<rparr>"

definition header_field_new :: "header \<Rightarrow> string \<Rightarrow> string \<Rightarrow> header" where
  "header_field_new h nm v = h\<lparr>h_fields := h_fields h @ [header_field_ctor nm v]\<rparr>"

definition header_field_del :: "nat \<Rightarrow> header \<Rightarrow> header" where
  "header_field_del i h = h\<lparr>h_fields := take i (h_fields h) @ drop (Suc i) (h_fields h)\<rparr>"

definition header_field_set :: "header_field \<Rightarrow> string option \<Rightarrow> string option \<Rightarrow> header_field" where
  "header_field_set hf nm v =
     (let hf = (case nm of None \<Rightarrow> hf | Some n \<Rightarrow> hf\<lparr>hf_name := str_tolower n\<rparr>)
      in case v of None \<Rightarrow> hf | Some w \<Rightarrow> hf\<lparr>hf_value := w\<rparr>)"

section \<open>Parameters\<close>

abbreviation DQ :: char where "DQ \<equiv> CHR 0x22"

fun find_delim :: "bool \<Rightarrow> string \<Rightarrow> string" where
  "find_delim quoted [] = []"
| "find_delim quoted (c # cs) =
     (if c = DQ then find_delim (\<not> quoted) cs
      else if \<not> quoted \<and> c = CHR '';'' then c # cs
      else find_delim quoted cs)"

definition find_next_param_delim :: "string \<Rightarrow> string" where
  "find_next_param_delim s = find_delim False s"

lemma find_delim_length: "length (find_delim q s) \<le> length s"
  by (induction s arbitrary: q) (auto intro: le_SucI)

definition skip_sp :: "string \<Rightarrow> string" where
  "skip_sp s = dropWhile (\<lambda>c. c = SP) s"

lemma skip_sp_length: "length (skip_sp s) \<le> length s"
  by (simp add: skip_sp_def length_dropWhile_le)

text \<open>The length of the value and the text from its first character, or no value.\<close>

function parameter_find :: "string \<Rightarrow> string \<Rightarrow> nat \<times> string option" where
  "parameter_find s pname =
     (case find_next_param_delim s of
        [] \<Rightarrow> (0, None)
      | _ # s1 \<Rightarrow>
          let s2 = skip_sp s1 in
          if strncasecmp_pre pname s2 then
            let s3 = skip_sp (drop (length pname) s2) in
            (if take 1 s3 \<noteq> ''='' then (if s3 = [] then (0, None) else parameter_find s3 pname)
             else let s4 = skip_sp (drop 1 s3);
                      delim = (if take 1 s4 = [DQ] then DQ else CHR '';'');
                      s5 = (if take 1 s4 = [DQ] then drop 1 s4 else s4)
                  in (length (takeWhile (\<lambda>c. c \<noteq> delim) s5), Some s5))
          else if s2 = [] then (0, None) else parameter_find s2 pname)"
  by pat_completeness auto
termination
proof (relation "measure (\<lambda>(s, pname). length s)", goal_cases)
  case (2 s pname a s1 s2 s3)
  have "length s3 \<le> length s1"
    using 2 skip_sp_length [of "drop (length pname) s2"] skip_sp_length [of s1] by simp
  with 2 find_delim_length [of False s] show ?case by (simp add: find_next_param_delim_def)
next
  case (3 s pname a s1 s2)
  with skip_sp_length [of s1] find_delim_length [of False s]
  show ?case by (simp add: find_next_param_delim_def)
qed simp

declare parameter_find.simps [simp del]

definition parameter_extract :: "string \<Rightarrow> string \<Rightarrow> string option" where
  "parameter_extract s pname = (case parameter_find s pname of
     (len, None) \<Rightarrow> None | (len, Some v) \<Rightarrow> Some (take len v))"

definition parameter_suppress :: "string \<Rightarrow> string" where
  "parameter_suppress s =
     (let v = find_next_param_delim s;
          p = take (length s - length v) s
      in rev (dropWhile isspace (rev p)))"

section \<open>Headers\<close>

definition header_new :: header where
  "header_new = \<lparr>h_fields = [], h_count = 1\<rparr>"

definition header_ref :: "header \<Rightarrow> header" where
  "header_ref h = h\<lparr>h_count := h_count h + 1\<rparr>"

text \<open>\<open>None\<close> once the last reference is dropped and the header deleted.\<close>

definition header_unref :: "header \<Rightarrow> header option" where
  "header_unref h = (let h = h\<lparr>h_count := h_count h - 1\<rparr> in if h_count h \<le> 0 then None else Some h)"

fun find_from :: "string option \<Rightarrow> nat \<Rightarrow> header_field list \<Rightarrow> nat option" where
  "find_from nm i [] = None"
| "find_from nm i (hf # hfs) =
     (if (case nm of None \<Rightarrow> True | Some n \<Rightarrow> strcasecmp_eq (hf_name hf) n) then Some i
      else find_from nm (Suc i) hfs)"

definition header_find :: "header \<Rightarrow> string option \<Rightarrow> nat option \<Rightarrow> nat option" where
  "header_find h nm prev =
     (let i = (case prev of None \<Rightarrow> 0 | Some p \<Rightarrow> Suc p) in find_from nm i (drop i (h_fields h)))"

text \<open>The value of the field \<open>header_find (h, nm, NULL)\<close> points to.\<close>

definition field_value :: "header \<Rightarrow> string \<Rightarrow> string option" where
  "field_value h nm = map_option (\<lambda>i. hf_value (h_fields h ! i)) (header_find h (Some nm) None)"

definition mdir_str2version :: "string \<Rightarrow> mdir_version res" where
  "mdir_str2version s = (case sscanf_lld s of None \<Rightarrow> Fail 0 ''sscanf'' | Some v \<Rightarrow> Inr v)"

definition mdir_version2str :: "mdir_version \<Rightarrow> string" where
  "mdir_version2str v = dec_int v"

definition header_has_type :: "header \<Rightarrow> string \<Rightarrow> bool" where
  "header_has_type h ty \<longleftrightarrow> field_value h SC_TYPE_FIELD = Some ty"

definition header_is_directory :: "header \<Rightarrow> bool" where
  "header_is_directory h \<longleftrightarrow> header_has_type h SC_DIR_TYPE"

definition header_target :: "header \<Rightarrow> mdir_version res" where
  "header_target h = (case field_value h SC_TARGET_FIELD of
     None \<Rightarrow> Fail 0 ''Header lacks a target'' | Some v \<Rightarrow> mdir_str2version v)"

section \<open>Parser\<close>

definition iseol :: "char \<Rightarrow> bool" where
  "iseol c \<longleftrightarrow> c = NL \<or> c = CR"

definition is_end_of_name :: "string \<Rightarrow> bool" where
  "is_end_of_name s = (case s of [] \<Rightarrow> False | c # _ \<Rightarrow> c = CHR '':'' \<or> iseol c)"

definition is_end_of_value :: "string \<Rightarrow> bool" where
  "is_end_of_value s = (case s of [] \<Rightarrow> False
     | c # t \<Rightarrow> iseol c \<and> (case t of [] \<Rightarrow> True | d # _ \<Rightarrow> \<not> isblank d))"

text \<open>The scanning loop of \<open>parse\<close>: what is left to scan, the space flag, the buffer, the count.\<close>

fun parse_loop :: "(string \<Rightarrow> bool) \<Rightarrow> string \<Rightarrow> bool \<Rightarrow> string \<Rightarrow> nat \<Rightarrow> (nat \<times> string) res" where
  "parse_loop is_delimiter src rem_space acc n =
     (if is_delimiter src then Inr (n, acc)
      else case src of
        [] \<Rightarrow> Fail 0 ''Unterminated string in header''
      | c # cs \<Rightarrow>
          if isspace c then
            (if rem_space then parse_loop is_delimiter cs True acc (Suc n)
             else parse_loop is_delimiter cs True (acc @ [SP]) (Suc n))
          else parse_loop is_delimiter cs False (acc @ [c]) (Suc n))"

declare parse_loop.simps [simp del]

text \<open>\<open>varbuf_chop\<close> asserts that it leaves at least one byte.\<close>

function trim_tail :: "string \<Rightarrow> string outcome" where
  "trim_tail acc =
     (if acc \<noteq> [] \<and> isspace (last acc)
      then (if 1 < length acc then trim_tail (butlast acc) else Crash)
      else Done acc)"
  by pat_completeness auto
termination
  by (relation "measure length") auto

declare trim_tail.simps [simp del]

definition parse :: "string \<Rightarrow> (string \<Rightarrow> bool) \<Rightarrow> (nat \<times> string option) outcome" where
  "parse msg is_delimiter =
     (case parse_loop is_delimiter msg True [] 0 of
        Inl e \<Rightarrow> Raised e
      | Inr (n, acc) \<Rightarrow> obind (trim_tail acc) (\<lambda>s. Done (n, if s = [] then None else Some s)))"

definition parse_field :: "string \<Rightarrow> (nat \<times> string option \<times> string option) outcome" where
  "parse_field msg =
     obind (parse msg is_end_of_name) (\<lambda>(parsedN, nm).
       if parsedN = 0 then Done (0, None, None)
       else let parsedN = Suc parsedN in
         obind (parse (drop parsedN msg) is_end_of_value) (\<lambda>(parsedV, v).
           if parsedV = 0 then (if nm = None then Crash else Raised (Err 0 ''Field has no value''))
           else Done (parsedN + Suc parsedV, nm, v)))"

text \<open>The count of characters consumed, the header extended and the error, if any.\<close>

function header_parse_loop :: "header \<Rightarrow> string \<Rightarrow> nat \<Rightarrow> (nat \<times> header \<times> err option) outcome" where
  "header_parse_loop h msg consumed =
     (if msg = [] then Done (consumed, h, None)
      else case parse_field msg of
        Crash \<Rightarrow> Crash
      | Raised e \<Rightarrow> Done (consumed, h, Some e)
      | Done (parsed, nm, v) \<Rightarrow>
          if parsed = 0 then Done (consumed, h, None)
          else case (nm, v) of
            (Some n, Some w) \<Rightarrow>
              header_parse_loop (header_field_new h n w) (drop parsed msg) (consumed + parsed)
          | _ \<Rightarrow> Crash)"
  by pat_completeness auto
termination
  by (relation "measure (\<lambda>(h, msg, consumed). length msg)") auto

declare header_parse_loop.simps [simp del]

definition header_parse :: "header \<Rightarrow> string \<Rightarrow> (nat \<times> header \<times> err option) outcome" where
  "header_parse h msg = header_parse_loop h msg 0"

section \<open>Printer and readers\<close>

definition field_dump :: "header_field \<Rightarrow> string" where
  "field_dump hf = hf_name hf @ '': '' @ hf_value hf @ [NL]"

definition header_dump :: "header \<Rightarrow> string" where
  "header_dump h = concat (map field_dump (h_fields h)) @ [NL]"

text \<open>\<open>header_write\<close> sends to a descriptor the bytes \<open>header_dump\<close> puts in a buffer.\<close>

definition header_write :: "header \<Rightarrow> fdesc \<Rightarrow> fdesc \<times> err option" where
  "header_write h f =
     (case Write_strs [] f (concat (map (\<lambda>hf. [hf_name hf, '': '', hf_value hf, [NL]]) (h_fields h))) of
        (f, Some e) \<Rightarrow> (f, Some e)
      | (f, None) \<Rightarrow> Write [] f [NL])"

definition MAX_HEADLINE_LENGTH :: nat where "MAX_HEADLINE_LENGTH = 10000"
definition MAX_HEADER_LINES :: nat where "MAX_HEADER_LINES = 300"

text \<open>
  The loop of \<open>header_read\<close>: the buffer, the number of lines, whether the end of the header
  was reached. \<open>left\<close> counts the lines that may still be read before the limit; errors
  raised inside are dropped by \<open>error_restore\<close>, end of file being noted first.
\<close>

fun header_read_loop :: "nat \<Rightarrow> string \<Rightarrow> nat \<Rightarrow> input \<Rightarrow> string \<times> nat \<times> bool \<times> input" where
  "header_read_loop left vb nb_lines inp =
     (case read_line vb MAX_HEADLINE_LENGTH inp of
        (vb', Some e, inp') \<Rightarrow> (vb', nb_lines, err_code e = ENOENT, inp')
      | (vb', None, inp') \<Rightarrow>
          (case left of
             0 \<Rightarrow> (vb', Suc nb_lines, False, inp')
           | Suc l \<Rightarrow>
               if line_match (drop (length vb) vb') [] then (vb, Suc nb_lines, True, inp')
               else header_read_loop l vb' (Suc nb_lines) inp'))"

declare header_read_loop.simps [simp del]

definition cstr :: "string \<Rightarrow> string" where
  "cstr s = takeWhile (\<lambda>c. c \<noteq> NUL) s"

definition header_read :: "header \<Rightarrow> input \<Rightarrow> ((header \<times> err option) \<times> input) outcome" where
  "header_read h inp =
     (case header_read_loop MAX_HEADER_LINES [] 0 inp of
        (vb, nb_lines, eoh_reached, inp') \<Rightarrow>
          if \<not> eoh_reached then Done ((h, Some (Err 0 ''End of file before end of header'')), inp')
          else if nb_lines = 0 then Done ((h, Some (Err 0 ''No lines in header'')), inp')
          else obind (header_parse h (cstr vb)) (\<lambda>(_, h', e). Done ((h', e), inp')))"

definition header_digest :: "(string \<Rightarrow> string) \<Rightarrow> header \<Rightarrow> string" where
  "header_digest digest h = digest (header_dump h)"

section \<open>What the parser computes\<close>

text \<open>White space runs become one space, the leading run disappears.\<close>

fun squeeze :: "bool \<Rightarrow> string \<Rightarrow> string" where
  "squeeze rem_space [] = []"
| "squeeze rem_space (c # cs) =
     (if isspace c then (if rem_space then squeeze True cs else SP # squeeze True cs)
      else c # squeeze False cs)"

definition trim :: "string \<Rightarrow> string" where
  "trim s = rev (dropWhile isspace (rev s))"

definition compact :: "string \<Rightarrow> string" where
  "compact s = trim (squeeze True s)"

definition canon :: "string \<Rightarrow> bool" where
  "canon s \<longleftrightarrow> s \<noteq> [] \<and> compact s = s"

lemma parse_loop_run:
  assumes "\<forall>i < length s. \<not> isd (drop i s @ t)" "isd t"
  shows "parse_loop isd (s @ t) r acc n = Inr (n + length s, acc @ squeeze r s)"
  using assms(1)
proof (induction s arbitrary: r acc n)
  case Nil
  with assms(2) show ?case by (simp add: parse_loop.simps [of isd t])
next
  case (Cons c cs)
  have "\<not> isd (c # cs @ t)" using Cons.prems [rule_format, of 0] by simp
  moreover have "\<forall>i < length cs. \<not> isd (drop i cs @ t)"
    using Cons.prems by (metis Suc_less_eq drop_Suc_Cons length_Cons)
  ultimately show ?case using Cons.IH by (simp add: parse_loop.simps [of isd "c # cs @ t"])
qed

lemma parse_loop_Inr:
  assumes "parse_loop isd src r acc n = Inr (m, acc')"
  shows "\<exists>s t. src = s @ t \<and> isd t \<and> (\<forall>i < length s. \<not> isd (drop i s @ t)) \<and>
     m = n + length s \<and> acc' = acc @ squeeze r s"
  using assms
proof (induction src arbitrary: r acc n)
  case Nil
  then show ?case by (auto simp: parse_loop.simps [of isd "[]"] split: if_splits)
next
  case (Cons c cs)
  show ?case
  proof (cases "isd (c # cs)")
    case True
    with Cons.prems show ?thesis by (intro exI [of _ "[]"] exI [of _ "c # cs"]) (simp add: parse_loop.simps [of isd "c # cs"])
  next
    case False
    with Cons.prems have "parse_loop isd cs (isspace c)
        (acc @ (if isspace c then if r then [] else [SP] else [c])) (Suc n) = Inr (m, acc')"
      by (auto simp: parse_loop.simps [of isd "c # cs"] split: if_splits)
    from Cons.IH [OF this] obtain s t where st: "cs = s @ t" "isd t"
      "\<forall>i < length s. \<not> isd (drop i s @ t)" "m = Suc n + length s"
      "acc' = (acc @ (if isspace c then if r then [] else [SP] else [c])) @ squeeze (isspace c) s"
      by blast
    moreover have "\<forall>i < length (c # s). \<not> isd (drop i (c # s) @ t)"
      using st(1,3) False by (auto simp: less_Suc_eq_0_disj)
    ultimately show ?thesis by (intro exI [of _ "c # s"] exI [of _ t]) simp
  qed
qed

lemma squeeze_True_hd: "squeeze True s \<noteq> [] \<Longrightarrow> \<not> isspace (hd (squeeze True s))"
  by (induction s) auto

lemma trim_snoc: "trim (s @ [c]) = (if isspace c then trim s else s @ [c])"
  by (simp add: trim_def)

lemma trim_Nil [simp]: "trim [] = []"
  by (simp add: trim_def)

lemma trim_tail_eq: "s = [] \<or> \<not> isspace (hd s) \<Longrightarrow> trim_tail s = Done (trim s)"
proof (induction s rule: rev_induct)
  case Nil
  then show ?case by (simp add: trim_tail.simps)
next
  case (snoc c s)
  then show ?case
    by (cases "s = []") (auto simp: trim_tail.simps [of "s @ [c]"] trim_tail.simps [of "[c]"] trim_snoc trim_def)
qed

lemma parse_run:
  assumes "\<forall>i < length s. \<not> isd (drop i s @ t)" "isd t"
  shows "parse (s @ t) isd = Done (length s, if compact s = [] then None else Some (compact s))"
proof -
  have "trim_tail (squeeze True s) = Done (compact s)"
    using trim_tail_eq [of "squeeze True s"] squeeze_True_hd [of s] by (auto simp: compact_def)
  then show ?thesis by (simp add: parse_def parse_loop_run [OF assms])
qed

lemma parse_Done:
  assumes "parse msg isd = Done (n, v)"
  shows "\<exists>s t. msg = s @ t \<and> isd t \<and> (\<forall>i < length s. \<not> isd (drop i s @ t)) \<and> n = length s \<and>
    v = (if compact s = [] then None else Some (compact s))"
proof (cases "parse_loop isd msg True [] 0")
  case (Inl e)
  with assms show ?thesis by (simp add: parse_def)
next
  case (Inr r)
  then obtain m acc where "parse_loop isd msg True [] 0 = Inr (m, acc)" by (cases r) simp
  from parse_loop_Inr [OF this] obtain s t where st: "msg = s @ t" "isd t"
    "\<forall>i < length s. \<not> isd (drop i s @ t)" by blast
  with assms parse_run [OF st(3,2)] show ?thesis by (intro exI [of _ s] exI [of _ t]) simp
qed

lemma trim_Cons: "\<not> isspace c \<Longrightarrow> trim (c # s) = c # trim s"
proof (induction s rule: rev_induct)
  case (snoc x s)
  then show ?case using trim_snoc [of "c # s" x] trim_snoc [of s x] by simp
qed (simp add: trim_def)

lemma compact_blank [simp]: "isspace c \<Longrightarrow> compact (c # s) = compact s"
  by (simp add: compact_def)

lemma trim_all: "list_all isspace s \<Longrightarrow> trim s = []"
  by (simp add: trim_def list_all_iff)

lemma trim_decomp: "\<exists>w. s = trim s @ w \<and> list_all isspace w"
proof (intro exI conjI)
  show "s = trim s @ rev (takeWhile isspace (rev s))"
    by (simp add: trim_def flip: rev_append)
  show "list_all isspace (rev (takeWhile isspace (rev s)))"
    by (auto simp: list_all_iff dest: set_takeWhileD)
qed

lemma squeeze_decomp: "list_all isspace w \<Longrightarrow> squeeze r (s @ w) = squeeze r s @ squeeze (if s = [] then r else isspace (last s)) w"
  by (induction s arbitrary: r) auto

lemma squeeze_spaces: "list_all isspace w \<Longrightarrow> list_all isspace (squeeze r w)"
  by (induction w arbitrary: r) auto

lemma trim_append_spaces: "list_all isspace w \<Longrightarrow> trim (s @ w) = trim s"
  by (induction w rule: rev_induct) (auto simp: trim_snoc simp flip: append_assoc)

lemma compact_append_spaces: "list_all isspace w \<Longrightarrow> compact (s @ w) = compact s"
  by (simp add: compact_def squeeze_decomp squeeze_spaces trim_append_spaces)

lemma squeeze_idem: "squeeze r (squeeze r s) = squeeze r s"
  by (induction s arbitrary: r) auto

lemma compact_idem [simp]: "compact (compact s) = compact s"
proof -
  obtain w where w: "squeeze True s = trim (squeeze True s) @ w" "list_all isspace w"
    using trim_decomp by blast
  then have "compact (trim (squeeze True s)) = compact (squeeze True s)"
    by (metis compact_append_spaces)
  then show ?thesis by (simp add: compact_def squeeze_idem)
qed

lemma squeeze_subset: "set (squeeze r s) \<subseteq> insert SP (set s)"
  by (induction s arbitrary: r) (auto split: if_splits)

lemma squeeze_space: "c \<in> set (squeeze r s) \<Longrightarrow> isspace c \<Longrightarrow> c = SP"
  by (induction s arbitrary: r) (auto split: if_splits)

lemma trim_subset: "set (trim s) \<subseteq> set s"
  by (auto simp: trim_def dest: set_dropWhileD)

lemma compact_subset: "set (compact s) \<subseteq> insert SP (set s)"
  using trim_subset [of "squeeze True s"] squeeze_subset [of True s] by (auto simp: compact_def)

lemma canon_space: "canon s \<Longrightarrow> c \<in> set s \<Longrightarrow> isspace c \<Longrightarrow> c = SP"
  by (metis canon_def compact_def squeeze_space trim_subset subsetD)

lemma canon_compact: "compact s \<noteq> [] \<Longrightarrow> canon (compact s)"
  by (simp add: canon_def)

lemma canon_hd: "canon s \<Longrightarrow> \<not> isspace (hd s)"
proof -
  assume c: "canon s"
  obtain w where "squeeze True s = trim (squeeze True s) @ w" using trim_decomp by blast
  with c have "hd (squeeze True s) = hd s" "squeeze True s \<noteq> []"
    by (auto simp: canon_def compact_def)
  then show ?thesis using squeeze_True_hd [of s] by simp
qed

lemma squeeze_map_tolower: "squeeze r (map tolower s) = map tolower (squeeze r s)"
proof (induction s arbitrary: r)
  case (Cons c s)
  have "tolower SP = SP" by (simp add: tolower_def)
  with Cons show ?case by simp
qed simp

lemma compact_tolower: "compact (map tolower s) = map tolower (compact s)"
  by (simp add: compact_def trim_def squeeze_map_tolower rev_map dropWhile_map comp_def)

section \<open>Well-formed headers\<close>

definition wf_name :: "string \<Rightarrow> bool" where
  "wf_name s \<longleftrightarrow> canon s \<and> map tolower s = s \<and> CHR '':'' \<notin> set s"

definition wf_field :: "header_field \<Rightarrow> bool" where
  "wf_field hf \<longleftrightarrow> wf_name (hf_name hf) \<and> canon (hf_value hf)"

definition wf_header :: "header \<Rightarrow> bool" where
  "wf_header h \<longleftrightarrow> list_all wf_field (h_fields h)"

lemma canon_no_eol: "canon s \<Longrightarrow> c \<in> set s \<Longrightarrow> \<not> iseol c"
  using canon_space [of s c] by (auto simp: iseol_def)

lemma canon_nonempty: "canon s \<Longrightarrow> s \<noteq> []"
  by (simp add: canon_def)

lemma is_end_of_name_Cons [simp]: "is_end_of_name (c # s) = (c = CHR '':'' \<or> iseol c)"
  by (simp add: is_end_of_name_def)

lemma drop_nth_Cons: "i < length s \<Longrightarrow> drop i s @ t = s ! i # drop (Suc i) s @ t"
  by (metis Cons_nth_drop_Suc append_Cons)

lemma parse_name:
  assumes "wf_name s"
  shows "parse (s @ CHR '':'' # t) is_end_of_name = Done (length s, Some s)"
proof -
  have "\<forall>i < length s. \<not> is_end_of_name (drop i s @ CHR '':'' # t)"
    using assms by (auto simp: drop_nth_Cons wf_name_def dest: canon_no_eol nth_mem)
  from parse_run [OF this] assms show ?thesis by (auto simp: wf_name_def canon_def)
qed

definition ends_value :: "string \<Rightarrow> bool" where
  "ends_value t \<longleftrightarrow> (case t of [] \<Rightarrow> True | d # _ \<Rightarrow> \<not> isblank d)"

lemma parse_value:
  assumes "canon s" "ends_value t"
  shows "parse (SP # s @ NL # t) is_end_of_value = Done (Suc (length s), Some s)"
proof -
  have "\<forall>i < length (SP # s). \<not> is_end_of_value (drop i (SP # s) @ NL # t)"
  proof (intro allI impI)
    fix i assume i: "i < length (SP # s)"
    have "\<not> iseol ((SP # s) ! i)" using i assms(1) by (cases i) (auto simp: iseol_def dest: canon_no_eol nth_mem)
    with i show "\<not> is_end_of_value (drop i (SP # s) @ NL # t)"
      by (simp add: drop_nth_Cons is_end_of_value_def del: nth_Cons_Suc drop_Suc_Cons)
  qed
  moreover have "is_end_of_value (NL # t)" using assms(2) by (simp add: is_end_of_value_def iseol_def ends_value_def)
  ultimately show ?thesis using parse_run [of "SP # s" is_end_of_value "NL # t"] assms(1) by (simp add: canon_def)
qed

lemma parse_field_dump:
  assumes "wf_field hf" "ends_value t"
  shows "parse_field (field_dump hf @ t) = Done (length (field_dump hf), Some (hf_name hf), Some (hf_value hf))"
proof -
  let ?n = "hf_name hf" and ?v = "hf_value hf"
  have n: "wf_name ?n" and v: "canon ?v" using assms by (auto simp: wf_field_def)
  have "?n \<noteq> []" using n by (simp add: wf_name_def canon_nonempty)
  moreover have "drop (Suc (length ?n)) (field_dump hf @ t) = SP # ?v @ NL # t"
    by (simp add: field_dump_def)
  moreover have "field_dump hf @ t = ?n @ CHR '':'' # SP # ?v @ NL # t" by (simp add: field_dump_def)
  ultimately show ?thesis
    using parse_name [OF n] parse_value [OF v assms(2)] by (simp add: parse_field_def Let_def field_dump_def)
qed

lemma field_dump_neq_Nil [simp]: "field_dump hf \<noteq> []"
  by (simp add: field_dump_def)

lemma ends_value_dump:
  "list_all wf_field hfs \<Longrightarrow> ends_value t \<Longrightarrow> ends_value (concat (map field_dump hfs) @ t)"
proof (cases hfs)
  case (Cons hf hfs')
  assume "list_all wf_field hfs"
  with Cons have "canon (hf_name hf)" by (simp add: wf_field_def wf_name_def)
  then obtain c cs where "hf_name hf = c # cs" "\<not> isspace c"
    by (metis canon_hd canon_nonempty list.collapse)
  with Cons show ?thesis by (auto simp: ends_value_def field_dump_def dest: isblank_isspace)
qed simp

lemma header_field_new_wf: "wf_field hf \<Longrightarrow> header_field_new h (hf_name hf) (hf_value hf) = h\<lparr>h_fields := h_fields h @ [hf]\<rparr>"
  by (simp add: header_field_new_def header_field_ctor_def str_tolower_def wf_field_def wf_name_def)

lemma parse_field_NL: "parse_field (NL # t) = Done (0, None, None)"
  using parse_run [of "[]" is_end_of_name "NL # t"] by (simp add: parse_field_def iseol_def compact_def)

lemma header_parse_loop_dump:
  assumes "list_all wf_field hfs" "t = [] \<or> (\<exists>r. t = NL # r)"
  shows "header_parse_loop h (concat (map field_dump hfs) @ t) k =
    Done (k + length (concat (map field_dump hfs)), h\<lparr>h_fields := h_fields h @ hfs\<rparr>, None)"
  using assms(1)
proof (induction hfs arbitrary: h k)
  case Nil
  then show ?case using assms(2) by (auto simp: header_parse_loop.simps [of h t] parse_field_NL)
next
  case (Cons hf hfs)
  let ?t = "concat (map field_dump hfs) @ t"
  from Cons.prems assms(2) have "parse_field (field_dump hf @ ?t) =
      Done (length (field_dump hf), Some (hf_name hf), Some (hf_value hf))"
    by (intro parse_field_dump ends_value_dump) (auto simp: ends_value_def)
  then have "header_parse_loop h (field_dump hf @ ?t) k =
      header_parse_loop (h\<lparr>h_fields := h_fields h @ [hf]\<rparr>) ?t (k + length (field_dump hf))"
    using Cons.prems by (simp add: header_parse_loop.simps [of h "field_dump hf @ ?t"] header_field_new_wf)
  with Cons show ?case by simp
qed

lemma header_parse_dump:
  assumes "wf_header h"
  shows "header_parse h0 (header_dump h) =
    Done (length (header_dump h) - 1, h0\<lparr>h_fields := h_fields h0 @ h_fields h\<rparr>, None)"
  using header_parse_loop_dump [of _ "[NL]"] assms by (simp add: header_parse_def header_dump_def wf_header_def)

subsection \<open>Whatever the parser accepts is well-formed\<close>

lemma wf_name_parsed:
  assumes "parse msg is_end_of_name = Done (n, Some s)"
  shows "wf_name (str_tolower s)"
proof -
  from parse_Done [OF assms] obtain u t where u: "\<forall>i < length u. \<not> is_end_of_name (drop i u @ t)"
    "compact u \<noteq> []" "s = compact u" by (auto split: if_splits)
  have "CHR '':'' \<notin> set u"
    using u(1) by (auto simp: in_set_conv_nth drop_nth_Cons)
  then have "CHR '':'' \<notin> set s" using compact_subset [of u] u(3) by auto
  then have "CHR '':'' \<notin> set (map tolower s)" by (auto dest: sym)
  with u show ?thesis
    by (simp add: wf_name_def str_tolower_def canon_def compact_tolower)
qed

lemma canon_parsed: "parse msg isd = Done (n, Some s) \<Longrightarrow> canon s"
  by (drule parse_Done) (auto simp: canon_compact split: if_splits)

lemma wf_parse_field:
  assumes "parse_field msg = Done (parsed, Some n, Some v)"
  shows "wf_field (header_field_ctor n v)"
  using assms wf_name_parsed canon_parsed
  by (auto simp: parse_field_def obind_eq_Done wf_field_def header_field_ctor_def Let_def
      split: if_splits prod.splits)

lemma header_parse_loop_wf:
  "header_parse_loop h msg k = Done (k', h', e) \<Longrightarrow>
     h_count h' = h_count h \<and> (wf_header h \<longrightarrow> wf_header h')"
proof (induction h msg k rule: header_parse_loop.induct)
  case (1 h msg k)
  show ?case
  proof (cases "\<exists>parsed n v. msg \<noteq> [] \<and> parse_field msg = Done (parsed, Some n, Some v) \<and> parsed \<noteq> 0")
    case True
    then obtain p n v where p: "msg \<noteq> []" "parse_field msg = Done (p, Some n, Some v)" "p \<noteq> 0" by blast
    with "1.prems" have "header_parse_loop (header_field_new h n v) (drop p msg) (k + p) = Done (k', h', e)"
      by (simp add: header_parse_loop.simps [of h msg])
    with "1.IH" [OF p(1) p(2) refl refl p(3) refl refl refl] wf_parse_field [OF p(2)] show ?thesis
      by (simp add: header_field_new_def wf_header_def)
  next
    case False
    with "1.prems" show ?thesis
      by (auto simp: header_parse_loop.simps [of h msg] split: if_splits outcome.splits option.splits prod.splits)
  qed
qed

lemma trim_tail_no_raise: "trim_tail s \<noteq> Raised e"
  by (induction s rule: trim_tail.induct) (simp add: trim_tail.simps)

section \<open>Fields by name\<close>

definition name_matches :: "string option \<Rightarrow> header_field \<Rightarrow> bool" where
  "name_matches nm hf = (case nm of None \<Rightarrow> True | Some n \<Rightarrow> strcasecmp_eq (hf_name hf) n)"

lemma find_from_None: "(find_from nm i hfs = None) = (\<forall>hf \<in> set hfs. \<not> name_matches nm hf)"
  by (induction hfs arbitrary: i) (auto simp: name_matches_def)

lemma find_from_Some:
  "(find_from nm i hfs = Some j) =
     (i \<le> j \<and> j - i < length hfs \<and> name_matches nm (hfs ! (j - i)) \<and>
      (\<forall>k < j - i. \<not> name_matches nm (hfs ! k)))"
proof (induction hfs arbitrary: i)
  case (Cons hf hfs)
  show ?case
  proof (cases "name_matches nm hf")
    case True
    then have "find_from nm i (hf # hfs) = Some i" by (simp add: name_matches_def)
    moreover have "i < j \<Longrightarrow> \<exists>k < j - i. name_matches nm ((hf # hfs) ! k)"
      using True by (intro exI [of _ 0]) simp
    ultimately show ?thesis using True by (cases "j = i") (auto simp del: find_from.simps)
  next
    case False
    then have *: "find_from nm i (hf # hfs) = find_from nm (Suc i) hfs" by (simp add: name_matches_def)
    show ?thesis
    proof (cases "Suc i \<le> j")
      case True
      then obtain d where d: "j = Suc i + d" using le_Suc_ex by blast
      have "(\<forall>k < Suc d. \<not> name_matches nm ((hf # hfs) ! k)) = (\<forall>k < d. \<not> name_matches nm (hfs ! k))"
        using False by (auto simp: less_Suc_eq_0_disj)
      with d show ?thesis using Cons.IH [of "Suc i"] by (simp add: * del: find_from.simps)
    next
      case no: False
      then have "find_from nm (Suc i) hfs \<noteq> Some j" using Cons.IH [of "Suc i"] by blast
      with no False show ?thesis by (cases "j = i") (auto simp: * simp del: find_from.simps)
    qed
  qed
qed simp

definition fields_named :: "header \<Rightarrow> string \<Rightarrow> string list" where
  "fields_named h nm = map hf_value (filter (name_matches (Some nm)) (h_fields h))"

lemma field_value_hd: "field_value h nm = (case fields_named h nm of [] \<Rightarrow> None | v # _ \<Rightarrow> Some v)"
proof (cases "header_find h (Some nm) None")
  case None
  then have "\<forall>hf \<in> set (h_fields h). \<not> name_matches (Some nm) hf"
    by (simp add: header_find_def find_from_None)
  then have "fields_named h nm = []" by (simp add: fields_named_def filter_empty_conv)
  with None show ?thesis by (simp add: field_value_def)
next
  case (Some j)
  then have j: "j < length (h_fields h)" "name_matches (Some nm) (h_fields h ! j)"
      "\<forall>k < j. \<not> name_matches (Some nm) (h_fields h ! k)"
    by (auto simp: header_find_def find_from_Some)
  let ?P = "name_matches (Some nm)"
  have "filter ?P (take j (h_fields h)) = []"
    using j by (auto simp: filter_empty_conv in_set_conv_nth)
  then have "filter ?P (h_fields h) = h_fields h ! j # filter ?P (drop (Suc j) (h_fields h))"
    using j id_take_nth_drop [OF j(1)] by (metis append_Nil filter.simps(2) filter_append)
  with Some show ?thesis by (simp add: field_value_def fields_named_def)
qed

lemma fields_named_new: "fields_named (header_field_new h nm v) nm' =
    fields_named h nm' @ (if strcasecmp_eq nm nm' then [v] else [])"
  by (simp add: fields_named_def header_field_new_def header_field_ctor_def name_matches_def
      strcasecmp_eq_def str_tolower_def comp_def)

section \<open>Reading a header back\<close>

definition readable :: "header \<Rightarrow> bool" where
  "readable h \<longleftrightarrow> wf_header h \<and> length (h_fields h) < MAX_HEADER_LINES \<and>
     list_all (\<lambda>hf. length (field_dump hf) \<le> MAX_HEADLINE_LENGTH \<and>
        NUL \<notin> set (hf_name hf) \<and> NUL \<notin> set (hf_value hf)) (h_fields h)"

lemma field_dump_snoc: "field_dump hf = (hf_name hf @ '': '' @ hf_value hf) @ [NL]"
  by (simp add: field_dump_def)

lemma read_line_field:
  assumes "wf_field hf" "length (field_dump hf) \<le> MAX_HEADLINE_LENGTH"
  shows "read_line s MAX_HEADLINE_LENGTH (map Got (field_dump hf) @ rest) = (s @ field_dump hf, None, rest)"
proof -
  let ?l = "hf_name hf @ '': '' @ hf_value hf"
  have "\<forall>c \<in> set ?l. c \<noteq> NL \<and> c \<noteq> CR"
    using assms(1) canon_no_eol [of "hf_name hf"] canon_no_eol [of "hf_value hf"]
    by (auto simp: wf_field_def wf_name_def iseol_def)
  moreover have "length ?l < MAX_HEADLINE_LENGTH" using assms(2) by (simp add: field_dump_def)
  ultimately show ?thesis
    unfolding read_line_def field_dump_snoc using line_loop_plain [of ?l s "length s"] by simp
qed

lemma field_dump_not_blank: "wf_field hf \<Longrightarrow> \<not> line_match (field_dump hf) []"
  by (simp add: line_match_def field_dump_def)

lemma header_read_loop_dump:
  assumes "list_all wf_field hfs" "length hfs < l"
    "list_all (\<lambda>hf. length (field_dump hf) \<le> MAX_HEADLINE_LENGTH) hfs"
  shows "header_read_loop l vb n (map Got (concat (map field_dump hfs) @ [NL]) @ rest) =
    (vb @ concat (map field_dump hfs), Suc (n + length hfs), True, rest)"
  using assms
proof (induction hfs arbitrary: l vb n)
  case Nil
  then obtain l' where "l = Suc l'" by (cases l) auto
  moreover have "read_line vb MAX_HEADLINE_LENGTH (Got NL # rest) = (vb @ [NL], None, rest)"
    using line_loop_plain [of "[]" vb "length vb"] by (simp add: read_line_def MAX_HEADLINE_LENGTH_def)
  ultimately show ?case by (simp add: header_read_loop.simps [of "Suc l'"] line_match_def)
next
  case (Cons hf hfs)
  then obtain l' where "l = Suc l'" by (cases l) auto
  with Cons read_line_field [of hf vb] field_dump_not_blank [of hf] show ?case
    by (simp add: header_read_loop.simps [of "Suc l'"])
qed

lemma cstr_id: "NUL \<notin> set s \<Longrightarrow> cstr s = s"
  by (auto simp: cstr_def takeWhile_eq_all_conv)

lemma header_read_dump_lemma:
  assumes "readable h"
  shows "header_read h0 (map Got (header_dump h) @ rest) =
    Done ((h0\<lparr>h_fields := h_fields h0 @ h_fields h\<rparr>, None), rest)"
proof -
  let ?d = "concat (map field_dump (h_fields h))"
  have wf: "list_all wf_field (h_fields h)" using assms by (simp add: readable_def wf_header_def)
  have "header_read_loop MAX_HEADER_LINES [] 0 (map Got (?d @ [NL]) @ rest) =
      ([] @ ?d, Suc (0 + length (h_fields h)), True, rest)"
    using assms wf by (intro header_read_loop_dump) (auto simp: readable_def list_all_iff)
  moreover have "cstr ?d = ?d"
    using assms by (intro cstr_id) (auto simp: readable_def list_all_iff field_dump_def)
  moreover have "header_parse h0 ?d = Done (length ?d, h0\<lparr>h_fields := h_fields h0 @ h_fields h\<rparr>, None)"
    using header_parse_loop_dump [OF wf, of "[]" h0 0] by (simp add: header_parse_def)
  ultimately show ?thesis by (simp add: header_read_def header_dump_def)
qed

section \<open>Parameters\<close>

lemma find_delim_plain:
  "DQ \<notin> set v \<Longrightarrow> CHR '';'' \<notin> set v \<Longrightarrow> find_delim False (v @ t) = find_delim False t"
  by (induction v) auto

lemma skip_sp_id: "s = [] \<or> hd s \<noteq> SP \<Longrightarrow> skip_sp s = s"
  by (cases s) (auto simp: skip_sp_def)

lemma skip_sp_Cons_SP [simp]: "skip_sp (SP # s) = skip_sp s"
  by (simp add: skip_sp_def)

lemma parameter_find_first:
  assumes "DQ \<notin> set v" "CHR '';'' \<notin> set v" "hd (p @ ''='') \<noteq> SP" "t = [] \<or> (hd t \<noteq> SP \<and> hd t \<noteq> DQ)"
  shows "parameter_find (v @ ''; '' @ p @ ''='' @ t) p = (length (takeWhile (\<lambda>c. c \<noteq> CHR '';'') t), Some t)"
proof -
  have f: "find_next_param_delim (v @ ''; '' @ p @ ''='' @ t) = ''; '' @ p @ ''='' @ t"
    using assms(1,2) find_delim_plain by (simp add: find_next_param_delim_def)
  have s2: "skip_sp (SP # p @ ''='' @ t) = p @ ''='' @ t"
    using assms(3) skip_sp_id [of "p @ ''='' @ t"] by (cases p) auto
  have s3: "skip_sp (CHR ''='' # t) = CHR ''='' # t" "skip_sp t = t" using assms(4) by (auto intro!: skip_sp_id)
  have s4: "take (Suc 0) t \<noteq> [DQ]" using assms(4) by (cases t) auto
  from f s2 s3 s4 show ?thesis
    by (subst parameter_find.simps) (simp add: strncasecmp_pre_def Let_def)
qed

lemma drop_split_append: "i < length (take m s) \<Longrightarrow> drop i (take m s) @ drop m s = drop i s"
  by (metis append_take_drop_id drop_append diff_is_0_eq' drop_0 less_imp_le_nat)

section \<open>Properties\<close>

text \<open>\<open>parse\<close> never fails its assertions: it stops at the first delimiter, returns the number
  of characters before it and, unless they are all white space, those characters with runs
  of white space replaced by one space and the outer ones removed; it raises an error
  exactly when the text holds no delimiter.\<close>

theorem parse_spec:
  "(parse msg isd = Done (n, v) \<longleftrightarrow>
      n \<le> length msg \<and> isd (drop n msg) \<and> (\<forall>i < n. \<not> isd (drop i msg)) \<and>
      v = (let s = compact (take n msg) in if s = [] then None else Some s)) \<and>
   ((\<exists>e. parse msg isd = Raised e) \<longleftrightarrow> (\<forall>i \<le> length msg. \<not> isd (drop i msg))) \<and>
   parse msg isd \<noteq> Crash"
proof (cases "\<exists>i \<le> length msg. isd (drop i msg)")
  case True
  define m where "m = (LEAST i. isd (drop i msg))"
  from True have m: "m \<le> length msg" "isd (drop m msg)" "\<And>i. i < m \<Longrightarrow> \<not> isd (drop i msg)"
    by (auto simp: m_def intro: LeastI dest: not_less_Least) (meson Least_le order_trans)
  have "\<forall>i < length (take m msg). \<not> isd (drop i (take m msg) @ drop m msg)"
    using m by (simp add: drop_split_append)
  with m have P: "parse msg isd = Done (m, let s = compact (take m msg) in if s = [] then None else Some s)"
    using parse_run [of "take m msg" isd "drop m msg"] by (simp add: Let_def)
  have "n = m" if "isd (drop n msg)" "\<forall>i < n. \<not> isd (drop i msg)"
    using m that by (metis linorder_neqE_nat)
  with m P show ?thesis by auto
next
  case False
  have "parse_loop isd msg True [] 0 \<noteq> Inr (n, a)" for n a
  proof
    assume "parse_loop isd msg True [] 0 = Inr (n, a)"
    from parse_loop_Inr [OF this] obtain s t where "msg = s @ t" "isd t" by blast
    with False show False by (auto dest: spec [of _ "length s"])
  qed
  then obtain e where "parse_loop isd msg True [] 0 = Inl e" by (cases "parse_loop isd msg True [] 0") auto
  with False show ?thesis by (auto simp: parse_def)
qed

theorem parse_spec_witness:
  "parse ''Sc  Type : dir'' is_end_of_name = Done (9, Some ''Sc Type'') \<and>
   is_end_of_name (drop 9 ''Sc  Type : dir'') \<and> parse ''no end'' is_end_of_name \<noteq> Crash"
proof -
  have "parse ''Sc  Type : dir'' is_end_of_name = Done (9, Some ''Sc Type'')" by code_simp
  with parse_spec [of "''Sc  Type : dir''" is_end_of_name 9 "Some ''Sc Type''"]
    parse_spec [of "''no end''" is_end_of_name]
  show ?thesis by blast
qed



text \<open>Parsing normalises: whatever text \<open>header_parse\<close> reads into a fresh header, stopping
  at the end, at a blank line or at an error, the header it leaves has canonical fields
  only, and printing that header and parsing the result gives the same header again.\<close>

theorem header_parse_normalises:
  assumes "header_parse header_new msg = Done (n, h, e)"
  shows "wf_header h \<and>
    header_parse header_new (header_dump h) = Done (length (header_dump h) - 1, h, None)"
proof -
  from header_parse_loop_wf assms have "wf_header h" "h_count h = 1"
    by (auto simp: header_parse_def header_new_def wf_header_def)
  with header_parse_dump [of h header_new] show ?thesis by (simp add: header_new_def)
qed

theorem header_parse_normalises_witness:
  "header_parse header_new ''Sc-Type:  my\<newline> dir \<newline>\<newline>x'' =
     Done (19, \<lparr>h_fields = [\<lparr>hf_name = ''sc-type'', hf_value = ''my dir''\<rparr>], h_count = 1\<rparr>, None) \<and>
   wf_header \<lparr>h_fields = [\<lparr>hf_name = ''sc-type'', hf_value = ''my dir''\<rparr>], h_count = 1\<rparr>"
proof -
  have "header_parse header_new ''Sc-Type:  my\<newline> dir \<newline>\<newline>x'' =
     Done (19, \<lparr>h_fields = [\<lparr>hf_name = ''sc-type'', hf_value = ''my dir''\<rparr>], h_count = 1\<rparr>, None)"
    by code_simp
  with header_parse_normalises [OF this] show ?thesis by blast
qed



text \<open>\<open>header_find\<close> called again with the field it returned enumerates the fields of a name:
  it returns the first field after the previous one whose name equals the one asked for,
  case ignored, or any next field when no name is given, and NULL only if there is none.\<close>

theorem header_find_next:
  assumes "start = (case prev of None \<Rightarrow> 0 | Some p \<Rightarrow> Suc p)"
  shows "(case header_find h nm prev of
      None \<Rightarrow> \<forall>j < length (h_fields h). start \<le> j \<longrightarrow> \<not> name_matches nm (h_fields h ! j)
    | Some i \<Rightarrow> start \<le> i \<and> i < length (h_fields h) \<and> name_matches nm (h_fields h ! i) \<and>
        (\<forall>j. start \<le> j \<and> j < i \<longrightarrow> \<not> name_matches nm (h_fields h ! j)))"
proof (cases "header_find h nm prev")
  case None
  then have "\<forall>hf \<in> set (drop start (h_fields h)). \<not> name_matches nm hf"
    using assms by (simp add: header_find_def find_from_None Let_def)
  then have "\<forall>j < length (h_fields h). start \<le> j \<longrightarrow> \<not> name_matches nm (h_fields h ! j)"
    by (metis Cons_nth_drop_Suc drop_drop le_add_diff_inverse2 list.set_intros(1) in_set_dropD set_drop_subset_set_drop subsetD)
  with None show ?thesis by simp
next
  case (Some i)
  then have i: "start \<le> i" "i - start < length (drop start (h_fields h))"
      "name_matches nm (drop start (h_fields h) ! (i - start))"
      "\<forall>k < i - start. \<not> name_matches nm (drop start (h_fields h) ! k)"
    using assms by (simp_all add: header_find_def find_from_Some Let_def)
  have "\<not> name_matches nm (h_fields h ! j)" if "start \<le> j" "j < i" for j
    using i(2) i(4) [rule_format, of "j - start"] that by simp
  with i Some show ?thesis by simp
qed

theorem header_find_next_witness:
  "header_find \<lparr>h_fields = [header_field_ctor ''From'' ''a'', header_field_ctor ''To'' ''b'', header_field_ctor ''TO'' ''c''], h_count = 1\<rparr>
     (Some ''tO'') (Some 1) = Some 2 \<and> name_matches (Some ''tO'') (header_field_ctor ''TO'' ''c'')"
proof -
  have "header_find \<lparr>h_fields = [header_field_ctor ''From'' ''a'', header_field_ctor ''To'' ''b'', header_field_ctor ''TO'' ''c''], h_count = 1\<rparr>
     (Some ''tO'') (Some 1) = Some 2" by code_simp
  with header_find_next [of 2 "Some 1" "\<lparr>h_fields = [header_field_ctor ''From'' ''a'', header_field_ctor ''To'' ''b'', header_field_ctor ''TO'' ''c''], h_count = 1\<rparr>" "Some ''tO''"]
  show ?thesis by simp
qed

text \<open>Parameters of a field: when a value without semicolon or quote is followed by
  \<open>; name=text\<close>, \<open>parameter_extract\<close> returns the text up to the next semicolon, for a text
  that starts with neither a space nor a quote, and \<open>parameter_suppress\<close> gives the value
  back without its trailing spaces.\<close>

theorem parameter_roundtrip:
  assumes "DQ \<notin> set v" "CHR '';'' \<notin> set v" "p \<noteq> []" "hd p \<noteq> SP" "CHR '';'' \<notin> set w"
    "w = [] \<or> (hd w \<noteq> SP \<and> hd w \<noteq> DQ)" "t = [] \<or> hd t = CHR '';''"
  shows "parameter_extract (v @ ''; '' @ p @ ''='' @ w @ t) p = Some w \<and>
    parameter_suppress (v @ ''; '' @ p @ ''='' @ w @ t) = trim v"
proof
  have "w @ t = [] \<or> (hd (w @ t) \<noteq> SP \<and> hd (w @ t) \<noteq> DQ)" using assms(6,7) by (cases w) auto
  from parameter_find_first [OF assms(1,2) _ this, of p] assms(3,4)
  have "parameter_find (v @ ''; '' @ p @ ''='' @ w @ t) p =
      (length (takeWhile (\<lambda>c. c \<noteq> CHR '';'') (w @ t)), Some (w @ t))" by simp
  moreover have "takeWhile (\<lambda>c. c \<noteq> CHR '';'') (w @ t) = w"
    using assms(5,7) by (cases t) (auto simp: takeWhile_append)
  ultimately show "parameter_extract (v @ ''; '' @ p @ ''='' @ w @ t) p = Some w"
    by (simp add: parameter_extract_def)
  show "parameter_suppress (v @ ''; '' @ p @ ''='' @ w @ t) = trim v"
    using find_delim_plain [OF assms(1,2), of "''; '' @ p @ ''='' @ w @ t"]
    by (simp add: parameter_suppress_def find_next_param_delim_def Let_def trim_def)
qed

theorem parameter_roundtrip_witness:
  "parameter_extract ''x;  a=1; b=2'' ''B'' = Some ''2'' \<and>
   parameter_extract ''file ; name=a b; size=3'' ''name'' = Some ''a b'' \<and>
   parameter_suppress ''file ; name=a b; size=3'' = ''file''"
proof -
  have "parameter_extract ''x;  a=1; b=2'' ''B'' = Some ''2''" by code_simp
  with parameter_roundtrip [of "''file ''" "''name''" "''a b''" "''; size=3''"] show ?thesis
    by (simp add: trim_def isspace_def)
qed

end
