(* ===== verification/Cmd.thy ===== *)
theory Cmd
  imports Header
begin

text \<open>
  Command lines, after \<open>lib/cmd.c\<close> and \<open>include/scambio/cmd.h\<close>: a syntax is a list of definitions, a line is cut into tokens in
  place (a token is a position in the buffer, whose delimiters become NUL), an optional
  sequence number is read, the definition is looked for by keyword and by the sign of the
  sequence number, and arguments are counted and converted. The callback of a definition is
  represented by its name.
\<close>

section \<open>Data\<close>

definition CMD_MAX_ARGS :: nat where "CMD_MAX_ARGS = 64"
definition MAX_CMD_LINE :: nat where "MAX_CMD_LINE = PATH_MAX + 256"
definition SEQ_BUF_LEN :: nat where "SEQ_BUF_LEN = 21"

datatype mdir_cmd_arg_type = CMD_STRING | CMD_INTEGER

text \<open>Types past the declared ones are strings.\<close>

record mdir_cmd_def =
  keyword :: string
  cb :: string
  nb_arg_min :: nat
  nb_arg_max :: nat
  arg_types :: "mdir_cmd_arg_type list"
  negseq :: bool

datatype mdir_cmd_arg = ArgStr string | ArgInt int

record mdir_cmd =
  c_def :: mdir_cmd_def
  c_seq :: int
  c_args :: "mdir_cmd_arg list"

record mdir_syntax =
  defs :: "mdir_cmd_def list"
  no_answer_if_no_seqnum :: bool

definition mdir_syntax_ctor :: "bool \<Rightarrow> mdir_syntax" where
  "mdir_syntax_ctor b = \<lparr>defs = [], no_answer_if_no_seqnum = b\<rparr>"

definition mdir_syntax_register :: "mdir_syntax \<Rightarrow> mdir_cmd_def \<Rightarrow> mdir_syntax" where
  "mdir_syntax_register sy d = sy\<lparr>defs := d # defs sy\<rparr>"

definition mdir_syntax_unregister :: "mdir_syntax \<Rightarrow> mdir_cmd_def \<Rightarrow> mdir_syntax" where
  "mdir_syntax_unregister sy d = sy\<lparr>defs := remove1 d (defs sy)\<rparr>"

section \<open>Tokens\<close>

definition is_delimiter :: "char \<Rightarrow> bool" where
  "is_delimiter c \<longleftrightarrow> c = SP \<or> c = TAB \<or> c = NL \<or> c = CR \<or> c = NUL"

definition skip_to :: "(char \<Rightarrow> bool) \<Rightarrow> string \<Rightarrow> nat \<Rightarrow> nat" where
  "skip_to P s c = c + length (takeWhile P (drop c s))"

text \<open>The return value, the positions of the tokens counted, the buffer.\<close>

function tokenize_loop :: "string \<Rightarrow> nat \<Rightarrow> nat list \<Rightarrow> int \<times> nat list \<times> string" where
  "tokenize_loop b c toks =
     (if CMD_MAX_ARGS \<le> length toks then (- E2BIG, toks, b)
      else let c1 = skip_to is_delimiter b c in
        if length b \<le> c1 then (int (length toks), toks, b)
        else let c2 = skip_to (\<lambda>x. \<not> is_delimiter x) b c1 in
          if length b \<le> c2 then (int (length toks), toks, b)
          else tokenize_loop (b[c2 := NUL]) c2 (toks @ [c1]))"
  by pat_completeness auto
termination
  by (relation "measure (\<lambda>(b, c, toks). CMD_MAX_ARGS - length toks)") auto

declare tokenize_loop.simps [simp del]

definition tokenize :: "string \<Rightarrow> int \<times> nat list \<times> string" where
  "tokenize b = tokenize_loop b 0 []"

definition token_at :: "string \<Rightarrow> nat \<Rightarrow> string" where
  "token_at b p = cstr (drop p b)"

section \<open>Commands\<close>

definition same_keyword :: "string \<Rightarrow> string \<Rightarrow> bool" where
  "same_keyword a b = strcasecmp_eq a b"

text \<open>The tokens in excess are joined to the last argument by a space put before each of them.\<close>

fun swallow :: "nat \<Rightarrow> nat list \<Rightarrow> string \<Rightarrow> nat list \<times> string" where
  "swallow mx args b =
     (if length args \<le> mx then (args, b)
      else swallow mx (butlast args) (b[last args - 1 := SP]))"

declare swallow.simps [simp del]

definition transcode :: "mdir_cmd_arg_type list \<Rightarrow> nat \<Rightarrow> string \<Rightarrow> mdir_cmd_arg res" where
  "transcode types a s =
     (if a < length types \<and> types ! a = CMD_INTEGER then
        (case strtoll0 s of (i, rest) \<Rightarrow>
           if rest \<noteq> [] then Fail EINVAL ''is not integer'' else Inr (ArgInt i))
      else Inr (ArgStr s))"

fun transcode_all :: "mdir_cmd_arg_type list \<Rightarrow> nat \<Rightarrow> string list \<Rightarrow> mdir_cmd_arg list res" where
  "transcode_all types a [] = Inr []"
| "transcode_all types a (s # ss) = (case transcode types a s of
     Inl e \<Rightarrow> Inl e
   | Inr x \<Rightarrow> (case transcode_all types (Suc a) ss of Inl e \<Rightarrow> Inl e | Inr xs \<Rightarrow> Inr (x # xs)))"

text \<open>
  \<open>types[nb_arg_max - 1]\<close> lies outside the array when the maximum is 0. The type of the last
  argument is a string when it is not declared.
\<close>

definition build_cmd :: "mdir_cmd_def \<Rightarrow> nat list \<Rightarrow> string \<Rightarrow> mdir_cmd_arg list outcome" where
  "build_cmd d args b =
     (if length args < nb_arg_min d then Raised (Err EDOM ''Bad nb args'')
      else
        obind (if nb_arg_max d < length args then
                 (if length (arg_types d) < nb_arg_max d then Done (swallow (nb_arg_max d) args b)
                  else if nb_arg_max d = 0 then Crash
                  else if arg_types d ! (nb_arg_max d - 1) = CMD_STRING then Done (swallow (nb_arg_max d) args b)
                  else Done (args, b))
               else Done (args, b))
          (\<lambda>(args, b). case transcode_all (arg_types d) 0 (map (token_at b) args) of
             Inl e \<Rightarrow> Raised e | Inr xs \<Rightarrow> Done xs))"

definition read_seq :: "string \<Rightarrow> int res" where
  "read_seq s = (case strtoll0 s of (i, rest) \<Rightarrow>
     if rest \<noteq> [] then Fail EINVAL ''Cannot read token'' else Inr i)"

definition is_seq :: "string \<Rightarrow> bool" where
  "is_seq s = (case s of [] \<Rightarrow> False
     | c # cs \<Rightarrow> isdigit c \<or> (c = CHR ''-'' \<and> (case cs of [] \<Rightarrow> False | d # _ \<Rightarrow> isdigit d)))"

definition find_def :: "mdir_cmd_def list \<Rightarrow> int \<Rightarrow> string \<Rightarrow> mdir_cmd_def option" where
  "find_def ds seq kw = find (\<lambda>d. \<not> (seq < 0 \<and> \<not> negseq d) \<and> \<not> (seq > 0 \<and> negseq d) \<and> same_keyword (keyword d) kw) ds"

text \<open>
  The line once read. When there are too many tokens the count is negative, and the number of
  arguments computed from it wraps to a huge unsigned number: the arguments are then read
  and written outside the array.
\<close>

definition parse_tokens :: "mdir_syntax \<Rightarrow> string \<Rightarrow> mdir_cmd outcome" where
  "parse_tokens sy line = (case tokenize line of (nb_tokens, toks, b) \<Rightarrow>
     if nb_tokens = 0 then Raised (Err EINVAL ''No token found on line'')
     else let with_seq = is_seq (token_at b (toks ! 0)) in
       if with_seq \<and> nb_tokens < 2 then Raised (Err EINVAL ''Bad number of tokens'')
       else let kw = token_at b (toks ! (if with_seq then 1 else 0)) in
         case (if with_seq then read_seq (token_at b (toks ! 0)) else Inr 0) of
           Inl e \<Rightarrow> Raised e
         | Inr seq \<Rightarrow> (case find_def (defs sy) seq kw of
              None \<Rightarrow> Raised (Err ENOENT ''No such keyword'')
            | Some d \<Rightarrow>
                if nb_tokens < 0 then Crash
                else obind (build_cmd d (drop (if with_seq then 2 else 1) toks) b) (\<lambda>xs.
                  Done \<lparr>c_def = d, c_seq = \<bar>seq\<bar>, c_args = xs\<rparr>)))"

definition parse_line :: "mdir_syntax \<Rightarrow> input \<Rightarrow> mdir_cmd outcome \<times> input" where
  "parse_line sy inp = (case read_line [] MAX_CMD_LINE inp of
     (line, Some e, inp) \<Rightarrow> (Raised e, inp)
   | (line, None, inp) \<Rightarrow> (parse_tokens sy line, inp))"

text \<open>\<open>mdir_cmd_read\<close>: the command whose callback is called, if no error is pending.\<close>

definition mdir_cmd_read :: "mdir_syntax \<Rightarrow> input \<Rightarrow> mdir_cmd outcome \<times> input" where
  "mdir_cmd_read sy inp = parse_line sy inp"

text \<open>\<open>sizeof (buf)\<close> is the size of a pointer, for \<open>buf\<close> is a parameter.\<close>

definition mdir_cmd_seq2str :: "int \<Rightarrow> string" where
  "mdir_cmd_seq2str seq = take (8 - 1) (dec_int seq)"

section \<open>Lines of words\<close>

text \<open>
  A line as the peers print it: words, each followed by one delimiter. \<open>offsets\<close> are the
  positions of the words, and after the tokenizer each delimiter is a NUL.
\<close>

definition word_ok :: "string \<Rightarrow> bool" where
  "word_ok w \<longleftrightarrow> w \<noteq> [] \<and> (\<forall>c \<in> set w. \<not> is_delimiter c)"

definition spaced :: "(string \<times> char) list \<Rightarrow> string" where
  "spaced xs = concat (map (\<lambda>(w, d). w @ [d]) xs)"

fun offsets :: "nat \<Rightarrow> (string \<times> char) list \<Rightarrow> nat list" where
  "offsets k [] = []"
| "offsets k (x # xs) = k # offsets (k + length (fst x) + 1) xs"

definition nulled :: "(string \<times> char) list \<Rightarrow> (string \<times> char) list" where
  "nulled xs = map (\<lambda>(w, d). (w, NUL)) xs"

lemma spaced_simps [simp]:
  "spaced [] = []" "spaced ((w, d) # xs) = w @ d # spaced xs"
  "spaced (xs @ ys) = spaced xs @ spaced ys"
  by (simp_all add: spaced_def)

lemma nulled_simps [simp]:
  "nulled [] = []" "nulled ((w, d) # xs) = (w, NUL) # nulled xs"
  "nulled (xs @ ys) = nulled xs @ nulled ys" "length (nulled xs) = length xs"
  by (simp_all add: nulled_def)

lemma length_offsets [simp]: "length (offsets k xs) = length xs"
  by (induction xs arbitrary: k) auto

lemma is_delimiter_NUL [simp]: "is_delimiter NUL" "is_delimiter SP" "is_delimiter NL"
  by (simp_all add: is_delimiter_def)

lemma word_ok_no_NUL: "word_ok w \<Longrightarrow> NUL \<notin> set w"
  by (auto simp: word_ok_def is_delimiter_def)

lemma takeWhile_delims: "\<forall>c \<in> set (drop n pre). is_delimiter c \<Longrightarrow> n \<le> length pre \<Longrightarrow>
    takeWhile is_delimiter (drop n (pre @ s)) = drop n pre @ takeWhile is_delimiter s"
  by (simp add: takeWhile_append)

lemma tokenize_loop_words:
  assumes "list_all (\<lambda>(w, d). word_ok w \<and> is_delimiter d) xs"
    "\<forall>c \<in> set (drop n pre). is_delimiter c" "n \<le> length pre"
    "length toks + length xs \<le> CMD_MAX_ARGS"
  shows "\<exists>m pre'. pre' = pre @ spaced (nulled xs) \<and> m \<le> length pre' \<and> (\<forall>c \<in> set (drop m pre'). is_delimiter c) \<and>
    tokenize_loop (pre @ spaced xs @ suf) n toks = tokenize_loop (pre' @ suf) m (toks @ offsets (length pre) xs)"
  using assms
proof (induction xs arbitrary: n pre toks)
  case Nil
  then show ?case by auto
next
  case (Cons x xs)
  obtain w d where x: "x = (w, d)" by (cases x)
  from Cons.prems x have w: "word_ok w" "is_delimiter d" by auto
  let ?s = "spaced xs @ suf"
  let ?b = "pre @ w @ d # ?s"
  have "takeWhile is_delimiter (w @ d # ?s) = []"
    using w(1) by (cases w) (auto simp: word_ok_def)
  then have c1: "skip_to is_delimiter ?b n = length pre"
    using Cons.prems by (simp add: skip_to_def takeWhile_delims)
  have "takeWhile (\<lambda>x. \<not> is_delimiter x) (w @ d # ?s) = w"
    using w by (simp add: word_ok_def)
  then have c2: "skip_to (\<lambda>x. \<not> is_delimiter x) ?b (length pre) = length pre + length w"
    by (simp add: skip_to_def)
  have b: "?b[length pre + length w := NUL] = (pre @ w @ [NUL]) @ ?s"
    by (simp add: list_update_append)
  have "tokenize_loop ?b n toks = tokenize_loop ((pre @ w @ [NUL]) @ ?s) (length pre + length w) (toks @ [length pre])"
    using Cons.prems(4) c1 c2 b by (simp add: tokenize_loop.simps [of ?b] Let_def)
  moreover have "\<exists>m pre'. pre' = (pre @ w @ [NUL]) @ spaced (nulled xs) \<and> m \<le> length pre' \<and>
      (\<forall>c \<in> set (drop m pre'). is_delimiter c) \<and>
      tokenize_loop ((pre @ w @ [NUL]) @ spaced xs @ suf) (length pre + length w) (toks @ [length pre]) =
      tokenize_loop (pre' @ suf) m ((toks @ [length pre]) @ offsets (length (pre @ w @ [NUL])) xs)"
    by (rule Cons.IH) (use Cons.prems in \<open>auto simp: x\<close>)
  ultimately show ?case by (simp add: x add.assoc)
qed

lemma tokenize_spaced:
  assumes "list_all (\<lambda>(w, d). word_ok w \<and> is_delimiter d) xs" "length xs < CMD_MAX_ARGS"
  shows "tokenize (spaced xs) = (int (length xs), offsets 0 xs, spaced (nulled xs))"
proof -
  obtain m pre where p: "pre = spaced (nulled xs)" "m \<le> length pre" "\<forall>c \<in> set (drop m pre). is_delimiter c"
    "tokenize (spaced xs) = tokenize_loop pre m (offsets 0 xs)"
    using tokenize_loop_words [of xs 0 "[]" "[]" "[]"] assms by (auto simp: tokenize_def)
  then have "length (takeWhile is_delimiter (drop m pre)) = length pre - m"
    by (metis length_drop takeWhile_eq_all_conv)
  with p assms(2) show ?thesis by (simp add: tokenize_loop.simps [of "spaced (nulled xs)"] skip_to_def)
qed

lemma tokenize_too_many:
  assumes "list_all (\<lambda>(w, d). word_ok w \<and> is_delimiter d) xs" "length xs = CMD_MAX_ARGS"
  shows "tokenize (spaced xs @ suf) = (- E2BIG, offsets 0 xs, spaced (nulled xs) @ suf)"
  using tokenize_loop_words [of xs 0 "[]" "[]" suf] assms
  by (auto simp: tokenize_def tokenize_loop.simps [of "spaced (nulled xs) @ suf"])

lemma cstr_app: "NUL \<notin> set w \<Longrightarrow> cstr (w @ NUL # s) = w"
  by (induction w) (auto simp: cstr_def)

lemma token_at_app: "NUL \<notin> set w \<Longrightarrow> token_at (pre @ w @ NUL # s) (length pre) = w"
  by (simp add: token_at_def cstr_app)

lemma tokens_nulled:
  assumes "list_all (\<lambda>(w, d). NUL \<notin> set w) xs"
  shows "map (token_at (pre @ spaced (nulled xs))) (offsets (length pre) xs) = map fst xs"
  using assms
proof (induction xs arbitrary: pre)
  case (Cons x xs)
  obtain w d where x: "x = (w, d)" by (cases x)
  with Cons.IH [of "pre @ w @ [NUL]"] Cons.prems show ?case
    by (simp add: token_at_app add.assoc)
qed simp

text \<open>The arguments past the last are joined to it by spaces.\<close>

fun join :: "string list \<Rightarrow> string" where
  "join [] = []"
| "join (w # ws) = w @ concat (map (\<lambda>v. SP # v) ws)"

lemma offsets_append: "offsets k (xs @ ys) = offsets k xs @ offsets (k + length (spaced xs)) ys"
  by (induction xs arbitrary: k) (auto simp: add.assoc)

lemma length_spaced_nulled [simp]: "length (spaced (nulled xs)) = length (spaced xs)"
  by (induction xs) auto

lemma swallow_excess:
  assumes "length args = mx"
  shows "swallow mx (args @ offsets (length b + 1) es) (b @ concat (map (\<lambda>e. NUL # fst e) es) @ suf) =
    (args, b @ concat (map (\<lambda>e. SP # fst e) es) @ suf)"
proof (induction es arbitrary: suf rule: rev_induct)
  case Nil
  then show ?case by (simp add: swallow.simps [of mx] assms)
next
  case (snoc e es)
  have len: "length (spaced es) = length (concat (map (\<lambda>e. NUL # fst e) es))" for es
    by (induction es) auto
  have "swallow mx (args @ offsets (length b + 1) (es @ [e])) (b @ concat (map (\<lambda>e. NUL # fst e) (es @ [e])) @ suf)
      = swallow mx (args @ offsets (length b + 1) es)
          (b @ concat (map (\<lambda>e. NUL # fst e) es) @ (SP # fst e @ suf))"
    by (subst swallow.simps) (simp add: assms offsets_append len butlast_append list_update_append)
  with snoc.IH [of "SP # fst e @ suf"] show ?case by simp
qed

lemma spaced_nulled_Cons: "spaced (nulled (x # es)) = fst x @ concat (map (\<lambda>e. NUL # fst e) es) @ [NUL]"
  by (induction es arbitrary: x) (auto simp: split_paired_all)

text \<open>The arguments of a command defined by \<open>d\<close> from the words that follow its keyword.\<close>

definition args_of :: "mdir_cmd_def \<Rightarrow> string list \<Rightarrow> string list" where
  "args_of d ws = (if length ws \<le> nb_arg_max d then ws
     else take (nb_arg_max d - 1) ws @ [join (drop (nb_arg_max d - 1) ws)])"

definition swallows :: "mdir_cmd_def \<Rightarrow> bool" where
  "swallows d \<longleftrightarrow> 0 < nb_arg_max d \<and>
     (length (arg_types d) < nb_arg_max d \<or> arg_types d ! (nb_arg_max d - 1) = CMD_STRING)"

lemma swallowed_tokens:
  assumes "list_all (\<lambda>(w, d). NUL \<notin> set w) xs" "0 < nb_arg_max d" "nb_arg_max d < length xs"
    "swallow (nb_arg_max d) (offsets (length pre) xs) (pre @ spaced (nulled xs)) = (as, b)"
  shows "map (token_at b) as = args_of d (map fst xs)"
proof -
  obtain m where m: "nb_arg_max d = Suc m" using assms(2) by (cases "nb_arg_max d") auto
  define ys where "ys = take m xs"
  from assms(3) m obtain x es where xs: "xs = ys @ x # es" and es: "length ys = m"
    unfolding ys_def by (metis Suc_lessD append_take_drop_id Cons_nth_drop_Suc length_take min.absorb4)
  let ?b = "pre @ spaced (nulled ys) @ fst x"
  have "swallow (Suc m) ((offsets (length pre) (ys @ [x])) @ offsets (length ?b + 1) es)
      (?b @ concat (map (\<lambda>e. NUL # fst e) es) @ [NUL]) =
      (offsets (length pre) (ys @ [x]), ?b @ concat (map (\<lambda>e. SP # fst e) es) @ [NUL])"
    by (rule swallow_excess) (simp add: es)
  moreover have "offsets (length pre) xs = (offsets (length pre) (ys @ [x])) @ offsets (length ?b + 1) es"
    by (simp add: xs offsets_append add.assoc)
  moreover have "pre @ spaced (nulled xs) = ?b @ concat (map (\<lambda>e. NUL # fst e) es) @ [NUL]"
    using spaced_nulled_Cons [of x es] by (simp add: xs)
  ultimately have ab: "as = offsets (length pre) (ys @ [x])"
    "b = pre @ spaced (nulled (ys @ [(join (map fst (x # es)), SP)]))"
    using assms(4) m by (auto simp: comp_def)
  have "offsets (length pre) (ys @ [x]) = offsets (length pre) (ys @ [(join (map fst (x # es)), SP)])"
    by (simp add: offsets_append)
  moreover have "NUL \<notin> set (join (map fst (x # es)))" using assms(1) by (auto simp: xs list_all_iff)
  ultimately have "map (token_at b) as = map fst (ys @ [(join (map fst (x # es)), SP)])"
    using assms(1) ab tokens_nulled [of "ys @ [(join (map fst (x # es)), SP)]" pre]
    by (simp add: xs list_all_iff)
  then show ?thesis using assms(3) by (simp add: args_of_def m xs es)
qed

lemma build_cmd_spaced:
  assumes "list_all (\<lambda>(w, d). NUL \<notin> set w) xs" "nb_arg_min d \<le> length xs"
    "nb_arg_max d < length xs \<longrightarrow> swallows d"
  shows "build_cmd d (offsets (length pre) xs) (pre @ spaced (nulled xs)) =
    (case transcode_all (arg_types d) 0 (args_of d (map fst xs)) of Inl e \<Rightarrow> Raised e | Inr as \<Rightarrow> Done as)"
proof (cases "nb_arg_max d < length xs")
  case False
  with assms tokens_nulled [OF assms(1), of pre] show ?thesis
    by (simp add: build_cmd_def args_of_def)
next
  case True
  obtain as b where sw: "swallow (nb_arg_max d) (offsets (length pre) xs) (pre @ spaced (nulled xs)) = (as, b)"
    by fastforce
  have "map (token_at b) as = args_of d (map fst xs)"
    using swallowed_tokens [OF assms(1) _ True sw] assms(3) True by (simp add: swallows_def)
  with sw assms True show ?thesis by (auto simp: build_cmd_def swallows_def)
qed

definition with_args :: "mdir_cmd_def \<Rightarrow> int \<Rightarrow> string list \<Rightarrow> mdir_cmd outcome" where
  "with_args d seq ws = (if length ws < nb_arg_min d then Raised (Err EDOM ''Bad nb args'')
     else case transcode_all (arg_types d) 0 (args_of d ws) of
       Inl e \<Rightarrow> Raised e | Inr as \<Rightarrow> Done \<lparr>c_def = d, c_seq = \<bar>seq\<bar>, c_args = as\<rparr>)"

lemma word_okI: "list_all (\<lambda>(w, d). word_ok w \<and> is_delimiter d) xs \<Longrightarrow> list_all (\<lambda>(w, d). NUL \<notin> set w) xs"
  by (auto simp: list_all_iff word_ok_no_NUL)

lemma build_with_args:
  assumes "list_all (\<lambda>(w, d). word_ok w \<and> is_delimiter d) xs"
    "nb_arg_max d < length xs \<longrightarrow> swallows d"
  shows "obind (build_cmd d (offsets (length pre) xs) (pre @ spaced (nulled xs)))
      (\<lambda>as. Done \<lparr>c_def = d, c_seq = \<bar>seq\<bar>, c_args = as\<rparr>) = with_args d seq (map fst xs)"
proof (cases "nb_arg_min d \<le> length xs")
  case True
  then show ?thesis
    using build_cmd_spaced [OF word_okI [OF assms(1)] True assms(2)]
    by (auto simp: with_args_def split: sum.split)
qed (simp add: build_cmd_def with_args_def)

lemma parse_tokens_seq:
  assumes "list_all (\<lambda>(w, d). word_ok w \<and> is_delimiter d) ((s, d0) # (kw, d1) # xs)"
    "length xs + 2 < CMD_MAX_ARGS" "is_seq s" "read_seq s = Inr seq" "find_def (defs sy) seq kw = Some d"
    "nb_arg_max d < length xs \<longrightarrow> swallows d"
  shows "parse_tokens sy (spaced ((s, d0) # (kw, d1) # xs)) = with_args d seq (map fst xs)"
proof -
  let ?pre = "s @ NUL # kw @ [NUL]"
  have t: "tokenize (spaced ((s, d0) # (kw, d1) # xs)) =
      (int (length xs + 2), 0 # (length s + 1) # offsets (length ?pre) xs, ?pre @ spaced (nulled xs))"
    using tokenize_spaced [OF assms(1)] assms(2) by (simp add: add.assoc)
  have n: "NUL \<notin> set s" "NUL \<notin> set kw" using assms(1) by (auto simp: word_ok_no_NUL)
  have "token_at (?pre @ spaced (nulled xs)) 0 = s" "token_at (?pre @ spaced (nulled xs)) (length s + 1) = kw"
    using token_at_app [OF n(1), of "[]"] token_at_app [OF n(2), of "s @ [NUL]"] by simp_all
  with t assms(3-5) build_with_args [of xs d ?pre seq] assms(1,6) show ?thesis
    by (simp add: parse_tokens_def)
qed

lemma parse_tokens_no_seq:
  assumes "list_all (\<lambda>(w, d). word_ok w \<and> is_delimiter d) ((kw, d1) # xs)"
    "length xs + 1 < CMD_MAX_ARGS" "\<not> is_seq kw" "find_def (defs sy) 0 kw = Some d"
    "nb_arg_max d < length xs \<longrightarrow> swallows d"
  shows "parse_tokens sy (spaced ((kw, d1) # xs)) = with_args d 0 (map fst xs)"
proof -
  let ?pre = "kw @ [NUL]"
  have t: "tokenize (spaced ((kw, d1) # xs)) =
      (int (length xs + 1), 0 # offsets (length ?pre) xs, ?pre @ spaced (nulled xs))"
    using tokenize_spaced [OF assms(1)] assms(2) by simp
  have "NUL \<notin> set kw" using assms(1) by (auto simp: word_ok_no_NUL)
  then have "token_at (?pre @ spaced (nulled xs)) 0 = kw" using token_at_app [of kw "[]"] by simp
  with t assms(3,4) build_with_args [of xs d ?pre 0] assms(1,5) show ?thesis
    by (simp add: parse_tokens_def)
qed

section \<open>Properties\<close>

text \<open>C23. A line made of words, each followed by one delimiter, fewer than 64 of them, is
  parsed as the protocol means it: with a first word that is a number the definition is the
  first one registered for the second word and the sign of the number, otherwise for the first
  word; the following words are the arguments, the words in excess being joined by spaces to
  the last argument when it is a string; missing arguments and arguments that are not the
  integers they should be are errors.\<close>

theorem parse_tokens_words:
  assumes "list_all (\<lambda>(w, d). word_ok w \<and> is_delimiter d) xs" "length xs < CMD_MAX_ARGS"
  shows "(xs = (s, d0) # (kw, d1) # ys \<and> is_seq s \<and> read_seq s = Inr seq \<and>
        find_def (defs sy) seq kw = Some d \<and> (nb_arg_max d < length ys \<longrightarrow> swallows d) \<longrightarrow>
      parse_tokens sy (spaced xs) = with_args d seq (map fst ys)) \<and>
    (xs = (kw, d1) # ys \<and> \<not> is_seq kw \<and>
        find_def (defs sy) 0 kw = Some d \<and> (nb_arg_max d < length ys \<longrightarrow> swallows d) \<longrightarrow>
      parse_tokens sy (spaced xs) = with_args d 0 (map fst ys)) \<and>
    (xs = (kw, d1) # ys \<and> \<not> is_seq kw \<and> find_def (defs sy) 0 kw = None \<longrightarrow>
      parse_tokens sy (spaced xs) = Raised (Err ENOENT ''No such keyword''))"
proof -
  have "parse_tokens sy (spaced xs) = Raised (Err ENOENT ''No such keyword'')"
    if "xs = (kw, d1) # ys" "\<not> is_seq kw" "find_def (defs sy) 0 kw = None"
  proof -
    from assms(1) that(1) have "NUL \<notin> set kw" by (auto simp: word_ok_no_NUL)
    then have "token_at (kw @ NUL # spaced (nulled ys)) 0 = kw" using token_at_app [of kw "[]"] by simp
    with that tokenize_spaced [OF assms] show ?thesis by (simp add: parse_tokens_def)
  qed
  with assms parse_tokens_seq [of s d0 kw d1 ys seq sy d] parse_tokens_no_seq [of kw d1 ys sy d]
  show ?thesis by auto
qed

definition def_sub :: mdir_cmd_def where
  "def_sub = \<lparr>keyword = ''sub'', cb = ''exec_sub'', nb_arg_min = 2, nb_arg_max = 2,
     arg_types = [CMD_STRING, CMD_STRING], negseq = False\<rparr>"

definition def_quit :: mdir_cmd_def where
  "def_quit = \<lparr>keyword = ''quit'', cb = ''exec_quit'', nb_arg_min = 0, nb_arg_max = 0,
     arg_types = [], negseq = False\<rparr>"

theorem parse_tokens_words_witness:
  "parse_tokens \<lparr>defs = [def_quit, def_sub], no_answer_if_no_seqnum = True\<rparr> (''12 SUB a 5 x'' @ [NL]) =
     Done \<lparr>c_def = def_sub, c_seq = 12, c_args = [ArgStr ''a'', ArgStr ''5 x'']\<rparr>"
proof -
  let ?ys = "[(''a'', SP), (''5'', SP), (''x'', NL)]"
  let ?xs = "(''12'', SP) # (''SUB'', SP) # ?ys"
  let ?sy = "\<lparr>defs = [def_quit, def_sub], no_answer_if_no_seqnum = True\<rparr>"
  have 1: "list_all (\<lambda>(w, d). word_ok w \<and> is_delimiter d) ?xs" "length ?xs < CMD_MAX_ARGS" by code_simp+
  have 2: "is_seq ''12''" "read_seq ''12'' = Inr 12" by code_simp+
  have 3: "find_def (defs ?sy) 12 ''SUB'' = Some def_sub" by code_simp
  have 4: "swallows def_sub" "spaced ?xs = ''12 SUB a 5 x'' @ [NL]" by code_simp+
  have 5: "with_args def_sub 12 (map fst ?ys) = Done \<lparr>c_def = def_sub, c_seq = 12, c_args = [ArgStr ''a'', ArgStr ''5 x'']\<rparr>"
    by code_simp
  from parse_tokens_words [OF 1, of "''12''" SP "''SUB''" SP ?ys 12 ?sy def_sub] 2 3 4 5 show ?thesis by simp
qed

text \<open>Two lines leave defined behaviour. With 64 words or more the tokenizer returns
  an error number that the parser takes for a count, so that a known keyword makes it read and
  write outside its array of arguments. And a word after the keyword of a command that takes
  no argument makes it read \<open>types[-1]\<close>: a peer stops the server with \<open>quit x\<close>.\<close>

theorem parse_tokens_crash:
  assumes "list_all (\<lambda>(w, d). word_ok w \<and> is_delimiter d) ((kw, d0) # xs)"
    "\<not> is_seq kw" "find_def (defs sy) 0 kw = Some d"
  shows "(length xs + 1 = CMD_MAX_ARGS \<longrightarrow> parse_tokens sy (spaced ((kw, d0) # xs) @ rest) = Crash) \<and>
    (0 < length xs \<and> length xs + 1 < CMD_MAX_ARGS \<and> nb_arg_min d = 0 \<and> nb_arg_max d = 0 \<longrightarrow>
      parse_tokens sy (spaced ((kw, d0) # xs)) = Crash)"
proof -
  from assms(1) have "NUL \<notin> set kw" by (auto simp: word_ok_no_NUL)
  then have "token_at (kw @ NUL # b) 0 = kw" for b using token_at_app [of kw "[]"] by simp
  with assms tokenize_spaced [OF assms(1)] tokenize_too_many [OF assms(1), of rest] show ?thesis
    by (auto simp: parse_tokens_def build_cmd_def E2BIG_def)
qed

theorem parse_tokens_crash_witness:
  "parse_tokens \<lparr>defs = [def_quit, def_sub], no_answer_if_no_seqnum = True\<rparr> (''quit x'' @ [NL]) = Crash"
proof -
  let ?sy = "\<lparr>defs = [def_quit, def_sub], no_answer_if_no_seqnum = True\<rparr>"
  have 1: "list_all (\<lambda>(w, d). word_ok w \<and> is_delimiter d) ((''quit'', SP) # [(''x'', NL)])" "\<not> is_seq ''quit''"
    "find_def (defs ?sy) 0 ''quit'' = Some def_quit" by code_simp+
  have 2: "spaced ((''quit'', SP) # [(''x'', NL)]) = ''quit x'' @ [NL]" by code_simp
  from parse_tokens_crash [OF 1, of "[]"] show ?thesis unfolding 2 by (simp add: def_quit_def CMD_MAX_ARGS_def)
qed

end
