(* ===== verification/Cnx.thy ===== *)
theory Cnx
  imports Cmd
begin

text \<open>
  Connections, after \<open>lib/cnx.c\<close> and \<open>include/scambio/cnx.h\<close>: queries are numbered and remembered until
  their answer comes or they are found too old, answers are printed with the number of the
  query they answer. A connection is the record below, with the bytes written to its
  socket; \<open>broken\<close> is the error that writing raises on a connection that the peer has closed.
  A sent query is designated by its address, because it is embedded in a structure of the
  caller. The time is an argument of the operations that read the clock.
\<close>

section \<open>Data\<close>

definition kw_auth :: string where "kw_auth = ''auth''"
definition kw_put :: string where "kw_put = ''put''"
definition kw_rem :: string where "kw_rem = ''rem''"
definition kw_sub :: string where "kw_sub = ''sub''"
definition kw_unsub :: string where "kw_unsub = ''unsub''"
definition kw_quit :: string where "kw_quit = ''quit''"
definition kw_patch :: string where "kw_patch = ''patch''"

lemmas kw_defs = kw_auth_def kw_put_def kw_rem_def kw_sub_def kw_unsub_def kw_quit_def kw_patch_def

record mdir_sent_query =
  sq_addr :: nat
  sq_seq :: int
  sq_creation :: int

record mdir_cnx =
  connected :: bool
  next_seq_no :: int
  cnx_user :: "string option"
  cnx_syntax :: mdir_syntax
  sent_queries :: "mdir_sent_query list"
  is_client :: bool
  authed :: bool
  username :: "string option"
  sock_out :: string
  broken :: "int option"

definition cnx_ctor_common :: "mdir_syntax \<Rightarrow> bool \<Rightarrow> mdir_cnx" where
  "cnx_ctor_common sy cl = \<lparr>connected = False, next_seq_no = 1, cnx_user = None, cnx_syntax = sy, sent_queries = [],
     is_client = cl, authed = \<not> cl, username = None, sock_out = [], broken = None\<rparr>"

definition mdir_cnx_ctor_inbound :: "mdir_syntax \<Rightarrow> mdir_cnx" where
  "mdir_cnx_ctor_inbound sy = (cnx_ctor_common sy False)\<lparr>connected := True\<rparr>"

definition mdir_cnx_ctor_outbound :: "mdir_syntax \<Rightarrow> string option \<Rightarrow> mdir_cnx" where
  "mdir_cnx_ctor_outbound sy u = (cnx_ctor_common sy True)\<lparr>username := u\<rparr>"

definition mdir_cnx_dtor :: "mdir_cnx \<Rightarrow> mdir_cnx" where
  "mdir_cnx_dtor c = c\<lparr>connected := False, sent_queries := []\<rparr>"

definition MDIR_CNX_ANSW_REGISTER :: "string \<Rightarrow> string \<Rightarrow> mdir_cmd_def" where
  "MDIR_CNX_ANSW_REGISTER kw callback = \<lparr>keyword = kw, cb = callback, nb_arg_min = 1, nb_arg_max = 2,
     arg_types = [CMD_INTEGER, CMD_STRING], negseq = True\<rparr>"

section \<open>Queries\<close>

definition cnx_write :: "string \<Rightarrow> (mdir_cnx, unit) act" where
  "cnx_write s c = (case broken c of
     Some e \<Rightarrow> Done (c, Inl (Err e ''Cannot write'')) | None \<Rightarrow> Done (c\<lparr>sock_out := sock_out c @ s\<rparr>, Inr ()))"

text \<open>The line and the header that \<open>mdir_cnx_query\<close> sends.\<close>

definition query_text :: "int option \<Rightarrow> string \<Rightarrow> string list \<Rightarrow> header option \<Rightarrow> string" where
  "query_text seq kw params ho =
     (case seq of None \<Rightarrow> [] | Some s \<Rightarrow> mdir_cmd_seq2str s @ [SP]) @ kw @
     concat (map (\<lambda>p. SP # p) params) @ [NL] @ (case ho of None \<Rightarrow> [] | Some h \<Rightarrow> header_dump h)"

definition mdir_cnx_query :: "int \<Rightarrow> string \<Rightarrow> header option \<Rightarrow> nat option \<Rightarrow> string list \<Rightarrow> (mdir_cnx, unit) act" where
  "mdir_cnx_query now kw ho sq params c =
     (if \<not> connected c \<or> (\<not> authed c \<and> kw \<noteq> kw_auth) then Done (c, Inl (Err 0 ''cnx not useable yet''))
      else let seq = next_seq_no c; c = c\<lparr>next_seq_no := seq + 1\<rparr> in
        bnd (cnx_write (query_text (case sq of None \<Rightarrow> None | Some _ \<Rightarrow> Some seq) kw params ho))
          (\<lambda>_ c. case sq of
             None \<Rightarrow> Done (c, Inr ())
           | Some a \<Rightarrow> Done (c\<lparr>sent_queries := \<lparr>sq_addr = a, sq_seq = seq, sq_creation = now\<rparr> # sent_queries c\<rparr>, Inr ())) c)"

definition SQ_TIMEOUT :: int where "SQ_TIMEOUT = 20"

text \<open>The loop: the query found if any, and the queries that stay in the list.\<close>

fun retrieve :: "int \<Rightarrow> int \<Rightarrow> mdir_sent_query list \<Rightarrow> mdir_sent_query option \<times> mdir_sent_query list" where
  "retrieve now seq [] = (None, [])"
| "retrieve now seq (q # qs) =
     (if sq_seq q = seq then (Some q, qs)
      else case retrieve now seq qs of (r, qs') \<Rightarrow>
        (r, if sq_creation q + SQ_TIMEOUT < now then qs' else q # qs'))"

definition mdir_cnx_query_retrieve :: "int \<Rightarrow> mdir_cmd \<Rightarrow> (mdir_cnx, nat) act" where
  "mdir_cnx_query_retrieve now cmd c = (case retrieve now (c_seq cmd) (sent_queries c) of
     (Some q, qs) \<Rightarrow> Done (c\<lparr>sent_queries := qs\<rparr>, Inr (sq_addr q))
   | (None, qs) \<Rightarrow> Done (c\<lparr>sent_queries := qs\<rparr>, Inl (Err 0 ''Unexpected answer'')))"

section \<open>Answers\<close>

text \<open>
  What \<open>mdir_cnx_answer\<close> sends, possibly nothing. The reply is built in 512 bytes, but as many
  bytes as \<open>snprintf\<close> would have written are sent.
\<close>

definition answer_text :: "mdir_syntax \<Rightarrow> mdir_cmd \<Rightarrow> int \<Rightarrow> string \<Rightarrow> string outcome" where
  "answer_text sy cmd status compl =
     (if c_seq cmd = 0 \<and> no_answer_if_no_seqnum sy then Done []
      else let reply = (if c_seq cmd \<noteq> 0 then ''-'' @ dec_int (c_seq cmd) @ '' '' else []) @
                 keyword (c_def cmd) @ '' '' @ dec_int status @ '' '' @ compl @ [NL]
        in if length reply < 512 then Done reply
           else if length reply = 512 then Done (take 511 reply @ [NUL])
           else Crash)"

definition mdir_cnx_answer :: "mdir_cmd \<Rightarrow> int \<Rightarrow> string \<Rightarrow> (mdir_cnx, unit) act" where
  "mdir_cnx_answer cmd status compl c =
     (if \<not> connected c \<or> c_seq cmd < 0 then Crash
      else case answer_text (cnx_syntax c) cmd status compl of
        Done s \<Rightarrow> if s = [] then Done (c, Inr ()) else cnx_write s c
      | Raised e \<Rightarrow> Raised e
      | Crash \<Rightarrow> Crash)"

section \<open>Logging in\<close>

text \<open>
  The connecter thread once it has a socket. The definition of the answer is put in the syntax
  for the time of the exchange, but stays there when the exchange fails. \<open>answers\<close> is what the
  peer sends, \<open>other\<close> the callbacks of the other definitions of the syntax, \<open>load\<close> the loading
  of the user.
\<close>

definition auth_def :: mdir_cmd_def where
  "auth_def = MDIR_CNX_ANSW_REGISTER kw_auth ''auth_answ''"

definition status_of :: "mdir_cmd \<Rightarrow> int" where
  "status_of cmd = (case c_args cmd of ArgInt i # _ \<Rightarrow> i | _ \<Rightarrow> 0)"

definition auth_answ :: "int \<Rightarrow> mdir_cmd \<Rightarrow> (mdir_cnx, bool) act" where
  "auth_answ now cmd = bnd (mdir_cnx_query_retrieve now cmd) (\<lambda>_. ret (status_of cmd = 200))"

definition login ::
  "int \<Rightarrow> nat \<Rightarrow> input \<Rightarrow> (mdir_cmd \<Rightarrow> (mdir_cnx, unit) act) \<Rightarrow> (string \<Rightarrow> string res) \<Rightarrow> string \<Rightarrow> (mdir_cnx, unit) act" where
  "login now sq answers other load uname =
     bnd (\<lambda>c. ret () (c\<lparr>cnx_syntax := mdir_syntax_register (cnx_syntax c) auth_def\<rparr>)) (\<lambda>_.
     bnd (mdir_cnx_query now kw_auth None (Some sq) [uname]) (\<lambda>_.
     bnd (\<lambda>c. case fst (mdir_cmd_read (cnx_syntax c) answers) of
            Raised e \<Rightarrow> Done (c, Inl e)
          | Crash \<Rightarrow> Crash
          | Done cmd \<Rightarrow> if c_def cmd = auth_def then auth_answ now cmd c else bnd (other cmd) (\<lambda>_. ret False) c) (\<lambda>answered.
     bnd (\<lambda>c. ret () (c\<lparr>cnx_syntax := mdir_syntax_unregister (cnx_syntax c) auth_def\<rparr>)) (\<lambda>_ c.
       if \<not> answered then Done (c, Inl (Err 0 ''no answer to auth''))
       else case load uname of
         Inl e \<Rightarrow> Done (c, Inl e) | Inr u \<Rightarrow> Done (c\<lparr>cnx_user := Some u\<rparr>, Inr ())))))"

definition connecter_thread ::
  "int \<Rightarrow> nat \<Rightarrow> input \<Rightarrow> (mdir_cmd \<Rightarrow> (mdir_cnx, unit) act) \<Rightarrow> (string \<Rightarrow> string res) \<Rightarrow> mdir_cnx \<Rightarrow> mdir_cnx outcome" where
  "connecter_thread now sq answers other load c =
     (if connected c then Done c
      else let c = c\<lparr>connected := True, authed := False\<rparr> in
        case (case username c of None \<Rightarrow> ret () c | Some u \<Rightarrow> login now sq answers other load u c) of
          Done (c, Inr _) \<Rightarrow> Done (c\<lparr>authed := True\<rparr>)
        | Done (c, Inl e) \<Rightarrow> Done (c\<lparr>connected := False\<rparr>)
        | Raised e \<Rightarrow> Raised e
        | Crash \<Rightarrow> Crash)"

section \<open>Numbers printed and read\<close>

lemma dec_nat_first: "0 < n \<Longrightarrow> \<exists>d cs. 0 < d \<and> d < 10 \<and> dec_nat n = digit_char d # cs"
proof (induction n rule: dec_nat.induct)
  case (1 n)
  show ?case
  proof (cases "n < 10")
    case True
    with 1 show ?thesis by (auto simp: dec_nat.simps [of n])
  next
    case False
    then have "0 < n div 10" by simp
    with 1(1) [OF False] obtain d cs where "0 < d" "d < 10" "dec_nat (n div 10) = digit_char d # cs" by blast
    with False show ?thesis by (intro exI [of _ d]) (simp add: dec_nat.simps [of n])
  qed
qed

lemma digit_char_zero: "d < 10 \<Longrightarrow> digit_char d = CHR ''0'' \<Longrightarrow> d = 0"
  using digit_val_digit_char [of d] by simp

lemma base0_dec_nat: "0 < n \<Longrightarrow> base0 (dec_nat n) = (10, dec_nat n)"
proof -
  assume "0 < n"
  then obtain d cs where d: "0 < d" "d < 10" "dec_nat n = digit_char d # cs" using dec_nat_first by blast
  then have "digit_char d \<noteq> CHR ''0''" using digit_char_zero by blast
  with d show ?thesis by (auto simp: base0_def hex_prefix_def split: list.split)
qed

lemma strtoll0_dec_int:
  assumes "- (2 ^ 63) \<le> v" "v < 2 ^ 63"
  shows "strtoll0 (dec_int v) = (v, [])"
proof (cases "v = 0")
  case True
  have "strtoll0 (dec_int 0) = (0, [])" by code_simp
  with True show ?thesis by simp
next
  case False
  have s: "skip_sign (dec_int v) = (v < 0, dec_nat (nat \<bar>v\<bar>))"
    using skip_sign_digit [of "dec_nat (nat v)"] starts_digit_dec_nat' [of "nat v"] by (auto simp: dec_int_def)
  have "base0 (dec_nat (nat \<bar>v\<bar>)) = (10, dec_nat (nat \<bar>v\<bar>))" using False by (intro base0_dec_nat) simp
  moreover have "read_digits 10 0 (dec_nat (nat \<bar>v\<bar>)) = (nat \<bar>v\<bar>, [])" using read_digits_dec_nat [of "[]"] by simp
  ultimately show ?thesis using s assms by (auto simp: strtoll0_def)
qed

lemma digit_char_not_delim:
  assumes "d < 10"
  shows "\<not> is_delimiter (digit_char d)"
proof
  assume "is_delimiter (digit_char d)"
  then have "(of_char (digit_char d) :: nat) < 48" by (auto simp: is_delimiter_def simp del: of_char_digit_char)
  with assms show False by simp
qed

lemma word_ok_dec_int: "word_ok (dec_int v)"
proof -
  have "word_ok (dec_nat n)" for n
    using dec_nat_digits [of n] digit_char_not_delim by (auto simp: word_ok_def)
  then show ?thesis by (auto simp: dec_int_def word_ok_def is_delimiter_def)
qed

lemma is_seq_dec_int: "is_seq (dec_int v)"
proof -
  have "isdigit (digit_char d)" if "d < 10" for d using that by (simp add: isdigit_def)
  moreover obtain d cs where "d < 10" "dec_nat (nat \<bar>v\<bar>) = digit_char d # cs" using dec_nat_hd by blast
  ultimately show ?thesis by (auto simp: is_seq_def dec_int_def)
qed

lemma read_seq_dec_int: "- (2 ^ 63) \<le> v \<Longrightarrow> v < 2 ^ 63 \<Longrightarrow> read_seq (dec_int v) = Inr v"
  by (simp add: read_seq_def strtoll0_dec_int)

lemma seq2str_small:
  assumes "0 \<le> seq" "seq < 10 ^ 7"
  shows "mdir_cmd_seq2str seq = dec_int seq"
proof -
  have "nat seq < 10 ^ 7" using assms by simp
  from length_dec_nat [OF _ this] assms(1) show ?thesis by (simp add: mdir_cmd_seq2str_def dec_int_def)
qed

section \<open>Lines printed and read\<close>

fun ended :: "string list \<Rightarrow> (string \<times> char) list" where
  "ended [] = []"
| "ended [w] = [(w, NL)]"
| "ended (w # ws) = (w, SP) # ended ws"

lemma ended_props:
  "map fst (ended ws) = ws" "length (ended ws) = length ws"
  "list_all word_ok ws \<Longrightarrow> list_all (\<lambda>(w, d). word_ok w \<and> is_delimiter d) (ended ws)"
  by (induction ws rule: ended.induct) auto

lemma spaced_ended: "spaced (ended (w # ws)) = join (w # ws) @ [NL]"
  by (induction ws arbitrary: w) auto

lemma ended_Cons: "\<exists>d. ended (w # ws) = (w, d) # ended ws"
  by (cases ws) auto

lemma join_no_eol: "list_all word_ok ws \<Longrightarrow> \<forall>c \<in> set (join ws). c \<noteq> NL \<and> c \<noteq> CR"
  by (cases ws) (auto simp: list_all_iff word_ok_def is_delimiter_def)

lemma read_words:
  assumes "list_all word_ok ws" "length (join ws) < MAX_CMD_LINE"
  shows "mdir_cmd_read sy (map Got (join ws @ [NL]) @ rest) = (parse_tokens sy (join ws @ [NL]), rest)"
proof -
  have "\<forall>c \<in> set (join ws). c \<noteq> NL \<and> c \<noteq> CR" by (rule join_no_eol [OF assms(1)])
  from line_loop_plain [OF this, of "[]" 0 MAX_CMD_LINE rest] assms(2) show ?thesis
    by (simp add: mdir_cmd_read_def parse_line_def read_line_def)
qed

lemma read_seq_line:
  assumes "list_all word_ok (kw # ws)" "length (join (dec_int v # kw # ws)) < MAX_CMD_LINE"
    "length ws + 2 < CMD_MAX_ARGS" "- (2 ^ 63) \<le> v" "v < 2 ^ 63" "find_def (defs sy) v kw = Some d"
    "nb_arg_max d < length ws \<longrightarrow> swallows d"
  shows "mdir_cmd_read sy (map Got (join (dec_int v # kw # ws) @ [NL]) @ rest) = (with_args d v ws, rest)"
proof -
  have ok: "list_all word_ok (dec_int v # kw # ws)" using assms(1) word_ok_dec_int by simp
  obtain d0 d1 where e: "ended (dec_int v # kw # ws) = (dec_int v, d0) # (kw, d1) # ended ws"
    using ended_Cons [of "dec_int v" "kw # ws"] ended_Cons [of kw ws] by auto
  have "parse_tokens sy (spaced (ended (dec_int v # kw # ws))) = with_args d v (map fst (ended ws))"
    unfolding e
    by (rule parse_tokens_seq) (use ended_props(3) [OF ok] e assms ended_props is_seq_dec_int read_seq_dec_int in auto)
  then show ?thesis
    unfolding spaced_ended ended_props(1) using read_words [OF ok assms(2), of sy rest] by metis
qed

lemma read_plain_line:
  assumes "list_all word_ok (kw # ws)" "length (join (kw # ws)) < MAX_CMD_LINE" "\<not> is_seq kw"
    "length ws + 1 < CMD_MAX_ARGS" "find_def (defs sy) 0 kw = Some d" "nb_arg_max d < length ws \<longrightarrow> swallows d"
  shows "mdir_cmd_read sy (map Got (join (kw # ws) @ [NL]) @ rest) = (with_args d 0 ws, rest)"
proof -
  obtain d1 where e: "ended (kw # ws) = (kw, d1) # ended ws" using ended_Cons by blast
  have "parse_tokens sy (spaced (ended (kw # ws))) = with_args d 0 (map fst (ended ws))"
    unfolding e
    by (rule parse_tokens_no_seq) (use ended_props(3) [OF assms(1)] e assms ended_props in auto)
  then show ?thesis
    unfolding spaced_ended ended_props(1) using read_words [OF assms(1,2), of sy rest] by metis
qed

lemma transcode_strings: "CMD_INTEGER \<notin> set types \<Longrightarrow> transcode_all types a ss = Inr (map ArgStr ss)"
proof (induction ss arbitrary: a)
  case (Cons s ss)
  then show ?case by (auto simp: transcode_def) (metis nth_mem)
qed simp

lemma with_args_strings:
  assumes "CMD_INTEGER \<notin> set (arg_types d)" "nb_arg_min d \<le> length ws" "length ws \<le> nb_arg_max d"
  shows "with_args d seq ws = Done \<lparr>c_def = d, c_seq = \<bar>seq\<bar>, c_args = map ArgStr ws\<rparr>"
  using assms by (simp add: with_args_def args_of_def transcode_strings)

lemma query_text_join:
  assumes "0 \<le> seq" "seq < 10 ^ 7"
  shows "query_text (Some seq) kw params ho =
    join (dec_int seq # kw # params) @ [NL] @ (case ho of None \<Rightarrow> [] | Some h \<Rightarrow> header_dump h)"
  by (simp add: query_text_def seq2str_small [OF assms])

lemma mdir_cnx_query_ok:
  assumes "connected c" "authed c \<or> kw = kw_auth" "broken c = None"
  shows "mdir_cnx_query now kw ho (Some a) params c = Done
    (c\<lparr>next_seq_no := next_seq_no c + 1,
       sock_out := sock_out c @ query_text (Some (next_seq_no c)) kw params ho,
       sent_queries := \<lparr>sq_addr = a, sq_seq = next_seq_no c, sq_creation = now\<rparr> # sent_queries c\<rparr>, Inr ())"
  using assms by (auto simp: mdir_cnx_query_def cnx_write_def bnd_def Let_def)

lemma join_Cons: "ws \<noteq> [] \<Longrightarrow> join (w # ws) = w @ SP # join ws"
  by (cases ws) simp_all

lemma answer_text_join:
  assumes "0 < c_seq cmd" "ws \<noteq> []"
    "length (join (dec_int (- c_seq cmd) # keyword (c_def cmd) # dec_int status # ws)) < 511"
  shows "answer_text sy cmd status (join ws) =
    Done (join (dec_int (- c_seq cmd) # keyword (c_def cmd) # dec_int status # ws) @ [NL])"
proof -
  have m: "dec_int (- c_seq cmd) = CHR ''-'' # dec_int (c_seq cmd)" using assms(1) by (simp add: dec_int_def)
  have "join (dec_int (- c_seq cmd) # keyword (c_def cmd) # dec_int status # ws) =
      ''-'' @ dec_int (c_seq cmd) @ '' '' @ keyword (c_def cmd) @ '' '' @ dec_int status @ '' '' @ join ws"
    using assms(2) by (simp add: m join_Cons del: join.simps)
  with assms(1,3) show ?thesis by (simp add: answer_text_def Let_def del: join.simps)
qed

section \<open>Numbering\<close>

definition cnx_ok :: "mdir_cnx \<Rightarrow> bool" where
  "cnx_ok c \<longleftrightarrow> 0 < next_seq_no c \<and> distinct (map sq_seq (sent_queries c)) \<and>
     list_all (\<lambda>q. 0 < sq_seq q \<and> sq_seq q < next_seq_no c) (sent_queries c)"

lemma retrieve_props:
  assumes "retrieve now seq qs = (r, qs')" "distinct (map sq_seq qs)"
  shows "r = find (\<lambda>q. sq_seq q = seq) qs" "set qs' \<subseteq> set qs" "distinct (map sq_seq qs')"
    "q \<in> set qs \<Longrightarrow> sq_seq q \<noteq> seq \<Longrightarrow> now \<le> sq_creation q + SQ_TIMEOUT \<Longrightarrow> q \<in> set qs'"
    "q \<in> set qs' \<Longrightarrow> sq_seq q \<noteq> seq"
  using assms
proof (induction qs arbitrary: r qs')
  case (Cons x qs)
  obtain r1 q1 where r: "retrieve now seq qs = (r1, q1)" by fastforce
  {
    case 1
    with r Cons.IH(1) [OF r] show ?case by (auto split: if_splits)
  next
    case 2
    with r Cons.IH(2) [OF r] show ?case by (auto split: if_splits)
  next
    case 3
    from 3 have "sq_seq x \<notin> sq_seq ` set qs" by auto
    then have "sq_seq x \<notin> sq_seq ` set q1" using r Cons.IH(2) [OF r] 3 by auto
    with 3 r Cons.IH(3) [OF r] show ?case by (auto split: if_splits)
  next
    case 4
    with r Cons.IH(4) [OF _ _ _ r] show ?case by (auto split: if_splits)
  next
    case 5
    with r Cons.IH(5) [OF _ r] show ?case by (force split: if_splits)
  }
qed auto

lemma cnx_ok_next:
  assumes "cnx_ok c" "next_seq_no c' = next_seq_no c + 1"
    "sent_queries c' = sent_queries c \<or> sent_queries c' = \<lparr>sq_addr = a, sq_seq = next_seq_no c, sq_creation = now\<rparr> # sent_queries c"
  shows "cnx_ok c'"
  using assms by (auto simp: cnx_ok_def list_all_iff) fastforce+

lemma cnx_ok_query:
  assumes "cnx_ok c" "mdir_cnx_query now kw ho sq params c = Done (c', r)"
  shows "cnx_ok c'"
proof (cases "\<not> connected c \<or> (\<not> authed c \<and> kw \<noteq> kw_auth)")
  case True
  with assms show ?thesis by (auto simp: mdir_cnx_query_def)
next
  case False
  with assms(2) have "next_seq_no c' = next_seq_no c + 1" "sent_queries c' = sent_queries c \<or>
      sent_queries c' = \<lparr>sq_addr = the sq, sq_seq = next_seq_no c, sq_creation = now\<rparr> # sent_queries c"
    by (auto simp: mdir_cnx_query_def cnx_write_def bnd_def Let_def split: option.splits)
  with cnx_ok_next [OF assms(1)] show ?thesis by blast
qed

lemma find_seq:
  assumes "distinct (map sq_seq qs)" "q \<in> set qs"
  shows "find (\<lambda>p. sq_seq p = sq_seq q) qs = Some q"
  using assms by (induction qs) auto

section \<open>Properties\<close>


definition cnx_sample :: mdir_cnx where
  "cnx_sample = (mdir_cnx_ctor_outbound (mdir_syntax_ctor True) (Some ''bob''))\<lparr>connected := True, authed := True\<rparr>"


text \<open>An answer reaches the client as it was meant: the reply to a numbered command, with
  a status and a text made of words separated by single spaces, less than 511 bytes in all, is
  read by a client that has registered the answers to that keyword as the answer to the same
  number, with the status as an integer and the whole text as one string.\<close>

theorem answer_read:
  assumes "0 < c_seq cmd" "c_seq cmd < 2 ^ 63" "- (2 ^ 63) \<le> status" "status < 2 ^ 63" "ws \<noteq> []"
    "list_all word_ok (keyword (c_def cmd) # ws)" "length ws + 3 < CMD_MAX_ARGS"
    "length (join (dec_int (- c_seq cmd) # keyword (c_def cmd) # dec_int status # ws)) < 511"
    "find_def (defs sy) (- c_seq cmd) (keyword (c_def cmd)) = Some (MDIR_CNX_ANSW_REGISTER kw callback)"
    "connected c" "broken c = None"
  shows "\<exists>txt. mdir_cnx_answer cmd status (join ws) c = Done (c\<lparr>sock_out := sock_out c @ txt\<rparr>, Inr ()) \<and>
    mdir_cmd_read sy (map Got txt @ rest) =
      (Done \<lparr>c_def = MDIR_CNX_ANSW_REGISTER kw callback, c_seq = c_seq cmd, c_args = [ArgInt status, ArgStr (join ws)]\<rparr>, rest)"
proof -
  let ?d = "MDIR_CNX_ANSW_REGISTER kw callback" and ?k = "keyword (c_def cmd)"
  let ?txt = "join (dec_int (- c_seq cmd) # ?k # dec_int status # ws) @ [NL]"
  have d: "nb_arg_min ?d = 1" "nb_arg_max ?d = 2" "arg_types ?d = [CMD_INTEGER, CMD_STRING]" "swallows ?d"
    by (simp_all add: MDIR_CNX_ANSW_REGISTER_def swallows_def)
  have a: "args_of ?d (dec_int status # ws) = [dec_int status, join ws]"
    using assms(5) by (cases ws) (auto simp: args_of_def d)
  have "with_args ?d (- c_seq cmd) (dec_int status # ws) =
      Done \<lparr>c_def = ?d, c_seq = c_seq cmd, c_args = [ArgInt status, ArgStr (join ws)]\<rparr>"
    using assms(1,3,4) by (simp add: with_args_def a d transcode_def strtoll0_dec_int)
  moreover have "mdir_cmd_read sy (map Got ?txt @ rest) = (with_args ?d (- c_seq cmd) (dec_int status # ws), rest)"
    by (rule read_seq_line) (use assms word_ok_dec_int d in \<open>auto simp: MAX_CMD_LINE_def PATH_MAX_def\<close>)
  moreover have "mdir_cnx_answer cmd status (join ws) c = Done (c\<lparr>sock_out := sock_out c @ ?txt\<rparr>, Inr ())"
    using answer_text_join [OF assms(1,5,8)] assms(1,10,11)
    by (simp add: mdir_cnx_answer_def cnx_write_def del: join.simps)
  ultimately show ?thesis by metis
qed

theorem answer_read_witness:
  "\<exists>txt. mdir_cnx_answer \<lparr>c_def = def_sub, c_seq = 5, c_args = []\<rparr> 403 ''No read permission'' cnx_sample =
       Done (cnx_sample\<lparr>sock_out := sock_out cnx_sample @ txt\<rparr>, Inr ()) \<and>
     mdir_cmd_read \<lparr>defs = [MDIR_CNX_ANSW_REGISTER kw_sub ''finalize_sub''], no_answer_if_no_seqnum = True\<rparr> (map Got txt @ []) =
       (Done \<lparr>c_def = MDIR_CNX_ANSW_REGISTER kw_sub ''finalize_sub'', c_seq = 5, c_args = [ArgInt 403, ArgStr ''No read permission'']\<rparr>, [])"
proof -
  let ?cmd = "\<lparr>c_def = def_sub, c_seq = 5, c_args = []\<rparr>" and ?ws = "[''No'', ''read'', ''permission'']"
  let ?sy = "\<lparr>defs = [MDIR_CNX_ANSW_REGISTER kw_sub ''finalize_sub''], no_answer_if_no_seqnum = True\<rparr>"
  have 1: "0 < c_seq ?cmd" "c_seq ?cmd < 2 ^ 63" "- (2 ^ 63) \<le> (403::int)" "(403::int) < 2 ^ 63" "?ws \<noteq> []" by simp_all
  have 2: "list_all word_ok (keyword (c_def ?cmd) # ?ws)" "length ?ws + 3 < CMD_MAX_ARGS"
    "length (join (dec_int (- c_seq ?cmd) # keyword (c_def ?cmd) # dec_int 403 # ?ws)) < 511"
    "find_def (defs ?sy) (- c_seq ?cmd) (keyword (c_def ?cmd)) = Some (MDIR_CNX_ANSW_REGISTER kw_sub ''finalize_sub'')"
    by code_simp+
  have 3: "connected cnx_sample" "broken cnx_sample = None"
    by (simp_all add: cnx_sample_def mdir_cnx_ctor_outbound_def cnx_ctor_common_def)
  have j: "join ?ws = ''No read permission''" by simp
  from answer_read [OF 1 2 3, of "[]"] show ?thesis unfolding j by simp
qed

text \<open>C25. Answers find their query. The numbers of the pending queries of a connection stay
  positive, distinct and below the counter, through queries and answers; an answer returns the
  pending query of its number, which it removes, and an error, with the connection otherwise
  kept, when there is none; no other query is lost unless it is older than 20 seconds.\<close>

theorem cnx_numbering:
  assumes "cnx_ok c"
  shows "(mdir_cnx_query now kw ho sq params c = Done (c', r) \<longrightarrow> cnx_ok c') \<and>
    (\<exists>c'. mdir_cnx_query_retrieve now cmd c = Done (c', case find (\<lambda>q. sq_seq q = c_seq cmd) (sent_queries c) of
         Some q \<Rightarrow> Inr (sq_addr q) | None \<Rightarrow> Inl (Err 0 ''Unexpected answer'')) \<and> cnx_ok c' \<and>
      (\<forall>q \<in> set (sent_queries c). sq_seq q \<noteq> c_seq cmd \<and> now \<le> sq_creation q + SQ_TIMEOUT \<longrightarrow> q \<in> set (sent_queries c')) \<and>
      (\<forall>q \<in> set (sent_queries c'). q \<in> set (sent_queries c) \<and> sq_seq q \<noteq> c_seq cmd))"
proof -
  obtain r1 qs where r: "retrieve now (c_seq cmd) (sent_queries c) = (r1, qs)" by fastforce
  have dist: "distinct (map sq_seq (sent_queries c))" using assms by (simp add: cnx_ok_def)
  note p = retrieve_props(1-3) [OF r dist] retrieve_props(4,5) [OF r dist]
  have "cnx_ok (c\<lparr>sent_queries := qs\<rparr>)" using assms p(2,3) by (auto simp: cnx_ok_def list_all_iff)
  moreover have "mdir_cnx_query_retrieve now cmd c = Done (c\<lparr>sent_queries := qs\<rparr>,
      case find (\<lambda>q. sq_seq q = c_seq cmd) (sent_queries c) of
        Some q \<Rightarrow> Inr (sq_addr q) | None \<Rightarrow> Inl (Err 0 ''Unexpected answer''))"
    using r p(1) by (simp add: mdir_cnx_query_retrieve_def split: option.split)
  ultimately show ?thesis using cnx_ok_query [OF assms] p(2,4,5) by fastforce
qed

theorem cnx_numbering_witness:
  "\<exists>c1 c2. mdir_cnx_query 100 kw_sub None (Some 7) [''folder'', ''12''] cnx_sample = Done (c1, Inr ()) \<and> cnx_ok c1 \<and>
     mdir_cnx_query_retrieve 101 \<lparr>c_def = def_sub, c_seq = 1, c_args = []\<rparr> c1 = Done (c2, Inr 7)"
proof -
  have ok: "cnx_ok cnx_sample"
    by (simp add: cnx_ok_def cnx_sample_def mdir_cnx_ctor_outbound_def cnx_ctor_common_def)
  obtain c1 where q: "mdir_cnx_query 100 kw_sub None (Some 7) [''folder'', ''12''] cnx_sample = Done (c1, Inr ())"
    "sent_queries c1 = [\<lparr>sq_addr = 7, sq_seq = 1, sq_creation = 100\<rparr>]"
    using mdir_cnx_query_ok [of cnx_sample kw_sub 100 None 7]
    by (simp add: cnx_sample_def mdir_cnx_ctor_outbound_def cnx_ctor_common_def)
  have ok1: "cnx_ok c1"
    using cnx_numbering [OF ok, of 100 kw_sub None "Some 7" "[''folder'', ''12'']" c1 "Inr ()"] q(1) by blast
  from cnx_numbering [OF ok1, of 101 kw_sub None None "[]" c1 "Inr ()" "\<lparr>c_def = def_sub, c_seq = 1, c_args = []\<rparr>"]
    q ok1 show ?thesis by auto
qed

end
