(* ===== verification/Fs.thy ===== *)
theory Fs
  imports Header
begin

text \<open>
  The part of the POSIX file system the program uses: directories, regular files and symbolic
  links named by absolute paths, path resolution through intermediate links, and the system
  calls \<open>mkdir\<close>, \<open>open\<close>, \<open>creat\<close>, \<open>unlink\<close>, \<open>symlink\<close>, \<open>readlink\<close>, \<open>rename\<close> and the reading of a
  directory, each with the errors that depend on the tree alone. Failures of the device or of
  the host (\<open>EIO\<close>, \<open>ENOSPC\<close>, \<open>ENOMEM\<close>, limits on names, access modes) are not represented.
  On top of them: \<open>Mkdir\<close> and \<open>Mkdir_for_file\<close> of \<open>commons/misc.c\<close>, \<open>header_to_file\<close> and
  \<open>header_from_file\<close> of \<open>lib/header.c\<close>.
\<close>

section \<open>Trees\<close>

definition EISDIR :: int where "EISDIR = 21"
definition ENOTEMPTY :: int where "ENOTEMPTY = 39"

datatype node = Dir | Reg nat | Lnk string

text \<open>
  Entries in the order in which a directory lists them. \<open>pwrite_appends\<close> tells whether a
  positioned write on a descriptor in append mode goes to the end of the file, as it does
  on Linux and as an emulation of \<open>pwrite\<close> by \<open>lseek\<close> and \<open>write\<close> does, or to the position
  asked for, as POSIX specifies.
\<close>

record fs =
  ents :: "(string list \<times> node) list"
  idata :: "nat \<Rightarrow> string"
  next_ino :: nat
  pwrite_appends :: bool

fun split_on :: "string \<Rightarrow> string \<Rightarrow> string list" where
  "split_on acc [] = [acc]"
| "split_on acc (c # cs) = (if c = CHR ''/'' then acc # split_on [] cs else split_on (acc @ [c]) cs)"

definition comps :: "string \<Rightarrow> string list" where
  "comps s = filter (\<lambda>x. x \<noteq> [] \<and> x \<noteq> ''.'') (split_on [] s)"

definition node_at :: "fs \<Rightarrow> string list \<Rightarrow> node option" where
  "node_at fs p = (if p = [] then Some Dir else map_of (ents fs) p)"

text \<open>
  Resolution of the components left from a directory already resolved. The result names the
  last component, which may not exist; \<open>n\<close> is the number of links that may still be followed.
\<close>

function walk :: "nat \<Rightarrow> fs \<Rightarrow> bool \<Rightarrow> string list \<Rightarrow> string list \<Rightarrow> int + string list" where
  "walk n fs follow cur [] = Inr cur"
| "walk n fs follow cur (c # cs) =
     (if c = ''..'' then walk n fs follow (butlast cur) cs
      else case node_at fs (cur @ [c]) of
        None \<Rightarrow> if cs = [] then Inr (cur @ [c]) else Inl ENOENT
      | Some Dir \<Rightarrow> walk n fs follow (cur @ [c]) cs
      | Some (Reg i) \<Rightarrow> if cs = [] then Inr (cur @ [c]) else Inl ENOTDIR
      | Some (Lnk t) \<Rightarrow>
          if cs = [] \<and> \<not> follow then Inr (cur @ [c])
          else if n = 0 then Inl ELOOP
          else walk (n - 1) fs follow (if take 1 t = ''/'' then [] else cur) (comps t @ cs))"
  by pat_completeness auto
termination
  by (relation "measures [\<lambda>(n, _). n, \<lambda>(_, _, _, _, cs). length cs]") auto

definition MAXSYMLINKS :: nat where "MAXSYMLINKS = 40"

definition resolve :: "fs \<Rightarrow> bool \<Rightarrow> string \<Rightarrow> int + string list" where
  "resolve fs follow path =
     (if path = [] then Inl ENOENT else walk MAXSYMLINKS fs follow [] (comps path))"

section \<open>System calls\<close>

text \<open>The error number of the call, if it fails, is the second component.\<close>

definition sys_mkdir :: "fs \<Rightarrow> string \<Rightarrow> fs \<times> int option" where
  "sys_mkdir fs path = (case resolve fs False path of
     Inl e \<Rightarrow> (fs, Some e)
   | Inr p \<Rightarrow> if node_at fs p \<noteq> None then (fs, Some EEXIST)
              else (fs\<lparr>ents := ents fs @ [(p, Dir)]\<rparr>, None))"

text \<open>\<open>open\<close> for writing with \<open>O_CREAT\<close>, \<open>O_EXCL\<close>, \<open>O_TRUNC\<close>: the inode of the file.\<close>

definition sys_open :: "bool \<Rightarrow> bool \<Rightarrow> bool \<Rightarrow> fs \<Rightarrow> string \<Rightarrow> fs \<times> (int + nat)" where
  "sys_open o_creat o_excl o_trunc fs path = (case resolve fs (\<not> o_excl) path of
     Inl e \<Rightarrow> (fs, Inl e)
   | Inr p \<Rightarrow> (case node_at fs p of
        None \<Rightarrow>
          if o_creat then
            (let i = next_ino fs in
             (fs\<lparr>ents := ents fs @ [(p, Reg i)], idata := (idata fs)(i := []), next_ino := Suc i\<rparr>, Inr i))
          else (fs, Inl ENOENT)
      | Some nd \<Rightarrow>
          if o_excl then (fs, Inl EEXIST)
          else (case nd of
             Reg i \<Rightarrow> (if o_trunc then fs\<lparr>idata := (idata fs)(i := [])\<rparr> else fs, Inr i)
           | Dir \<Rightarrow> (fs, Inl EISDIR)
           | Lnk t \<Rightarrow> (fs, Inl ELOOP))))"

text \<open>\<open>open\<close> with \<open>O_RDONLY\<close> and what successive reads of one byte then answer.\<close>

definition open_input :: "fs \<Rightarrow> string \<Rightarrow> int + input" where
  "open_input fs path = (case resolve fs True path of
     Inl e \<Rightarrow> Inl e
   | Inr p \<Rightarrow> (case node_at fs p of
        None \<Rightarrow> Inl ENOENT
      | Some Dir \<Rightarrow> Inr [RdErr EISDIR]
      | Some (Reg i) \<Rightarrow> Inr (map Got (idata fs i))
      | Some (Lnk t) \<Rightarrow> Inl ELOOP))"

definition remove_ent :: "string list \<Rightarrow> fs \<Rightarrow> fs" where
  "remove_ent p fs = fs\<lparr>ents := filter (\<lambda>(q, _). q \<noteq> p) (ents fs)\<rparr>"

definition sys_unlink :: "fs \<Rightarrow> string \<Rightarrow> fs \<times> int option" where
  "sys_unlink fs path = (case resolve fs False path of
     Inl e \<Rightarrow> (fs, Some e)
   | Inr p \<Rightarrow> (case node_at fs p of
        None \<Rightarrow> (fs, Some ENOENT)
      | Some Dir \<Rightarrow> (fs, Some EISDIR)
      | Some _ \<Rightarrow> (remove_ent p fs, None)))"

definition sys_symlink :: "fs \<Rightarrow> string \<Rightarrow> string \<Rightarrow> fs \<times> int option" where
  "sys_symlink fs target path =
     (if target = [] then (fs, Some ENOENT)
      else case resolve fs False path of
        Inl e \<Rightarrow> (fs, Some e)
      | Inr p \<Rightarrow> if node_at fs p \<noteq> None then (fs, Some EEXIST)
                 else (fs\<lparr>ents := ents fs @ [(p, Lnk target)]\<rparr>, None))"

definition sys_readlink :: "fs \<Rightarrow> string \<Rightarrow> int + string" where
  "sys_readlink fs path = (case resolve fs False path of
     Inl e \<Rightarrow> Inl e
   | Inr p \<Rightarrow> (case node_at fs p of
        None \<Rightarrow> Inl ENOENT
      | Some (Lnk t) \<Rightarrow> Inr t
      | Some _ \<Rightarrow> Inl EINVAL))"

definition has_children :: "fs \<Rightarrow> string list \<Rightarrow> bool" where
  "has_children fs p \<longleftrightarrow> list_ex (\<lambda>(q, _). q \<noteq> [] \<and> butlast q = p) (ents fs)"

definition move_ents :: "string list \<Rightarrow> string list \<Rightarrow> fs \<Rightarrow> fs" where
  "move_ents p q fs = fs\<lparr>ents := map (\<lambda>(r, nd).
     (if take (length p) r = p then q @ drop (length p) r else r, nd)) (ents fs)\<rparr>"

definition sys_rename :: "fs \<Rightarrow> string \<Rightarrow> string \<Rightarrow> fs \<times> int option" where
  "sys_rename fs old new = (case (resolve fs False old, resolve fs False new) of
     (Inl e, _) \<Rightarrow> (fs, Some e)
   | (Inr p, Inl e) \<Rightarrow> (fs, Some (if node_at fs p = None then ENOENT else e))
   | (Inr p, Inr q) \<Rightarrow> (case node_at fs p of
        None \<Rightarrow> (fs, Some ENOENT)
      | Some nd \<Rightarrow>
          if p = q then (fs, None)
          else if p = [] \<or> take (length p) q = p then (fs, Some EINVAL)
          else (case node_at fs q of
             None \<Rightarrow> (move_ents p q fs, None)
           | Some nd' \<Rightarrow>
               if nd = Dir \<and> nd' \<noteq> Dir then (fs, Some ENOTDIR)
               else if nd \<noteq> Dir \<and> nd' = Dir then (fs, Some EISDIR)
               else if nd' = Dir \<and> (q = [] \<or> has_children fs q) then (fs, Some ENOTEMPTY)
               else (move_ents p q (remove_ent q fs), None))))"

text \<open>The names \<open>readdir\<close> returns.\<close>

definition sys_readdir :: "fs \<Rightarrow> string \<Rightarrow> int + string list" where
  "sys_readdir fs path = (case resolve fs True path of
     Inl e \<Rightarrow> Inl e
   | Inr p \<Rightarrow> (case node_at fs p of
        None \<Rightarrow> Inl ENOENT
      | Some Dir \<Rightarrow> Inr ([''.'', ''..''] @
          map (\<lambda>(q, _). last q) (filter (\<lambda>(q, _). q \<noteq> [] \<and> butlast q = p) (ents fs)))
      | Some _ \<Rightarrow> Inl ENOTDIR))"

definition sys_lstat_lnk :: "fs \<Rightarrow> string \<Rightarrow> int + bool" where
  "sys_lstat_lnk fs path = (case resolve fs False path of
     Inl e \<Rightarrow> Inl e
   | Inr p \<Rightarrow> (case node_at fs p of
        None \<Rightarrow> Inl ENOENT
      | Some (Lnk t) \<Rightarrow> Inr True
      | Some _ \<Rightarrow> Inr False))"

section \<open>Directories and header files\<close>

text \<open>\<open>snprintf\<close> into a buffer of \<open>PATH_MAX\<close> bytes.\<close>

definition snpath :: "string \<Rightarrow> string" where
  "snpath s = take (PATH_MAX - 1) s"

definition Mkdir_single :: "fs \<Rightarrow> string \<Rightarrow> fs \<times> err option" where
  "Mkdir_single fs path = (case sys_mkdir fs path of
     (fs', Some e) \<Rightarrow> (fs', if e \<noteq> EEXIST then Some (Err e ''mkdir'') else None)
   | (fs', None) \<Rightarrow> (fs', None))"

fun Mkdir_all :: "fs \<Rightarrow> string list \<Rightarrow> fs \<times> err option" where
  "Mkdir_all fs [] = (fs, None)"
| "Mkdir_all fs (p # ps) = (case Mkdir_single fs p of
     (fs', Some e) \<Rightarrow> (fs', Some e) | (fs', None) \<Rightarrow> Mkdir_all fs' ps)"

definition Mkdir :: "fs \<Rightarrow> string \<Rightarrow> fs \<times> err option" where
  "Mkdir fs path0 =
     (let path = snpath path0 in
      if path = [] then (fs, Some (Err EINVAL ''Cannot mkdir empty path''))
      else Mkdir_all fs
        (map (\<lambda>i. take i path) (filter (\<lambda>i. path ! i = CHR ''/'') [1..<length path]) @ [path]))"

definition Mkdir_for_file :: "fs \<Rightarrow> string \<Rightarrow> fs \<times> err option" where
  "Mkdir_for_file fs path = (case dir_of_file path of None \<Rightarrow> (fs, None) | Some p \<Rightarrow> Mkdir fs p)"

text \<open>A write through a descriptor of an inode at an offset, or at the end.\<close>

definition fd_of :: "fs \<Rightarrow> nat \<Rightarrow> bool \<Rightarrow> fdesc" where
  "fd_of fs i app = \<lparr>bytes = idata fs i, pos = 0, o_append = app\<rparr>"

definition set_data :: "fs \<Rightarrow> nat \<Rightarrow> string \<Rightarrow> fs" where
  "set_data fs i d = fs\<lparr>idata := (idata fs)(i := d)\<rparr>"

definition header_to_file :: "fs \<Rightarrow> header \<Rightarrow> string \<Rightarrow> fs \<times> err option" where
  "header_to_file fs h filename = (case Mkdir_for_file fs filename of
     (fs, Some e) \<Rightarrow> (fs, Some e)
   | (fs, None) \<Rightarrow> (case sys_open True False False fs filename of
        (fs, Inl e) \<Rightarrow> (fs, Some (Err e ''open(%s)''))
      | (fs, Inr i) \<Rightarrow> (case header_write h (fd_of fs i False) of
           (f, e) \<Rightarrow> (set_data fs i (bytes f), e))))"

definition header_from_file :: "fs \<Rightarrow> string \<Rightarrow> header outcome" where
  "header_from_file fs filename = (case open_input fs filename of
     Inl e \<Rightarrow> Raised (Err e ''open(%s)'')
   | Inr inp \<Rightarrow> (case header_read header_new inp of
        Crash \<Rightarrow> Crash
      | Raised e \<Rightarrow> Raised e
      | Done ((h, Some e), _) \<Rightarrow> Raised e
      | Done ((h, None), _) \<Rightarrow> Done h))"

section \<open>Resolution\<close>

definition add_ent :: "fs \<Rightarrow> string list \<Rightarrow> node \<Rightarrow> fs" where
  "add_ent fs p nd = fs\<lparr>ents := ents fs @ [(p, nd)]\<rparr>"

lemma node_at_add: "node_at (add_ent fs p nd) q =
    (case node_at fs q of Some x \<Rightarrow> Some x | None \<Rightarrow> if q = p then Some nd else None)"
  by (auto simp: node_at_def add_ent_def map_add_def split: option.splits)

lemma node_at_add_same [simp]: "node_at fs p = None \<Longrightarrow> node_at (add_ent fs p nd) p = Some nd"
  by (simp add: node_at_add)

lemma node_at_mono: "node_at fs q = Some x \<Longrightarrow> node_at (add_ent fs p nd) q = Some x"
  by (simp add: node_at_add)

text \<open>Creating the file a path resolves to does not change what the path resolves to.\<close>

lemma walk_add:
  assumes "walk n fs follow cur cs = Inr p" "node_at fs p = None" "\<forall>t. nd = Lnk t \<longrightarrow> \<not> follow"
  shows "walk n (add_ent fs p nd) follow cur cs = Inr p"
  using assms
proof (induction n fs follow cur cs rule: walk.induct)
  case (2 n fs follow cur c cs)
  show ?case
  proof (cases "c = ''..''")
    case True
    with 2 show ?thesis by simp
  next
    case False
    show ?thesis
    proof (cases "node_at fs (cur @ [c])")
      case None
      with "2.prems" False have "cs = []" "p = cur @ [c]" by (auto split: if_splits)
      with None "2.prems" False show ?thesis by (cases nd) auto
    next
      case (Some x)
      with 2 False show ?thesis by (cases x) (auto simp: node_at_mono split: if_splits)
    qed
  qed
qed simp

text \<open>A path that already resolves to something that exists is not affected by a new entry.\<close>

lemma walk_add_other:
  assumes "walk n fs follow cur cs = Inr q" "node_at fs q = Some x"
  shows "walk n (add_ent fs p nd) follow cur cs = Inr q"
  using assms
proof (induction n fs follow cur cs rule: walk.induct)
  case (2 n fs follow cur c cs)
  show ?case
  proof (cases "c = ''..''")
    case True
    with 2 show ?thesis by simp
  next
    case False
    show ?thesis
    proof (cases "node_at fs (cur @ [c])")
      case None
      with 2 False show ?thesis by (auto split: if_splits)
    next
      case (Some y)
      with 2 False show ?thesis by (cases y) (auto simp: node_at_mono split: if_splits)
    qed
  qed
qed simp

lemma walk_ents:
  "ents fs' = ents fs \<Longrightarrow> walk n fs' follow cur cs = walk n fs follow cur cs"
proof (induction n fs follow cur cs rule: walk.induct)
  case (2 n fs follow cur c cs)
  then have n: "node_at fs' (cur @ [c]) = node_at fs (cur @ [c])" by (simp add: node_at_def)
  show ?case
  proof (cases "node_at fs (cur @ [c])")
    case None
    with 2 n show ?thesis by simp
  next
    case (Some x)
    with 2 n show ?thesis by (cases x) simp_all
  qed
qed simp

lemma resolve_ents: "ents fs' = ents fs \<Longrightarrow> resolve fs' follow path = resolve fs follow path"
  by (simp add: resolve_def walk_ents [of fs' fs])

lemma resolve_add:
  "resolve fs follow path = Inr p \<Longrightarrow> node_at fs p = None \<Longrightarrow> (\<And>t. nd = Lnk t \<Longrightarrow> \<not> follow) \<Longrightarrow>
     resolve (add_ent fs p nd) follow path = Inr p"
  by (auto simp: resolve_def walk_add split: if_splits)

lemma resolve_add_other:
  "resolve fs follow path = Inr q \<Longrightarrow> node_at fs q = Some x \<Longrightarrow>
     resolve (add_ent fs p nd) follow path = Inr q"
  by (auto simp: resolve_def walk_add_other split: if_splits)

definition file_at :: "fs \<Rightarrow> string \<Rightarrow> nat \<Rightarrow> bool" where
  "file_at fs path i \<longleftrightarrow> (\<exists>p. resolve fs True path = Inr p \<and> node_at fs p = Some (Reg i))"

lemma file_at_ents: "ents fs' = ents fs \<Longrightarrow> file_at fs' path i = file_at fs path i"
  by (simp add: file_at_def resolve_ents [of fs' fs] node_at_def)

lemma sys_open_existing: "file_at fs path i \<Longrightarrow> sys_open c False False fs path = (fs, Inr i)"
  by (auto simp: file_at_def sys_open_def)

lemma sys_open_file_at:
  assumes "sys_open c False tr fs path = (fs', Inr i)"
  shows "file_at fs' path i"
proof -
  from assms obtain p where p: "resolve fs True path = Inr p"
    by (auto simp: sys_open_def split: sum.splits)
  show ?thesis
  proof (cases "node_at fs p")
    case None
    let ?fs = "add_ent fs p (Reg i)"
    from assms p None have "ents fs' = ents ?fs"
      by (auto simp: sys_open_def add_ent_def Let_def split: if_splits)
    moreover have "resolve ?fs True path = Inr p" using resolve_add [OF p None, of "Reg i"] by simp
    ultimately show ?thesis using None file_at_ents [of fs' ?fs] by (auto simp: file_at_def)
  next
    case (Some nd)
    with assms p have "nd = Reg i" "ents fs' = ents fs"
      by (auto simp: sys_open_def split: if_splits node.splits)
    with p Some file_at_ents [of fs' fs] show ?thesis by (auto simp: file_at_def)
  qed
qed

lemma open_input_file_at: "file_at fs path i \<Longrightarrow> open_input fs path = Inr (map Got (idata fs i))"
  by (auto simp: file_at_def open_input_def)

section \<open>Header files\<close>

lemma set_data_simps [simp]:
  "idata (set_data fs i d) k = (if k = i then d else idata fs k)"
  "ents (set_data fs i d) = ents fs" "pwrite_appends (set_data fs i d) = pwrite_appends fs"
  "next_ino (set_data fs i d) = next_ino fs"
  by (simp_all add: set_data_def)

text \<open>Successive writes through a descriptor that is not in append mode overwrite from its offset.\<close>

lemma pwrite_seq:
  "off \<le> length f \<Longrightarrow> pwrite_bytes (pwrite_bytes f off a) (off + length a) b = pwrite_bytes f off (a @ b)"
  by (simp add: pwrite_bytes_def ac_simps)

lemma Write_at: "\<not> o_append f \<Longrightarrow> pos f \<le> length (bytes f) \<Longrightarrow>
    \<exists>f'. Write [] f b = (f', None) \<and> \<not> o_append f' \<and> bytes f' = pwrite_bytes (bytes f) (pos f) b \<and>
      pos f' = pos f + length b \<and> pos f' \<le> length (bytes f')"
  by (cases b) (auto simp: Write_def sys_write_def pwrite_bytes_def Let_def)

lemma Write_strs_at: "\<not> o_append f \<Longrightarrow> pos f \<le> length (bytes f) \<Longrightarrow>
    \<exists>f'. Write_strs [] f ss = (f', None) \<and> \<not> o_append f' \<and> bytes f' = pwrite_bytes (bytes f) (pos f) (concat ss) \<and>
      pos f' = pos f + length (concat ss) \<and> pos f' \<le> length (bytes f')"
proof (induction ss arbitrary: f)
  case Nil
  then show ?case by (simp add: pwrite_bytes_def)
next
  case (Cons s ss)
  from Write_at [OF Cons.prems, of s] obtain f' where
    f': "Write [] f s = (f', None)" "\<not> o_append f'" "bytes f' = pwrite_bytes (bytes f) (pos f) s"
      "pos f' = pos f + length s" "pos f' \<le> length (bytes f')" by blast
  with Cons.IH [of f'] Cons.prems show ?case by (auto simp: pwrite_seq)
qed

lemma concat_field_strs:
  "concat (concat (map (\<lambda>hf. [hf_name hf, '': '', hf_value hf, [NL]]) hfs)) = concat (map field_dump hfs)"
  by (induction hfs) (auto simp: field_dump_def)

lemma header_write_at:
  "\<exists>f. header_write h (fd_of fs i False) = (f, None) \<and>
     bytes f = header_dump h @ drop (length (header_dump h)) (idata fs i)"
proof -
  let ?ss = "concat (map (\<lambda>hf. [hf_name hf, '': '', hf_value hf, [NL]]) (h_fields h))"
  have "\<not> o_append (fd_of fs i False)" "pos (fd_of fs i False) \<le> length (bytes (fd_of fs i False))"
    by (simp_all add: fd_of_def)
  from Write_strs_at [OF this, of ?ss] obtain f1 where
    f1: "Write_strs [] (fd_of fs i False) ?ss = (f1, None)" "\<not> o_append f1" "pos f1 \<le> length (bytes f1)"
      "bytes f1 = pwrite_bytes (idata fs i) 0 (concat (map field_dump (h_fields h)))"
      "pos f1 = length (concat (map field_dump (h_fields h)))"
    unfolding concat_field_strs by (auto simp: fd_of_def)
  from Write_at [OF f1(2,3), of "[NL]"] f1 show ?thesis
    by (auto simp: header_write_def header_dump_def pwrite_bytes_def)
qed

section \<open>Properties\<close>

text \<open>A header saved with \<open>header_to_file\<close> is loaded by \<open>header_from_file\<close>: once the directory
  could be made and the file opened, for a header within the limits of \<open>header_read\<close> the
  file reads back as the same fields, whatever longer text it held before (the file is
  not truncated), because reading stops at the blank line that ends the header.\<close>

theorem header_file_roundtrip:
  assumes "readable h" "Mkdir_for_file fs filename = (fs1, None)"
    "sys_open True False False fs1 filename = (fs2, Inr i)"
  shows "\<exists>fs'. header_to_file fs h filename = (fs', None) \<and>
    header_from_file fs' filename = Done \<lparr>h_fields = h_fields h, h_count = 1\<rparr>"
proof -
  from header_write_at obtain f where
    f: "header_write h (fd_of fs2 i False) = (f, None)"
      "bytes f = header_dump h @ drop (length (header_dump h)) (idata fs2 i)" by blast
  let ?fs = "set_data fs2 i (bytes f)"
  have "file_at ?fs filename i"
    using sys_open_file_at [OF assms(3)] file_at_ents [of ?fs fs2] by simp
  then have "open_input ?fs filename = Inr (map Got (header_dump h) @ map Got (drop (length (header_dump h)) (idata fs2 i)))"
    by (simp add: open_input_file_at f(2))
  then have "header_from_file ?fs filename = Done \<lparr>h_fields = h_fields h, h_count = 1\<rparr>"
    by (simp add: header_from_file_def header_read_dump_lemma [OF assms(1)] header_new_def)
  with assms(2,3) f(1) show ?thesis by (simp add: header_to_file_def)
qed

theorem header_file_roundtrip_witness:
  "\<exists>fs'. header_to_file \<lparr>ents = [([''m''], Dir), ([''m'', ''perms''], Reg 0)],
       idata = (\<lambda>_. ''some longer text: that was there'' @ [NL, NL]), next_ino = 1, pwrite_appends = False\<rparr>
     \<lparr>h_fields = [\<lparr>hf_name = ''a'', hf_value = ''b''\<rparr>], h_count = 3\<rparr> ''/m/perms'' = (fs', None) \<and>
   header_from_file fs' ''/m/perms'' = Done \<lparr>h_fields = [\<lparr>hf_name = ''a'', hf_value = ''b''\<rparr>], h_count = 1\<rparr>"
proof -
  let ?fs = "\<lparr>ents = [([''m''], Dir), ([''m'', ''perms''], Reg 0)],
     idata = (\<lambda>_. ''some longer text: that was there'' @ [NL, NL]), next_ino = 1, pwrite_appends = False\<rparr>"
  let ?h = "\<lparr>h_fields = [\<lparr>hf_name = ''a'', hf_value = ''b''\<rparr>], h_count = 3\<rparr>"
  have r: "readable ?h" by code_simp
  have m: "Mkdir_for_file ?fs ''/m/perms'' = (?fs, None)"
    by (simp add: Mkdir_for_file_def dir_of_file_def Mkdir_def snpath_def PATH_MAX_def Mkdir_single_def
        sys_mkdir_def resolve_def comps_def node_at_def MAXSYMLINKS_def EEXIST_def)
  have o: "sys_open True False False ?fs ''/m/perms'' = (?fs, Inr 0)"
    by (simp add: sys_open_def resolve_def comps_def node_at_def MAXSYMLINKS_def)
  from header_file_roundtrip [OF r m o] show ?thesis by simp
qed

end
