(* ===== verification/Auth.thy ===== *)
theory Auth
  imports Fs
begin

text \<open>
  Users, groups and permissions, after \<open>commons/auth.c\<close>: user files loaded on demand into a list,
  membership of groups by a depth first traversal of the alias fields that tags the users it
  has visited, and the evaluation of permission headers, field by field, with the default
  permissions when the header does not decide. Users of the list have distinct names, so a
  pointer to a user is its name; the absence of an authenticated user is \<open>None\<close>. The recursion of
  the traversal is bounded by fuel; \<open>is_in_group_enough\<close> tells how much is always enough.
\<close>

section \<open>State\<close>

record mdir_user =
  u_name :: string
  u_header :: header
  u_tag :: nat

record auth =
  a_fs :: fs
  users :: "mdir_user list"
  users_root :: string
  default_perms :: "header option"
  a_tag :: nat

definition find_user :: "auth \<Rightarrow> string \<Rightarrow> mdir_user option" where
  "find_user au nm = find (\<lambda>u. u_name u = nm) (users au)"

definition user_ctor :: "string \<Rightarrow> header \<Rightarrow> auth \<Rightarrow> auth" where
  "user_ctor nm h au = au\<lparr>users := \<lparr>u_name = nm, u_header = h, u_tag = 0\<rparr> # users au\<rparr>"

definition mdir_user_load :: "string \<Rightarrow> (auth, string) act" where
  "mdir_user_load nm au = (case find_user au nm of
     Some u \<Rightarrow> Done (au, Inr (u_name u))
   | None \<Rightarrow> (case header_from_file (a_fs au) (snpath (users_root au @ ''/'' @ nm)) of
        Done h \<Rightarrow> Done (user_ctor nm h au, Inr nm)
      | Raised e \<Rightarrow> Done (au, Inl e)
      | Crash \<Rightarrow> Crash))"

definition mdir_user_header :: "auth \<Rightarrow> string \<Rightarrow> header option" where
  "mdir_user_header au nm = map_option u_header (find_user au nm)"

definition set_tag :: "string \<Rightarrow> nat \<Rightarrow> auth \<Rightarrow> auth" where
  "set_tag nm t au = au\<lparr>users := map (\<lambda>u. if u_name u = nm then u\<lparr>u_tag := t\<rparr> else u) (users au)\<rparr>"

definition tag_of :: "auth \<Rightarrow> string \<Rightarrow> nat option" where
  "tag_of au nm = map_option u_tag (find_user au nm)"

section \<open>Groups\<close>

text \<open>\<open>None\<close> when the fuel runs out. The second function is the loop over the alias fields.\<close>

fun is_in_group_rec :: "nat \<Rightarrow> string option \<Rightarrow> string \<Rightarrow> nat \<Rightarrow> auth \<Rightarrow> (auth \<times> bool res) outcome option"
  and in_aliases :: "nat \<Rightarrow> string option \<Rightarrow> string list \<Rightarrow> nat \<Rightarrow> auth \<Rightarrow> (auth \<times> bool res) outcome option" where
  "is_in_group_rec 0 user groupname tag au = None"
| "is_in_group_rec (Suc n) user groupname tag au =
     (if groupname = ''*'' then Some (Done (au, Inr True))
      else case mdir_user_load groupname au of
        Done (au, Inl e) \<Rightarrow> Some (Done (au, Inl e))
      | Done (au, Inr grp) \<Rightarrow>
          if user = Some grp then Some (Done (au, Inr True))
          else if tag_of au grp = Some tag then Some (Done (au, Inr False))
          else
            let au = set_tag grp tag au in
            (case mdir_user_header au grp of
               None \<Rightarrow> Some Crash
             | Some h \<Rightarrow> in_aliases n user (fields_named h SC_ALIAS_FIELD) tag au)
      | Raised e \<Rightarrow> Some (Raised e)
      | Crash \<Rightarrow> Some Crash)"
| "in_aliases n user [] tag au = Some (Done (au, Inr False))"
| "in_aliases n user (v # vs) tag au =
     (case is_in_group_rec n user v tag au of
        Some (Done (au, Inr False)) \<Rightarrow> in_aliases n user vs tag au
      | r \<Rightarrow> r)"

definition mdir_user_is_in_group :: "nat \<Rightarrow> string option \<Rightarrow> string \<Rightarrow> bool \<Rightarrow> auth \<Rightarrow> (auth \<times> bool) outcome option" where
  "mdir_user_is_in_group fuel user groupname if_unknown au =
     (let tag = (a_tag au + 1) mod 2 ^ 32 in
      case is_in_group_rec fuel user groupname tag (au\<lparr>a_tag := tag\<rparr>) of
        None \<Rightarrow> None
      | Some (Done (au, Inr b)) \<Rightarrow> Some (Done (au, b))
      | Some (Done (au, Inl e)) \<Rightarrow> Some (Done (au, if_unknown))
      | Some (Raised e) \<Rightarrow> Some (Raised e)
      | Some Crash \<Rightarrow> Some Crash)"

section \<open>Permissions\<close>

text \<open>The loop over the fields of a header: the answer of the first field that decides.\<close>

fun perm_fields :: "nat \<Rightarrow> string option \<Rightarrow> header_field list \<Rightarrow> string \<Rightarrow> string \<Rightarrow> auth \<Rightarrow> (auth \<times> bool option) outcome option" where
  "perm_fields fuel user [] allow_field deny_field au = Some (Done (au, None))"
| "perm_fields fuel user (hf # hfs) allow_field deny_field au =
     (if hf_name hf = allow_field then
        (case mdir_user_is_in_group fuel user (hf_value hf) False au of
           Some (Done (au, True)) \<Rightarrow> Some (Done (au, Some True))
         | Some (Done (au, False)) \<Rightarrow> perm_fields fuel user hfs allow_field deny_field au
         | Some (Raised e) \<Rightarrow> Some (Raised e) | Some Crash \<Rightarrow> Some Crash | None \<Rightarrow> None)
      else if hf_name hf = deny_field then
        (case mdir_user_is_in_group fuel user (hf_value hf) True au of
           Some (Done (au, True)) \<Rightarrow> Some (Done (au, Some False))
         | Some (Done (au, False)) \<Rightarrow> perm_fields fuel user hfs allow_field deny_field au
         | Some (Raised e) \<Rightarrow> Some (Raised e) | Some Crash \<Rightarrow> Some Crash | None \<Rightarrow> None)
      else perm_fields fuel user hfs allow_field deny_field au)"

text \<open>The recursive call on the default permissions finds itself on them and denies.\<close>

definition check_user_perms ::
  "nat \<Rightarrow> string option \<Rightarrow> header option \<Rightarrow> string \<Rightarrow> string \<Rightarrow> auth \<Rightarrow> (auth \<times> bool) outcome option" where
  "check_user_perms fuel user ho allow_field deny_field au =
     (case (case ho of None \<Rightarrow> Some (Done (au, None))
            | Some h \<Rightarrow> perm_fields fuel user (h_fields h) allow_field deny_field au) of
        None \<Rightarrow> None
      | Some (Done (au, Some b)) \<Rightarrow> Some (Done (au, b))
      | Some (Done (au, None)) \<Rightarrow>
          (case default_perms au of
             None \<Rightarrow> Some (Done (au, False))
           | Some d \<Rightarrow> (case perm_fields fuel user (h_fields d) allow_field deny_field au of
                None \<Rightarrow> None
              | Some (Done (au, r)) \<Rightarrow> Some (Done (au, r = Some True))
              | Some (Raised e) \<Rightarrow> Some (Raised e)
              | Some Crash \<Rightarrow> Some Crash))
      | Some (Raised e) \<Rightarrow> Some (Raised e)
      | Some Crash \<Rightarrow> Some Crash)"

definition mdir_user_can_admin :: "nat \<Rightarrow> string option \<Rightarrow> header option \<Rightarrow> auth \<Rightarrow> (auth \<times> bool) outcome option" where
  "mdir_user_can_admin fuel user ho au =
     check_user_perms fuel user ho SC_ALLOW_ADMIN_FIELD SC_DENY_ADMIN_FIELD au"

definition or_admin ::
  "nat \<Rightarrow> string option \<Rightarrow> header option \<Rightarrow> (auth \<times> bool) outcome option \<Rightarrow> (auth \<times> bool) outcome option" where
  "or_admin fuel user ho r = (case r of
     Some (Done (au, False)) \<Rightarrow> mdir_user_can_admin fuel user ho au | _ \<Rightarrow> r)"

definition mdir_user_can_read :: "nat \<Rightarrow> string option \<Rightarrow> header option \<Rightarrow> auth \<Rightarrow> (auth \<times> bool) outcome option" where
  "mdir_user_can_read fuel user ho au =
     or_admin fuel user ho (check_user_perms fuel user ho SC_ALLOW_READ_FIELD SC_DENY_READ_FIELD au)"

definition mdir_user_can_write :: "nat \<Rightarrow> string option \<Rightarrow> header option \<Rightarrow> auth \<Rightarrow> (auth \<times> bool) outcome option" where
  "mdir_user_can_write fuel user ho au =
     or_admin fuel user ho (check_user_perms fuel user ho SC_ALLOW_WRITE_FIELD SC_DENY_WRITE_FIELD au)"

section \<open>Initialisation\<close>

definition default_header :: header where
  "default_header = fold (\<lambda>(n, v) h. header_field_new h n v)
     [(SC_ALLOW_READ_FIELD, ''*''), (SC_DENY_WRITE_FIELD, ''*''),
      (SC_ALLOW_ADMIN_FIELD, ''admin''), (SC_DENY_ADMIN_FIELD, ''*'')] header_new"

definition auth_init :: "string \<Rightarrow> fs \<Rightarrow> auth \<times> err option" where
  "auth_init root fs = (case Mkdir fs root of (fs, e) \<Rightarrow>
     (\<lparr>a_fs = fs, users = [], users_root = root, default_perms = Some default_header, a_tag = 0\<rparr>, e))"

section \<open>The graph of aliases\<close>

definition header_of :: "auth \<Rightarrow> string \<Rightarrow> header option" where
  "header_of au nm = (case find_user au nm of
     Some u \<Rightarrow> Some (u_header u)
   | None \<Rightarrow> (case header_from_file (a_fs au) (snpath (users_root au @ ''/'' @ nm)) of
        Done h \<Rightarrow> Some h | _ \<Rightarrow> None))"

definition aliases :: "(string \<Rightarrow> header option) \<Rightarrow> string \<Rightarrow> string list" where
  "aliases H nm = (case H nm of None \<Rightarrow> [] | Some h \<Rightarrow> fields_named h SC_ALIAS_FIELD)"

definition alias_edge :: "(string \<Rightarrow> header option) \<Rightarrow> string \<Rightarrow> string \<Rightarrow> bool" where
  "alias_edge H x y \<longleftrightarrow> y \<in> set (aliases H x)"

definition hit :: "string option \<Rightarrow> string \<Rightarrow> bool" where
  "hit user x \<longleftrightarrow> x = ''*'' \<or> user = Some x"

definition member :: "(string \<Rightarrow> header option) \<Rightarrow> string option \<Rightarrow> string \<Rightarrow> bool" where
  "member H user g \<longleftrightarrow> (\<exists>x. (alias_edge H)\<^sup>*\<^sup>* g x \<and> hit user x)"

definition tagged :: "auth \<Rightarrow> nat \<Rightarrow> string set" where
  "tagged au t = {x. tag_of au x = Some t}"

text \<open>What no operation of this file changes.\<close>

definition same_view :: "auth \<Rightarrow> auth \<Rightarrow> bool" where
  "same_view au au' \<longleftrightarrow> header_of au' = header_of au \<and> default_perms au' = default_perms au \<and> a_tag au' = a_tag au \<and>
     a_fs au' = a_fs au \<and> users_root au' = users_root au"

lemma same_view_refl [simp]: "same_view au au"
  by (simp add: same_view_def)

lemma same_view_trans: "same_view a b \<Longrightarrow> same_view b c \<Longrightarrow> same_view a c"
  by (simp add: same_view_def)

lemma find_user_name: "find_user au nm = Some u \<Longrightarrow> u_name u = nm"
  by (auto simp: find_user_def find_Some_iff)

lemma find_user_ctor: "find_user (user_ctor nm h au) x =
    (if x = nm then Some \<lparr>u_name = nm, u_header = h, u_tag = 0\<rparr> else find_user au x)"
  by (auto simp: find_user_def user_ctor_def)

lemma find_map_tag:
  "find (\<lambda>u. u_name u = x) (map (\<lambda>u. if u_name u = nm then u\<lparr>u_tag := t\<rparr> else u) us) =
     map_option (\<lambda>u. if u_name u = nm then u\<lparr>u_tag := t\<rparr> else u) (find (\<lambda>u. u_name u = x) us)"
  by (induction us) auto

lemma find_user_set_tag: "find_user (set_tag nm t au) x =
    map_option (\<lambda>u. if u_name u = nm then u\<lparr>u_tag := t\<rparr> else u) (find_user au x)"
  by (simp add: find_user_def set_tag_def find_map_tag)

lemma auth_fields [simp]:
  "a_fs (user_ctor nm h au) = a_fs au" "users_root (user_ctor nm h au) = users_root au"
  "default_perms (user_ctor nm h au) = default_perms au" "a_tag (user_ctor nm h au) = a_tag au"
  "a_fs (set_tag nm t au) = a_fs au" "users_root (set_tag nm t au) = users_root au"
  "default_perms (set_tag nm t au) = default_perms au" "a_tag (set_tag nm t au) = a_tag au"
  by (simp_all add: user_ctor_def set_tag_def)

lemma tag_of_set_tag: "find_user au nm \<noteq> None \<Longrightarrow> tag_of (set_tag nm t au) x = (if x = nm then Some t else tag_of au x)"
  by (cases "find_user au x") (auto simp: tag_of_def find_user_set_tag dest: find_user_name)

lemma load_known:
  assumes "header_of au nm \<noteq> None" "t \<noteq> 0"
  shows "\<exists>au'. mdir_user_load nm au = Done (au', Inr nm) \<and> same_view au au' \<and> tagged au' t = tagged au t \<and>
    find_user au' nm \<noteq> None"
proof (cases "find_user au nm")
  case (Some u)
  then show ?thesis by (auto simp: mdir_user_load_def dest: find_user_name)
next
  case None
  with assms(1) obtain h where h: "header_from_file (a_fs au) (snpath (users_root au @ ''/'' @ nm)) = Done h"
    by (auto simp: header_of_def split: outcome.splits)
  have "header_of (user_ctor nm h au) = header_of au"
  proof
    fix x show "header_of (user_ctor nm h au) x = header_of au x"
      using None h by (cases "find_user au x") (auto simp: header_of_def find_user_ctor)
  qed
  moreover have "tagged (user_ctor nm h au) t = tagged au t"
    using None assms(2) by (auto simp: tagged_def tag_of_def find_user_ctor split: if_splits)
  ultimately show ?thesis using None h
    by (auto simp: mdir_user_load_def same_view_def find_user_ctor)
qed

lemma set_tag_view:
  assumes "find_user au nm \<noteq> None"
  shows "same_view au (set_tag nm t au)" "tagged (set_tag nm t au) t = insert nm (tagged au t)"
    "mdir_user_header (set_tag nm t au) nm = header_of au nm"
proof -
  have "header_of (set_tag nm t au) x = header_of au x" for x
    by (cases "find_user au x") (auto simp: header_of_def find_user_set_tag)
  then show "same_view au (set_tag nm t au)" by (auto simp: same_view_def)
  show "tagged (set_tag nm t au) t = insert nm (tagged au t)"
    using assms by (auto simp: tagged_def tag_of_set_tag)
  show "mdir_user_header (set_tag nm t au) nm = header_of au nm"
    using assms by (auto simp: mdir_user_header_def find_user_set_tag header_of_def)
qed

section \<open>The traversal\<close>

definition dfs_post :: "(string \<Rightarrow> header option) \<Rightarrow> string option \<Rightarrow> nat \<Rightarrow> auth \<Rightarrow> auth \<Rightarrow> string list \<Rightarrow> bool \<Rightarrow> bool" where
  "dfs_post H user t au au' vs b \<longleftrightarrow> same_view au au' \<and>
     (if b then \<exists>v \<in> set vs. member H user v
      else tagged au t \<subseteq> tagged au' t \<and> set vs \<subseteq> tagged au' t \<and> (\<forall>v \<in> set vs. \<not> hit user v) \<and>
        (\<forall>x \<in> tagged au' t - tagged au t. \<not> hit user x \<and> set (aliases H x) \<subseteq> tagged au' t))"

definition closed_in :: "(string \<Rightarrow> header option) \<Rightarrow> string set \<Rightarrow> bool" where
  "closed_in H N \<longleftrightarrow> finite N \<and> (\<forall>x \<in> N. x \<noteq> ''*'' \<longrightarrow> H x \<noteq> None) \<and> (\<forall>x \<in> N. set (aliases H x) \<subseteq> N)"

lemma member_alias: "v \<in> set (aliases H g) \<Longrightarrow> member H user v \<Longrightarrow> member H user g"
  unfolding member_def by (meson alias_edge_def converse_rtranclp_into_rtranclp)

lemma member_hit: "hit user g \<Longrightarrow> member H user g"
  by (auto simp: member_def)

lemma rec_from_aliases:
  assumes IH: "\<And>vs au. header_of au = H \<Longrightarrow> set vs \<subseteq> N \<Longrightarrow> card (N - tagged au t) < n \<or> vs = [] \<Longrightarrow>
      \<exists>au' b. in_aliases n user vs t au = Some (Done (au', Inr b)) \<and> dfs_post H user t au au' vs b"
    and N: "closed_in H N" "g \<in> N" "t \<noteq> 0" and H: "header_of au = H" and c: "card (N - tagged au t) < Suc n"
  shows "\<exists>au' b. is_in_group_rec (Suc n) user g t au = Some (Done (au', Inr b)) \<and> dfs_post H user t au au' [g] b"
proof (cases "g = ''*''")
  case True
  then have "member H user g" by (intro member_hit) (simp add: hit_def)
  with True show ?thesis by (intro exI [of _ au] exI [of _ True]) (simp add: dfs_post_def)
next
  case star: False
  then have k: "header_of au g \<noteq> None" using N H by (auto simp: closed_in_def)
  from load_known [OF k N(3)] obtain au1 where
    1: "mdir_user_load g au = Done (au1, Inr g)" "same_view au au1" "tagged au1 t = tagged au t" "find_user au1 g \<noteq> None"
    by blast
  show ?thesis
  proof (cases "user = Some g \<or> tag_of au1 g = Some t")
    case True
    show ?thesis
    proof (cases "user = Some g")
      case u: True
      then have "member H user g" by (intro member_hit) (simp add: hit_def)
      with u star 1 show ?thesis by (intro exI [of _ au1] exI [of _ True]) (simp add: dfs_post_def)
    next
      case u: False
      with True have t: "tag_of au1 g = Some t" by simp
      then have "g \<in> tagged au t" using 1(3) by (auto simp: tagged_def)
      with u t star 1 show ?thesis
        by (intro exI [of _ au1] exI [of _ False]) (simp add: dfs_post_def hit_def)
    qed
  next
    case False
    let ?au2 = "set_tag g t au1"
    note 2 = set_tag_view [OF 1(4), of t]
    have H1: "header_of au1 = H" "header_of ?au2 = H" using 1(2) 2(1) H by (auto simp: same_view_def)
    obtain h where h: "H g = Some h" using k H by auto
    then have al: "aliases H g = fields_named h SC_ALIAS_FIELD" by (simp add: aliases_def)
    have "g \<notin> tagged au t" using False 1(3) by (auto simp: tagged_def)
    then have "N - tagged ?au2 t \<subset> N - tagged au t" using 2(2) 1(3) N(2) by auto
    then have "card (N - tagged ?au2 t) < card (N - tagged au t)"
      using N(1) by (intro psubset_card_mono) (auto simp: closed_in_def)
    then have "card (N - tagged ?au2 t) < n" using c by simp
    moreover have "set (aliases H g) \<subseteq> N" using N by (auto simp: closed_in_def)
    ultimately obtain au' b where
      3: "in_aliases n user (aliases H g) t ?au2 = Some (Done (au', Inr b))" "dfs_post H user t ?au2 au' (aliases H g) b"
      using IH [OF H1(2)] by blast
    have run: "is_in_group_rec (Suc n) user g t au = Some (Done (au', Inr b))"
      using star 1(1) False 2(3) H1(1) h 3(1) al by (simp add: Let_def)
    have "dfs_post H user t au au' [g] b"
    proof (cases b)
      case True
      with 3(2) 1(2) 2(1) show ?thesis
        by (auto simp: dfs_post_def intro: member_alias same_view_trans)
    next
      case b: False
      with 3(2) have p: "same_view ?au2 au'" "tagged ?au2 t \<subseteq> tagged au' t" "set (aliases H g) \<subseteq> tagged au' t"
        "\<forall>x \<in> tagged au' t - tagged ?au2 t. \<not> hit user x \<and> set (aliases H x) \<subseteq> tagged au' t"
        by (auto simp: dfs_post_def)
      have "\<not> hit user g" using star False by (simp add: hit_def)
      moreover have "same_view au au'" using same_view_trans [OF 1(2) same_view_trans [OF 2(1) p(1)]] .
      ultimately show ?thesis using b p(2-4) 2(2) 1(3) by (auto simp: dfs_post_def)
    qed
    with run show ?thesis by blast
  qed
qed

lemma aliases_from_rec:
  assumes R: "\<And>g au. header_of au = H \<Longrightarrow> g \<in> N \<Longrightarrow> card (N - tagged au t) < n \<Longrightarrow>
      \<exists>au' b. is_in_group_rec n user g t au = Some (Done (au', Inr b)) \<and> dfs_post H user t au au' [g] b"
    and fin: "finite N"
  shows "header_of au = H \<Longrightarrow> set vs \<subseteq> N \<Longrightarrow> card (N - tagged au t) < n \<or> vs = [] \<Longrightarrow>
      \<exists>au' b. in_aliases n user vs t au = Some (Done (au', Inr b)) \<and> dfs_post H user t au au' vs b"
proof (induction vs arbitrary: au)
  case Nil
  then show ?case by (auto simp: dfs_post_def)
next
  case (Cons v vs)
  then have c: "card (N - tagged au t) < n" by simp
  from R [OF Cons.prems(1) _ c, of v] Cons.prems(2) obtain au1 b where
    1: "is_in_group_rec n user v t au = Some (Done (au1, Inr b))" "dfs_post H user t au au1 [v] b" by auto
  show ?case
  proof (cases b)
    case True
    with 1 show ?thesis by (auto simp: dfs_post_def)
  next
    case False
    with 1(2) have p: "same_view au au1" "tagged au t \<subseteq> tagged au1 t" "v \<in> tagged au1 t" "\<not> hit user v"
      "\<forall>x \<in> tagged au1 t - tagged au t. \<not> hit user x \<and> set (aliases H x) \<subseteq> tagged au1 t"
      by (auto simp: dfs_post_def)
    have H1: "header_of au1 = H" using p(1) Cons.prems(1) by (simp add: same_view_def)
    have "card (N - tagged au1 t) \<le> card (N - tagged au t)" using p(2) fin by (intro card_mono) auto
    with c have "card (N - tagged au1 t) < n \<or> vs = []" by simp
    from Cons.IH [OF H1 _ this] Cons.prems(2) obtain au2 b2 where
      2: "in_aliases n user vs t au1 = Some (Done (au2, Inr b2))" "dfs_post H user t au1 au2 vs b2" by auto
    have "dfs_post H user t au au2 (v # vs) b2"
    proof (cases b2)
      case True
      with 2(2) p(1) show ?thesis by (auto simp: dfs_post_def intro: same_view_trans)
    next
      case b2: False
      with 2(2) have q: "same_view au1 au2" "tagged au1 t \<subseteq> tagged au2 t" "set vs \<subseteq> tagged au2 t" "\<forall>v \<in> set vs. \<not> hit user v"
        "\<forall>x \<in> tagged au2 t - tagged au1 t. \<not> hit user x \<and> set (aliases H x) \<subseteq> tagged au2 t"
        by (auto simp: dfs_post_def)
      have "\<not> hit user x \<and> set (aliases H x) \<subseteq> tagged au2 t" if "x \<in> tagged au2 t - tagged au t" for x
        using that p(5) q(2,5) by (cases "x \<in> tagged au1 t") blast+
      with b2 p q same_view_trans [OF p(1) q(1)] show ?thesis by (auto simp: dfs_post_def)
    qed
    with 1(1) False 2(1) show ?thesis by auto
  qed
qed

lemma rec_total:
  assumes "closed_in H N" "t \<noteq> 0"
  shows "header_of au = H \<Longrightarrow> g \<in> N \<Longrightarrow> card (N - tagged au t) < n \<Longrightarrow>
    \<exists>au' b. is_in_group_rec n user g t au = Some (Done (au', Inr b)) \<and> dfs_post H user t au au' [g] b"
proof (induction n arbitrary: g au)
  case (Suc n)
  have fin: "finite N" using assms(1) by (simp add: closed_in_def)
  show ?case
    by (rule rec_from_aliases [OF aliases_from_rec [OF Suc.IH fin] assms(1) Suc.prems(2) assms(2) Suc.prems(1,3)])
qed simp

lemma not_member:
  assumes "dfs_post H user t au au' [g] False" "tagged au t = {}"
  shows "\<not> member H user g"
proof
  assume "member H user g"
  then obtain x where x: "(alias_edge H)\<^sup>*\<^sup>* g x" "hit user x" by (auto simp: member_def)
  from x(1) have "x \<in> tagged au' t"
    by (induction rule: rtranclp_induct) (use assms in \<open>auto simp: dfs_post_def alias_edge_def\<close>)
  with assms x(2) show False by (auto simp: dfs_post_def)
qed

section \<open>Membership\<close>

definition tags_ok :: "auth \<Rightarrow> bool" where
  "tags_ok au \<longleftrightarrow> (\<forall>u \<in> set (users au). u_tag u \<le> a_tag au)"

lemma find_user_tag [simp]: "find_user (au\<lparr>a_tag := t\<rparr>) = find_user au"
  by (rule ext) (simp add: find_user_def)

lemma header_of_tag: "header_of (au\<lparr>a_tag := t\<rparr>) = header_of au"
  by (rule ext) (simp add: header_of_def find_user_def split: option.split)

lemma is_in_group_enough:
  assumes "closed_in (header_of au) N" "g \<in> N" "card N < fuel" "tags_ok au" "a_tag au + 1 < 2 ^ 32"
  shows "\<exists>au'. mdir_user_is_in_group fuel user g if_unknown au =
      Some (Done (au', member (header_of au) user g)) \<and> same_view (au\<lparr>a_tag := a_tag au + 1\<rparr>) au'"
proof -
  let ?t = "a_tag au + 1" and ?au = "au\<lparr>a_tag := a_tag au + 1\<rparr>"
  have H: "header_of ?au = header_of au" by (rule header_of_tag)
  have none: "tagged ?au ?t = {}"
  proof -
    have "tag_of ?au x \<noteq> Some ?t" for x
    proof (cases "find_user au x")
      case (Some u)
      then have "u \<in> set (users au)" by (auto simp: find_user_def find_Some_iff)
      with assms(4) Some show ?thesis by (fastforce simp: tags_ok_def tag_of_def)
    qed (simp add: tag_of_def)
    then show ?thesis by (auto simp: tagged_def)
  qed
  have c: "card (N - tagged ?au ?t) < fuel" using assms(3) none by simp
  have t0: "?t \<noteq> 0" by simp
  from rec_total [OF assms(1) t0 H assms(2) c] obtain au' b where
    1: "is_in_group_rec fuel user g ?t ?au = Some (Done (au', Inr b))" "dfs_post (header_of au) user ?t ?au au' [g] b"
    by blast
  have "b = member (header_of au) user g"
    using 1(2) not_member [OF _ none] by (cases b) (auto simp: dfs_post_def)
  moreover have "same_view ?au au'" using 1(2) by (simp add: dfs_post_def)
  ultimately show ?thesis using 1(1) assms(5) by (simp add: mdir_user_is_in_group_def Let_def)
qed

lemma tags_ok_load: "mdir_user_load nm au = Done (au', r) \<Longrightarrow> tags_ok au \<Longrightarrow> tags_ok au' \<and> a_tag au' = a_tag au"
  by (auto simp: mdir_user_load_def tags_ok_def user_ctor_def split: option.splits outcome.splits)

lemma tags_ok_set: "tags_ok au \<Longrightarrow> t \<le> a_tag au \<Longrightarrow> tags_ok (set_tag nm t au)"
  by (auto simp: tags_ok_def set_tag_def)

lemma tags_ok_rec:
  "is_in_group_rec n user g t au = Some (Done (au', r)) \<Longrightarrow> tags_ok au \<Longrightarrow> t \<le> a_tag au \<Longrightarrow>
     tags_ok au' \<and> a_tag au' = a_tag au"
  "in_aliases n user vs t au = Some (Done (au', r)) \<Longrightarrow> tags_ok au \<Longrightarrow> t \<le> a_tag au \<Longrightarrow>
     tags_ok au' \<and> a_tag au' = a_tag au"
proof (induction n user g t au and n user vs t au arbitrary: au' r and au' r rule: is_in_group_rec_in_aliases.induct)
  case (2 n user g t au)
  show ?case
  proof (cases "g = ''*''")
    case False
    with "2.prems"(1) obtain au1 r1 where l: "mdir_user_load g au = Done (au1, r1)"
      by (auto split: outcome.splits)
    note ok = tags_ok_load [OF l "2.prems"(2)]
    show ?thesis
    proof (cases "\<exists>grp. r1 = Inr grp \<and> user \<noteq> Some grp \<and> tag_of au1 grp \<noteq> Some t")
      case True
      then obtain grp where g: "r1 = Inr grp" "user \<noteq> Some grp" "tag_of au1 grp \<noteq> Some t" by blast
      with False l have "is_in_group_rec (Suc n) user g t au = (case mdir_user_header (set_tag grp t au1) grp of
          None \<Rightarrow> Some Crash | Some h \<Rightarrow> in_aliases n user (fields_named h SC_ALIAS_FIELD) t (set_tag grp t au1))"
        by (simp add: Let_def)
      with "2.prems"(1) obtain h where h: "mdir_user_header (set_tag grp t au1) grp = Some h"
        "in_aliases n user (fields_named h SC_ALIAS_FIELD) t (set_tag grp t au1) = Some (Done (au', r))"
        by (cases "mdir_user_header (set_tag grp t au1) grp") simp_all
      have "tags_ok (set_tag grp t au1)" "t \<le> a_tag (set_tag grp t au1)"
        using tags_ok_set [of au1 t grp] ok "2.prems"(3) by auto
      from "2.IH" [OF False l refl g refl h this] ok show ?thesis by simp
    next
      case no: False
      with "2.prems" False l ok show ?thesis by (auto split: sum.splits if_splits)
    qed
  qed (use "2.prems" in auto)
next
  case (4 n user v vs t au)
  from "4.prems"(1) obtain au1 r1 where v: "is_in_group_rec n user v t au = Some (Done (au1, r1))"
    by (auto split: option.splits outcome.splits)
  note ok = "4.IH"(1) [OF v "4.prems"(2,3)]
  show ?case
  proof (cases "r1 = Inr False")
    case True
    with v "4.prems"(1) have w: "in_aliases n user vs t au1 = Some (Done (au', r))" by simp
    from "4.IH"(2) [OF v refl refl True refl w] ok "4.prems"(3) show ?thesis by simp
  next
    case False
    with v "4.prems"(1) ok show ?thesis by (auto split: sum.splits bool.splits)
  qed
qed auto

lemma tags_ok_group:
  assumes "mdir_user_is_in_group fuel user g u au = Some (Done (au', b))" "tags_ok au" "a_tag au + 1 < 2 ^ 32"
  shows "tags_ok au' \<and> a_tag au' = a_tag au + 1"
proof -
  let ?au = "au\<lparr>a_tag := a_tag au + 1\<rparr>"
  have ok: "tags_ok ?au" using assms(2) by (fastforce simp: tags_ok_def)
  from assms(1,3) obtain r where "is_in_group_rec fuel user g (a_tag au + 1) ?au = Some (Done (au', r))"
    by (auto simp: mdir_user_is_in_group_def Let_def split: option.splits outcome.splits sum.splits)
  from tags_ok_rec(1) [OF this ok] show ?thesis by simp
qed

section \<open>Decision\<close>

text \<open>The first field that names a group the user belongs to decides.\<close>

fun decide :: "(string \<Rightarrow> bool) \<Rightarrow> header_field list \<Rightarrow> string \<Rightarrow> string \<Rightarrow> bool option" where
  "decide mem [] allow_field deny_field = None"
| "decide mem (hf # hfs) allow_field deny_field =
     (if hf_name hf = allow_field \<and> mem (hf_value hf) then Some True
      else if hf_name hf \<noteq> allow_field \<and> hf_name hf = deny_field \<and> mem (hf_value hf) then Some False
      else decide mem hfs allow_field deny_field)"

definition access :: "(string \<Rightarrow> bool) \<Rightarrow> header option \<Rightarrow> header option \<Rightarrow> string \<Rightarrow> string \<Rightarrow> bool" where
  "access mem ho dflt allow_field deny_field =
     (case (case ho of None \<Rightarrow> None | Some h \<Rightarrow> decide mem (h_fields h) allow_field deny_field) of
        Some b \<Rightarrow> b
      | None \<Rightarrow> (case dflt of None \<Rightarrow> False | Some d \<Rightarrow> decide mem (h_fields d) allow_field deny_field = Some True))"

text \<open>The groups a header names for a permission are known.\<close>

definition names_in :: "string set \<Rightarrow> string \<Rightarrow> string \<Rightarrow> header_field list \<Rightarrow> bool" where
  "names_in N allow_field deny_field hfs \<longleftrightarrow>
     list_all (\<lambda>hf. hf_name hf = allow_field \<or> hf_name hf = deny_field \<longrightarrow> hf_value hf \<in> N) hfs"

text \<open>States in which the traversals of the alias graph \<open>H\<close> are defined, with \<open>k\<close> tags to spare.\<close>

definition auth_ok :: "(string \<Rightarrow> header option) \<Rightarrow> header option \<Rightarrow> nat \<Rightarrow> auth \<Rightarrow> bool" where
  "auth_ok H d k au \<longleftrightarrow> header_of au = H \<and> default_perms au = d \<and> tags_ok au \<and> a_tag au + k < 2 ^ 32"

lemma auth_ok_mono: "auth_ok H d k au \<Longrightarrow> l \<le> k \<Longrightarrow> auth_ok H d l au"
  by (simp add: auth_ok_def)

lemma group_ok:
  assumes "auth_ok H d (Suc k) au" "closed_in H N" "g \<in> N" "card N < fuel"
  shows "\<exists>au'. mdir_user_is_in_group fuel user g u au = Some (Done (au', member H user g)) \<and> auth_ok H d k au'"
proof -
  from assms(1) have a: "header_of au = H" "tags_ok au" "a_tag au + 1 < 2 ^ 32" by (auto simp: auth_ok_def)
  from is_in_group_enough [of au N g fuel user u] a assms(2-4) obtain au' where
    1: "mdir_user_is_in_group fuel user g u au = Some (Done (au', member H user g))"
      "same_view (au\<lparr>a_tag := a_tag au + 1\<rparr>) au'" by auto
  have "header_of (au\<lparr>a_tag := a_tag au + 1\<rparr>) = header_of au" by (rule header_of_tag)
  with 1 tags_ok_group [OF 1(1) a(2,3)] assms(1) show ?thesis by (auto simp: auth_ok_def same_view_def)
qed

lemma perm_fields_decide:
  assumes "closed_in H N" "card N < fuel"
  shows "auth_ok H d (length hfs + k) au \<Longrightarrow> names_in N al de hfs \<Longrightarrow>
    \<exists>au'. perm_fields fuel user hfs al de au = Some (Done (au', decide (member H user) hfs al de)) \<and> auth_ok H d k au'"
proof (induction hfs arbitrary: au)
  case Nil
  then show ?case by simp
next
  case (Cons hf hfs)
  have ok: "auth_ok H d (Suc (length hfs + k)) au" and nm: "names_in N al de hfs"
    using Cons.prems by (auto simp: names_in_def)
  show ?case
  proof (cases "hf_name hf = al \<or> hf_name hf = de")
    case False
    with Cons.IH [OF auth_ok_mono [OF ok] nm] show ?thesis by simp
  next
    case True
    then have v: "hf_value hf \<in> N" using Cons.prems(2) by (auto simp: names_in_def)
    obtain au1 where 1: "mdir_user_is_in_group fuel user (hf_value hf) (hf_name hf \<noteq> al) au =
        Some (Done (au1, member H user (hf_value hf)))" "auth_ok H d (length hfs + k) au1"
      using group_ok [OF ok assms(1) v assms(2)] by blast
    show ?thesis
    proof (cases "member H user (hf_value hf)")
      case m: True
      with 1 True auth_ok_mono [OF 1(2), of k] show ?thesis by (cases "hf_name hf = al") auto
    next
      case m: False
      with 1 True Cons.IH [OF 1(2) nm] show ?thesis by (cases "hf_name hf = al") auto
    qed
  qed
qed

definition perm_size :: "header option \<Rightarrow> nat" where
  "perm_size ho = (case ho of None \<Rightarrow> 0 | Some h \<Rightarrow> length (h_fields h))"

definition names_ok :: "string set \<Rightarrow> string \<Rightarrow> string \<Rightarrow> header option \<Rightarrow> bool" where
  "names_ok N al de ho \<longleftrightarrow> (case ho of None \<Rightarrow> True | Some h \<Rightarrow> names_in N al de (h_fields h))"

lemma check_perms_access:
  assumes "closed_in H N" "card N < fuel" "auth_ok H d (perm_size ho + perm_size d + k) au"
    "names_ok N al de ho" "names_ok N al de d"
  shows "\<exists>au'. check_user_perms fuel user ho al de au = Some (Done (au', access (member H user) ho d al de)) \<and>
    auth_ok H d k au'"
proof -
  have "\<exists>au1. (case ho of None \<Rightarrow> Some (Done (au, None)) | Some h \<Rightarrow> perm_fields fuel user (h_fields h) al de au) =
      Some (Done (au1, case ho of None \<Rightarrow> None | Some h \<Rightarrow> decide (member H user) (h_fields h) al de)) \<and>
      auth_ok H d (perm_size d + k) au1"
  proof (cases ho)
    case None
    with assms(3) show ?thesis by (simp add: perm_size_def)
  next
    case (Some h)
    with perm_fields_decide [OF assms(1,2), of d "h_fields h" "perm_size d + k" au al de user] assms(3,4) show ?thesis
      by (simp add: perm_size_def names_ok_def add.assoc)
  qed
  then obtain au1 where 1: "(case ho of None \<Rightarrow> Some (Done (au, None)) | Some h \<Rightarrow> perm_fields fuel user (h_fields h) al de au) =
      Some (Done (au1, case ho of None \<Rightarrow> None | Some h \<Rightarrow> decide (member H user) (h_fields h) al de))"
      "auth_ok H d (perm_size d + k) au1" by blast
  show ?thesis
  proof (cases "case ho of None \<Rightarrow> None | Some h \<Rightarrow> decide (member H user) (h_fields h) al de")
    case (Some b)
    with 1(1) auth_ok_mono [OF 1(2), of k] show ?thesis by (simp add: check_user_perms_def access_def)
  next
    case None
    have dp: "default_perms au1 = d" using 1(2) by (simp add: auth_ok_def)
    show ?thesis
    proof (cases d)
      case d: None
      with None 1(1) dp auth_ok_mono [OF 1(2), of k] show ?thesis by (simp add: check_user_perms_def access_def)
    next
      case d: (Some dh)
      with perm_fields_decide [OF assms(1,2), of d "h_fields dh" k au1 al de user] 1(2) assms(5) obtain au2 where
        "perm_fields fuel user (h_fields dh) al de au1 = Some (Done (au2, decide (member H user) (h_fields dh) al de))"
        "auth_ok H d k au2" by (auto simp: perm_size_def names_ok_def)
      with None 1(1) dp d show ?thesis by (simp add: check_user_perms_def access_def)
    qed
  qed
qed

lemma or_admin_access:
  assumes "closed_in H N" "card N < fuel" "auth_ok H d (2 * (perm_size ho + perm_size d) + k) au"
    "names_ok N al de ho" "names_ok N al de d"
    "names_ok N SC_ALLOW_ADMIN_FIELD SC_DENY_ADMIN_FIELD ho" "names_ok N SC_ALLOW_ADMIN_FIELD SC_DENY_ADMIN_FIELD d"
  shows "\<exists>au'. or_admin fuel user ho (check_user_perms fuel user ho al de au) =
      Some (Done (au', access (member H user) ho d al de \<or>
        access (member H user) ho d SC_ALLOW_ADMIN_FIELD SC_DENY_ADMIN_FIELD)) \<and> auth_ok H d k au'"
proof -
  let ?s = "perm_size ho + perm_size d"
  have a: "auth_ok H d (?s + (?s + k)) au" using assms(3) by (simp add: auth_ok_def)
  from check_perms_access [OF assms(1,2) a assms(4,5)] obtain au1 where
    1: "check_user_perms fuel user ho al de au = Some (Done (au1, access (member H user) ho d al de))"
      "auth_ok H d (?s + k) au1" by blast
  from check_perms_access [OF assms(1,2) 1(2) assms(6,7), of user] obtain au2 where
    2: "check_user_perms fuel user ho SC_ALLOW_ADMIN_FIELD SC_DENY_ADMIN_FIELD au1 =
        Some (Done (au2, access (member H user) ho d SC_ALLOW_ADMIN_FIELD SC_DENY_ADMIN_FIELD))" "auth_ok H d k au2" by blast
  show ?thesis
  proof (cases "access (member H user) ho d al de")
    case True
    with 1 auth_ok_mono [OF 1(2), of k] show ?thesis by (simp add: or_admin_def)
  next
    case False
    with 1 2 show ?thesis by (simp add: or_admin_def mdir_user_can_admin_def)
  qed
qed

section \<open>Properties\<close>

text \<open>C16. Group membership ends and is reachability: when the groups that the alias fields lead to
  from a group are known and finitely many, more fuel than there are such groups is enough
  whatever cycles the aliases form, and \<open>mdir_user_is_in_group\<close> then answers whether the user, or
  the group of everybody, is reachable from the group through alias fields; the files, the
  permissions and the headers of users are unchanged.\<close>

theorem mdir_user_is_in_group_reachable:
  assumes "closed_in (header_of au) N" "g \<in> N" "card N < fuel" "tags_ok au" "a_tag au + 1 < 2 ^ 32"
  shows "\<exists>au'. mdir_user_is_in_group fuel user g if_unknown au = Some (Done (au', member (header_of au) user g)) \<and>
    header_of au' = header_of au \<and> tags_ok au' \<and> default_perms au' = default_perms au"
proof -
  from is_in_group_enough [OF assms] obtain au' where
    1: "mdir_user_is_in_group fuel user g if_unknown au = Some (Done (au', member (header_of au) user g))"
      "same_view (au\<lparr>a_tag := a_tag au + 1\<rparr>) au'" by blast
  have "header_of au' = header_of au" using 1(2) header_of_tag [of "a_tag au + 1" au] by (simp add: same_view_def)
  with 1 tags_ok_group [OF 1(1) assms(4,5)] show ?thesis by (auto simp: same_view_def)
qed

definition alias_header :: "string list \<Rightarrow> header" where
  "alias_header vs = fold (\<lambda>v h. header_field_new h SC_ALIAS_FIELD v) vs header_new"

definition au_sample :: auth where
  "au_sample = \<lparr>a_fs = \<lparr>ents = [], idata = (\<lambda>_. []), next_ino = 0, pwrite_appends = False\<rparr>,
     users = [\<lparr>u_name = ''admin'', u_header = alias_header [''staff''], u_tag = 0\<rparr>,
              \<lparr>u_name = ''staff'', u_header = alias_header [''admin'', ''bob''], u_tag = 0\<rparr>,
              \<lparr>u_name = ''bob'', u_header = alias_header [], u_tag = 0\<rparr>],
     users_root = ''/u'', default_perms = Some default_header, a_tag = 0\<rparr>"

lemma aliases_sample:
  "aliases (header_of au_sample) ''admin'' = [''staff'']" "aliases (header_of au_sample) ''staff'' = [''admin'', ''bob'']"
  "aliases (header_of au_sample) ''bob'' = []"
  by code_simp+

lemma header_of_star: "header_of au_sample ''*'' = None"
  by code_simp

lemma known_sample: "header_of au_sample ''admin'' \<noteq> None" "header_of au_sample ''staff'' \<noteq> None" "header_of au_sample ''bob'' \<noteq> None"
  by (simp_all add: header_of_def find_user_def au_sample_def)

lemma closed_sample: "closed_in (header_of au_sample) {''admin'', ''staff'', ''bob'', ''*''}"
proof -
  have "aliases (header_of au_sample) ''*'' = []" using header_of_star by (simp add: aliases_def)
  then show ?thesis using known_sample aliases_sample by (auto simp: closed_in_def)
qed

lemma member_sample: "member (header_of au_sample) (Some ''bob'') ''admin''"
proof -
  have "alias_edge (header_of au_sample) ''admin'' ''staff''" "alias_edge (header_of au_sample) ''staff'' ''bob''"
    by (simp_all add: alias_edge_def aliases_sample)
  then have "(alias_edge (header_of au_sample))\<^sup>*\<^sup>* ''admin'' ''bob''" by auto
  then show ?thesis by (auto simp: member_def hit_def)
qed

lemma tags_sample: "tags_ok au_sample" "a_tag au_sample = 0"
  by (simp_all add: tags_ok_def au_sample_def)

theorem mdir_user_is_in_group_reachable_witness:
  "\<exists>au'. mdir_user_is_in_group 5 (Some ''bob'') ''admin'' False au_sample = Some (Done (au', True))"
  using mdir_user_is_in_group_reachable [OF closed_sample, of "''admin''" 5 "Some ''bob''" False] tags_sample member_sample
  by auto

text \<open>C17. Permissions: when the groups named by the permission header and by the default permissions
  are known, reading (writing) is granted exactly if the first read (write) field that names a
  group of the user allows it, the defaults deciding when no field does, or if the admin
  fields, evaluated the same way, allow administration.\<close>

theorem mdir_user_perms:
  assumes "closed_in H N" "card N < fuel" "auth_ok H d (2 * (perm_size ho + perm_size d)) au"
    "names_ok N al de ho" "names_ok N al de d"
    "names_ok N SC_ALLOW_ADMIN_FIELD SC_DENY_ADMIN_FIELD ho" "names_ok N SC_ALLOW_ADMIN_FIELD SC_DENY_ADMIN_FIELD d"
  shows "(al = SC_ALLOW_READ_FIELD \<and> de = SC_DENY_READ_FIELD \<longrightarrow>
      (\<exists>au'. mdir_user_can_read fuel user ho au = Some (Done (au',
         access (member H user) ho d al de \<or> access (member H user) ho d SC_ALLOW_ADMIN_FIELD SC_DENY_ADMIN_FIELD)))) \<and>
    (al = SC_ALLOW_WRITE_FIELD \<and> de = SC_DENY_WRITE_FIELD \<longrightarrow>
      (\<exists>au'. mdir_user_can_write fuel user ho au = Some (Done (au',
         access (member H user) ho d al de \<or> access (member H user) ho d SC_ALLOW_ADMIN_FIELD SC_DENY_ADMIN_FIELD))))"
  using or_admin_access [OF assms(1,2) _ assms(4-7), of 0 au user] assms(3)
  by (auto simp: mdir_user_can_read_def mdir_user_can_write_def)

definition perms_sample :: header where
  "perms_sample = fold (\<lambda>(n, v) h. header_field_new h n v)
     [(SC_DENY_WRITE_FIELD, ''staff''), (SC_ALLOW_WRITE_FIELD, ''*'')] header_new"

lemma names_sample:
  "names_ok {''admin'', ''staff'', ''bob'', ''*''} SC_ALLOW_WRITE_FIELD SC_DENY_WRITE_FIELD (Some perms_sample)"
  "names_ok {''admin'', ''staff'', ''bob'', ''*''} SC_ALLOW_ADMIN_FIELD SC_DENY_ADMIN_FIELD (Some perms_sample)"
  "names_ok {''admin'', ''staff'', ''bob'', ''*''} SC_ALLOW_WRITE_FIELD SC_DENY_WRITE_FIELD (Some default_header)"
  "names_ok {''admin'', ''staff'', ''bob'', ''*''} SC_ALLOW_ADMIN_FIELD SC_DENY_ADMIN_FIELD (Some default_header)"
  by code_simp+

theorem mdir_user_perms_witness:
  "\<exists>au' b. mdir_user_can_write 5 None (Some perms_sample) au_sample = Some (Done (au', b)) \<and>
     b = (access (member (header_of au_sample) None) (Some perms_sample) (Some default_header) SC_ALLOW_WRITE_FIELD SC_DENY_WRITE_FIELD \<or>
          access (member (header_of au_sample) None) (Some perms_sample) (Some default_header) SC_ALLOW_ADMIN_FIELD SC_DENY_ADMIN_FIELD)"
proof -
  have "default_perms au_sample = Some default_header" by (simp add: au_sample_def)
  moreover have "perm_size (Some perms_sample) = 2" "perm_size (Some default_header) = 4" by code_simp+
  ultimately have a: "auth_ok (header_of au_sample) (Some default_header)
      (2 * (perm_size (Some perms_sample) + perm_size (Some default_header))) au_sample"
    using tags_sample by (simp add: auth_ok_def)
  have "card {''admin'', ''staff'', ''bob'', ''*''} < 5" by simp
  from mdir_user_perms [OF closed_sample this a names_sample(1,3,2,4), of None] show ?thesis by blast
qed

text \<open>A folder without permissions of its own, under the default permissions that \<open>auth_init\<close>
  sets: everybody reads, including a client that did not authenticate, and nobody writes or
  administrates but the members of the group \<open>admin\<close>.\<close>

theorem default_permissions:
  assumes "closed_in H N" "card N < fuel" "auth_ok H (Some default_header) 8 au" "''admin'' \<in> N" "''*'' \<in> N"
  shows "(\<exists>au'. mdir_user_can_read fuel user None au = Some (Done (au', True))) \<and>
    (\<exists>au'. mdir_user_can_write fuel user None au = Some (Done (au', member H user ''admin''))) \<and>
    (\<exists>au'. mdir_user_can_admin fuel user None au = Some (Done (au', member H user ''admin'')))"
proof -
  have f: "map (\<lambda>hf. (hf_name hf, hf_value hf)) (h_fields default_header) =
      [(''sc-allow-read'', ''*''), (''sc-deny-write'', ''*''), (''sc-allow-admin'', ''admin''), (''sc-deny-admin'', ''*'')]"
    by code_simp
  then obtain a b c e where fields: "h_fields default_header = [a, b, c, e]"
    "hf_name a = ''sc-allow-read''" "hf_value a = ''*''" "hf_name b = ''sc-deny-write''" "hf_value b = ''*''"
    "hf_name c = ''sc-allow-admin''" "hf_value c = ''admin''" "hf_name e = ''sc-deny-admin''" "hf_value e = ''*''"
    by (auto simp: map_eq_Cons_conv)
  have star: "member H user ''*''" by (intro member_hit) (simp add: hit_def)
  have acc: "access (member H user) None (Some default_header) SC_ALLOW_READ_FIELD SC_DENY_READ_FIELD"
    "\<not> access (member H user) None (Some default_header) SC_ALLOW_WRITE_FIELD SC_DENY_WRITE_FIELD"
    "access (member H user) None (Some default_header) SC_ALLOW_ADMIN_FIELD SC_DENY_ADMIN_FIELD = member H user ''admin''"
    using star by (simp_all add: access_def fields sc_names)
  have nm: "names_ok N SC_ALLOW_READ_FIELD SC_DENY_READ_FIELD (Some default_header)"
    "names_ok N SC_ALLOW_WRITE_FIELD SC_DENY_WRITE_FIELD (Some default_header)"
    "names_ok N SC_ALLOW_ADMIN_FIELD SC_DENY_ADMIN_FIELD (Some default_header)" "names_ok N x y None" for x y
    using assms(4,5) by (simp_all add: names_ok_def names_in_def fields sc_names)
  have sz: "perm_size None = 0" "perm_size (Some default_header) = 4" by (simp_all add: perm_size_def fields)
  have ok: "auth_ok H (Some default_header) (2 * (perm_size None + perm_size (Some default_header)) + 0) au"
    "auth_ok H (Some default_header) (perm_size None + perm_size (Some default_header) + 4) au" using assms(3) sz by simp_all
  show ?thesis
    using or_admin_access [OF assms(1,2) ok(1) nm(4) nm(1) nm(4) nm(3), of user]
      or_admin_access [OF assms(1,2) ok(1) nm(4) nm(2) nm(4) nm(3), of user]
      check_perms_access [OF assms(1,2) ok(2) nm(4) nm(3), of user] acc
    by (auto simp: mdir_user_can_read_def mdir_user_can_write_def mdir_user_can_admin_def)
qed

theorem default_permissions_witness:
  "(\<exists>au'. mdir_user_can_read 5 None None au_sample = Some (Done (au', True))) \<and>
   (\<exists>au'. mdir_user_can_write 5 (Some ''bob'') None au_sample = Some (Done (au', True)))"
proof -
  have "default_perms au_sample = Some default_header" by (simp add: au_sample_def)
  then have a: "auth_ok (header_of au_sample) (Some default_header) 8 au_sample" using tags_sample by (simp add: auth_ok_def)
  have c: "card {''admin'', ''staff'', ''bob'', ''*''} < 5" by simp
  show ?thesis
    using default_permissions [OF closed_sample c a, of None] default_permissions [OF closed_sample c a, of "Some ''bob''"]
      member_sample by auto
qed

end
