(* ===== verification/Jnl.thy ===== *)
theory Jnl
  imports Fs
begin

text \<open>
  Journals, after \<open>lib/jnl.c\<close>: a journal is a log file, where patches are appended one after the
  other, and an index file of fixed size binary entries (the offset of each patch in the
  log and the version of the last mark put on it). Both files are byte strings of the file
  system; a descriptor is the inode it was opened on. Versions are 64 bit integers in the
  source and unbounded here: a journal would need $2^{63}$ patches to tell the difference.
\<close>

section \<open>Data\<close>

record index_entry =
  ie_offset :: int
  ie_last_mark :: mdir_version

record jnl =
  patch_fd :: nat
  repatch_fd :: nat
  idx_fd :: nat
  jversion :: mdir_version
  nb_patches :: nat

definition u32 :: "nat \<Rightarrow> nat" where
  "u32 n = n mod 2 ^ 32"

fun le_bytes :: "nat \<Rightarrow> int \<Rightarrow> string" where
  "le_bytes 0 v = []"
| "le_bytes (Suc k) v = char_of (nat (v mod 256)) # le_bytes k (v div 256)"

fun un_le :: "string \<Rightarrow> int" where
  "un_le [] = 0"
| "un_le (c # cs) = int (of_char c) + 256 * un_le cs"

definition ie_bytes :: "index_entry \<Rightarrow> string" where
  "ie_bytes ie = le_bytes 8 (ie_offset ie) @ le_bytes 8 (ie_last_mark ie)"

definition un_ie :: "string \<Rightarrow> index_entry" where
  "un_ie s = \<lparr>ie_offset = wrap64 (un_le (take 8 s)), ie_last_mark = wrap64 (un_le (take 8 (drop 8 s)))\<rparr>"

definition sizeof_ie :: nat where "sizeof_ie = 16"

section \<open>Opening\<close>

definition filesize :: "fs \<Rightarrow> nat \<Rightarrow> int" where
  "filesize fs i = int (length (idata fs i))"

definition fetch_nb_patches :: "fs \<Rightarrow> nat \<Rightarrow> nat res" where
  "fetch_nb_patches fs fd =
     (let sz = length (idata fs fd) in
      if sz mod sizeof_ie \<noteq> 0 then Fail 0 ''Bad index file size'' else Inr (u32 (sz div sizeof_ie)))"

definition parse_version :: "string \<Rightarrow> mdir_version res" where
  "parse_version filename = (case strtoull10 filename of (v, end_) \<Rightarrow>
     if end_ \<noteq> ''.log'' then Fail 0 ''is not a journal file'' else Inr v)"

text \<open>The insertion in version order: the new list and the position of the journal in it.\<close>

fun jnl_insert :: "jnl \<Rightarrow> jnl list \<Rightarrow> (jnl list \<times> nat) res" where
  "jnl_insert jn [] = Inr ([jn], 0)"
| "jnl_insert jn (j # js) =
     (if jversion j > jversion jn then Inr (jn # j # js, 0)
      else if jversion j \<ge> jversion jn \<or> jversion j + int (nb_patches j) > jversion jn
      then Fail 0 ''Bad journals''
      else case jnl_insert jn js of Inl e \<Rightarrow> Inl e | Inr (js', i) \<Rightarrow> Inr (j # js', Suc i))"

definition jnl_ctor :: "fs \<Rightarrow> string \<Rightarrow> jnl list \<Rightarrow> string \<Rightarrow> (fs \<times> (jnl list \<times> nat) res) outcome" where
  "jnl_ctor fs mpath js filename = (case parse_version filename of
     Inl e \<Rightarrow> Done (fs, Inl e)
   | Inr v \<Rightarrow>
       let full = mpath @ ''/'' @ filename; path = snpath full in
       (case sys_open True False False fs path of
          (fs, Inl e) \<Rightarrow> Done (fs, Fail e ''open'')
        | (fs, Inr pfd) \<Rightarrow> (case sys_open False False False fs path of
             (fs, Inl e) \<Rightarrow> Done (fs, Fail e ''open'')
           | (fs, Inr rfd) \<Rightarrow>
               if PATH_MAX \<le> length full then Crash
               else (case sys_open True False False fs (take (length full - 3) full @ ''idx'') of
                  (fs, Inl e) \<Rightarrow> Done (fs, Fail e ''open'')
                | (fs, Inr ifd) \<Rightarrow> (case fetch_nb_patches fs ifd of
                     Inl e \<Rightarrow> Done (fs, Inl e)
                   | Inr nb \<Rightarrow> Done (fs, jnl_insert \<lparr>patch_fd = pfd, repatch_fd = rfd, idx_fd = ifd,
                        jversion = v, nb_patches = nb\<rparr> js))))))"

definition jnl_new :: "fs \<Rightarrow> string \<Rightarrow> jnl list \<Rightarrow> string \<Rightarrow> (fs \<times> (jnl list \<times> nat) res) outcome" where
  "jnl_new fs mpath js filename = jnl_ctor fs mpath js filename"

definition jnl_del :: "jnl list \<Rightarrow> nat \<Rightarrow> jnl list" where
  "jnl_del js i = take i js @ drop (Suc i) js"

definition JNL_FNAME_LEN :: nat where "JNL_FNAME_LEN = 24"

definition jnl_new_empty :: "fs \<Rightarrow> string \<Rightarrow> jnl list \<Rightarrow> mdir_version \<Rightarrow> (fs \<times> (jnl list \<times> nat) res) outcome" where
  "jnl_new_empty fs mpath js start_version =
     jnl_new fs mpath js (take JNL_FNAME_LEN (dec20 start_version @ ''.log''))"

section \<open>Index access\<close>

definition pread_at :: "fs \<Rightarrow> nat \<Rightarrow> int \<Rightarrow> nat \<Rightarrow> string res" where
  "pread_at fs i off len =
     (if off < 0 then Fail EINVAL ''Cannot pth_pread'' else ReadFrom [] (idata fs i) (nat off) len)"

definition jnl_idx_read :: "fs \<Rightarrow> jnl \<Rightarrow> nat \<Rightarrow> nat \<Rightarrow> index_entry list res" where
  "jnl_idx_read fs j index nb_entries =
     (case ReadFrom [] (idata fs (idx_fd j)) (index * sizeof_ie) (nb_entries * sizeof_ie) of
        Inl e \<Rightarrow> Inl e
      | Inr s \<Rightarrow> Inr (map (\<lambda>k. un_ie (take sizeof_ie (drop (k * sizeof_ie) s))) [0..<nb_entries]))"

text \<open>The index is open in append mode.\<close>

definition jnl_idx_write :: "fs \<Rightarrow> jnl \<Rightarrow> nat \<Rightarrow> index_entry \<Rightarrow> fs \<times> err option" where
  "jnl_idx_write fs j index ie =
     (let off = (if pwrite_appends fs then length (idata fs (idx_fd j)) else index * sizeof_ie)
      in case WriteTo [] (idata fs (idx_fd j)) off (ie_bytes ie) of
           (d, e) \<Rightarrow> (set_data fs (idx_fd j) d, e))"

text \<open>Offset and size of a patch; \<open>nb_patches - 1\<close> is computed on 32 bits.\<close>

definition jnl_offset_size :: "fs \<Rightarrow> jnl \<Rightarrow> nat \<Rightarrow> (int \<times> int) outcome" where
  "jnl_offset_size fs j index =
     (let ends = (if index < u32 (nb_patches j + (2 ^ 32 - 1))
        then (case jnl_idx_read fs j index 2 of
                Inl e \<Rightarrow> Inl e | Inr ies \<Rightarrow> Inr (ie_offset (ies ! 0), ie_offset (ies ! 1)))
        else (case jnl_idx_read fs j index 1 of
                Inl e \<Rightarrow> Inl e | Inr ies \<Rightarrow> Inr (ie_offset (ies ! 0), filesize fs (patch_fd j))))
      in case ends of
           Inl e \<Rightarrow> Raised e
         | Inr (o0, o1) \<Rightarrow> if o1 > o0 then Done (o0, o1 - o0) else Crash)"

section \<open>Patching\<close>

definition mdir_action2str :: "mdir_action \<Rightarrow> string" where
  "mdir_action2str a = (case a of MDIR_ADD \<Rightarrow> ''+'' | MDIR_REM \<Rightarrow> ''-'')"

definition fs_Write :: "fs \<Rightarrow> nat \<Rightarrow> string \<Rightarrow> fs \<times> err option" where
  "fs_Write fs i b = (case Write [] (fd_of fs i True) b of (f, e) \<Rightarrow> (set_data fs i (bytes f), e))"

definition jnl_patch :: "fs \<Rightarrow> jnl \<Rightarrow> mdir_action \<Rightarrow> header \<Rightarrow> fs \<times> jnl \<times> mdir_version res" where
  "jnl_patch fs j action h =
     (case fs_Write fs (idx_fd j) (ie_bytes \<lparr>ie_offset = filesize fs (patch_fd j), ie_last_mark = 0\<rparr>) of
        (fs, Some e) \<Rightarrow> (fs, j, Inl e)
      | (fs, None) \<Rightarrow>
          (case Write_strs [] (fd_of fs (patch_fd j) True) [mdir_action2str action, [NL]] of
             (f, Some e) \<Rightarrow> (set_data fs (patch_fd j) (bytes f), j, Inl e)
           | (f, None) \<Rightarrow> (case header_write h f of
                (f, Some e) \<Rightarrow> (set_data fs (patch_fd j) (bytes f), j, Inl e)
              | (f, None) \<Rightarrow>
                  let j = j\<lparr>nb_patches := u32 (Suc (nb_patches j))\<rparr>
                  in (set_data fs (patch_fd j) (bytes f), j, Inr (jversion j + int (nb_patches j) - 1)))))"

definition jnl_replace_last_mark :: "fs \<Rightarrow> jnl \<Rightarrow> nat \<Rightarrow> mdir_version \<Rightarrow> fs \<times> mdir_version res" where
  "jnl_replace_last_mark fs j index new_last_mark =
     (case jnl_idx_read fs j index 1 of
        Inl e \<Rightarrow> (fs, Inl e)
      | Inr ies \<Rightarrow>
          let prev = ie_last_mark (ies ! 0);
              ie = (ies ! 0)\<lparr>ie_last_mark := new_last_mark\<rparr>
          in (case jnl_idx_write fs j index ie of
                (fs, Some e) \<Rightarrow> (fs, Inl e)
              | (fs, None) \<Rightarrow> (fs, Inr prev)))"

definition jnl_mark_del :: "fs \<Rightarrow> jnl \<Rightarrow> mdir_version \<Rightarrow> (fs \<times> err option) outcome" where
  "jnl_mark_del fs j to_del =
     (if \<not> (jversion j \<le> to_del \<and> to_del - jversion j < int (nb_patches j)) then Crash
      else case jnl_offset_size fs j (nat (to_del - jversion j)) of
        Crash \<Rightarrow> Crash
      | Raised e \<Rightarrow> Done (fs, Some e)
      | Done (offset, _) \<Rightarrow> (case pread_at fs (patch_fd j) offset 1 of
           Inl e \<Rightarrow> Done (fs, Some e)
         | Inr tag \<Rightarrow>
             if tag = ''%'' then Done (fs, None)
             else if tag \<noteq> ''+'' then Done (fs, Some (Err 0 ''Cannot delete version''))
             else (case WriteTo [] (idata fs (repatch_fd j)) (nat offset) ''%'' of
                (d, e) \<Rightarrow> Done (set_data fs (repatch_fd j) d, e))))"

definition jnl_patch_blank :: "fs \<Rightarrow> jnl \<Rightarrow> fs \<times> jnl \<times> mdir_version res" where
  "jnl_patch_blank fs j =
     (case fs_Write fs (idx_fd j) (ie_bytes \<lparr>ie_offset = filesize fs (patch_fd j), ie_last_mark = 0\<rparr>) of
        (fs, Some e) \<Rightarrow> (fs, j, Inl e)
      | (fs, None) \<Rightarrow> (case fs_Write fs (patch_fd j) (''%'' @ [NL, NL]) of
           (fs, Some e) \<Rightarrow> (fs, j, Inl e)
         | (fs, None) \<Rightarrow>
             let j = j\<lparr>nb_patches := u32 (Suc (nb_patches j))\<rparr>
             in (fs, j, Inr (jversion j + int (nb_patches j) - 1))))"

section \<open>Reading\<close>

text \<open>
  The header returned (none for a deleted patch), the action stored through the pointer, if
  it is, and the error pending on return: a header that does not parse is returned all the
  same, with the error.
\<close>

definition jnl_read :: "fs \<Rightarrow> jnl \<Rightarrow> nat \<Rightarrow> (header option \<times> mdir_action option \<times> err option) outcome" where
  "jnl_read fs j index = (case jnl_offset_size fs j index of
     Crash \<Rightarrow> Crash
   | Raised e \<Rightarrow> Done (None, None, Some e)
   | Done (offset, sz) \<Rightarrow>
       if sz < 3 then Done (None, None, Some (Err 0 ''Invalid header''))
       else (case pread_at fs (patch_fd j) offset (nat sz) of
          Inl e \<Rightarrow> Done (None, None, Some e)
        | Inr b \<Rightarrow>
            let n = nat sz in
            if b ! 1 \<noteq> NL \<or> b ! (n - 2) \<noteq> NL \<or> b ! (n - 1) \<noteq> NL
            then Done (None, None, Some (Err 0 ''Invalid patch''))
            else if b ! 0 = CHR ''%'' then Done (None, Some MDIR_ADD, None)
            else if b ! 0 = CHR ''+'' \<or> b ! 0 = CHR ''-'' then
              obind (header_parse header_new (cstr (drop 2 b))) (\<lambda>(_, h, e).
                Done (Some h, Some (if b ! 0 = CHR ''+'' then MDIR_ADD else MDIR_REM), e))
            else Done (None, None, Some (Err 0 ''Unknown action''))))"

section \<open>Utilities\<close>

definition jnl_too_big :: "nat \<Rightarrow> jnl \<Rightarrow> bool" where
  "jnl_too_big max_jnl_size j \<longleftrightarrow> nb_patches j \<ge> max_jnl_size"

definition is_jnl_file :: "string \<Rightarrow> bool" where
  "is_jnl_file filename \<longleftrightarrow>
     4 \<le> length filename \<and> drop (length filename - 4) filename = ''.log''"

fun jnl_holding :: "jnl list \<Rightarrow> mdir_version \<Rightarrow> nat option" where
  "jnl_holding [] v = None"
| "jnl_holding (j # js) v =
     (if jversion j \<le> v \<and> jversion j + int (nb_patches j) > v then Some 0
      else map_option Suc (jnl_holding js v))"

definition jnl_get_by_version :: "jnl list \<Rightarrow> mdir_version \<Rightarrow> nat res" where
  "jnl_get_by_version js v = (case jnl_holding js v of
     None \<Rightarrow> Fail 0 ''No such version'' | Some i \<Rightarrow> Inr i)"

section \<open>Binary index entries\<close>

lemma length_le_bytes [simp]: "length (le_bytes k v) = k"
  by (induction k arbitrary: v) auto

lemma un_le_bytes: "un_le (le_bytes k v) = v mod 256 ^ k"
proof (induction k arbitrary: v)
  case (Suc k)
  have "int (of_char (char_of (nat (v mod 256)) :: char)) = v mod 256"
  proof -
    have "v mod 256 < 256" "0 \<le> v mod 256" by simp_all
    then have "nat (v mod 256) < 256" by linarith
    then show ?thesis by simp
  qed
  with Suc show ?case by (simp add: zmod_zmult2_eq)
qed simp

lemma wrap64_mod: "- (2 ^ 63) \<le> v \<Longrightarrow> v < 2 ^ 63 \<Longrightarrow> wrap64 (v mod 2 ^ 64) = v"
  by (simp add: wrap64_def mod_simps)

definition int64 :: "int \<Rightarrow> bool" where
  "int64 v \<longleftrightarrow> - (2 ^ 63) \<le> v \<and> v < 2 ^ 63"

definition ie_ok :: "index_entry \<Rightarrow> bool" where
  "ie_ok ie \<longleftrightarrow> int64 (ie_offset ie) \<and> int64 (ie_last_mark ie)"

lemma length_ie_bytes [simp]: "length (ie_bytes ie) = sizeof_ie"
  by (simp add: ie_bytes_def sizeof_ie_def)

lemma un_ie_bytes: "ie_ok ie \<Longrightarrow> un_ie (ie_bytes ie) = ie"
proof -
  assume "ie_ok ie"
  have "(256 :: int) ^ 8 = 2 ^ 64" by simp
  with \<open>ie_ok ie\<close> show ?thesis
    using wrap64_mod [of "ie_offset ie"] wrap64_mod [of "ie_last_mark ie"]
    by (simp only: ie_ok_def int64_def un_ie_def ie_bytes_def) (simp add: un_le_bytes)
qed

lemma length_concat_ie [simp]: "length (concat (map ie_bytes ies)) = length ies * sizeof_ie"
  by (induction ies) auto

lemma drop_concat_ie: "drop (i * sizeof_ie) (concat (map ie_bytes ies)) = concat (map ie_bytes (drop i ies))"
proof (induction ies arbitrary: i)
  case (Cons ie ies)
  then show ?case by (cases i) (auto simp: drop_append)
qed simp

lemma take_concat_ie: "take (n * sizeof_ie) (concat (map ie_bytes ies)) = concat (map ie_bytes (take n ies))"
proof (induction ies arbitrary: n)
  case (Cons ie ies)
  then show ?case by (cases n) (auto simp: take_append)
qed simp

lemma ReadFrom_whole: "off + len \<le> length f \<Longrightarrow> ReadFrom [] f off len = Inr (take len (drop off f))"
  by (auto simp: ReadFrom_def Let_def)

lemma ReadFrom_short: "length f < off + len \<Longrightarrow> 0 < len \<Longrightarrow> ReadFrom [] f off len = Fail 0 ''EOF''"
  by (auto simp: ReadFrom_def Let_def)

lemma take_1_drop: "i < length xs \<Longrightarrow> take 1 (drop i xs) = [xs ! i]"
  by (simp add: take_Suc_conv_app_nth)

lemma jnl_idx_read_rep:
  assumes "idata fs (idx_fd j) = concat (map ie_bytes ies)" "list_all ie_ok ies" "i + n \<le> length ies"
  shows "jnl_idx_read fs j i n = Inr (take n (drop i ies))"
proof -
  let ?f = "idata fs (idx_fd j)"
  have "i * sizeof_ie + n * sizeof_ie \<le> length ?f"
    using assms(1,3) by (simp flip: add_mult_distrib)
  then have "ReadFrom [] ?f (i * sizeof_ie) (n * sizeof_ie) = Inr (concat (map ie_bytes (take n (drop i ies))))"
    by (simp only: ReadFrom_whole assms(1) drop_concat_ie take_concat_ie)
  moreover have "map (\<lambda>k. un_ie (take sizeof_ie (drop (k * sizeof_ie) (concat (map ie_bytes (take n (drop i ies)))))))
      [0..<n] = take n (drop i ies)" (is "?l = ?r")
  proof (rule nth_equalityI)
    show "length ?l = length ?r" using assms(3) by simp
    fix k assume "k < length ?l"
    then have k: "k < n" by simp
    have "take (1 * sizeof_ie) (concat (map ie_bytes (drop k ?r))) = concat (map ie_bytes (take 1 (drop k ?r)))"
      by (rule take_concat_ie)
    also have "take 1 (drop k ?r) = [?r ! k]"
      using k assms(3) by (simp add: take_Suc_conv_app_nth)
    finally have "take sizeof_ie (drop (k * sizeof_ie) (concat (map ie_bytes ?r))) = ie_bytes (?r ! k)"
      by (simp add: drop_concat_ie)
    moreover have "ie_ok (?r ! k)" using k assms(2,3) by (simp add: list_all_length)
    ultimately show "?l ! k = ?r ! k" using k by (simp add: un_ie_bytes)
  qed
  ultimately show ?thesis by (simp add: jnl_idx_read_def)
qed

section \<open>Representation\<close>

text \<open>An entry of the log: its tag, which becomes \<open>%\<close> when it is deleted, and its header.\<close>

type_synonym entry = "char \<times> header_field list"

definition entry_text :: "entry \<Rightarrow> string" where
  "entry_text en = fst en # NL # concat (map field_dump (snd en)) @ [NL]"

definition entry_ok :: "entry \<Rightarrow> bool" where
  "entry_ok en \<longleftrightarrow> fst en \<in> {CHR ''+'', CHR ''-'', CHR ''%''} \<and> list_all wf_field (snd en) \<and>
     list_all (\<lambda>hf. NUL \<notin> set (hf_name hf) \<and> NUL \<notin> set (hf_value hf)) (snd en)"

definition log_text :: "entry list \<Rightarrow> string" where
  "log_text es = concat (map entry_text es)"

fun index_of :: "int \<Rightarrow> entry list \<Rightarrow> mdir_version list \<Rightarrow> index_entry list" where
  "index_of off (en # es) (m # ms) =
     \<lparr>ie_offset = off, ie_last_mark = m\<rparr> # index_of (off + int (length (entry_text en))) es ms"
| "index_of off _ _ = []"

definition jnl_rep :: "fs \<Rightarrow> jnl \<Rightarrow> entry list \<Rightarrow> mdir_version list \<Rightarrow> bool" where
  "jnl_rep fs j es ms \<longleftrightarrow>
     idata fs (patch_fd j) = log_text es \<and>
     idata fs (idx_fd j) = concat (map ie_bytes (index_of 0 es ms)) \<and>
     length ms = length es \<and> nb_patches j = length es \<and> length es < 2 ^ 32 \<and>
     repatch_fd j = patch_fd j \<and> patch_fd j \<noteq> idx_fd j \<and>
     int (length (log_text es)) < 2 ^ 63 \<and>
     list_all entry_ok es \<and> list_all int64 ms"

lemma log_text_simps [simp]:
  "log_text [] = []" "log_text (en # es) = entry_text en @ log_text es"
  "log_text (es @ fs) = log_text es @ log_text fs"
  by (simp_all add: log_text_def)

lemma length_entry_text: "3 \<le> length (entry_text en)"
  by (simp add: entry_text_def)

lemma entry_text_not_Nil [simp]: "entry_text en \<noteq> []"
  by (simp add: entry_text_def)

lemma length_index_of [simp]: "length ms = length es \<Longrightarrow> length (index_of off es ms) = length es"
  by (induction off es ms rule: index_of.induct) auto

lemma index_of_append:
  "length ms = length es \<Longrightarrow> index_of off (es @ [en]) (ms @ [m]) =
     index_of off es ms @ [\<lparr>ie_offset = off + int (length (log_text es)), ie_last_mark = m\<rparr>]"
  by (induction off es ms rule: index_of.induct) (auto simp: algebra_simps)

lemma index_of_nth:
  "length ms = length es \<Longrightarrow> i < length es \<Longrightarrow> index_of off es ms ! i =
     \<lparr>ie_offset = off + int (length (log_text (take i es))), ie_last_mark = ms ! i\<rparr>"
  by (induction off es ms arbitrary: i rule: index_of.induct)
    (auto simp: nth_Cons algebra_simps split: nat.splits)

lemma length_log_take: "length (log_text (take i es)) \<le> length (log_text es)"
  by (metis append_take_drop_id le_add1 length_append log_text_simps(3))

lemma index_of_ok:
  assumes "length ms = length es" "int (length (log_text es)) < 2 ^ 63" "list_all int64 ms"
  shows "list_all ie_ok (index_of 0 es ms)"
proof -
  have "ie_ok (index_of 0 es ms ! i)" if "i < length es" for i
  proof -
    have "int (length (log_text (take i es))) < 2 ^ 63"
      using assms(2) length_log_take [of i es] by linarith
    with assms that show ?thesis by (simp add: index_of_nth ie_ok_def int64_def list_all_length)
  qed
  then show ?thesis using assms(1) by (simp add: list_all_length)
qed

lemma log_text_split:
  "i < length es \<Longrightarrow> log_text es = log_text (take i es) @ entry_text (es ! i) @ log_text (drop (Suc i) es)"
  by (subst id_take_nth_drop [of i es]) auto

lemma u32_id [simp]: "n < 2 ^ 32 \<Longrightarrow> u32 n = n"
  by (simp add: u32_def)

lemma jnl_offset_size_rep:
  assumes "jnl_rep fs j es ms" "i < length es"
  shows "jnl_offset_size fs j i =
    Done (int (length (log_text (take i es))), int (length (entry_text (es ! i))))"
proof -
  from assms have r: "idata fs (idx_fd j) = concat (map ie_bytes (index_of 0 es ms))"
      "list_all ie_ok (index_of 0 es ms)" "length ms = length es" "nb_patches j = length es"
      "length es < 2 ^ 32" "idata fs (patch_fd j) = log_text es"
    by (auto simp: jnl_rep_def intro: index_of_ok)
  have u: "u32 (nb_patches j + 4294967295) = length es - 1"
    using r(4,5) assms(2) by (cases "length es") (auto simp: u32_def)
  have suc: "length (log_text (take (Suc i) es)) = length (log_text (take i es)) + length (entry_text (es ! i))"
    using assms(2) by (simp add: take_Suc_conv_app_nth)
  show ?thesis
  proof (cases "Suc i < length es")
    case True
    then have "jnl_idx_read fs j i 2 = Inr (take 2 (drop i (index_of 0 es ms)))"
      using r by (intro jnl_idx_read_rep) auto
    also have "take 2 (drop i (index_of 0 es ms)) = [index_of 0 es ms ! i, index_of 0 es ms ! Suc i]"
      using True r(3) by (simp add: numeral_2_eq_2 take_Suc_conv_app_nth nth_append)
    moreover have "i < length es - Suc 0" using True by simp
    ultimately show ?thesis using True r(3) suc length_entry_text [of "es ! i"]
      by (simp add: jnl_offset_size_def u index_of_nth)
  next
    case False
    with assms(2) have i: "length es = Suc i" by simp
    then have "jnl_idx_read fs j i 1 = Inr (take 1 (drop i (index_of 0 es ms)))"
      using r by (intro jnl_idx_read_rep) auto
    also have "take 1 (drop i (index_of 0 es ms)) = [index_of 0 es ms ! i]"
      by (rule take_1_drop) (use i r(3) in simp)
    finally show ?thesis using i r(3,6) suc length_entry_text [of "es ! i"]
      by (simp add: jnl_offset_size_def u index_of_nth filesize_def)
  qed
qed

section \<open>Operations on represented journals\<close>

lemma Write_fd_append: "Write [] (fd_of fs i True) b = (\<lparr>bytes = idata fs i @ b, pos = (if b = [] then 0 else length (idata fs i) + length b), o_append = True\<rparr>, None)"
  by (auto simp: Write_def fd_of_def sys_write_def pwrite_bytes_def)

lemma fs_Write_append: "fs_Write fs i b = (set_data fs i (idata fs i @ b), None)"
  by (simp add: fs_Write_def Write_fd_append)

lemma sys_write_end: "o_append f \<Longrightarrow> bytes (sys_write f b) = bytes f @ b \<and> o_append (sys_write f b)"
  by (simp add: sys_write_def pwrite_bytes_def Let_def)

lemma Write_end: "o_append f \<Longrightarrow> \<exists>f'. Write [] f b = (f', None) \<and> o_append f' \<and> bytes f' = bytes f @ b"
  using sys_write_end [of f b] by (cases b) (auto simp: Write_def)

lemma Write_strs_end:
  "o_append f \<Longrightarrow> \<exists>f'. Write_strs [] f ss = (f', None) \<and> o_append f' \<and> bytes f' = bytes f @ concat ss"
proof (induction ss arbitrary: f)
  case (Cons s ss)
  from Write_end [OF Cons.prems, of s] obtain f' where
    "Write [] f s = (f', None)" "o_append f'" "bytes f' = bytes f @ s" by blast
  with Cons.IH [of f'] show ?case by auto
qed simp

lemma header_write_append:
  assumes "o_append f"
  shows "\<exists>f'. header_write h f = (f', None) \<and> o_append f' \<and> bytes f' = bytes f @ header_dump h"
proof -
  let ?ss = "concat (map (\<lambda>hf. [hf_name hf, '': '', hf_value hf, [NL]]) (h_fields h))"
  from Write_strs_end [OF assms, of ?ss] obtain f1 where f1: "Write_strs [] f ?ss = (f1, None)"
    "o_append f1" "bytes f1 = bytes f @ concat (map field_dump (h_fields h))"
    unfolding concat_field_strs by blast
  from Write_end [OF f1(2), of "[NL]"] f1 show ?thesis
    by (auto simp: header_write_def header_dump_def)
qed

definition action_tag :: "mdir_action \<Rightarrow> char" where
  "action_tag a = (case a of MDIR_ADD \<Rightarrow> CHR ''+'' | MDIR_REM \<Rightarrow> CHR ''-'')"

lemma jnl_patch_eq:
  assumes "patch_fd j \<noteq> idx_fd j" "Suc (nb_patches j) < 2 ^ 32"
  shows "jnl_patch fs j a h =
    (set_data (set_data fs (idx_fd j)
        (idata fs (idx_fd j) @ ie_bytes \<lparr>ie_offset = filesize fs (patch_fd j), ie_last_mark = 0\<rparr>))
      (patch_fd j) (idata fs (patch_fd j) @ entry_text (action_tag a, h_fields h)),
     j\<lparr>nb_patches := Suc (nb_patches j)\<rparr>, Inr (jversion j + int (nb_patches j)))"
proof -
  let ?fs = "set_data fs (idx_fd j)
        (idata fs (idx_fd j) @ ie_bytes \<lparr>ie_offset = filesize fs (patch_fd j), ie_last_mark = 0\<rparr>)"
  let ?f = "fd_of ?fs (patch_fd j) True"
  have "o_append ?f" by (simp add: fd_of_def)
  from Write_strs_end [OF this, of "[mdir_action2str a, [NL]]"] obtain f1 where f1:
    "Write_strs [] ?f [mdir_action2str a, [NL]] = (f1, None)" "o_append f1"
    "bytes f1 = bytes ?f @ mdir_action2str a @ [NL]" by auto
  from header_write_append [OF f1(2), of h] obtain f2 where f2:
    "header_write h f1 = (f2, None)" "bytes f2 = bytes f1 @ header_dump h" by blast
  have "mdir_action2str a @ [NL] @ header_dump h = entry_text (action_tag a, h_fields h)"
    by (cases a) (auto simp: mdir_action2str_def action_tag_def entry_text_def header_dump_def)
  then have "bytes f2 = idata fs (patch_fd j) @ entry_text (action_tag a, h_fields h)"
    using assms(1) f1(3) f2(2) by (simp add: fd_of_def)
  with f1 f2 assms show ?thesis by (simp add: jnl_patch_def fs_Write_append Let_def del: set_data_simps)
qed

lemma jnl_patch_blank_eq:
  assumes "patch_fd j \<noteq> idx_fd j" "Suc (nb_patches j) < 2 ^ 32"
  shows "jnl_patch_blank fs j =
    (set_data (set_data fs (idx_fd j)
        (idata fs (idx_fd j) @ ie_bytes \<lparr>ie_offset = filesize fs (patch_fd j), ie_last_mark = 0\<rparr>))
      (patch_fd j) (idata fs (patch_fd j) @ entry_text (CHR ''%'', [])),
     j\<lparr>nb_patches := Suc (nb_patches j)\<rparr>, Inr (jversion j + int (nb_patches j)))"
  using assms by (simp add: jnl_patch_blank_def fs_Write_append entry_text_def Let_def)

lemma jnl_rep_snoc:
  assumes "jnl_rep fs j es ms" "entry_ok en" "int (length (log_text (es @ [en]))) < 2 ^ 63"
    "Suc (length es) < 2 ^ 32"
  shows "jnl_rep (set_data (set_data fs (idx_fd j)
        (idata fs (idx_fd j) @ ie_bytes \<lparr>ie_offset = filesize fs (patch_fd j), ie_last_mark = 0\<rparr>))
      (patch_fd j) (idata fs (patch_fd j) @ entry_text en))
     (j\<lparr>nb_patches := Suc (nb_patches j)\<rparr>) (es @ [en]) (ms @ [0])"
  using assms by (auto simp: jnl_rep_def index_of_append filesize_def int64_def)

lemma jnl_read_rep:
  assumes "jnl_rep fs j es ms" "i < length es"
  shows "jnl_read fs j i =
    (if fst (es ! i) = CHR ''%'' then Done (None, Some MDIR_ADD, None)
     else Done (Some \<lparr>h_fields = snd (es ! i), h_count = 1\<rparr>,
       Some (if fst (es ! i) = CHR ''+'' then MDIR_ADD else MDIR_REM), None))"
proof -
  let ?en = "es ! i" and ?o = "length (log_text (take i es))"
  let ?d = "concat (map field_dump (snd ?en))"
  have len: "3 \<le> length (entry_text ?en)" by (rule length_entry_text)
  have ok: "entry_ok ?en" using assms by (auto simp: jnl_rep_def list_all_length)
  have p: "idata fs (patch_fd j) = log_text (take i es) @ entry_text ?en @ log_text (drop (Suc i) es)"
    using assms log_text_split by (auto simp: jnl_rep_def)
  then have rd: "pread_at fs (patch_fd j) (int ?o) (length (entry_text ?en)) = Inr (entry_text ?en)"
    by (simp add: pread_at_def ReadFrom_whole)
  have b: "entry_text ?en ! 1 = NL" "entry_text ?en ! 0 = fst ?en" "drop 2 (entry_text ?en) = ?d @ [NL]"
    by (simp_all add: entry_text_def)
  have "entry_text ?en ! (length (entry_text ?en) - 1) = NL"
    by (simp add: entry_text_def nth_append)
  moreover have "entry_text ?en ! (length (entry_text ?en) - 2) = NL"
  proof (cases "snd ?en" rule: rev_cases)
    case Nil
    then show ?thesis by (simp add: entry_text_def)
  next
    case (snoc hs h)
    then have "\<exists>x. ?d = x @ [NL]" by (simp add: field_dump_def)
    then show ?thesis by (auto simp: entry_text_def nth_append)
  qed
  moreover have "cstr (?d @ [NL]) = ?d @ [NL]"
    using ok by (intro cstr_id) (auto simp: entry_ok_def list_all_iff field_dump_def)
  moreover have "header_parse header_new (?d @ [NL]) = Done (length ?d, \<lparr>h_fields = snd ?en, h_count = 1\<rparr>, None)"
    using ok header_parse_loop_dump [of "snd ?en" "[NL]" header_new 0]
    by (simp add: header_parse_def entry_ok_def header_new_def)
  ultimately show ?thesis using ok len b rd
    by (auto simp: jnl_read_def jnl_offset_size_rep [OF assms] Let_def entry_ok_def)
qed

lemma index_of_update_entry:
  "length (entry_text en) = length (entry_text (es ! i)) \<Longrightarrow> i < length es \<Longrightarrow> length ms = length es \<Longrightarrow>
     index_of off (es[i := en]) ms = index_of off es ms"
  by (induction off es ms arbitrary: i rule: index_of.induct) (auto simp: nth_Cons split: nat.splits)

lemma index_of_update_mark:
  "i < length es \<Longrightarrow> length ms = length es \<Longrightarrow>
     index_of off es (ms[i := m]) = (index_of off es ms)[i := (index_of off es ms ! i)\<lparr>ie_last_mark := m\<rparr>]"
  by (induction off es ms arbitrary: i rule: index_of.induct) (auto simp: nth_Cons split: nat.splits)

lemma entry_text_tag: "entry_text (t, hfs) = t # tl (entry_text (t', hfs))"
  by (simp add: entry_text_def)

lemma WriteTo_once: "b \<noteq> [] \<Longrightarrow> WriteTo [] f off b = (pwrite_bytes f off b, None)"
  by (simp add: WriteTo_def)

lemma pwrite_mid: "length b = length m \<Longrightarrow> pwrite_bytes (l @ m @ r) (length l) b = l @ b @ r"
  by (simp add: pwrite_bytes_def)

lemma jnl_mark_del_read:
  assumes "jnl_rep fs j es ms" "i < length es"
  shows "int i < int (nb_patches j) \<and> pread_at fs (patch_fd j) (int (length (log_text (take i es)))) 1 = Inr [fst (es ! i)]"
  using assms log_text_split [OF assms(2)]
  by (auto simp: jnl_rep_def pread_at_def ReadFrom_whole entry_text_def)

lemma jnl_mark_del_refused:
  assumes "jnl_rep fs j es ms" "i < length es" "fst (es ! i) \<noteq> CHR ''+''"
  shows "jnl_mark_del fs j (jversion j + int i) =
    Done (fs, if fst (es ! i) = CHR ''%'' then None else Some (Err 0 ''Cannot delete version''))"
  using jnl_mark_del_read [OF assms(1,2)] assms(3)
  by (simp add: jnl_mark_del_def jnl_offset_size_rep [OF assms(1,2)])

lemma jnl_mark_del_rep:
  assumes "jnl_rep fs j es ms" "i < length es" "fst (es ! i) = CHR ''+''"
  shows "\<exists>d. jnl_mark_del fs j (jversion j + int i) = Done (set_data fs (patch_fd j) d, None) \<and>
    jnl_rep (set_data fs (patch_fd j) d) j (es[i := (CHR ''%'', snd (es ! i))]) ms"
proof -
  let ?en = "es ! i" and ?l = "log_text (take i es)" and ?r = "log_text (drop (Suc i) es)"
  let ?en' = "(CHR ''%'', snd ?en)"
  let ?d = "?l @ entry_text ?en' @ ?r"
  have p: "idata fs (patch_fd j) = ?l @ entry_text ?en @ ?r"
    using assms log_text_split by (auto simp: jnl_rep_def)
  have "entry_text ?en = [fst ?en] @ tl (entry_text ?en')" by (simp add: entry_text_def)
  then have "pwrite_bytes (idata fs (patch_fd j)) (length ?l) ''%'' = ?l @ ''%'' @ tl (entry_text ?en') @ ?r"
    using pwrite_mid [of "''%''" "[fst ?en]" ?l "tl (entry_text ?en') @ ?r"] by (simp add: p)
  also have "\<dots> = ?d" by (simp add: entry_text_def)
  finally have w: "jnl_mark_del fs j (jversion j + int i) = Done (set_data fs (patch_fd j) ?d, None)"
    using assms jnl_mark_del_read [OF assms(1,2)]
    by (simp add: jnl_mark_del_def jnl_offset_size_rep [OF assms(1,2)] WriteTo_once jnl_rep_def)
  have same: "length (entry_text ?en') = length (entry_text ?en)" by (simp add: entry_text_def)
  have "log_text (es[i := ?en']) = ?d"
    using assms(2) by (simp add: upd_conv_take_nth_drop)
  moreover have "length ?d = length (log_text es)" using same log_text_split [OF assms(2)] by simp
  moreover have "list_all entry_ok (es[i := ?en'])"
    using assms by (auto simp: jnl_rep_def entry_ok_def list_all_length nth_list_update)
  ultimately have "jnl_rep (set_data fs (patch_fd j) ?d) j (es[i := ?en']) ms"
    using assms same index_of_update_entry [OF same, of ms 0] by (auto simp: jnl_rep_def)
  with w show ?thesis by blast
qed

lemma concat_ie_update:
  "i < length ies \<Longrightarrow> pwrite_bytes (concat (map ie_bytes ies)) (i * sizeof_ie) (ie_bytes ie) =
     concat (map ie_bytes (ies[i := ie]))"
proof -
  assume i: "i < length ies"
  have "concat (map ie_bytes ies) =
      concat (map ie_bytes (take i ies)) @ ie_bytes (ies ! i) @ concat (map ie_bytes (drop (Suc i) ies))"
    by (subst id_take_nth_drop [OF i]) simp
  moreover have "i * sizeof_ie = length (concat (map ie_bytes (take i ies)))" using i by simp
  ultimately have "pwrite_bytes (concat (map ie_bytes ies)) (i * sizeof_ie) (ie_bytes ie) =
      concat (map ie_bytes (take i ies)) @ ie_bytes ie @ concat (map ie_bytes (drop (Suc i) ies))"
    using pwrite_mid [of "ie_bytes ie" "ie_bytes (ies ! i)" "concat (map ie_bytes (take i ies))"] by (simp del: length_concat_ie)
  then show ?thesis using i by (simp add: upd_conv_take_nth_drop)
qed

lemma jnl_replace_last_mark_rep:
  assumes "jnl_rep fs j es ms" "i < length es" "int64 v"
  shows "\<exists>d. jnl_replace_last_mark fs j i v = (set_data fs (idx_fd j) d, Inr (ms ! i)) \<and>
    (if pwrite_appends fs
     then d = idata fs (idx_fd j) @ ie_bytes ((index_of 0 es ms ! i)\<lparr>ie_last_mark := v\<rparr>)
     else jnl_rep (set_data fs (idx_fd j) d) j es (ms[i := v]))"
proof -
  let ?ies = "index_of 0 es ms"
  let ?ie = "(?ies ! i)\<lparr>ie_last_mark := v\<rparr>"
  from assms have r: "idata fs (idx_fd j) = concat (map ie_bytes ?ies)" "list_all ie_ok ?ies" "length ms = length es"
    by (auto simp: jnl_rep_def intro: index_of_ok)
  then have rd: "jnl_idx_read fs j i 1 = Inr [?ies ! i]"
    using jnl_idx_read_rep [of fs j ?ies i 1] assms(2) by (simp add: take_Suc_conv_app_nth)
  have mk: "ie_last_mark (?ies ! i) = ms ! i" using assms(2) r(3) by (simp add: index_of_nth)
  have ne: "ie_bytes ?ie \<noteq> []" by (metis length_ie_bytes length_0_conv sizeof_ie_def zero_neq_numeral)
  show ?thesis
  proof (cases "pwrite_appends fs")
    case True
    then show ?thesis using rd mk ne
      by (simp add: jnl_replace_last_mark_def jnl_idx_write_def WriteTo_once pwrite_bytes_def)
  next
    case False
    let ?d = "concat (map ie_bytes (?ies[i := ?ie]))"
    have "jnl_replace_last_mark fs j i v = (set_data fs (idx_fd j) ?d, Inr (ms ! i))"
      using False rd mk ne r assms(2) by (simp add: jnl_replace_last_mark_def jnl_idx_write_def WriteTo_once concat_ie_update)
    moreover have "jnl_rep (set_data fs (idx_fd j) ?d) j es (ms[i := v])"
      using assms r(3) by (auto simp: jnl_rep_def index_of_update_mark list_all_length nth_list_update)
    ultimately show ?thesis using False by auto
  qed
qed

section \<open>The interface of a log\<close>

datatype 'e logcmd = Put 'e | Kill nat

fun list_run :: "('e \<Rightarrow> 'e) \<Rightarrow> 'e list \<Rightarrow> 'e logcmd list \<Rightarrow> 'e list" where
  "list_run dead es [] = es"
| "list_run dead es (Put e # cs) = list_run dead (es @ [e]) cs"
| "list_run dead es (Kill i # cs) = list_run dead (es[i := dead (es ! i)]) cs"

fun list_valid :: "('e list \<Rightarrow> 'e \<Rightarrow> bool) \<Rightarrow> ('e \<Rightarrow> bool) \<Rightarrow> ('e \<Rightarrow> 'e) \<Rightarrow> 'e list \<Rightarrow> 'e logcmd list \<Rightarrow> bool" where
  "list_valid fits alive dead es [] = True"
| "list_valid fits alive dead es (Put e # cs) = (fits es e \<and> list_valid fits alive dead (es @ [e]) cs)"
| "list_valid fits alive dead es (Kill i # cs) =
     (i < length es \<and> alive (es ! i) \<and> list_valid fits alive dead (es[i := dead (es ! i)]) cs)"

fun log_run :: "('s \<Rightarrow> 'e \<Rightarrow> 's \<times> int res) \<Rightarrow> ('s \<Rightarrow> nat \<Rightarrow> 's outcome) \<Rightarrow> 's \<Rightarrow> 'e logcmd list \<Rightarrow> 's outcome" where
  "log_run put kill s [] = Done s"
| "log_run put kill s (Put e # cs) =
     (case put s e of (s', Inr v) \<Rightarrow> log_run put kill s' cs | (s', Inl err) \<Rightarrow> Raised err)"
| "log_run put kill s (Kill i # cs) = obind (kill s i) (\<lambda>s'. log_run put kill s' cs)"

text \<open>
  What the folders rely on: a log is a list of entries, a new entry is appended under the next
  version, an entry that is alive can be marked dead in place, and entries are read by index.
\<close>

locale patch_log =
  fixes Rep :: "'s \<Rightarrow> 'e list \<Rightarrow> bool"
    and first :: "'s \<Rightarrow> int"
    and put :: "'s \<Rightarrow> 'e \<Rightarrow> 's \<times> int res"
    and kill :: "'s \<Rightarrow> nat \<Rightarrow> 's outcome"
    and get :: "'s \<Rightarrow> nat \<Rightarrow> 'r"
    and view :: "'e \<Rightarrow> 'r"
    and fits :: "'e list \<Rightarrow> 'e \<Rightarrow> bool"
    and alive :: "'e \<Rightarrow> bool"
    and dead :: "'e \<Rightarrow> 'e"
  assumes put_law: "Rep s es \<Longrightarrow> fits es e \<Longrightarrow>
      \<exists>s'. put s e = (s', Inr (first s + int (length es))) \<and> Rep s' (es @ [e]) \<and> first s' = first s"
    and kill_law: "Rep s es \<Longrightarrow> i < length es \<Longrightarrow> alive (es ! i) \<Longrightarrow>
      \<exists>s'. kill s i = Done s' \<and> Rep s' (es[i := dead (es ! i)]) \<and> first s' = first s"
    and get_law: "Rep s es \<Longrightarrow> i < length es \<Longrightarrow> get s i = view (es ! i)"
begin

lemma run_refines:
  "Rep s es \<Longrightarrow> list_valid fits alive dead es cs \<Longrightarrow>
     \<exists>s'. log_run put kill s cs = Done s' \<and> Rep s' (list_run dead es cs) \<and> first s' = first s"
proof (induction cs arbitrary: s es)
  case (Cons c cs)
  show ?case
  proof (cases c)
    case (Put e)
    with Cons.prems put_law [of s es e] obtain s' where
      "put s e = (s', Inr (first s + int (length es)))" "Rep s' (es @ [e])" "first s' = first s" by auto
    with Put Cons.prems Cons.IH [of s' "es @ [e]"] show ?thesis by auto
  next
    case (Kill i)
    with Cons.prems kill_law [of s es i] obtain s' where
      "kill s i = Done s'" "Rep s' (es[i := dead (es ! i)])" "first s' = first s" by auto
    with Kill Cons.prems Cons.IH [of s' "es[i := dead (es ! i)]"] show ?thesis by auto
  qed
qed simp

lemma run_get:
  assumes "Rep s es" "list_valid fits alive dead es cs" "i < length (list_run dead es cs)"
  shows "\<exists>s'. log_run put kill s cs = Done s' \<and> get s' i = view (list_run dead es cs ! i)"
  using run_refines [OF assms(1,2)] get_law assms(3) by blast

lemma put_get:
  assumes "Rep s es" "fits es e"
  shows "\<exists>s'. put s e = (s', Inr (first s + int (length es))) \<and> get s' (length es) = view e \<and>
    (\<forall>i < length es. get s' i = get s i)"
proof -
  from put_law [OF assms] obtain s' where
    "put s e = (s', Inr (first s + int (length es)))" "Rep s' (es @ [e])" by blast
  with assms show ?thesis
    using get_law [of s' "es @ [e]"] get_law [of s es] by (auto simp: nth_append)
qed

end

section \<open>Journals are logs\<close>

definition jput :: "fs \<times> jnl \<Rightarrow> entry \<Rightarrow> (fs \<times> jnl) \<times> int res" where
  "jput s en = (case s of (fs, j) \<Rightarrow>
     case (if fst en = CHR ''%'' then jnl_patch_blank fs j
           else jnl_patch fs j (if fst en = CHR ''+'' then MDIR_ADD else MDIR_REM) \<lparr>h_fields = snd en, h_count = 1\<rparr>) of
       (fs, j, r) \<Rightarrow> ((fs, j), r))"

definition jkill :: "fs \<times> jnl \<Rightarrow> nat \<Rightarrow> (fs \<times> jnl) outcome" where
  "jkill s i = (case s of (fs, j) \<Rightarrow> (case jnl_mark_del fs j (jversion j + int i) of
     Done (fs, None) \<Rightarrow> Done (fs, j) | Done (fs, Some e) \<Rightarrow> Raised e | Raised e \<Rightarrow> Raised e | Crash \<Rightarrow> Crash))"

definition jget :: "fs \<times> jnl \<Rightarrow> nat \<Rightarrow> (header option \<times> mdir_action option \<times> err option) outcome" where
  "jget s i = (case s of (fs, j) \<Rightarrow> jnl_read fs j i)"

definition jview :: "entry \<Rightarrow> (header option \<times> mdir_action option \<times> err option) outcome" where
  "jview en = (if fst en = CHR ''%'' then Done (None, Some MDIR_ADD, None)
     else Done (Some \<lparr>h_fields = snd en, h_count = 1\<rparr>,
       Some (if fst en = CHR ''+'' then MDIR_ADD else MDIR_REM), None))"

definition jfits :: "entry list \<Rightarrow> entry \<Rightarrow> bool" where
  "jfits es en \<longleftrightarrow> entry_ok en \<and> (fst en = CHR ''%'' \<longrightarrow> snd en = []) \<and>
     int (length (log_text (es @ [en]))) < 2 ^ 63 \<and> Suc (length es) < 2 ^ 32"

definition jalive :: "entry \<Rightarrow> bool" where
  "jalive en \<longleftrightarrow> fst en = CHR ''+''"

definition jdead :: "entry \<Rightarrow> entry" where
  "jdead en = (CHR ''%'', snd en)"

definition jrep :: "fs \<times> jnl \<Rightarrow> entry list \<Rightarrow> bool" where
  "jrep s es \<longleftrightarrow> (\<exists>ms. jnl_rep (fst s) (snd s) es ms)"

lemma jput_rep:
  assumes "jnl_rep fs j es ms" "jfits es en"
  shows "\<exists>fs'. jput (fs, j) en = ((fs', j\<lparr>nb_patches := Suc (nb_patches j)\<rparr>), Inr (jversion j + int (length es))) \<and>
    jnl_rep fs' (j\<lparr>nb_patches := Suc (nb_patches j)\<rparr>) (es @ [en]) (ms @ [0])"
proof -
  from assms have nb: "patch_fd j \<noteq> idx_fd j" "nb_patches j = length es" by (auto simp: jnl_rep_def)
  from assms have fit: "entry_ok en" "int (length (log_text (es @ [en]))) < 2 ^ 63" "Suc (length es) < 2 ^ 32"
    "fst en = CHR ''%'' \<Longrightarrow> en = (CHR ''%'', [])" by (auto simp: jfits_def prod_eq_iff)
  have tag: "fst en \<noteq> CHR ''%'' \<Longrightarrow> (action_tag (if fst en = CHR ''+'' then MDIR_ADD else MDIR_REM), snd en) = en"
    using fit(1) by (auto simp: entry_ok_def action_tag_def prod_eq_iff)
  from jnl_rep_snoc [OF assms(1) fit(1-3)] nb fit(3,4) tag show ?thesis
    by (auto simp: jput_def jnl_patch_eq jnl_patch_blank_eq)
qed

interpretation jl: patch_log jrep "\<lambda>s. jversion (snd s)" jput jkill jget jview jfits jalive jdead
proof
  fix s es e
  assume "jrep s es" "jfits es e"
  then show "\<exists>s'. jput s e = (s', Inr (jversion (snd s) + int (length es))) \<and> jrep s' (es @ [e]) \<and>
      jversion (snd s') = jversion (snd s)"
    using jput_rep [of "fst s" "snd s" es _ e] by (fastforce simp: jrep_def)
next
  fix s es i
  assume "jrep s es" "i < length es" "jalive (es ! i)"
  then obtain ms where "jnl_rep (fst s) (snd s) es ms" "fst (es ! i) = CHR ''+''"
    by (auto simp: jrep_def jalive_def)
  from jnl_mark_del_rep [OF this(1) \<open>i < length es\<close> this(2)]
  show "\<exists>s'. jkill s i = Done s' \<and> jrep s' (es[i := jdead (es ! i)]) \<and> jversion (snd s') = jversion (snd s)"
    by (auto simp: jkill_def jrep_def jdead_def split: prod.splits)
next
  fix s es i
  assume "jrep s es" "i < length es"
  then show "jget s i = jview (es ! i)"
    using jnl_read_rep [of "fst s" "snd s" es _ i] by (auto simp: jrep_def jget_def jview_def split: prod.splits)
qed

section \<open>Names and order of journals\<close>

lemma length_dec20: "0 \<le> v \<Longrightarrow> v < 2 ^ 63 \<Longrightarrow> length (dec20 v) = 20"
  using length_dec_nat [of 20 "nat v"] by (simp add: dec20_def pad0_def)

definition jnl_filename :: "mdir_version \<Rightarrow> string" where
  "jnl_filename v = dec20 v @ ''.log''"

lemma jnl_filename_fits: "0 \<le> v \<Longrightarrow> v < 2 ^ 63 \<Longrightarrow> take JNL_FNAME_LEN (dec20 v @ ''.log'') = jnl_filename v"
  by (simp add: jnl_filename_def JNL_FNAME_LEN_def length_dec20)

lemma parse_jnl_filename: "0 \<le> v \<Longrightarrow> v < 2 ^ 63 \<Longrightarrow> parse_version (jnl_filename v) = Inr v"
proof -
  assume v: "0 \<le> v" "v < 2 ^ 63"
  have "\<not> starts_digit 10 ''.log''" by (simp add: starts_digit_def digit_val_def)
  from strtoull10_dec20 [OF v this] show ?thesis by (simp add: parse_version_def jnl_filename_def)
qed

definition jnl_before :: "jnl \<Rightarrow> jnl \<Rightarrow> bool" where
  "jnl_before j k \<longleftrightarrow> jversion j < jversion k \<and> jversion j + int (nb_patches j) \<le> jversion k"

lemma jnl_insert_Inr:
  assumes "jnl_insert jn js = Inr (js', i)"
  shows "i \<le> length js \<and> js' = take i js @ jn # drop i js \<and> (\<forall>k \<in> set (take i js). jnl_before k jn) \<and>
    (i < length js \<longrightarrow> jversion jn < jversion (js ! i))"
  using assms
proof (induction js arbitrary: js' i)
  case (Cons j js)
  show ?case
  proof (cases "jversion j > jversion jn")
    case False
    with Cons.prems obtain js1 i1 where
      "jnl_insert jn js = Inr (js1, i1)" "js' = j # js1" "i = Suc i1" "jnl_before j jn"
      by (auto simp: jnl_before_def split: if_splits sum.splits)
    with Cons.IH [of js1 i1] show ?thesis by auto
  qed (use Cons.prems in auto)
qed simp

lemma jnl_insert_sorted:
  assumes "jnl_insert jn js = Inr (js', i)" "sorted_wrt jnl_before js" "nb_patches jn = 0"
  shows "sorted_wrt jnl_before js'"
proof -
  note i = jnl_insert_Inr [OF assms(1)]
  have "jnl_before jn k" if "k \<in> set (drop i js)" for k
  proof -
    have "drop i js = js ! i # drop (Suc i) js" "i < length js"
      using that i by (metis Cons_nth_drop_Suc drop_eq_Nil2 empty_iff empty_set linorder_not_le)+
    moreover have "sorted_wrt jnl_before (drop i js)" using assms(2) by (rule sorted_wrt_drop)
    ultimately have "jversion jn < jversion (js ! i)" "sorted_wrt jnl_before (js ! i # drop (Suc i) js)"
      using i by auto
    with that \<open>drop i js = _\<close> assms(3) show ?thesis by (auto simp: jnl_before_def)
  qed
  moreover have "sorted_wrt jnl_before (take i js @ drop i js)" using assms(2) by simp
  ultimately have "sorted_wrt jnl_before (take i js @ jn # drop i js)"
    using i unfolding sorted_wrt_append by auto
  with i show ?thesis by simp
qed

lemma jnl_insert_last:
  "\<forall>k \<in> set js. jnl_before k jn \<Longrightarrow> jnl_insert jn js = Inr (js @ [jn], length js)"
  by (induction js) (auto simp: jnl_before_def)

lemma jnl_holding_Some:
  "jnl_holding js v = Some i \<Longrightarrow> i < length js \<and> jversion (js ! i) \<le> v \<and>
     v < jversion (js ! i) + int (nb_patches (js ! i))"
  by (induction js arbitrary: i) (auto split: if_splits)

lemma jnl_holding_None:
  "jnl_holding js v = None \<Longrightarrow> j \<in> set js \<Longrightarrow> \<not> (jversion j \<le> v \<and> v < jversion j + int (nb_patches j))"
  by (induction js) (auto split: if_splits)

lemma jnl_holding_unique:
  assumes "sorted_wrt jnl_before js" "i < length js" "jversion (js ! i) \<le> v"
    "v < jversion (js ! i) + int (nb_patches (js ! i))"
  shows "jnl_holding js v = Some i"
proof (cases "jnl_holding js v")
  case None
  with assms jnl_holding_None [of js v "js ! i"] show ?thesis by simp
next
  case (Some k)
  note k = jnl_holding_Some [OF Some]
  have "\<not> i < k" "\<not> k < i"
    using sorted_wrt_nth_less [OF assms(1), of i k] sorted_wrt_nth_less [OF assms(1), of k i] assms(2-) k
    by (auto simp: jnl_before_def)
  with Some show ?thesis by simp
qed

section \<open>Opening files\<close>

lemma length_idx_rep: "jnl_rep fs j es ms \<Longrightarrow> length (idata fs (idx_fd j)) = length es * sizeof_ie"
  by (auto simp: jnl_rep_def)

lemma fetch_nb_rep: "jnl_rep fs j es ms \<Longrightarrow> fetch_nb_patches fs (idx_fd j) = Inr (nb_patches j)"
  by (simp add: fetch_nb_patches_def length_idx_rep Let_def) (simp add: jnl_rep_def sizeof_ie_def)

lemma jnl_ctor_reopens:
  assumes "jnl_rep fs j es ms" "0 \<le> jversion j" "jversion j < 2 ^ 63"
    "length (mpath @ ''/'' @ jnl_filename (jversion j)) < PATH_MAX"
    "file_at fs (mpath @ ''/'' @ jnl_filename (jversion j)) (patch_fd j)"
    "file_at fs (mpath @ ''/'' @ dec20 (jversion j) @ ''.idx'') (idx_fd j)"
  shows "jnl_ctor fs mpath js (jnl_filename (jversion j)) = Done (fs, jnl_insert j js)"
proof -
  let ?full = "mpath @ ''/'' @ jnl_filename (jversion j)"
  have sn: "snpath ?full = ?full" using assms(4) by (simp add: snpath_def)
  have ix: "take (length ?full - 3) ?full @ ''idx'' = mpath @ ''/'' @ dec20 (jversion j) @ ''.idx''"
    by (simp add: jnl_filename_def)
  have r: "\<lparr>patch_fd = patch_fd j, repatch_fd = patch_fd j, idx_fd = idx_fd j, jversion = jversion j,
      nb_patches = nb_patches j\<rparr> = j"
    using assms(1) by (simp add: jnl_rep_def)
  have o1: "sys_open c False False fs (snpath ?full) = (fs, Inr (patch_fd j))" for c
    using sys_open_existing [OF assms(5)] by (simp only: sn)
  have o2: "sys_open True False False fs (take (length ?full - 3) ?full @ ''idx'') = (fs, Inr (idx_fd j))"
    using sys_open_existing [OF assms(6)] by (simp only: ix)
  show ?thesis
    unfolding jnl_ctor_def parse_jnl_filename [OF assms(2,3)] sum.case Let_def o1 o2 prod.case
      fetch_nb_rep [OF assms(1)] r
    using assms(4) by simp
qed

section \<open>Properties\<close>

text \<open>C2. Journals refine lists of entries: starting from a log and an index file that represent a
  list of entries, any sequence of patches, blank patches and deletions of live additions
  that fits the 32 bit count and the 63 bit file size runs without error, leaves both files
  representing the list the same operations give, and \<open>jnl_read\<close> then returns at every index
  the header and action of the list, or no header where the entry was deleted.\<close>

theorem jnl_log_refines:
  assumes "jnl_rep fs j es ms" "list_valid jfits jalive jdead es cs"
  shows "\<exists>fs' j' ms'. log_run jput jkill (fs, j) cs = Done (fs', j') \<and>
    jnl_rep fs' j' (list_run jdead es cs) ms' \<and> jversion j' = jversion j \<and>
    (\<forall>i < length (list_run jdead es cs). jnl_read fs' j' i = jview (list_run jdead es cs ! i))"
proof -
  from assms(1) have "jrep (fs, j) es" by (auto simp: jrep_def)
  from jl.run_refines [OF this assms(2)] obtain fs' j' where
    r: "log_run jput jkill (fs, j) cs = Done (fs', j')" "jrep (fs', j') (list_run jdead es cs)"
      "jversion j' = jversion j" by auto
  with jl.get_law [OF r(2)] show ?thesis by (auto simp: jrep_def jget_def)
qed

definition fs_empty :: fs where
  "fs_empty = \<lparr>ents = [], idata = (\<lambda>_. []), next_ino = 2, pwrite_appends = False\<rparr>"

definition jnl_sample :: jnl where
  "jnl_sample = \<lparr>patch_fd = 0, repatch_fd = 0, idx_fd = 1, jversion = 5, nb_patches = 0\<rparr>"

lemma jnl_sample_rep: "jnl_rep fs_empty jnl_sample [] []"
  by (simp add: jnl_rep_def fs_empty_def jnl_sample_def)

definition cmds_sample :: "entry logcmd list" where
  "cmds_sample = [Put (CHR ''+'', [\<lparr>hf_name = ''a'', hf_value = ''b''\<rparr>]), Put (CHR ''%'', []), Kill 0]"

theorem jnl_log_refines_witness:
  "\<exists>fs' j' ms'. log_run jput jkill (fs_empty, jnl_sample) cmds_sample = Done (fs', j') \<and>
    jnl_rep fs' j' [(CHR ''%'', [\<lparr>hf_name = ''a'', hf_value = ''b''\<rparr>]), (CHR ''%'', [])] ms' \<and>
    jnl_read fs' j' 0 = Done (None, Some MDIR_ADD, None)"
proof -
  have "wf_field \<lparr>hf_name = ''a'', hf_value = ''b''\<rparr>" by code_simp
  then have v: "list_valid jfits jalive jdead [] cmds_sample"
    by (simp add: cmds_sample_def jfits_def jalive_def jdead_def entry_ok_def entry_text_def field_dump_def)
  from jnl_log_refines [OF jnl_sample_rep v] show ?thesis
    by (fastforce simp: cmds_sample_def jdead_def jview_def)
qed

text \<open>What \<open>jnl_patch\<close> appends is read back: for a header in canonical form without NUL, the
  patch gets the version that follows the last one, \<open>jnl_read\<close> at its index returns the same
  fields and action, and what is read at every earlier index does not change.\<close>

theorem jnl_patch_read:
  assumes "jnl_rep fs j es ms" "jfits es (action_tag a, h_fields h)"
  shows "\<exists>fs' j'. jnl_patch fs j a h = (fs', j', Inr (jversion j + int (nb_patches j))) \<and>
    nb_patches j' = Suc (nb_patches j) \<and>
    jnl_read fs' j' (nb_patches j) = Done (Some \<lparr>h_fields = h_fields h, h_count = 1\<rparr>, Some a, None) \<and>
    (\<forall>i < nb_patches j. jnl_read fs' j' i = jnl_read fs j i)"
proof -
  let ?en = "(action_tag a, h_fields h)"
  from assms have nb: "patch_fd j \<noteq> idx_fd j" "nb_patches j = length es" "Suc (nb_patches j) < 2 ^ 32"
    by (auto simp: jnl_rep_def jfits_def)
  from assms(2) have fit: "entry_ok ?en" "int (length (log_text (es @ [?en]))) < 2 ^ 63" "Suc (length es) < 2 ^ 32"
    by (auto simp: jfits_def)
  note r = jnl_rep_snoc [OF assms(1) fit]
  have "jview ?en = Done (Some \<lparr>h_fields = h_fields h, h_count = 1\<rparr>, Some a, None)"
    by (cases a) (auto simp: jview_def action_tag_def)
  with jnl_patch_eq [OF nb(1,3)] jnl_read_rep [OF r] jnl_read_rep [OF assms(1)] nb(2) show ?thesis
    by (auto simp: jview_def nth_append)
qed

theorem jnl_patch_read_witness:
  "\<exists>fs' j'. jnl_patch fs_empty jnl_sample MDIR_REM \<lparr>h_fields = [], h_count = 1\<rparr> = (fs', j', Inr 5) \<and>
    jnl_read fs' j' 0 = Done (Some \<lparr>h_fields = [], h_count = 1\<rparr>, Some MDIR_REM, None)"
proof -
  have "jfits [] (action_tag MDIR_REM, h_fields \<lparr>h_fields = [], h_count = 1\<rparr>)"
    by (simp add: jfits_def entry_ok_def action_tag_def entry_text_def)
  from jnl_patch_read [OF jnl_sample_rep this] show ?thesis by (auto simp: jnl_sample_def)
qed

text \<open>Marks: \<open>jnl_replace_last_mark\<close> returns the previous last mark of the patch. Where a
  positioned write obeys its offset, the new mark is stored for that patch and the journal
  still represents the same entries. Where it appends on a descriptor opened with
  \<open>O_APPEND\<close>, as the index is, the mark of the patch is unchanged and the index file grows by
  one entry, so that the next time the journal is opened it counts one patch too many.\<close>

theorem jnl_replace_last_mark_effect:
  assumes "jnl_rep fs j es ms" "i < length es" "int64 v" "Suc (length es) < 2 ^ 32"
  shows "\<exists>fs'. jnl_replace_last_mark fs j i v = (fs', Inr (ms ! i)) \<and>
    (\<not> pwrite_appends fs \<longrightarrow> jnl_rep fs' j es (ms[i := v]) \<and> fetch_nb_patches fs' (idx_fd j) = Inr (nb_patches j)) \<and>
    (pwrite_appends fs \<longrightarrow> jnl_idx_read fs' j i 1 = jnl_idx_read fs j i 1 \<and>
       fetch_nb_patches fs' (idx_fd j) = Inr (Suc (nb_patches j)))"
proof -
  from jnl_replace_last_mark_rep [OF assms(1-3)] obtain d where
    d: "jnl_replace_last_mark fs j i v = (set_data fs (idx_fd j) d, Inr (ms ! i))"
      "pwrite_appends fs \<Longrightarrow> d = idata fs (idx_fd j) @ ie_bytes ((index_of 0 es ms ! i)\<lparr>ie_last_mark := v\<rparr>)"
      "\<not> pwrite_appends fs \<Longrightarrow> jnl_rep (set_data fs (idx_fd j) d) j es (ms[i := v])" by auto
  have len: "length (idata fs (idx_fd j)) = length es * sizeof_ie" "nb_patches j = length es"
    using length_idx_rep [OF assms(1)] assms(1) by (auto simp: jnl_rep_def)
  have "i * sizeof_ie + 1 * sizeof_ie \<le> length (idata fs (idx_fd j))"
    unfolding len using assms(2) by (simp add: sizeof_ie_def)
  then have "ReadFrom [] (idata fs (idx_fd j) @ x) (i * sizeof_ie) (1 * sizeof_ie) =
      ReadFrom [] (idata fs (idx_fd j)) (i * sizeof_ie) (1 * sizeof_ie)" for x
    by (simp add: ReadFrom_whole)
  then have "pwrite_appends fs \<Longrightarrow> jnl_idx_read (set_data fs (idx_fd j) d) j i 1 = jnl_idx_read fs j i 1"
    using d(2) by (simp add: jnl_idx_read_def)
  moreover have "pwrite_appends fs \<Longrightarrow> fetch_nb_patches (set_data fs (idx_fd j) d) (idx_fd j) = Inr (Suc (nb_patches j))"
    using d(2) len assms(4) by (simp add: fetch_nb_patches_def sizeof_ie_def)
  ultimately show ?thesis using d(1,3) fetch_nb_rep by blast
qed

theorem jnl_replace_last_mark_effect_witness:
  "(\<exists>fs' fs''. jnl_patch_blank (fs_empty\<lparr>pwrite_appends := True\<rparr>) jnl_sample =
       (fs', jnl_sample\<lparr>nb_patches := 1\<rparr>, Inr 5) \<and>
     jnl_replace_last_mark fs' (jnl_sample\<lparr>nb_patches := 1\<rparr>) 0 9 = (fs'', Inr 0) \<and>
     fetch_nb_patches fs'' 1 = Inr 2)"
proof -
  let ?fs = "fs_empty\<lparr>pwrite_appends := True\<rparr>" and ?en = "(CHR ''%'', [])"
  have "jnl_rep ?fs jnl_sample [] []" by (simp add: jnl_rep_def fs_empty_def jnl_sample_def)
  from jput_rep [OF this, of ?en] obtain fs' where
    fs': "jput (?fs, jnl_sample) ?en = ((fs', jnl_sample\<lparr>nb_patches := 1\<rparr>), Inr 5)"
      "jnl_rep fs' (jnl_sample\<lparr>nb_patches := 1\<rparr>) [?en] [0]"
    by (auto simp: jfits_def entry_ok_def entry_text_def jnl_sample_def)
  then have a: "jnl_patch_blank ?fs jnl_sample = (fs', jnl_sample\<lparr>nb_patches := 1\<rparr>, Inr 5)"
    by (auto simp: jput_def split: prod.splits)
  then have "pwrite_appends fs'" by (auto simp: jnl_patch_blank_eq jnl_sample_def)
  with jnl_replace_last_mark_effect [OF fs'(2), of 0 9] a show ?thesis
    by (auto simp: int64_def jnl_sample_def)
qed

text \<open>Reopening: when the files named after the version of a journal hold what represents its
  entries, \<open>jnl_ctor\<close> finds the same journal again, with its version read from the file
  name and its number of patches from the size of the index, and inserts it after the
  journals that end before it begins.\<close>

theorem jnl_ctor_reopen:
  assumes "jnl_rep fs j es ms" "0 \<le> jversion j" "jversion j < 2 ^ 63"
    "length (mpath @ ''/'' @ jnl_filename (jversion j)) < PATH_MAX"
    "file_at fs (mpath @ ''/'' @ jnl_filename (jversion j)) (patch_fd j)"
    "file_at fs (mpath @ ''/'' @ dec20 (jversion j) @ ''.idx'') (idx_fd j)"
    "\<forall>k \<in> set js. jnl_before k j"
  shows "is_jnl_file (jnl_filename (jversion j)) \<and>
    jnl_ctor fs mpath js (jnl_filename (jversion j)) = Done (fs, Inr (js @ [j], length js))"
  using jnl_ctor_reopens [OF assms(1-6)] jnl_insert_last [OF assms(7)]
  by (simp add: is_jnl_file_def jnl_filename_def)

definition fs_two_files :: fs where
  "fs_two_files = fs_empty\<lparr>ents := [([''m''], Dir), ([''m'', ''00000000000000000005.log''], Reg 0),
     ([''m'', ''00000000000000000005.idx''], Reg 1)]\<rparr>"

theorem jnl_ctor_reopen_witness:
  "jnl_ctor fs_two_files ''/m'' [] ''00000000000000000005.log'' = Done (fs_two_files, Inr ([jnl_sample], 0))"
proof -
  have r: "jnl_rep fs_two_files jnl_sample [] []"
    by (simp add: jnl_rep_def fs_two_files_def fs_empty_def jnl_sample_def)
  have v: "jversion jnl_sample = 5" by (simp add: jnl_sample_def)
  have d: "dec20 5 = ''00000000000000000005''" by code_simp
  have w: "resolve fs_two_files True ''/m/00000000000000000005.log'' = Inr [''m'', ''00000000000000000005.log'']"
    "resolve fs_two_files True ''/m/00000000000000000005.idx'' = Inr [''m'', ''00000000000000000005.idx'']"
    by (simp_all add: resolve_def comps_def node_at_def fs_two_files_def MAXSYMLINKS_def)
  have f: "file_at fs_two_files (''/m'' @ ''/'' @ jnl_filename 5) 0"
    "file_at fs_two_files (''/m'' @ ''/'' @ dec20 5 @ ''.idx'') 1"
    using w by (simp_all add: file_at_def jnl_filename_def d node_at_def fs_two_files_def)
  have "length (''/m'' @ ''/'' @ jnl_filename 5) < PATH_MAX" by (simp add: jnl_filename_def d PATH_MAX_def)
  with jnl_ctor_reopen [OF r, of "''/m''" "[]"] f show ?thesis
    unfolding v by (simp add: jnl_sample_def jnl_filename_def d)
qed

end
