(* ===== verification/Persist.thy ===== *)
theory Persist
  imports Jnl
begin

text \<open>
  Persistent sequences, after \<open>commons/persist.[ch]\<close>: a 64 bit counter kept in a file that every
  process maps read only and writes through its descriptor while it holds the lock of the
  file. The folders take the identifiers of new folders and the versions of transient patches
  from two of them. The sequential operations act on the file system; their interleaving
  between processes is a step relation in which \<open>flock\<close> is the only synchronisation.
\<close>

section \<open>Operations\<close>

record persist =
  p_size :: nat
  p_fd :: nat

definition open_or_create :: "fs \<Rightarrow> string \<Rightarrow> string \<Rightarrow> fs \<times> nat res" where
  "open_or_create fs fname default_value = (case Mkdir_for_file fs fname of
     (fs, Some e) \<Rightarrow> (fs, Inl e)
   | (fs, None) \<Rightarrow> (case sys_open False False False fs fname of
        (fs, Inr fd) \<Rightarrow> (fs, Inr fd)
      | (fs, Inl e) \<Rightarrow>
          if e \<noteq> ENOENT then (fs, Fail e ''Cannot open'')
          else (case sys_open True True False fs fname of
             (fs, Inl e) \<Rightarrow> (fs, Fail e ''Cannot create'')
           | (fs, Inr fd) \<Rightarrow> (case WriteTo [] (idata fs fd) 0 default_value of
                (d, Some e) \<Rightarrow> (set_data fs fd d, Inl e)
              | (d, None) \<Rightarrow> (set_data fs fd d, Inr fd)))))"

definition persist_ctor :: "fs \<Rightarrow> nat \<Rightarrow> string \<Rightarrow> string \<Rightarrow> fs \<times> persist res" where
  "persist_ctor fs sz fname default_value = (case open_or_create fs fname default_value of
     (fs, Inl e) \<Rightarrow> (fs, Inl e)
   | (fs, Inr fd) \<Rightarrow> (case open_input fs fname of
        Inl e \<Rightarrow> (fs, Fail e ''open RO(%s)'')
      | Inr _ \<Rightarrow> (fs, Inr \<lparr>p_size = sz, p_fd = fd\<rparr>)))"

definition u64_bytes :: "64 word \<Rightarrow> string" where
  "u64_bytes w = le_bytes 8 (uint w)"

definition persist_ctor_sequence :: "fs \<Rightarrow> string \<Rightarrow> 64 word \<Rightarrow> fs \<times> persist res" where
  "persist_ctor_sequence fs fname default_value = persist_ctor fs 8 fname (u64_bytes default_value)"

text \<open>
  The mapping shows the file; in its last page the bytes past its end read as zeros, and an
  access to a page that holds no byte of the file is a bus error.
\<close>

definition persist_read :: "fs \<Rightarrow> persist \<Rightarrow> string outcome" where
  "persist_read fs p =
     (let d = idata fs (p_fd p) in
      if d = [] then Crash else Done (take (p_size p) (d @ replicate (p_size p) NUL)))"

definition persist_write :: "fs \<Rightarrow> persist \<Rightarrow> string \<Rightarrow> fs \<times> err option" where
  "persist_write fs p b = (case WriteTo [] (idata fs (p_fd p)) 0 (take (p_size p) b) of
     (d, e) \<Rightarrow> (set_data fs (p_fd p) d, e))"

definition u64_of :: "string \<Rightarrow> 64 word" where
  "u64_of b = word_of_int (un_le (take 8 b))"

definition persist_read_inc_sequence :: "fs \<Rightarrow> persist \<Rightarrow> (fs \<times> 64 word) outcome" where
  "persist_read_inc_sequence fs p =
     obind (persist_read fs p) (\<lambda>b.
       let cnt = u64_of b; (fs, e) = persist_write fs p (u64_bytes (cnt + 1))
       in case e of None \<Rightarrow> Done (fs, cnt) | Some e \<Rightarrow> Raised e)"

section \<open>Values\<close>

definition seq_holds :: "fs \<Rightarrow> persist \<Rightarrow> 64 word \<Rightarrow> bool" where
  "seq_holds fs p w \<longleftrightarrow> p_size p = 8 \<and> idata fs (p_fd p) = u64_bytes w"

lemma length_u64_bytes [simp]: "length (u64_bytes w) = 8"
  by (simp add: u64_bytes_def)

lemma u64_of_bytes [simp]: "u64_of (u64_bytes w) = w"
proof -
  have "uint w < 256 ^ 8" using uint_lt2p [of w] by simp
  then have "uint w mod 256 ^ 8 = uint w" by simp
  then show ?thesis by (simp add: u64_of_def u64_bytes_def un_le_bytes)
qed

lemma u64_bytes_neq_Nil [simp]: "u64_bytes w \<noteq> []"
  by (metis length_u64_bytes list.size(3) zero_neq_numeral)

lemma persist_read_holds: "seq_holds fs p w \<Longrightarrow> persist_read fs p = Done (u64_bytes w)"
  by (simp add: seq_holds_def persist_read_def)

lemma persist_write_holds:
  "seq_holds fs p w \<Longrightarrow> persist_write fs p (u64_bytes v) = (set_data fs (p_fd p) (u64_bytes v), None) \<and>
     seq_holds (set_data fs (p_fd p) (u64_bytes v)) p v"
  by (simp add: seq_holds_def persist_write_def WriteTo_once pwrite_bytes_def)

lemma persist_inc_holds:
  assumes "seq_holds fs p w"
  shows "\<exists>fs'. persist_read_inc_sequence fs p = Done (fs', w) \<and> seq_holds fs' p (w + 1) \<and>
    fs' = set_data fs (p_fd p) (u64_bytes (w + 1))"
  using persist_write_holds [OF assms, of "w + 1"]
  by (simp add: persist_read_inc_sequence_def persist_read_holds [OF assms])

lemma persist_create_holds:
  assumes "Mkdir_for_file fs fname = (fs1, None)" "resolve fs1 True fname = Inr q" "resolve fs1 False fname = Inr q"
    "node_at fs1 q = None"
  shows "\<exists>fs' p. persist_ctor_sequence fs fname w = (fs', Inr p) \<and> seq_holds fs' p w"
proof -
  let ?i = "next_ino fs1"
  let ?fs = "fs1\<lparr>ents := ents fs1 @ [(q, Reg ?i)], idata := (idata fs1)(?i := []), next_ino := Suc ?i\<rparr>"
  have no: "sys_open False False False fs1 fname = (fs1, Inl ENOENT)"
    using assms by (simp add: sys_open_def)
  have op: "sys_open True True False fs1 fname = (?fs, Inr ?i)" using assms by (simp add: sys_open_def Let_def)
  have cr: "open_or_create fs fname (u64_bytes w) = (set_data ?fs ?i (u64_bytes w), Inr ?i)"
    using assms(1) no op by (simp add: open_or_create_def WriteTo_once pwrite_bytes_def)
  have "sys_open True False False fs1 fname = (?fs, Inr ?i)" using assms by (simp add: sys_open_def Let_def)
  then have "file_at ?fs fname ?i" by (rule sys_open_file_at)
  then have "file_at (set_data ?fs ?i (u64_bytes w)) fname ?i" by (subst file_at_ents [of _ ?fs]) simp_all
  from open_input_file_at [OF this] cr show ?thesis
    by (simp add: persist_ctor_sequence_def persist_ctor_def seq_holds_def)
qed

section \<open>Interleaving\<close>

text \<open>Where a process is in \<open>persist_read_inc_sequence\<close>.\<close>

datatype ppc = PIdle | PLocked | PRead "64 word" | PWritten "64 word"

record pstate =
  ps_fs :: fs
  ps_lock :: "nat option"
  ps_pc :: "nat \<Rightarrow> ppc"
  ps_out :: "64 word list"

text \<open>\<open>LOCK_EX\<close> is granted when nobody holds the lock; the values returned are listed in order.\<close>

inductive pstep :: "persist \<Rightarrow> pstate \<Rightarrow> pstate \<Rightarrow> bool" for p where
  p_lock: "ps_pc s i = PIdle \<Longrightarrow> ps_lock s = None \<Longrightarrow>
     pstep p s (s\<lparr>ps_lock := Some i, ps_pc := (ps_pc s)(i := PLocked)\<rparr>)"
| p_read: "ps_pc s i = PLocked \<Longrightarrow> persist_read (ps_fs s) p = Done b \<Longrightarrow>
     pstep p s (s\<lparr>ps_pc := (ps_pc s)(i := PRead (u64_of b))\<rparr>)"
| p_write: "ps_pc s i = PRead c \<Longrightarrow> persist_write (ps_fs s) p (u64_bytes (c + 1)) = (fs', None) \<Longrightarrow>
     pstep p s (s\<lparr>ps_fs := fs', ps_pc := (ps_pc s)(i := PWritten c)\<rparr>)"
| p_unlock: "ps_pc s i = PWritten c \<Longrightarrow>
     pstep p s (s\<lparr>ps_lock := None, ps_pc := (ps_pc s)(i := PIdle), ps_out := ps_out s @ [c]\<rparr>)"

inductive_cases pstep_cases: "pstep p s s'"

inductive preach :: "persist \<Rightarrow> pstate \<Rightarrow> pstate \<Rightarrow> bool" for p where
  preach_refl: "preach p s s"
| preach_step: "preach p s t \<Longrightarrow> pstep p t u \<Longrightarrow> preach p s u"

definition pinit :: "fs \<Rightarrow> pstate" where
  "pinit fs = \<lparr>ps_fs = fs, ps_lock = None, ps_pc = (\<lambda>_. PIdle), ps_out = []\<rparr>"

definition upto_seq :: "64 word \<Rightarrow> nat \<Rightarrow> 64 word list" where
  "upto_seq w n = map (\<lambda>k. w + word_of_nat k) [0..<n]"

lemma upto_seq_Suc [simp]: "upto_seq w (Suc n) = upto_seq w n @ [w + word_of_nat n]"
  by (simp add: upto_seq_def)

text \<open>Only the holder of the lock is inside, and it has read the current value.\<close>

definition pinv :: "persist \<Rightarrow> 64 word \<Rightarrow> pstate \<Rightarrow> bool" where
  "pinv p w s \<longleftrightarrow> (let n = length (ps_out s) in
     ps_out s = upto_seq w n \<and>
     (\<forall>i. ps_pc s i \<noteq> PIdle \<longrightarrow> ps_lock s = Some i) \<and>
     (case ps_lock s of
        None \<Rightarrow> seq_holds (ps_fs s) p (w + word_of_nat n)
      | Some i \<Rightarrow> (case ps_pc s i of
           PIdle \<Rightarrow> False
         | PLocked \<Rightarrow> seq_holds (ps_fs s) p (w + word_of_nat n)
         | PRead c \<Rightarrow> c = w + word_of_nat n \<and> seq_holds (ps_fs s) p (w + word_of_nat n)
         | PWritten c \<Rightarrow> c = w + word_of_nat n \<and> seq_holds (ps_fs s) p (w + word_of_nat (Suc n)))))"

lemma pinv_lock_holder: "pinv p w s \<Longrightarrow> ps_pc s i \<noteq> PIdle \<Longrightarrow> ps_lock s = Some i"
  by (simp add: pinv_def Let_def)

lemma pinv_step: "pstep p s t \<Longrightarrow> pinv p w s \<Longrightarrow> pinv p w t"
proof (induction rule: pstep.induct)
  case (p_lock s i)
  then show ?case by (auto simp: pinv_def Let_def)
next
  case (p_read s i b)
  then have l: "ps_lock s = Some i" using pinv_lock_holder by fastforce
  with p_read have "seq_holds (ps_fs s) p (w + word_of_nat (length (ps_out s)))"
    by (simp add: pinv_def Let_def)
  with p_read persist_read_holds have "u64_of b = w + word_of_nat (length (ps_out s))" by fastforce
  with p_read l show ?case by (auto simp: pinv_def Let_def)
next
  case (p_write s i c fs')
  then have l: "ps_lock s = Some i" using pinv_lock_holder by fastforce
  with p_write have c: "c = w + word_of_nat (length (ps_out s))" "seq_holds (ps_fs s) p c"
    by (auto simp: pinv_def Let_def)
  with persist_write_holds [OF c(2), of "c + 1"] p_write(2) have "seq_holds fs' p (c + 1)" by auto
  with p_write l c show ?case by (auto simp: pinv_def Let_def ac_simps)
next
  case (p_unlock s i c)
  then have l: "ps_lock s = Some i" using pinv_lock_holder by fastforce
  with p_unlock have c: "c = w + word_of_nat (length (ps_out s))"
      "seq_holds (ps_fs s) p (w + word_of_nat (Suc (length (ps_out s))))"
      "ps_out s = upto_seq w (length (ps_out s))"
    by (auto simp: pinv_def Let_def)
  have "\<forall>j. ps_pc s j \<noteq> PIdle \<longrightarrow> j = i" using p_unlock(2) l pinv_lock_holder by fastforce
  with c show ?case by (auto simp: pinv_def Let_def)
qed

lemma pinv_reach: "preach p s t \<Longrightarrow> pinv p w s \<Longrightarrow> pinv p w t"
  by (induction rule: preach.induct) (auto intro: pinv_step)

lemma pinv_init: "seq_holds fs p w \<Longrightarrow> pinv p w (pinit fs)"
  by (simp add: pinv_def pinit_def upto_seq_def)

lemma distinct_upto_seq: "n \<le> 2 ^ 64 \<Longrightarrow> distinct (upto_seq w n)"
proof -
  assume n: "n \<le> 2 ^ 64"
  have "inj_on (\<lambda>k. w + word_of_nat k) {0..<n}"
  proof (rule inj_onI)
    fix x y assume xy: "x \<in> {0..<n}" "y \<in> {0..<n}" "w + word_of_nat x = w + word_of_nat y"
    then have "(word_of_nat x :: 64 word) = word_of_nat y" by simp
    then have "x mod 2 ^ 64 = y mod 2 ^ 64" by (simp add: word_of_nat_eq_iff take_bit_nat_def)
    with xy n show "x = y" by simp
  qed
  then show ?thesis by (simp add: upto_seq_def distinct_map)
qed

lemma pinv_progress:
  assumes "pinv p w s"
  shows "\<exists>t. pstep p s t"
proof (cases "ps_lock s")
  case None
  with assms have "ps_pc s 0 = PIdle" by (auto simp: pinv_def Let_def)
  with None show ?thesis by (blast intro: p_lock)
next
  case (Some i)
  show ?thesis
  proof (cases "ps_pc s i")
    case PIdle
    with assms Some show ?thesis by (simp add: pinv_def Let_def)
  next
    case PLocked
    with assms Some have "persist_read (ps_fs s) p = Done (u64_bytes (w + word_of_nat (length (ps_out s))))"
      by (intro persist_read_holds) (simp add: pinv_def Let_def)
    with PLocked show ?thesis by (blast intro: p_read)
  next
    case (PRead c)
    with assms Some have "seq_holds (ps_fs s) p c" by (simp add: pinv_def Let_def)
    with persist_write_holds PRead show ?thesis by (blast intro: p_write)
  next
    case (PWritten c)
    then show ?thesis by (blast intro: p_unlock)
  qed
qed

section \<open>Properties\<close>

text \<open>C18. Sequence numbers are given once: however the steps of \<open>persist_read_inc_sequence\<close> (lock,
  read, write back plus one, unlock) of any number of processes interleave, from a file that
  holds a value the calls return that value and its successors modulo $2^{64}$, in the order
  in which they end, so no two of the first $2^{64}$ calls return the same number; and some
  process can always take a step.\<close>

theorem persist_sequence_unique:
  assumes "seq_holds fs p w" "preach p (pinit fs) s"
  shows "ps_out s = upto_seq w (length (ps_out s)) \<and>
    (length (ps_out s) \<le> 2 ^ 64 \<longrightarrow> distinct (ps_out s)) \<and> (\<exists>t. pstep p s t)"
proof -
  have i: "pinv p w s" using pinv_reach [OF assms(2) pinv_init [OF assms(1)]] .
  then have "ps_out s = upto_seq w (length (ps_out s))" by (simp add: pinv_def Let_def)
  then show ?thesis using distinct_upto_seq [of "length (ps_out s)" w] pinv_progress [OF i] by auto
qed

definition fs_seq :: fs where
  "fs_seq = fs_empty\<lparr>idata := (\<lambda>_. u64_bytes 7)\<rparr>"

theorem persist_sequence_unique_witness:
  "\<exists>t. pstep \<lparr>p_size = 8, p_fd = 0\<rparr> (pinit fs_seq\<lparr>ps_lock := Some 3, ps_pc := (\<lambda>_. PIdle)(3 := PLocked)\<rparr>) t"
proof -
  let ?p = "\<lparr>p_size = 8, p_fd = 0\<rparr>"
  have h: "seq_holds fs_seq ?p 7" by (simp add: seq_holds_def fs_seq_def)
  have "pstep ?p (pinit fs_seq) ((pinit fs_seq)\<lparr>ps_lock := Some 3, ps_pc := (ps_pc (pinit fs_seq))(3 := PLocked)\<rparr>)"
    by (rule p_lock) (simp_all add: pinit_def)
  then have "preach ?p (pinit fs_seq) (pinit fs_seq\<lparr>ps_lock := Some 3, ps_pc := (\<lambda>_. PIdle)(3 := PLocked)\<rparr>)"
    using preach_step [OF preach_refl] by (simp add: pinit_def)
  from persist_sequence_unique [OF h this] show ?thesis by blast
qed

text \<open>Creating a sequence that does not exist yet stores its default value in the file, and the
  calls that follow return the default, the default plus one and so on (wrapping at 64 bits).\<close>

theorem persist_ctor_sequence_starts:
  assumes "Mkdir_for_file fs fname = (fs1, None)" "resolve fs1 True fname = Inr q"
    "resolve fs1 False fname = Inr q" "node_at fs1 q = None"
  shows "\<exists>fs2 p fs3 fs4. persist_ctor_sequence fs fname w = (fs2, Inr p) \<and>
    persist_read_inc_sequence fs2 p = Done (fs3, w) \<and> persist_read_inc_sequence fs3 p = Done (fs4, w + 1)"
  using persist_create_holds [OF assms, of w] persist_inc_holds by meson

theorem persist_ctor_sequence_starts_witness:
  "\<exists>fs2 p fs3 fs4. persist_ctor_sequence (fs_empty\<lparr>ents := [([''m''], Dir)]\<rparr>) ''/m/.seq'' (- 1) = (fs2, Inr p) \<and>
    persist_read_inc_sequence fs2 p = Done (fs3, - 1) \<and> persist_read_inc_sequence fs3 p = Done (fs4, 0)"
proof -
  let ?fs = "fs_empty\<lparr>ents := [([''m''], Dir)]\<rparr>"
  have m: "Mkdir_for_file ?fs ''/m/.seq'' = (?fs, None)"
    by (simp add: Mkdir_for_file_def dir_of_file_def Mkdir_def snpath_def PATH_MAX_def Mkdir_single_def
        sys_mkdir_def resolve_def comps_def node_at_def MAXSYMLINKS_def EEXIST_def)
  have r: "resolve ?fs fl ''/m/.seq'' = Inr [''m'', ''.seq'']" for fl
    by (simp add: resolve_def comps_def node_at_def MAXSYMLINKS_def)
  have "node_at ?fs [''m'', ''.seq''] = None" by (simp add: node_at_def)
  from persist_ctor_sequence_starts [OF m r r this, of "- 1"] show ?thesis by simp
qed

end
