(* ===== verification/Mdir.thy ===== *)
theory Mdir
  imports Persist
begin

text \<open>
  Folders, after \<open>lib/mdir.c\<close> and \<open>include/scambio/mdir.h\<close>. A folder is a directory of the file
  system that holds its journals, the file of its permissions, the symbolic links to its
  subfolders, the versions of the patches that created these links, and the subdirectories
  of transient and refused patches. The state of the library is the file system, the cache
  of the folders in use (a list of pointers to structures) and the two sequences. Locks are
  not represented: each operation is atomic. Functions of the caller that the listing
  operations call back are represented by the list of the calls made to them.
\<close>

section \<open>State\<close>

record mdir =
  mpath :: string
  jnls :: "jnl list"
  permissions :: "header option"

record mst =
  m_fs :: fs
  mdir_root :: string
  mdirs :: "nat list"
  m_store :: "nat \<Rightarrow> mdir"
  m_next :: nat
  dirid_seq :: persist
  transient_version :: persist
  max_jnl_size :: nat

record mdir_cursor =
  last_listed_sync :: mdir_version
  last_listed_unsync :: mdir_version

definition mdir_cursor_ctor :: mdir_cursor where
  "mdir_cursor_ctor = \<lparr>last_listed_sync = 0, last_listed_unsync = 0\<rparr>"

definition mdir_cursor_seek :: "mdir_cursor \<Rightarrow> mdir_version \<Rightarrow> mdir_cursor" where
  "mdir_cursor_seek cursor v = cursor\<lparr>last_listed_sync := v\<rparr>"

abbreviation mdir_at :: "mst \<Rightarrow> nat \<Rightarrow> mdir" where
  "mdir_at st mp \<equiv> m_store st mp"

definition upd_mdir :: "nat \<Rightarrow> (mdir \<Rightarrow> mdir) \<Rightarrow> mst \<Rightarrow> mst" where
  "upd_mdir mp f st = st\<lparr>m_store := (m_store st)(mp := f (m_store st mp))\<rparr>"

definition set_fs :: "mst \<Rightarrow> fs \<Rightarrow> mst" where
  "set_fs st fs = st\<lparr>m_fs := fs\<rparr>"

text \<open>A system call that answers an error number, and a library call that answers an error.\<close>

definition do_sys :: "(fs \<Rightarrow> fs \<times> int option) \<Rightarrow> (mst, int option) act" where
  "do_sys f st = (case f (m_fs st) of (fs, e) \<Rightarrow> Done (set_fs st fs, Inr e))"

definition do_err :: "(fs \<Rightarrow> fs \<times> err option) \<Rightarrow> (mst, unit) act" where
  "do_err f st = (case f (m_fs st) of
     (fs, None) \<Rightarrow> Done (set_fs st fs, Inr ()) | (fs, Some e) \<Rightarrow> Done (set_fs st fs, Inl e))"

section \<open>Accessors\<close>

definition mdir_id :: "mst \<Rightarrow> mdir \<Rightarrow> string" where
  "mdir_id st m = drop (length (mdir_root st) + 1) (mpath m)"

definition mdir_is_transient :: "mst \<Rightarrow> mdir \<Rightarrow> bool" where
  "mdir_is_transient st m \<longleftrightarrow> take 1 (mdir_id st m) = ''_''"

definition mdir_name :: "mst \<Rightarrow> mdir \<Rightarrow> string" where
  "mdir_name st m = (let n = drop (length (mdir_root st) + 6) (mpath m) in if n = [] then ''/'' else n)"

definition mdir_last_version :: "mdir \<Rightarrow> mdir_version" where
  "mdir_last_version m = (if jnls m = [] then 0
     else jversion (last (jnls m)) + int (nb_patches (last (jnls m))) - 1)"

definition mdir_str2action :: "string \<Rightarrow> mdir_action res" where
  "mdir_str2action s =
     (if s = ''+'' then Inr MDIR_ADD else if s = ''-'' then Inr MDIR_REM else Fail 0 ''Invalid action'')"

section \<open>Creation and lookup\<close>

definition update_permissions :: "nat \<Rightarrow> header option \<Rightarrow> (mst, unit) act" where
  "update_permissions mp ho st =
     (let st = upd_mdir mp (\<lambda>m. m\<lparr>permissions := None\<rparr>) st in
      case ho of
        None \<Rightarrow> Done (st, Inr ())
      | Some h \<Rightarrow>
          (case header_to_file (m_fs st) h (snpath (mpath (mdir_at st mp) @ ''/perms'')) of
             (fs, Some e) \<Rightarrow> Done (set_fs st fs, Inr ())
           | (fs, None) \<Rightarrow>
               Done (upd_mdir mp (\<lambda>m. m\<lparr>permissions := Some (header_ref h)\<rparr>) (set_fs st fs), Inr ())))"

definition mdir_empty :: "nat \<Rightarrow> (mst, unit) act" where
  "mdir_empty mp st = update_permissions mp None (upd_mdir mp (\<lambda>m. m\<lparr>jnls := []\<rparr>) st)"

text \<open>The journals of a listing, and whether one of them could not be loaded.\<close>

fun load_jnls :: "fs \<Rightarrow> string \<Rightarrow> jnl list \<Rightarrow> string list \<Rightarrow> (fs \<times> jnl list \<times> bool) outcome" where
  "load_jnls fs path js [] = Done (fs, js, False)"
| "load_jnls fs path js (nm # ns) =
     (if is_jnl_file nm then
        (case jnl_new fs path js nm of
           Done (fs, Inr (js', _)) \<Rightarrow> load_jnls fs path js' ns
         | Done (fs, Inl e) \<Rightarrow> Done (fs, js, True)
         | Raised e \<Rightarrow> Raised e
         | Crash \<Rightarrow> Crash)
      else load_jnls fs path js ns)"

text \<open>
  An error on a journal is pending when the permissions are read: \<open>header_from_file\<close> then gives
  up, and the handler meant for a missing permission file clears the error of the journal.
\<close>

definition mdir_reload :: "nat \<Rightarrow> (mst, unit) act" where
  "mdir_reload mp = bnd (mdir_empty mp) (\<lambda>_ st.
     let path = mpath (mdir_at st mp) in
     case sys_readdir (m_fs st) path of
       Inl e \<Rightarrow> Done (st, Inl (Err e ''opendir %s''))
     | Inr names \<Rightarrow>
         (case load_jnls (m_fs st) path (jnls (mdir_at st mp)) names of
            Done (fs, js, failed) \<Rightarrow>
              let st = upd_mdir mp (\<lambda>m. m\<lparr>jnls := js\<rparr>) (set_fs st fs) in
              if failed then Done (st, Inr ())
              else (case header_from_file fs (snpath (path @ ''/perms'')) of
                 Done h \<Rightarrow> Done (upd_mdir mp (\<lambda>m. m\<lparr>permissions := Some h\<rparr>) st, Inr ())
               | Raised e \<Rightarrow> Done (st, Inr ())
               | Crash \<Rightarrow> Crash)
          | Raised e \<Rightarrow> Raised e
          | Crash \<Rightarrow> Crash))"

definition mdir_ctor :: "nat \<Rightarrow> string \<Rightarrow> bool \<Rightarrow> (mst, unit) act" where
  "mdir_ctor mp path create st =
     (let st = upd_mdir mp (\<lambda>m. \<lparr>mpath = snpath path, jnls = [], permissions = None\<rparr>) st in
      bnd (if create then do_err (\<lambda>fs. Mkdir fs (snpath path)) else ret ())
        (\<lambda>_. bnd (mdir_reload mp) (\<lambda>_ st. Done (st\<lparr>mdirs := mp # mdirs st\<rparr>, Inr ()))) st)"

definition mdir_new :: "string \<Rightarrow> bool \<Rightarrow> (mst, nat) act" where
  "mdir_new did create st =
     (let mp = m_next st; path = snpath (mdir_root st @ ''/'' @ did)
      in bnd (mdir_ctor mp path create) (\<lambda>_. ret mp) (st\<lparr>m_next := Suc mp\<rparr>))"

definition next_seq :: "(mst \<Rightarrow> persist) \<Rightarrow> (mst, 64 word) act" where
  "next_seq sel st = (case persist_read_inc_sequence (m_fs st) (sel st) of
     Done (fs, w) \<Rightarrow> Done (set_fs st fs, Inr w) | Raised e \<Rightarrow> Done (st, Inl e) | Crash \<Rightarrow> Crash)"

text \<open>The assertion at the end of \<open>mdir_create\<close> dereferences the folder even when there is none.\<close>

definition mdir_create :: "bool \<Rightarrow> (mst, nat) act" where
  "mdir_create transient = bnd (next_seq dirid_seq) (\<lambda>did st.
     case mdir_new ((if transient then ''_'' else []) @ dec_nat (unat did)) True st of
       Done (st, Inr mp) \<Rightarrow>
         if transient = mdir_is_transient st (mdir_at st mp) then Done (st, Inr mp) else Crash
     | Done (st, Inl e) \<Rightarrow> Crash
     | Raised e \<Rightarrow> Raised e
     | Crash \<Rightarrow> Crash)"

definition mdir_del :: "nat \<Rightarrow> (mst, unit) act" where
  "mdir_del mp st = mdir_empty mp (st\<lparr>mdirs := remove1 mp (mdirs st)\<rparr>)"

definition mdir_lookup_by_id :: "string \<Rightarrow> bool \<Rightarrow> (mst, nat) act" where
  "mdir_lookup_by_id did create st =
     (case find (\<lambda>mp. mdir_id st (mdir_at st mp) = did) (mdirs st) of
        Some mp \<Rightarrow> Done (st, Inr mp)
      | None \<Rightarrow> mdir_new did create st)"

definition lookup_abs :: "string \<Rightarrow> (mst, nat) act" where
  "lookup_abs path st = (case sys_readlink (m_fs st) path of
     Inl e \<Rightarrow> Done (st, Inl (Err e ''readlink(%s)''))
   | Inr slink \<Rightarrow>
       if slink = [] \<or> PATH_MAX \<le> length slink \<or> length slink \<le> length (mdir_root st) + 1
       then Done (st, Inl (Err 0 ''bad symlink for %s''))
       else mdir_lookup_by_id (drop (length (mdir_root st) + 1) slink) False st)"

definition mdir_lookup :: "string \<Rightarrow> (mst, nat) act" where
  "mdir_lookup nm st =
     (if nm = ''/'' then mdir_lookup_by_id ''root'' False st
      else lookup_abs (snpath (mdir_root st @ ''/root/'' @ nm)) st)"

definition lookup_rename :: "string \<Rightarrow> string \<Rightarrow> (mst, nat) act" where
  "lookup_rename old_path new_path =
     bnd (do_sys (\<lambda>fs. sys_rename fs old_path new_path)) (\<lambda>e.
       case e of Some e \<Rightarrow> failure e ''Cannot rename mdir from %s to %s''
       | None \<Rightarrow> bnd (do_sys (\<lambda>fs. sys_symlink fs new_path old_path)) (\<lambda>e.
           case e of Some e \<Rightarrow> failure e ''Cannot symlink(%s <- %s)''
           | None \<Rightarrow> bnd (lookup_abs old_path) (\<lambda>mp st.
               if mpath (mdir_at st mp) \<noteq> new_path then
                 (if mpath (mdir_at st mp) = old_path
                  then Done (upd_mdir mp (\<lambda>m. m\<lparr>mpath := snpath new_path\<rparr>) st, Inr mp)
                  else Crash)
               else Done (st, Inr mp))))"

text \<open>\<open>mdir_init\<close> with the configuration values it reads.\<close>

definition mdir_init :: "string \<Rightarrow> string \<Rightarrow> string \<Rightarrow> nat \<Rightarrow> fs \<Rightarrow> fs \<times> mst res" where
  "mdir_init root dirseq transeq maxsz fs = (case Mkdir fs (snpath (root @ ''/root'')) of
     (fs, Some e) \<Rightarrow> (fs, Inl e)
   | (fs, None) \<Rightarrow> (case persist_ctor_sequence fs dirseq 0 of
        (fs, Inl e) \<Rightarrow> (fs, Inl e)
      | (fs, Inr ds) \<Rightarrow> (case persist_ctor_sequence fs transeq 1 of
           (fs, Inl e) \<Rightarrow> (fs, Inl e)
         | (fs, Inr ts) \<Rightarrow> (fs, Inr \<lparr>m_fs = fs, mdir_root = root, mdirs = [],
              m_store = (\<lambda>_. \<lparr>mpath = [], jnls = [], permissions = None\<rparr>), m_next = 0,
              dirid_seq = ds, transient_version = ts, max_jnl_size = maxsz\<rparr>))))"

section \<open>Reading\<close>

fun get_next :: "jnl list \<Rightarrow> nat \<Rightarrow> mdir_version \<Rightarrow> (mdir_version \<times> nat) option" where
  "get_next [] i v = None"
| "get_next (j # js) i v =
     (if jversion j \<le> v + 1 \<and> jversion j + int (nb_patches j) > v + 1 then Some (v + 1, i)
      else if jversion j > v + 1 then Some (jversion j, i)
      else get_next js (Suc i) v)"

text \<open>The version that follows and the journal that holds it; no journal with version 0 at the end.\<close>

definition get_next_version :: "jnl list \<Rightarrow> mdir_version \<Rightarrow> (mdir_version \<times> nat) option" where
  "get_next_version js v = get_next js 0 v"

fun jnls_end :: "jnl list \<Rightarrow> mdir_version" where
  "jnls_end [] = 0"
| "jnls_end (j # js) = max (jversion j + int (nb_patches j)) (jnls_end js)"

lemma jnls_end_ge: "j \<in> set js \<Longrightarrow> jversion j \<le> jnls_end js \<and> jversion j + int (nb_patches j) \<le> jnls_end js"
  by (induction js) auto

lemma get_next_Some:
  "get_next js i v = Some (n, k) \<Longrightarrow> i \<le> k \<and> k - i < length js \<and> v < n \<and> jversion (js ! (k - i)) \<le> n \<and>
     (n = v + 1 \<and> n < jversion (js ! (k - i)) + int (nb_patches (js ! (k - i))) \<or> n = jversion (js ! (k - i)))"
proof (induction js arbitrary: i)
  case (Cons j js)
  show ?case
  proof (cases "jversion j \<le> v + 1 \<and> jversion j + int (nb_patches j) > v + 1 \<or> jversion j > v + 1")
    case True
    with Cons.prems show ?thesis by (auto split: if_splits)
  next
    case False
    with Cons.prems have "get_next js (Suc i) v = Some (n, k)" by (auto split: if_splits)
    from Cons.IH [OF this] show ?thesis by (auto simp: Suc_diff_le nth_Cons' simp flip: diff_Suc_eq_diff_pred)
  qed
qed simp

lemma get_next_version_less:
  assumes "get_next_version js v = Some (n, k)"
  shows "v < n \<and> n \<le> jnls_end js"
proof -
  from get_next_Some [of js 0 v n k] assms have k: "k < length js" "v < n"
    "n < jversion (js ! k) + int (nb_patches (js ! k)) \<or> n = jversion (js ! k)"
    by (auto simp: get_next_version_def)
  with jnls_end_ge [of "js ! k" js] show ?thesis by auto
qed

text \<open>
  The header, version and action found, or none and the error pending. An error of
  \<open>jnl_read\<close> is still pending at the next turn of the loop, which then ends; if there is no
  further version its own error is the last one and both are cleared.
\<close>

function mdir_read_next ::
  "fs \<Rightarrow> jnl list \<Rightarrow> mdir_version \<Rightarrow> ((header \<times> mdir_version \<times> mdir_action) option \<times> err option) outcome" where
  "mdir_read_next fs js v = (case get_next_version js v of
     None \<Rightarrow> Done (None, None)
   | Some (n, k) \<Rightarrow> (case jnl_read fs (js ! k) (nat (n - jversion (js ! k))) of
        Done (Some h, Some a, e) \<Rightarrow> Done (Some (h, n, a), e)
      | Done (None, _, None) \<Rightarrow> mdir_read_next fs js n
      | Done (None, _, Some e) \<Rightarrow>
          Done (None, if get_next_version js n = None then None else Some e)
      | Done (Some h, None, e) \<Rightarrow> Crash
      | Raised e \<Rightarrow> Raised e
      | Crash \<Rightarrow> Crash))"
  by pat_completeness auto
termination
proof (relation "measure (\<lambda>(fs, js, v). nat (jnls_end js - v))", goal_cases)
  case (2 fs js v x n k)
  then have "v < n \<and> n \<le> jnls_end js" by (intro get_next_version_less) auto
  then show ?case by auto
qed auto

declare mdir_read_next.simps [simp del]

definition mdir_read :: "fs \<Rightarrow> jnl list \<Rightarrow> mdir_version \<Rightarrow> (header option \<times> mdir_action option \<times> err option) outcome" where
  "mdir_read fs js v = (case jnl_get_by_version js v of
     Inl e \<Rightarrow> Done (None, None, Some e)
   | Inr k \<Rightarrow> (case jnl_read fs (js ! k) (nat (v - jversion (js ! k))) of
        Done (_, a, Some e) \<Rightarrow> Done (None, a, Some e) | r \<Rightarrow> r))"

definition mdir_get_targeted_header :: "fs \<Rightarrow> jnl list \<Rightarrow> header \<Rightarrow> (header option \<times> err option) outcome" where
  "mdir_get_targeted_header fs js h = (case header_target h of
     Inl e \<Rightarrow> Done (None, Some e)
   | Inr v \<Rightarrow> (case mdir_read fs js v of
        Done (t, a, Some e) \<Rightarrow> Done (None, Some e)
      | Done (t, a, None) \<Rightarrow>
          if a \<noteq> Some MDIR_ADD then Done (None, Some (Err 0 ''Target header was not an addition !''))
          else Done (t, None)
      | Raised e \<Rightarrow> Raised e
      | Crash \<Rightarrow> Crash))"

section \<open>Links to subfolders\<close>

text \<open>\<open>mdir_link\<close> completes the header it is given: the header it leaves is the result.\<close>

definition ensure_name :: "header \<Rightarrow> header \<times> string" where
  "ensure_name h = (case field_value h SC_NAME_FIELD of
     Some v \<Rightarrow> (h, v) | None \<Rightarrow> (header_field_new h SC_NAME_FIELD ''Unnamed'', ''Unnamed''))"

definition last_component :: "string \<Rightarrow> string" where
  "last_component s = rev (takeWhile (\<lambda>c. c \<noteq> CHR ''/'') (rev s))"

text \<open>
  The child to link under a given identifier: \<open>None\<close> when the link already points to it. When
  the transient folder could not be renamed the error stays pending, the previous link is
  removed all the same, and the new one fails on the null folder.
\<close>

definition link_target :: "string \<Rightarrow> string \<Rightarrow> bool \<Rightarrow> (mst, nat option) act" where
  "link_target path dirid transient st = (case sys_readlink (m_fs st) path of
     Inl e \<Rightarrow>
       if e \<noteq> ENOENT then Done (st, Inl (Err e ''readlink(%s)''))
       else bnd (mdir_lookup_by_id dirid True) (\<lambda>mp. ret (Some mp)) st
   | Inr prev_link \<Rightarrow>
       if PATH_MAX \<le> length prev_link \<or> prev_link = [] then Crash
       else let prev_dirid = last_component prev_link in
         if prev_dirid = dirid then Done (st, Inr None)
         else if transient then Done (st, Inl (Err 0 ''Transient dir not allowed to overwrite previous %s''))
         else if take 1 prev_dirid \<noteq> ''_'' then
           Done (st, Inl (Err 0 ''Previous link for new dirId %s points toward non transient dirId %s''))
         else bnd (attempt (lookup_rename prev_link (snpath (mdir_root st @ ''/'' @ dirid)))) (\<lambda>child.
           bnd (do_sys (\<lambda>fs. sys_unlink fs path)) (\<lambda>e.
             case e of Some e \<Rightarrow> failure e ''Cannot remove previous symlink %s''
             | None \<Rightarrow> (case child of Inl e \<Rightarrow> failure EFAULT ''symlink %s -> %s'' | Inr mp \<Rightarrow> ret (Some mp)))) st)"

definition mdir_link :: "nat \<Rightarrow> header \<Rightarrow> bool \<Rightarrow> (mst, header) act" where
  "mdir_link parent h transient st =
     (case ensure_name h of (h, nm) \<Rightarrow>
        let path = snpath (mpath (mdir_at st parent) @ ''/'' @ nm);
            symlink_child = (\<lambda>h mp st. bnd (do_sys (\<lambda>fs. sys_symlink fs (mpath (mdir_at st mp)) path)) (\<lambda>e.
              case e of Some e \<Rightarrow> failure e ''symlink %s -> %s'' | None \<Rightarrow> ret h) st)
        in case field_value h SC_DIRID_FIELD of
             Some dirid \<Rightarrow> bnd (link_target path dirid transient) (\<lambda>child.
               case child of None \<Rightarrow> ret h | Some mp \<Rightarrow> symlink_child h mp) st
           | None \<Rightarrow> bnd (mdir_create transient) (\<lambda>mp st.
               symlink_child
                 (if transient then h else header_field_new h SC_DIRID_FIELD (mdir_id st (mdir_at st mp))) mp st) st)"

definition unlink_if_there :: "string \<Rightarrow> string \<Rightarrow> (mst, unit) act" where
  "unlink_if_there path what = bnd (do_sys (\<lambda>fs. sys_unlink fs path)) (\<lambda>e.
     case e of None \<Rightarrow> ret () | Some e \<Rightarrow> if e \<noteq> ENOENT then failure e what else ret ())"

definition mdir_unlink :: "nat \<Rightarrow> header \<Rightarrow> (mst, unit) act" where
  "mdir_unlink parent h st = (case field_value h SC_NAME_FIELD of
     None \<Rightarrow> Done (st, Inl (Err 0 ''folder name ommited''))
   | Some nm \<Rightarrow>
       let p = mpath (mdir_at st parent) in
       bnd (unlink_if_there (snpath (p @ ''/'' @ nm)) ''unlink %s'')
         (\<lambda>_. unlink_if_there (snpath (p @ ''/.versionOf_'' @ nm)) ''unlink(%s)'') st)"

section \<open>Patching\<close>

text \<open>A journal of a folder is designated by its position in the list.\<close>

definition open_jnl :: "nat \<Rightarrow> mdir_version \<Rightarrow> (mst, nat) act" where
  "open_jnl mp v st =
     (case jnl_new_empty (m_fs st) (mpath (mdir_at st mp)) (jnls (mdir_at st mp)) v of
        Done (fs, Inr (js, k)) \<Rightarrow> Done (upd_mdir mp (\<lambda>m. m\<lparr>jnls := js\<rparr>) (set_fs st fs), Inr k)
      | Done (fs, Inl e) \<Rightarrow> Done (set_fs st fs, Inl e)
      | Raised e \<Rightarrow> Raised e
      | Crash \<Rightarrow> Crash)"

definition last_jnl :: "nat \<Rightarrow> (mst, nat) act" where
  "last_jnl mp st =
     (let js = jnls (mdir_at st mp) in
      if js = [] then open_jnl mp 1 st
      else if jnl_too_big (max_jnl_size st) (last js)
      then open_jnl mp (jversion (last js) + int (nb_patches (last js))) st
      else Done (st, Inr (length js - 1)))"

definition find_jnl :: "jnl list \<Rightarrow> mdir_version \<Rightarrow> nat option" where
  "find_jnl js v = jnl_holding js v"

text \<open>An operation on one journal that answers the journal updated.\<close>

definition on_jnl :: "nat \<Rightarrow> nat \<Rightarrow> (fs \<Rightarrow> jnl \<Rightarrow> fs \<times> jnl \<times> 'a res) \<Rightarrow> (mst, 'a) act" where
  "on_jnl mp k f st = (case f (m_fs st) (jnls (mdir_at st mp) ! k) of (fs, j, r) \<Rightarrow>
     Done (upd_mdir mp (\<lambda>m. m\<lparr>jnls := (jnls m)[k := j]\<rparr>) (set_fs st fs), r))"

fun insert_blank_patches :: "nat \<Rightarrow> nat \<Rightarrow> (mst, unit) act" where
  "insert_blank_patches mp 0 = ret ()"
| "insert_blank_patches mp (Suc nb) =
     bnd (last_jnl mp) (\<lambda>k. bnd (on_jnl mp k jnl_patch_blank) (\<lambda>_. insert_blank_patches mp nb))"

definition mdir_prepare_rem :: "nat \<Rightarrow> header \<Rightarrow> bool \<Rightarrow> (mst, unit) act" where
  "mdir_prepare_rem mp h transient st = (case header_target h of
     Inl e \<Rightarrow> Done (st, Inl e)
   | Inr to_del \<Rightarrow>
       let js = jnls (mdir_at st mp) in
       (case find_jnl js to_del of
          None \<Rightarrow> Done (st, Inl (Err 0 ''Version does not exist''))
        | Some k \<Rightarrow> (case jnl_read (m_fs st) (js ! k) (nat (to_del - jversion (js ! k))) of
             Done (_, _, Some e) \<Rightarrow> Done (st, Inl e)
           | Done (None, _, None) \<Rightarrow> Done (st, Inr ())
           | Done (Some target, a, None) \<Rightarrow>
               if a \<noteq> Some MDIR_ADD then Done (st, Inl (Err 0 ''Bad patch type for deletion''))
               else bnd (if header_is_directory target then mdir_unlink mp target else ret ()) (\<lambda>_ st.
                 if transient then Done (st, Inr ())
                 else (case jnl_mark_del (m_fs st) (js ! k) to_del of
                    Done (fs, None) \<Rightarrow> Done (set_fs st fs, Inr ())
                  | Done (fs, Some e) \<Rightarrow> Done (set_fs st fs, Inl e)
                  | Raised e \<Rightarrow> Raised e
                  | Crash \<Rightarrow> Crash)) st
           | Raised e \<Rightarrow> Raised e
           | Crash \<Rightarrow> Crash)))"

definition mdir_prepare_add :: "nat \<Rightarrow> header \<Rightarrow> bool \<Rightarrow> (mst, header) act" where
  "mdir_prepare_add mp h transient =
     (if header_is_directory h then mdir_link mp h transient else ret h)"

definition creat_with :: "string \<Rightarrow> string \<Rightarrow> fs \<Rightarrow> fs \<times> err option" where
  "creat_with path text fs = (case sys_open True False True fs path of
     (fs, Inl e) \<Rightarrow> (fs, Some (Err e ''creat(%s)''))
   | (fs, Inr i) \<Rightarrow> (case Write_strs [] (fd_of fs i False) [text] of
        (f, e) \<Rightarrow> (set_data fs i (bytes f), e)))"

definition mdir_confirm_add :: "nat \<Rightarrow> header \<Rightarrow> mdir_version \<Rightarrow> (mst, unit) act" where
  "mdir_confirm_add mp h v st =
     (if header_is_directory h then
        (case field_value h SC_NAME_FIELD of
           None \<Rightarrow> Crash
         | Some nm \<Rightarrow> do_err (creat_with (snpath (mpath (mdir_at st mp) @ ''/.versionOf_'' @ nm))
             (mdir_version2str v)) st)
      else if header_has_type h SC_PERM_TYPE then update_permissions mp (Some h) st
      else Done (st, Inr ()))"

definition is_mark_for :: "header \<Rightarrow> mdir_version" where
  "is_mark_for h = (if \<not> header_has_type h SC_MARK_TYPE then 0
     else case header_target h of Inl e \<Rightarrow> 0 | Inr v \<Rightarrow> v)"

definition handle_mark :: "nat \<Rightarrow> nat \<Rightarrow> header \<Rightarrow> mdir_version \<Rightarrow> (mst, unit) act" where
  "handle_mark mp k h v st =
     (let marked = is_mark_for h; js = jnls (mdir_at st mp) in
      if marked = 0 then Done (st, Inr ())
      else case jnl_get_by_version js marked of
        Inl e \<Rightarrow> Done (st, Inl e)
      | Inr t \<Rightarrow>
          (case jnl_replace_last_mark (m_fs st) (js ! t) (nat (marked - jversion (js ! t))) v of
             (fs, Inl e) \<Rightarrow> Done (set_fs st fs, Inl e)
           | (fs, Inr last_mark) \<Rightarrow>
               (case jnl_replace_last_mark fs (js ! k) (nat (v - jversion (js ! k))) last_mark of
                  (fs, Inl e) \<Rightarrow> Done (set_fs st fs, Inl e)
                | (fs, Inr _) \<Rightarrow> Done (set_fs st fs, Inr ()))))"

text \<open>The version given to the patch and the header as it was completed and written.\<close>

definition mdir_patch :: "nat \<Rightarrow> mdir_action \<Rightarrow> header \<Rightarrow> nat \<Rightarrow> (mst, mdir_version \<times> header) act" where
  "mdir_patch mp action h nb_deleted =
     bnd (insert_blank_patches mp nb_deleted) (\<lambda>_.
     bnd (if action = MDIR_REM then bnd (mdir_prepare_rem mp h False) (\<lambda>_. ret h)
          else mdir_prepare_add mp h False) (\<lambda>h.
     bnd (last_jnl mp) (\<lambda>k.
     bnd (on_jnl mp k (\<lambda>fs j. jnl_patch fs j action h)) (\<lambda>v.
     bnd (if action = MDIR_ADD then mdir_confirm_add mp h v else ret ()) (\<lambda>_.
     bnd (handle_mark mp k h v) (\<lambda>_. ret (v, h)))))))"

section \<open>Requests\<close>

definition write_new_file :: "string \<Rightarrow> header \<Rightarrow> fs \<Rightarrow> fs \<times> err option" where
  "write_new_file path h fs = (case sys_open True True False fs path of
     (fs, Inl e) \<Rightarrow> (fs, Some (Err e ''Cannot create transient patch in %s''))
   | (fs, Inr i) \<Rightarrow> (case header_write h (fd_of fs i False) of (f, e) \<Rightarrow> (set_data fs i (bytes f), e)))"

definition mdir_patch_request :: "nat \<Rightarrow> mdir_action \<Rightarrow> header \<Rightarrow> (mst, unit) act" where
  "mdir_patch_request mp action h =
     (if header_is_directory h \<and> (case field_value h SC_DIRID_FIELD of None \<Rightarrow> False | Some v \<Rightarrow> take 1 v = ''_'')
      then failure 0 ''Cannot refer to a temporary dirId''
      else bnd (if action = MDIR_REM then bnd (mdir_prepare_rem mp h True) (\<lambda>_. ret h)
                else mdir_prepare_add mp h True) (\<lambda>h st.
        let temp = snpath (mpath (mdir_at st mp) @ ''/.tmp/'') in
        bnd (do_err (\<lambda>fs. Mkdir fs temp)) (\<lambda>_.
        bnd (next_seq transient_version) (\<lambda>tver.
          do_err (write_new_file
            (snpath (temp @ (if action = MDIR_ADD then ''+'' else ''-'') @ dec_int (sint tver))) h))) st))"

definition mdir_del_request :: "nat \<Rightarrow> mdir_version \<Rightarrow> (mst, unit) act" where
  "mdir_del_request mp to_del =
     (if to_del \<le> 0 then failure 0 ''Cannot delete transient patch''
      else mdir_patch_request mp MDIR_REM
        (header_field_new header_new SC_TARGET_FIELD (mdir_version2str to_del)))"

definition mdir_mark :: "nat \<Rightarrow> mdir_version \<Rightarrow> string \<Rightarrow> string \<Rightarrow> (mst, unit) act" where
  "mdir_mark mp v fld val =
     mdir_patch_request mp MDIR_ADD
       (header_field_new (header_field_new (header_field_new header_new SC_TYPE_FIELD SC_MARK_TYPE)
          SC_TARGET_FIELD (mdir_version2str v)) fld val)"

definition mdir_mark_read :: "nat \<Rightarrow> mdir_version \<Rightarrow> string \<Rightarrow> (mst, unit) act" where
  "mdir_mark_read mp v username = mdir_mark mp v SC_HAVE_READ_FIELD username"

definition mdir_mark_error :: "nat \<Rightarrow> mdir_version \<Rightarrow> string \<Rightarrow> (mst, unit) act" where
  "mdir_mark_error mp v msg = mdir_mark mp v SC_ERRMSG_FIELD msg"

definition mdir_get_folder_version :: "mst \<Rightarrow> nat \<Rightarrow> string \<Rightarrow> mdir_version res" where
  "mdir_get_folder_version st mp nm =
     (case open_input (m_fs st) (snpath (mpath (mdir_at st mp) @ ''/.versionOf_'' @ nm)) of
        Inl e \<Rightarrow> Fail e ''open(%s)''
      | Inr inp \<Rightarrow>
          if list_all (\<lambda>r. case r of Got c \<Rightarrow> True | RdErr e \<Rightarrow> False) inp
          then mdir_str2version (cstr (map (\<lambda>r. case r of Got c \<Rightarrow> c | RdErr e \<Rightarrow> NUL) inp))
          else Fail EISDIR ''Cannot read'')"

section \<open>Listing\<close>

text \<open>The calls made to the functions of the caller.\<close>

datatype listed = PutCb header mdir_version | RemCb mdir_version | ErrCb header mdir_version

text \<open>One patch: the calls made for it.\<close>

definition synch_one :: "bool \<Rightarrow> bool \<Rightarrow> mdir_cursor \<Rightarrow> header \<Rightarrow> mdir_action \<Rightarrow> mdir_version \<Rightarrow> listed list" where
  "synch_one put_cb rem_cb cursor h a v =
     (case a of
        MDIR_REM \<Rightarrow>
          if rem_cb then (case header_target h of Inl e \<Rightarrow> [] | Inr t \<Rightarrow> [RemCb t]) else []
      | MDIR_ADD \<Rightarrow>
          (if rem_cb then
             (case field_value h SC_LOCALID_FIELD of
                None \<Rightarrow> []
              | Some s \<Rightarrow> (case mdir_str2version s of
                   Inl e \<Rightarrow> []
                 | Inr l \<Rightarrow> if l \<le> last_listed_unsync cursor then [RemCb (- l)] else []))
           else []) @
          (if put_cb then [PutCb h v] else []))"

text \<open>The patches of one journal from an index, \<open>n\<close> of them left.\<close>

fun synch_jnl ::
  "bool \<Rightarrow> bool \<Rightarrow> fs \<Rightarrow> jnl \<Rightarrow> nat \<Rightarrow> nat \<Rightarrow> mdir_cursor \<Rightarrow> listed list \<Rightarrow>
     (mdir_cursor \<times> listed list \<times> err option) outcome" where
  "synch_jnl put_cb rem_cb fs j index 0 cursor out = Done (cursor, out, None)"
| "synch_jnl put_cb rem_cb fs j index (Suc n) cursor out =
     (case jnl_read fs j index of
        Done (_, _, Some e) \<Rightarrow> Done (cursor, out, Some e)
      | Done (None, _, None) \<Rightarrow> synch_jnl put_cb rem_cb fs j (Suc index) n cursor out
      | Done (Some h, Some a, None) \<Rightarrow>
          let v = jversion j + int index in
          synch_jnl put_cb rem_cb fs j (Suc index) n (cursor\<lparr>last_listed_sync := v\<rparr>)
            (out @ synch_one put_cb rem_cb cursor h a v)
      | Done (Some h, None, None) \<Rightarrow> Crash
      | Raised e \<Rightarrow> Raised e
      | Crash \<Rightarrow> Crash)"

fun synch_jnls ::
  "bool \<Rightarrow> bool \<Rightarrow> fs \<Rightarrow> mdir_version \<Rightarrow> jnl list \<Rightarrow> mdir_cursor \<Rightarrow> listed list \<Rightarrow>
     (mdir_cursor \<times> listed list \<times> err option) outcome" where
  "synch_jnls put_cb rem_cb fs from_v [] cursor out = Done (cursor, out, None)"
| "synch_jnls put_cb rem_cb fs from_v (j # js) cursor out =
     (if jversion j + int (nb_patches j) \<le> from_v then synch_jnls put_cb rem_cb fs from_v js cursor out
      else let from_v = max from_v (jversion j); i = nat (from_v - jversion j) in
        (case synch_jnl put_cb rem_cb fs j i (nb_patches j - i) cursor out of
           Done (cursor, out, None) \<Rightarrow> synch_jnls put_cb rem_cb fs from_v js cursor out
         | r \<Rightarrow> r))"

definition synch_list ::
  "bool \<Rightarrow> bool \<Rightarrow> fs \<Rightarrow> jnl list \<Rightarrow> mdir_cursor \<Rightarrow> (mdir_cursor \<times> listed list \<times> err option) outcome" where
  "synch_list put_cb rem_cb fs js cursor =
     synch_jnls put_cb rem_cb fs (last_listed_sync cursor + 1) js cursor []"

definition file_action :: "string \<Rightarrow> mdir_action option" where
  "file_action filename = (if take 1 filename = ''+'' then Some MDIR_ADD
     else if take 1 filename = ''-'' then Some MDIR_REM else None)"

fun transient_names ::
  "bool \<Rightarrow> bool \<Rightarrow> fs \<Rightarrow> string \<Rightarrow> mdir_version \<Rightarrow> string list \<Rightarrow> mdir_cursor \<Rightarrow> listed list \<Rightarrow>
     (mdir_cursor \<times> listed list \<times> err option) outcome" where
  "transient_names put_cb rem_cb fs temp start [] cursor out = Done (cursor, out, None)"
| "transient_names put_cb rem_cb fs temp start (nm # ns) cursor out =
     (case file_action nm of
        None \<Rightarrow> transient_names put_cb rem_cb fs temp start ns cursor out
      | Some a \<Rightarrow> (case mdir_str2version (tl nm) of
           Inl e \<Rightarrow> transient_names put_cb rem_cb fs temp start ns cursor out
         | Inr v \<Rightarrow>
             if v \<le> start then transient_names put_cb rem_cb fs temp start ns cursor out
             else
               let cursor = cursor\<lparr>last_listed_unsync := max v (last_listed_unsync cursor)\<rparr> in
               (case header_from_file fs (snpath (temp @ ''/'' @ nm)) of
                  Raised e \<Rightarrow> Done (cursor, out, Some e)
                | Crash \<Rightarrow> Crash
                | Done h \<Rightarrow> transient_names put_cb rem_cb fs temp start ns cursor (out @
                    (if a = MDIR_REM \<and> rem_cb
                     then (case header_target h of Inl e \<Rightarrow> [] | Inr t \<Rightarrow> [RemCb t])
                     else if put_cb then [PutCb h (- v)] else [])))))"

definition transient_list ::
  "bool \<Rightarrow> bool \<Rightarrow> fs \<Rightarrow> string \<Rightarrow> mdir_cursor \<Rightarrow> (mdir_cursor \<times> listed list \<times> err option) outcome" where
  "transient_list put_cb rem_cb fs path cursor =
     (let temp = snpath (path @ ''/.tmp'') in
      case sys_readdir fs temp of
        Inl e \<Rightarrow> Done (cursor, [], if e = ENOENT then None else Some (Err e ''opendir(%s)''))
      | Inr names \<Rightarrow> transient_names put_cb rem_cb fs temp (last_listed_unsync cursor) names cursor [])"

fun err_names :: "string \<Rightarrow> string list \<Rightarrow> fs \<Rightarrow> listed list \<Rightarrow> (fs \<times> listed list \<times> err option) outcome" where
  "err_names temp [] fs out = Done (fs, out, None)"
| "err_names temp (nm # ns) fs out =
     (case file_action nm of
        None \<Rightarrow> err_names temp ns fs out
      | Some a \<Rightarrow> (case mdir_str2version (tl nm) of
           Inl e \<Rightarrow> err_names temp ns fs out
         | Inr v \<Rightarrow>
             let file = snpath (temp @ ''/'' @ nm) in
             (case header_from_file fs file of
                Raised e \<Rightarrow> Done (fs, out, Some e)
              | Crash \<Rightarrow> Crash
              | Done h \<Rightarrow> (case sys_unlink fs file of
                   (fs, Some e) \<Rightarrow> Done (fs, out @ [ErrCb h (- v)], Some (Err e ''unlink(%s)''))
                 | (fs, None) \<Rightarrow> err_names temp ns fs (out @ [ErrCb h (- v)])))))"

definition err_list :: "fs \<Rightarrow> string \<Rightarrow> (fs \<times> listed list \<times> err option) outcome" where
  "err_list fs path =
     (let temp = snpath (path @ ''/.err'') in
      case sys_readdir fs temp of
        Inl e \<Rightarrow> Done (fs, [], if e = ENOENT then None else Some (Err e ''opendir(%s)''))
      | Inr names \<Rightarrow> err_names temp names fs [])"

text \<open>
  When the directory cannot be listed \<open>mdir_reload\<close> leaves no journal and an error, which the
  first listing returns after having found nothing. Otherwise: the cursor, the calls made and
  the error that ended the listing, if any.
\<close>

definition mdir_patch_list ::
  "nat \<Rightarrow> mdir_cursor \<Rightarrow> bool \<Rightarrow> bool \<Rightarrow> bool \<Rightarrow> bool \<Rightarrow> (mst, mdir_cursor \<times> listed list \<times> err option) act" where
  "mdir_patch_list mp cursor unsync_only put_cb rem_cb err_cb = bnd (mdir_reload mp) (\<lambda>_ st.
     let m = mdir_at st mp; fs = m_fs st in
     obind (if put_cb \<or> rem_cb then
              obind (if unsync_only then Done (cursor, [], None) else synch_list put_cb rem_cb fs (jnls m) cursor)
                (\<lambda>(cursor, out, e). case e of Some e \<Rightarrow> Done (cursor, out, Some e)
                 | None \<Rightarrow> obind (transient_list put_cb rem_cb fs (mpath m) cursor)
                     (\<lambda>(cursor, out', e). Done (cursor, out @ out', e)))
            else Done (cursor, [], None))
       (\<lambda>(cursor, out, e). case e of Some e \<Rightarrow> Done (st, Inr (cursor, out, Some e))
        | None \<Rightarrow> if err_cb then
              obind (err_list fs (mpath m)) (\<lambda>(fs, out', e).
                Done (set_fs st fs, Inr (cursor, out @ out', e)))
            else Done (st, Inr (cursor, out, None))))"

text \<open>The links of a folder: the child, whether it is new, and the name.\<close>

fun folder_names :: "nat \<Rightarrow> bool \<Rightarrow> string list \<Rightarrow> (nat \<times> bool \<times> string) list \<Rightarrow> (mst, (nat \<times> bool \<times> string) list) act" where
  "folder_names mp new_only [] out = ret out"
| "folder_names mp new_only (nm # ns) out = (\<lambda>st.
     let path = snpath (mpath (mdir_at st mp) @ ''/'' @ nm) in
     case sys_lstat_lnk (m_fs st) path of
       Inl e \<Rightarrow> Done (st, Inl (Err e ''lstat %s''))
     | Inr False \<Rightarrow> folder_names mp new_only ns out st
     | Inr True \<Rightarrow> bnd (lookup_abs path) (\<lambda>child st.
         let new = mdir_is_transient st (mdir_at st child) in
         folder_names mp new_only ns (if \<not> new \<and> new_only then out else out @ [(child, new, nm)]) st) st)"

definition mdir_folder_list :: "nat \<Rightarrow> bool \<Rightarrow> (mst, (nat \<times> bool \<times> string) list) act" where
  "mdir_folder_list mp new_only st = (case sys_readdir (m_fs st) (mpath (mdir_at st mp)) of
     Inl e \<Rightarrow> Done (st, Inl (Err e ''opendir %s''))
   | Inr names \<Rightarrow> folder_names mp new_only names [] st)"

end
