(* ===== verification/Mdir_Log.thy ===== *)
theory Mdir_Log
  imports Mdir
begin

text \<open>
  Folders as logs: the journals of a folder represent one list of entries whose positions are
  the versions. The invariant \<open>folder_ok\<close> relates the bytes of the files to that list; patching,
  reading and listing a folder are proved equal to operations on the list, across the
  boundaries of journals and the creation of new ones.
\<close>

section \<open>Representation\<close>

definition jfds :: "jnl \<Rightarrow> nat list" where
  "jfds j = [patch_fd j, idx_fd j]"

definition folder_rep :: "fs \<Rightarrow> jnl list \<Rightarrow> entry list list \<Rightarrow> bool" where
  "folder_rep fs js ess \<longleftrightarrow> length ess = length js \<and>
     (\<forall>k < length js. (\<exists>ms. jnl_rep fs (js ! k) (ess ! k) ms) \<and>
        jversion (js ! k) = 1 + int (length (concat (take k ess))) \<and> (Suc k < length js \<longrightarrow> ess ! k \<noteq> [])) \<and>
     (\<forall>k < length js. \<forall>l < length js. k \<noteq> l \<longrightarrow> set (jfds (js ! k)) \<inter> set (jfds (js ! l)) = {})"

lemma folder_repD:
  assumes "folder_rep fs js ess" "k < length js"
  shows "\<exists>ms. jnl_rep fs (js ! k) (ess ! k) ms" "jversion (js ! k) = 1 + int (length (concat (take k ess)))"
    "nb_patches (js ! k) = length (ess ! k)" "Suc k < length js \<Longrightarrow> ess ! k \<noteq> []"
  using assms by (auto simp: folder_rep_def jnl_rep_def)

lemma folder_rep_length: "folder_rep fs js ess \<Longrightarrow> length ess = length js"
  by (simp add: folder_rep_def)

subsection \<open>Positions\<close>

lemma length_concat_take_Suc:
  "k < length ess \<Longrightarrow> length (concat (take (Suc k) ess)) = length (concat (take k ess)) + length (ess ! k)"
  by (simp add: take_Suc_conv_app_nth)

lemma length_concat_take_mono:
  "k \<le> l \<Longrightarrow> length (concat (take k ess)) \<le> length (concat (take l ess))"
  by (metis append_take_drop_id concat_append le_add1 length_append min_def take_take)

lemma concat_position:
  "n < length (concat ess) \<Longrightarrow> \<exists>k i. k < length ess \<and> i < length (ess ! k) \<and>
     n = length (concat (take k ess)) + i \<and> concat ess ! n = ess ! k ! i"
proof (induction ess arbitrary: n)
  case (Cons es ess)
  show ?case
  proof (cases "n < length es")
    case True
    then show ?thesis by (intro exI [of _ 0] exI [of _ n]) (simp add: nth_append)
  next
    case False
    with Cons.prems have "n - length es < length (concat ess)" by auto
    from Cons.IH [OF this] obtain k i where
      "k < length ess" "i < length (ess ! k)" "n - length es = length (concat (take k ess)) + i"
      "concat ess ! (n - length es) = ess ! k ! i" by blast
    with False show ?thesis by (intro exI [of _ "Suc k"] exI [of _ i]) (simp add: nth_append)
  qed
qed simp

lemma concat_nth:
  "k < length ess \<Longrightarrow> i < length (ess ! k) \<Longrightarrow> concat ess ! (length (concat (take k ess)) + i) = ess ! k ! i"
proof (induction ess arbitrary: k)
  case (Cons es ess)
  then show ?case by (cases k) (auto simp: nth_append)
qed simp

lemma concat_update:
  "k < length ess \<Longrightarrow> i < length (ess ! k) \<Longrightarrow>
     concat (ess[k := (ess ! k)[i := x]]) = (concat ess)[length (concat (take k ess)) + i := x]"
proof (induction ess arbitrary: k)
  case (Cons es ess)
  then show ?case by (cases k) (auto simp: list_update_append)
qed simp

lemma length_concat_take_all: "length (concat (take k ess)) \<le> length (concat ess)"
  by (metis append_take_drop_id concat_append le_add1 length_append)

lemma folder_rep_sorted: "folder_rep fs js ess \<Longrightarrow> sorted_wrt jnl_before js"
proof (unfold sorted_wrt_iff_nth_less, intro allI impI)
  fix i k assume r: "folder_rep fs js ess" and ik: "i < k" "k < length js"
  have len: "length ess = length js" using r by (simp add: folder_rep_def)
  have "length (concat (take i ess)) + length (ess ! i) \<le> length (concat (take k ess))"
    using length_concat_take_mono [of "Suc i" k ess] length_concat_take_Suc [of i ess] ik len by simp
  moreover have "ess ! i \<noteq> []" using folder_repD(4) [OF r, of i] ik by simp
  then have "1 \<le> length (ess ! i)" by (simp add: Suc_le_eq)
  ultimately have "length (concat (take i ess)) < length (concat (take k ess))"
    "length (concat (take i ess)) + length (ess ! i) \<le> length (concat (take k ess))" by linarith+
  then show "jnl_before (js ! i) (js ! k)"
    using folder_repD(2,3) [OF r, of i] folder_repD(2) [OF r, of k] ik by (auto simp: jnl_before_def)
qed

lemma folder_rep_holding:
  assumes "folder_rep fs js ess" "n < length (concat ess)"
  shows "\<exists>k i. k < length js \<and> i < length (ess ! k) \<and> n = length (concat (take k ess)) + i \<and>
    concat ess ! n = ess ! k ! i \<and> jnl_holding js (1 + int n) = Some k \<and>
    nat (1 + int n - jversion (js ! k)) = i"
proof -
  from concat_position [OF assms(2)] obtain k i where
    k: "k < length ess" "i < length (ess ! k)" "n = length (concat (take k ess)) + i"
      "concat ess ! n = ess ! k ! i" by blast
  then have kj: "k < length js" using assms(1) by (simp add: folder_rep_def)
  have "jnl_holding js (1 + int n) = Some k"
    using jnl_holding_unique [OF folder_rep_sorted [OF assms(1)] kj, of "1 + int n"]
      folder_repD(2,3) [OF assms(1) kj] k by simp
  with k kj folder_repD(2) [OF assms(1) kj] show ?thesis by auto
qed

lemma folder_rep_beyond:
  assumes "folder_rep fs js ess" "int (length (concat ess)) < v"
  shows "jnl_holding js v = None"
proof (rule ccontr)
  assume "jnl_holding js v \<noteq> None"
  then obtain k where "jnl_holding js v = Some k" by blast
  from jnl_holding_Some [OF this] have k: "k < length js" "v < jversion (js ! k) + int (nb_patches (js ! k))" by auto
  have "length (concat (take k ess)) + length (ess ! k) \<le> length (concat ess)"
    using length_concat_take_Suc [of k ess] length_concat_take_all [of "Suc k" ess] k(1) folder_rep_length [OF assms(1)]
    by simp
  with k folder_repD(2,3) [OF assms(1) k(1)] assms(2) show False by simp
qed

section \<open>Reading\<close>

lemma mdir_read_rep:
  assumes "folder_rep fs js ess" "n < length (concat ess)"
  shows "mdir_read fs js (1 + int n) = jview (concat ess ! n)"
proof -
  from folder_rep_holding [OF assms] obtain k i where
    k: "k < length js" "i < length (ess ! k)" "concat ess ! n = ess ! k ! i"
      "jnl_holding js (1 + int n) = Some k" "nat (1 + int n - jversion (js ! k)) = i" by blast
  from folder_repD(1) [OF assms(1) k(1)] obtain ms where "jnl_rep fs (js ! k) (ess ! k) ms" by blast
  from jnl_read_rep [OF this k(2)] k show ?thesis
    by (simp add: mdir_read_def jnl_get_by_version_def jview_def)
qed

lemma get_next_holding:
  assumes "sorted_wrt jnl_before js" "jnl_holding js (v + 1) = Some k"
  shows "get_next js i v = Some (v + 1, i + k)"
  using assms
proof (induction js arbitrary: i k)
  case (Cons j js)
  show ?case
  proof (cases "jversion j \<le> v + 1 \<and> jversion j + int (nb_patches j) > v + 1")
    case True
    with Cons.prems(2) show ?thesis by simp
  next
    case False
    with Cons.prems(2) obtain k' where k': "jnl_holding js (v + 1) = Some k'" "k = Suc k'" by (auto split: if_splits)
    from jnl_holding_Some [OF k'(1)] have "k' < length js" "jversion (js ! k') \<le> v + 1" by auto
    moreover have "jversion j < jversion (js ! k')" using Cons.prems(1) \<open>k' < length js\<close> by (simp add: jnl_before_def)
    ultimately have "\<not> jversion j > v + 1" by simp
    with False Cons.IH [OF _ k'(1), of "Suc i"] Cons.prems(1) k'(2) show ?thesis by auto
  qed
qed simp

lemma get_next_end:
  "\<forall>j \<in> set js. jversion j \<le> v + 1 \<and> jversion j + int (nb_patches j) \<le> v + 1 \<Longrightarrow> get_next js i v = None"
  by (induction js arbitrary: i) auto

lemma folder_rep_end:
  assumes "folder_rep fs js ess" "j \<in> set js"
  shows "jversion j + int (nb_patches j) \<le> 1 + int (length (concat ess))"
proof -
  from assms(2) obtain k where k: "k < length js" "j = js ! k" by (auto simp: in_set_conv_nth)
  have "length (concat (take k ess)) + length (ess ! k) \<le> length (concat ess)"
    using length_concat_take_Suc [of k ess] length_concat_take_all [of "Suc k" ess] k(1) folder_rep_length [OF assms(1)]
    by simp
  with k folder_repD(2,3) [OF assms(1) k(1)] show ?thesis by simp
qed

text \<open>The first live entry from a position, as \<open>mdir_read_next\<close> reports it.\<close>

definition entry_live :: "entry \<Rightarrow> bool" where
  "entry_live en \<longleftrightarrow> fst en \<noteq> CHR ''%''"

definition entry_header :: "entry \<Rightarrow> header" where
  "entry_header en = \<lparr>h_fields = snd en, h_count = 1\<rparr>"

definition entry_action :: "entry \<Rightarrow> mdir_action" where
  "entry_action en = (if fst en = CHR ''+'' then MDIR_ADD else MDIR_REM)"

definition next_live :: "entry list \<Rightarrow> nat \<Rightarrow> (header \<times> mdir_version \<times> mdir_action) option" where
  "next_live es n = map_option (\<lambda>i. (entry_header (es ! i), 1 + int i, entry_action (es ! i)))
     (find (\<lambda>i. entry_live (es ! i)) [n..<length es])"

lemma next_live_step:
  "next_live es n = (if n < length es
     then if entry_live (es ! n) then Some (entry_header (es ! n), 1 + int n, entry_action (es ! n))
       else next_live es (Suc n)
     else None)"
  by (simp add: next_live_def upt_conv_Cons)

lemma mdir_read_next_rep:
  assumes "folder_rep fs js ess"
  shows "mdir_read_next fs js (int n) = Done (next_live (concat ess) n, None)"
proof (induction "length (concat ess) - n" arbitrary: n rule: less_induct)
  case less
  show ?case
  proof (cases "n < length (concat ess)")
    case False
    then have "get_next_version js (int n) = None"
      unfolding get_next_version_def using folder_rep_end [OF assms] by (intro get_next_end) fastforce
    with False show ?thesis by (simp add: mdir_read_next.simps [of fs js] next_live_step [of _ n])
  next
    case True
    from folder_rep_holding [OF assms True] obtain k i where
      k: "k < length js" "i < length (ess ! k)" "concat ess ! n = ess ! k ! i"
        "jnl_holding js (1 + int n) = Some k" "nat (1 + int n - jversion (js ! k)) = i" by blast
    from folder_repD(1) [OF assms k(1)] obtain ms where "jnl_rep fs (js ! k) (ess ! k) ms" by blast
    note rd = jnl_read_rep [OF this k(2)]
    have nx: "get_next_version js (int n) = Some (1 + int n, k)"
      using get_next_holding [OF folder_rep_sorted [OF assms], of "int n" k 0] k(4)
      by (simp add: get_next_version_def add.commute)
    show ?thesis
    proof (cases "entry_live (concat ess ! n)")
      case live: True
      with True k rd nx show ?thesis
        by (simp add: mdir_read_next.simps [of fs js] next_live_step [of _ n] entry_live_def entry_header_def entry_action_def)
    next
      case False
      with rd k nx have "mdir_read_next fs js (int n) = mdir_read_next fs js (1 + int n)"
        by (simp add: mdir_read_next.simps [of fs js "int n"] entry_live_def)
      also have "\<dots> = Done (next_live (concat ess) (Suc n), None)" using less [of "Suc n"] True by simp
      finally show ?thesis using True False by (simp add: next_live_step [of _ n])
    qed
  qed
qed

section \<open>Files of a folder\<close>

lemma split_on_slash: "split_on acc (a @ CHR ''/'' # b) = split_on acc a @ split_on [] b"
  by (induction a arbitrary: acc) auto

lemma split_on_plain: "CHR ''/'' \<notin> set s \<Longrightarrow> split_on acc s = [acc @ s]"
  by (induction s arbitrary: acc) auto

definition plain_name :: "string \<Rightarrow> bool" where
  "plain_name s \<longleftrightarrow> s \<noteq> [] \<and> s \<noteq> ''.'' \<and> s \<noteq> ''..'' \<and> CHR ''/'' \<notin> set s"

lemma comps_child: "plain_name nm \<Longrightarrow> comps (path @ ''/'' @ nm) = comps path @ [nm]"
  by (simp add: comps_def plain_name_def split_on_slash split_on_plain)

text \<open>A path that leads to a directory through directories only.\<close>

definition real_dir :: "fs \<Rightarrow> string \<Rightarrow> bool" where
  "real_dir fs path \<longleftrightarrow> ''..'' \<notin> set (comps path) \<and>
     (\<forall>k \<le> length (comps path). node_at fs (take k (comps path)) = Some Dir)"

lemma walk_real:
  assumes "''..'' \<notin> set cs" "\<forall>k \<le> length cs. node_at fs (cur @ take k cs) = Some Dir"
  shows "walk n fs follow cur (cs @ ds) = walk n fs follow (cur @ cs) ds"
  using assms
proof (induction cs arbitrary: cur)
  case (Cons c cs)
  have "node_at fs (cur @ [c]) = Some Dir" using Cons.prems(2) [rule_format, of 1] by simp
  moreover have "\<forall>k \<le> length cs. node_at fs ((cur @ [c]) @ take k cs) = Some Dir"
    using Cons.prems(2) by (auto dest: spec [of _ "Suc _"])
  moreover have "c \<noteq> ''..''" using Cons.prems(1) by auto
  ultimately show ?case using Cons.IH [of "cur @ [c]"] Cons.prems(1) by simp
qed simp

lemma resolve_child:
  assumes "real_dir fs path" "plain_name nm" "\<forall>t. node_at fs (comps path @ [nm]) = Some (Lnk t) \<longrightarrow> \<not> follow"
  shows "resolve fs follow (path @ ''/'' @ nm) = Inr (comps path @ [nm])"
proof -
  have "resolve fs follow (path @ ''/'' @ nm) = walk MAXSYMLINKS fs follow (comps path) [nm]"
    using walk_real [of "comps path" fs "[]" MAXSYMLINKS follow "[nm]"] assms(1) comps_child [OF assms(2), of path]
    by (simp add: resolve_def real_dir_def)
  also have "\<dots> = Inr (comps path @ [nm])"
    using assms(2,3) by (auto simp: plain_name_def split: option.splits node.splits)
  finally show ?thesis .
qed

lemma real_dir_add: "real_dir fs path \<Longrightarrow> real_dir (add_ent fs p nd) path"
  by (simp add: real_dir_def node_at_mono)

lemma real_dir_ents: "ents fs' = ents fs \<Longrightarrow> real_dir fs' path = real_dir fs path"
  by (simp add: real_dir_def node_at_def)

definition idx_filename :: "mdir_version \<Rightarrow> string" where
  "idx_filename v = dec20 v @ ''.idx''"

lemma dec20_chars:
  assumes "0 \<le> v" "c \<in> set (dec20 v)"
  shows "\<exists>d < 10. c = digit_char d"
proof -
  have "c = CHR ''0'' \<or> c \<in> set (dec_nat (nat v))" using assms by (auto simp: dec20_def pad0_def)
  moreover have "CHR ''0'' = digit_char 0" by code_simp
  ultimately show ?thesis using dec_nat_digits [of "nat v"] by (metis zero_less_numeral)
qed

lemma jnl_names_plain:
  assumes "0 \<le> v" "v < 2 ^ 63"
  shows "plain_name (jnl_filename v)" "plain_name (idx_filename v)"
proof -
  have "CHR ''/'' \<notin> set (dec20 v)" using dec20_chars [OF assms(1)] digit_char_neq by metis
  moreover have "dec20 v = [] \<Longrightarrow> False" using length_dec20 [OF assms] by simp
  moreover have "length (jnl_filename v) = 24" "length (idx_filename v) = 24"
    using length_dec20 [OF assms] by (simp_all add: jnl_filename_def idx_filename_def)
  then have "jnl_filename v \<noteq> ''.''" "jnl_filename v \<noteq> ''..''" "idx_filename v \<noteq> ''.''" "idx_filename v \<noteq> ''..''"
    by auto
  ultimately show "plain_name (jnl_filename v)" "plain_name (idx_filename v)"
    by (auto simp: plain_name_def jnl_filename_def idx_filename_def)
qed

lemma jnl_filename_inj:
  assumes "0 \<le> v" "v < 2 ^ 63" "0 \<le> w" "w < 2 ^ 63"
  shows "jnl_filename v = jnl_filename w \<longleftrightarrow> v = w" "idx_filename v = idx_filename w \<longleftrightarrow> v = w"
    "jnl_filename v \<noteq> idx_filename w" "idx_filename v \<noteq> jnl_filename w"
proof -
  have "jnl_filename v = jnl_filename w \<Longrightarrow> v = w"
    by (metis parse_jnl_filename [OF assms(1,2)] parse_jnl_filename [OF assms(3,4)] sum.inject(2))
  then show "jnl_filename v = jnl_filename w \<longleftrightarrow> v = w" "idx_filename v = idx_filename w \<longleftrightarrow> v = w"
    by (auto simp: jnl_filename_def idx_filename_def)
  have "last (jnl_filename u) = CHR ''g''" "last (idx_filename u) = CHR ''x''" for u
    by (simp_all add: jnl_filename_def idx_filename_def)
  then show "jnl_filename v \<noteq> idx_filename w" "idx_filename v \<noteq> jnl_filename w"
    by (fastforce dest: arg_cong [where f = last])+
qed

section \<open>Invariant of a folder\<close>

text \<open>
  The journals of a folder in use: they represent consecutive entries, the directory holds no
  file named like a journal that is not loaded, and the paths fit the buffers.
\<close>

definition no_stray :: "fs \<Rightarrow> string \<Rightarrow> jnl list \<Rightarrow> bool" where
  "no_stray fs path js \<longleftrightarrow> (\<forall>v. 0 \<le> v \<and> v < 2 ^ 63 \<and> v \<notin> jversion ` set js \<longrightarrow>
     node_at fs (comps path @ [jnl_filename v]) = None \<and> node_at fs (comps path @ [idx_filename v]) = None)"

definition files_ok :: "fs \<Rightarrow> string \<Rightarrow> jnl list \<Rightarrow> bool" where
  "files_ok fs path js \<longleftrightarrow> real_dir fs path \<and> no_stray fs path js \<and> length path + 25 < PATH_MAX \<and>
     (\<forall>j \<in> set js. patch_fd j < next_ino fs \<and> idx_fd j < next_ino fs)"

definition folder_ok :: "mst \<Rightarrow> nat \<Rightarrow> entry list list \<Rightarrow> bool" where
  "folder_ok st mp ess \<longleftrightarrow>
     folder_rep (m_fs st) (jnls (mdir_at st mp)) ess \<and>
     files_ok (m_fs st) (mpath (mdir_at st mp)) (jnls (mdir_at st mp)) \<and>
     0 < max_jnl_size st \<and> max_jnl_size st < 2 ^ 32"

text \<open>The file system with the two files of a new journal.\<close>

definition new_jnl_fs :: "fs \<Rightarrow> string \<Rightarrow> mdir_version \<Rightarrow> fs" where
  "new_jnl_fs fs path v =
     (let i = next_ino fs;
          fs1 = add_ent (fs\<lparr>idata := (idata fs)(i := []), next_ino := Suc i\<rparr>) (comps path @ [jnl_filename v]) (Reg i)
      in add_ent (fs1\<lparr>idata := (idata fs1)(Suc i := []), next_ino := Suc (Suc i)\<rparr>)
           (comps path @ [idx_filename v]) (Reg (Suc i)))"

definition new_jnl :: "fs \<Rightarrow> mdir_version \<Rightarrow> jnl" where
  "new_jnl fs v = \<lparr>patch_fd = next_ino fs, repatch_fd = next_ino fs, idx_fd = Suc (next_ino fs),
     jversion = v, nb_patches = 0\<rparr>"

lemma sys_open_new:
  assumes "resolve fs True path = Inr p" "node_at fs p = None"
  shows "sys_open True False False fs path =
    (add_ent (fs\<lparr>idata := (idata fs)(next_ino fs := []), next_ino := Suc (next_ino fs)\<rparr>) p (Reg (next_ino fs)),
     Inr (next_ino fs))"
  using assms by (simp add: sys_open_def add_ent_def Let_def)

lemma node_at_fields [simp]: "node_at (fs\<lparr>idata := d, next_ino := n\<rparr>) p = node_at fs p"
  by (simp add: node_at_def)

lemma real_dir_fields [simp]: "real_dir (fs\<lparr>idata := d, next_ino := n\<rparr>) p = real_dir fs p"
  by (simp add: real_dir_def)

lemma jnl_new_empty_fresh:
  assumes f: "files_ok fs path js" and v: "0 \<le> v" "v < 2 ^ 63" "v \<notin> jversion ` set js"
  shows "jnl_new_empty fs path js v = Done (new_jnl_fs fs path v, jnl_insert (new_jnl fs v) js)"
proof -
  let ?i = "next_ino fs" and ?full = "path @ ''/'' @ jnl_filename v"
  let ?fs0 = "fs\<lparr>idata := (idata fs)(?i := []), next_ino := Suc ?i\<rparr>"
  let ?fs1 = "add_ent ?fs0 (comps path @ [jnl_filename v]) (Reg ?i)"
  have rd: "real_dir fs path" and none: "node_at fs (comps path @ [jnl_filename v]) = None"
      "node_at fs (comps path @ [idx_filename v]) = None" and len: "length ?full < PATH_MAX"
    using f v length_dec20 [OF v(1,2)] by (auto simp: files_ok_def no_stray_def jnl_filename_def)
  note pl = jnl_names_plain [OF v(1,2)]
  have sn: "snpath ?full = ?full" using len by (simp add: snpath_def)
  have o1: "sys_open True False False fs (snpath ?full) = (?fs1, Inr ?i)"
    unfolding sn by (rule sys_open_new [OF resolve_child [OF rd pl(1)] none(1)]) (simp add: none)
  have rd1: "real_dir ?fs1 path" using rd by (simp add: real_dir_add)
  have "file_at ?fs1 ?full ?i"
    unfolding file_at_def using none by (intro exI [of _ "comps path @ [jnl_filename v]"] conjI resolve_child rd1 pl) auto
  then have o2: "sys_open False False False ?fs1 (snpath ?full) = (?fs1, Inr ?i)"
    unfolding sn by (rule sys_open_existing)
  have none1: "node_at ?fs1 (comps path @ [idx_filename v]) = None"
    using none jnl_filename_inj [OF v(1,2) v(1,2)] by (simp add: node_at_add)
  have ix: "take (length ?full - 3) ?full @ ''idx'' = path @ ''/'' @ idx_filename v"
    by (simp add: jnl_filename_def idx_filename_def)
  have "sys_open True False False ?fs1 (path @ ''/'' @ idx_filename v) =
      (add_ent (?fs1\<lparr>idata := (idata ?fs1)(next_ino ?fs1 := []), next_ino := Suc (next_ino ?fs1)\<rparr>)
        (comps path @ [idx_filename v]) (Reg (next_ino ?fs1)), Inr (next_ino ?fs1))"
    by (rule sys_open_new [OF resolve_child [OF rd1 pl(2)] none1]) (simp add: none1)
  then have o3: "sys_open True False False ?fs1 (take (length ?full - 3) ?full @ ''idx'') =
      (new_jnl_fs fs path v, Inr (Suc ?i))"
    unfolding ix by (simp add: new_jnl_fs_def Let_def add_ent_def)
  have nb: "fetch_nb_patches (new_jnl_fs fs path v) (Suc ?i) = Inr 0"
    by (simp add: fetch_nb_patches_def new_jnl_fs_def add_ent_def u32_def Let_def)
  show ?thesis
    unfolding jnl_new_empty_def jnl_new_def jnl_filename_fits [OF v(1,2)] jnl_ctor_def
      parse_jnl_filename [OF v(1,2)] sum.case Let_def o1 o2 o3 prod.case nb
    using len by (simp add: new_jnl_def)
qed

section \<open>Steps that keep the invariant\<close>

lemma jnl_rep_frame:
  "jnl_rep fs j es ms \<Longrightarrow> idata fs' (patch_fd j) = idata fs (patch_fd j) \<Longrightarrow>
     idata fs' (idx_fd j) = idata fs (idx_fd j) \<Longrightarrow> jnl_rep fs' j es ms"
  by (simp add: jnl_rep_def)

lemma length_concat_take_update:
  assumes "length es' = length (ess ! k)" "k < length ess"
  shows "length (concat (take l (ess[k := es']))) = length (concat (take l ess))"
proof -
  have "map length (ess[k := es']) = map length ess"
    using assms by (simp add: map_update list_update_same_conv)
  then show ?thesis by (simp add: length_concat take_map [symmetric])
qed

lemma folder_rep_replace:
  assumes r: "folder_rep fs js ess" and k: "k < length js"
    and j': "jnl_rep fs' j' es' ms'" "jversion j' = jversion (js ! k)" "jfds j' = jfds (js ! k)"
    and fr: "\<And>i. i \<notin> set (jfds (js ! k)) \<Longrightarrow> idata fs' i = idata fs i"
    and len: "Suc k < length js \<Longrightarrow> length es' = length (ess ! k)"
  shows "folder_rep fs' (js[k := j']) (ess[k := es'])"
proof -
  have le: "length ess = length js" using r by (rule folder_rep_length)
  have disj: "set (jfds (js ! a)) \<inter> set (jfds (js ! b)) = {}" if "a < length js" "b < length js" "a \<noteq> b" for a b
    using r that unfolding folder_rep_def by blast
  have each: "(\<exists>ms. jnl_rep fs' (js[k := j'] ! l) (ess[k := es'] ! l) ms) \<and>
      jversion (js[k := j'] ! l) = 1 + int (length (concat (take l (ess[k := es'])))) \<and>
      (Suc l < length js \<longrightarrow> ess[k := es'] ! l \<noteq> [])" if l: "l < length js" for l
  proof (cases "l = k")
    case True
    have "Suc k < length js \<Longrightarrow> es' \<noteq> []" using len folder_repD(4) [OF r k] by auto
    with True j' k le folder_repD(2) [OF r k] show ?thesis by auto
  next
    case False
    from folder_repD(1) [OF r l] obtain ms where ms: "jnl_rep fs (js ! l) (ess ! l) ms" by blast
    have "jnl_rep fs' (js ! l) (ess ! l) ms"
      by (rule jnl_rep_frame [OF ms]) (rule fr, use disj [OF k l] False in \<open>auto simp: jfds_def\<close>)+
    moreover have "length (concat (take l (ess[k := es']))) = length (concat (take l ess))"
    proof (cases "l < k")
      case False
      with l \<open>l \<noteq> k\<close> have "Suc k < length js" by simp
      with len k le show ?thesis by (intro length_concat_take_update) auto
    qed simp
    ultimately show ?thesis using False folder_repD(2,4) [OF r l] by auto
  qed
  have "jfds (js[k := j'] ! a) = jfds (js ! a)" for a using j'(3) k by (cases "a = k") auto
  then have "set (jfds (js[k := j'] ! a)) \<inter> set (jfds (js[k := j'] ! b)) = {}"
    if "a < length js" "b < length js" "a \<noteq> b" for a b using disj that by simp
  with each le show ?thesis by (simp add: folder_rep_def)
qed

lemma folder_rep_snoc:
  assumes r: "folder_rep fs js ess" and ne: "\<And>k. k < length js \<Longrightarrow> ess ! k \<noteq> []"
    and jn: "jnl_rep fs' jn [] []" "jversion jn = 1 + int (length (concat ess))"
    and fr: "\<And>i j. j \<in> set js \<Longrightarrow> i \<in> set (jfds j) \<Longrightarrow> idata fs' i = idata fs i \<and> i \<notin> set (jfds jn)"
  shows "folder_rep fs' (js @ [jn]) (ess @ [[]])"
proof -
  have le: "length ess = length js" using r by (rule folder_rep_length)
  have each: "(\<exists>ms. jnl_rep fs' ((js @ [jn]) ! l) ((ess @ [[]]) ! l) ms) \<and>
      jversion ((js @ [jn]) ! l) = 1 + int (length (concat (take l (ess @ [[]])))) \<and>
      (Suc l < Suc (length js) \<longrightarrow> (ess @ [[]]) ! l \<noteq> [])" if l: "l < Suc (length js)" for l
  proof (cases "l = length js")
    case True
    with jn le show ?thesis by (auto simp: nth_append)
  next
    case False
    with l have l': "l < length js" by simp
    from folder_repD(1) [OF r l'] obtain ms where ms: "jnl_rep fs (js ! l) (ess ! l) ms" by blast
    have "jnl_rep fs' (js ! l) (ess ! l) ms"
      by (rule jnl_rep_frame [OF ms]) (use fr [of "js ! l"] l' in \<open>auto simp: jfds_def\<close>)
    with ne l' le folder_repD(2) [OF r l'] show ?thesis by (auto simp: nth_append)
  qed
  have "set (jfds ((js @ [jn]) ! a)) \<inter> set (jfds ((js @ [jn]) ! b)) = {}"
    if ab: "a < Suc (length js)" "b < Suc (length js)" "a \<noteq> b" for a b
  proof -
    have old: "a < length js \<Longrightarrow> b < length js \<Longrightarrow> set (jfds (js ! a)) \<inter> set (jfds (js ! b)) = {}"
      using r \<open>a \<noteq> b\<close> unfolding folder_rep_def by blast
    consider "a < length js" "b < length js" | "a = length js" "b < length js" | "a < length js" "b = length js"
      using ab by linarith
    moreover have "set (jfds (js ! l)) \<inter> set (jfds jn) = {}" if "l < length js" for l
      using fr [OF nth_mem [OF that]] by blast
    ultimately show ?thesis using old by cases (auto simp: nth_append)
  qed
  with each le show ?thesis by (simp add: folder_rep_def)
qed

lemma upd_mdir_simps [simp]:
  "mdir_at (upd_mdir mp f st) mp = f (mdir_at st mp)" "m_fs (upd_mdir mp f st) = m_fs st"
  "max_jnl_size (upd_mdir mp f st) = max_jnl_size st" "mdir_root (upd_mdir mp f st) = mdir_root st"
  "mdirs (upd_mdir mp f st) = mdirs st"
  "m_fs (set_fs st fs) = fs" "m_store (set_fs st fs) = m_store st" "max_jnl_size (set_fs st fs) = max_jnl_size st"
  "mdir_root (set_fs st fs) = mdir_root st" "mdirs (set_fs st fs) = mdirs st"
  by (simp_all add: upd_mdir_def set_fs_def)

text \<open>A step that only changes the file system and the journals of one folder.\<close>

definition jnls_step :: "nat \<Rightarrow> mst \<Rightarrow> mst \<Rightarrow> bool" where
  "jnls_step mp st st' \<longleftrightarrow> (\<exists>fs js. st' = upd_mdir mp (\<lambda>m. m\<lparr>jnls := js\<rparr>) (set_fs st fs))"

lemma jnls_stepI [intro]: "jnls_step mp st (upd_mdir mp (\<lambda>m. m\<lparr>jnls := f m\<rparr>) (set_fs st fs))"
  unfolding jnls_step_def
  by (intro exI [of _ fs] exI [of _ "f (mdir_at st mp)"]) (simp add: upd_mdir_def set_fs_def)

lemma jnls_step_refl [simp]: "jnls_step mp st st"
  unfolding jnls_step_def
  by (intro exI [of _ "m_fs st"] exI [of _ "jnls (mdir_at st mp)"]) (simp add: upd_mdir_def set_fs_def)

lemma jnls_step_trans: "jnls_step mp st st' \<Longrightarrow> jnls_step mp st' st'' \<Longrightarrow> jnls_step mp st st''"
proof -
  assume "jnls_step mp st st'" "jnls_step mp st' st''"
  then obtain fs js fs' js' where "st' = upd_mdir mp (\<lambda>m. m\<lparr>jnls := js\<rparr>) (set_fs st fs)"
    "st'' = upd_mdir mp (\<lambda>m. m\<lparr>jnls := js'\<rparr>) (set_fs st' fs')" by (auto simp: jnls_step_def)
  then have "st'' = upd_mdir mp (\<lambda>m. m\<lparr>jnls := js'\<rparr>) (set_fs st fs')" by (simp add: upd_mdir_def set_fs_def)
  then show ?thesis by (auto simp: jnls_step_def)
qed

lemma jnls_step_path: "jnls_step mp st st' \<Longrightarrow> mpath (mdir_at st' mp) = mpath (mdir_at st mp) \<and>
    permissions (mdir_at st' mp) = permissions (mdir_at st mp) \<and> max_jnl_size st' = max_jnl_size st"
  by (auto simp: jnls_step_def)

lemma new_jnl_rep: "jnl_rep (new_jnl_fs fs path v) (new_jnl fs v) [] []"
  by (simp add: jnl_rep_def new_jnl_def new_jnl_fs_def add_ent_def Let_def)

lemma new_jnl_idata: "i < next_ino fs \<Longrightarrow> idata (new_jnl_fs fs path v) i = idata fs i"
  by (simp add: new_jnl_fs_def add_ent_def Let_def)

lemma new_jnl_files:
  assumes f: "files_ok fs path js" and v: "0 \<le> v" "v < 2 ^ 63"
  shows "files_ok (new_jnl_fs fs path v) path (js @ [new_jnl fs v])"
proof -
  have "no_stray (new_jnl_fs fs path v) path (js @ [new_jnl fs v])"
    unfolding no_stray_def
  proof (intro allI impI)
    fix w assume w: "0 \<le> w \<and> w < 2 ^ 63 \<and> w \<notin> jversion ` set (js @ [new_jnl fs v])"
    then have "w \<noteq> v" "node_at fs (comps path @ [jnl_filename w]) = None" "node_at fs (comps path @ [idx_filename w]) = None"
      using f by (auto simp: files_ok_def no_stray_def new_jnl_def)
    with w v jnl_filename_inj [of w v]
    show "node_at (new_jnl_fs fs path v) (comps path @ [jnl_filename w]) = None \<and>
        node_at (new_jnl_fs fs path v) (comps path @ [idx_filename w]) = None"
      by (simp add: new_jnl_fs_def Let_def node_at_add)
  qed
  moreover have "next_ino (new_jnl_fs fs path v) = Suc (Suc (next_ino fs))"
    by (simp add: new_jnl_fs_def add_ent_def Let_def)
  moreover have "real_dir (new_jnl_fs fs path v) path"
    using f by (simp add: files_ok_def new_jnl_fs_def Let_def real_dir_add)
  ultimately show ?thesis using f by (fastforce simp: files_ok_def new_jnl_def)
qed

lemma open_jnl_ok:
  assumes ok: "folder_ok st mp ess" and ne: "\<And>k. k < length (jnls (mdir_at st mp)) \<Longrightarrow> ess ! k \<noteq> []"
    and v: "v = 1 + int (length (concat ess))" "v < 2 ^ 63"
  shows "\<exists>st'. open_jnl mp v st = Done (st', Inr (length (jnls (mdir_at st mp)))) \<and> jnls_step mp st st' \<and>
    folder_ok st' mp (ess @ [[]]) \<and> length (jnls (mdir_at st' mp)) = Suc (length (jnls (mdir_at st mp)))"
proof -
  let ?m = "mdir_at st mp" and ?fs = "m_fs st"
  let ?js = "jnls ?m" and ?fs' = "new_jnl_fs ?fs (mpath ?m) v" and ?jn = "new_jnl ?fs v"
  have r: "folder_rep ?fs ?js ess" and f: "files_ok ?fs (mpath ?m) ?js" using ok by (auto simp: folder_ok_def)
  have bef: "jnl_before j ?jn" if j: "j \<in> set ?js" for j
  proof -
    from j obtain k where k: "k < length ?js" "j = ?js ! k" by (auto simp: in_set_conv_nth)
    then have "0 < nb_patches j" using ne [OF k(1)] folder_repD(3) [OF r k(1)] by simp
    then show ?thesis using folder_rep_end [OF r j] v by (simp add: jnl_before_def new_jnl_def)
  qed
  then have "v \<notin> jversion ` set ?js" by (auto simp: jnl_before_def new_jnl_def)
  then have "jnl_new_empty ?fs (mpath ?m) ?js v = Done (?fs', Inr (?js @ [?jn], length ?js))"
    using jnl_new_empty_fresh [OF f] jnl_insert_last bef v by simp
  moreover have "folder_rep ?fs' (?js @ [?jn]) (ess @ [[]])"
  proof (rule folder_rep_snoc [OF r ne new_jnl_rep])
    show "jversion ?jn = 1 + int (length (concat ess))" using v by (simp add: new_jnl_def)
    show "idata ?fs' i = idata ?fs i \<and> i \<notin> set (jfds ?jn)" if "j \<in> set ?js" "i \<in> set (jfds j)" for i j
      using f that new_jnl_idata [of i ?fs] by (auto simp: files_ok_def jfds_def new_jnl_def)
  qed
  moreover have "files_ok ?fs' (mpath ?m) (?js @ [?jn])" using new_jnl_files [OF f] v by simp
  ultimately show ?thesis
    using ok by (auto simp: open_jnl_def folder_ok_def)
qed

lemma last_jnl_ok:
  assumes ok: "folder_ok st mp ess" and v: "int (length (concat ess)) + 1 < 2 ^ 63"
  shows "\<exists>st' ess' k. last_jnl mp st = Done (st', Inr k) \<and> jnls_step mp st st' \<and> folder_ok st' mp ess' \<and>
    concat ess' = concat ess \<and> Suc k = length (jnls (mdir_at st' mp)) \<and> length (ess' ! k) < max_jnl_size st"
proof -
  let ?js = "jnls (mdir_at st mp)"
  have r: "folder_rep (m_fs st) ?js ess" and mx: "0 < max_jnl_size st" using ok by (auto simp: folder_ok_def)
  have le: "length ess = length ?js" using folder_rep_length [OF r] .
  show ?thesis
  proof (cases "?js = [] \<or> jnl_too_big (max_jnl_size st) (last ?js)")
    case False
    then have "last_jnl mp st = Done (st, Inr (length ?js - 1))" by (simp add: last_jnl_def)
    moreover have "length (ess ! (length ?js - 1)) < max_jnl_size st"
      using False folder_repD(3) [OF r, of "length ?js - 1"] by (auto simp: jnl_too_big_def last_conv_nth)
    ultimately show ?thesis using ok False
      by (intro exI [of _ st] exI [of _ ess] exI [of _ "length ?js - 1"]) (simp add: jnl_too_big_def)
  next
    case True
    have ne: "ess ! k \<noteq> []" if "k < length ?js" for k
    proof (cases "Suc k < length ?js")
      case False
      with that have "last ?js = ?js ! k" by (metis Suc_lessI diff_Suc_1 last_conv_nth length_0_conv not_less_zero)
      with that True have "jnl_too_big (max_jnl_size st) (?js ! k)" by auto
      with mx folder_repD(3) [OF r that] show ?thesis by (auto simp: jnl_too_big_def)
    qed (use folder_repD(4) [OF r that] in simp)
    have "last_jnl mp st = open_jnl mp (1 + int (length (concat ess))) st"
    proof (cases "?js = []")
      case False
      then have l: "length ?js - 1 < length ?js" by simp
      have "length (concat (take (Suc (length ?js - 1)) ess)) = length (concat (take (length ?js - 1) ess)) + length (ess ! (length ?js - 1))"
        using l le by (intro length_concat_take_Suc) simp
      with folder_repD(2,3) [OF r l] False le True show ?thesis
        by (simp add: last_jnl_def last_conv_nth Let_def add.assoc)
    qed (use le in \<open>simp add: last_jnl_def\<close>)
    with open_jnl_ok [OF ok ne refl] v mx le show ?thesis
      by (fastforce simp: nth_append)
  qed
qed

section \<open>Appending\<close>

definition appended :: "fs \<Rightarrow> jnl \<Rightarrow> entry \<Rightarrow> fs" where
  "appended fs j en = set_data (set_data fs (idx_fd j)
        (idata fs (idx_fd j) @ ie_bytes \<lparr>ie_offset = filesize fs (patch_fd j), ie_last_mark = 0\<rparr>))
      (patch_fd j) (idata fs (patch_fd j) @ entry_text en)"

definition blank :: entry where
  "blank = (CHR ''%'', [])"

lemma snd_blank [simp]: "snd blank = []"
  by (simp add: blank_def)

lemma entry_ok_blank [simp]: "entry_ok blank"
  by (simp add: blank_def entry_ok_def)

lemma appended_simps [simp]:
  "ents (appended fs j en) = ents fs" "next_ino (appended fs j en) = next_ino fs"
  "pwrite_appends (appended fs j en) = pwrite_appends fs"
  by (simp_all add: appended_def)

lemma appended_idata: "i \<notin> set (jfds j) \<Longrightarrow> idata (appended fs j en) i = idata fs i"
  by (simp add: appended_def jfds_def)

lemma files_ok_update:
  assumes "files_ok fs path js" "ents fs' = ents fs" "next_ino fs' = next_ino fs" "k < length js"
    "jversion j' = jversion (js ! k)" "jfds j' = jfds (js ! k)"
  shows "files_ok fs' path (js[k := j'])"
proof -
  have v: "jversion ` set (js[k := j']) = jversion ` set js"
    using assms(4,5) by (metis list.set_map map_update list_update_id nth_map)
  have "\<forall>j \<in> set (js[k := j']). patch_fd j < next_ino fs \<and> idx_fd j < next_ino fs"
    using assms(1,4,6) set_update_subset_insert [of js k j'] nth_mem [OF assms(4)]
    by (fastforce simp: files_ok_def jfds_def)
  with assms(1-3) v show ?thesis
    unfolding files_ok_def no_stray_def v by (simp add: real_dir_ents [of fs' fs] node_at_def)
qed

lemma concat_append_last:
  "Suc k = length ess \<Longrightarrow> concat (ess[k := ess ! k @ [x]]) = concat ess @ [x]"
  by (cases ess rule: rev_cases) (auto simp: nth_append list_update_append)

lemma concat_take_last: "Suc k = length ess \<Longrightarrow> length (concat (take k ess)) + length (ess ! k) = length (concat ess)"
  using length_concat_take_Suc [of k ess] by simp

lemma length_log_concat: "k < length ess \<Longrightarrow> length (log_text (ess ! k)) \<le> length (log_text (concat ess))"
proof (induction ess arbitrary: k)
  case (Cons es ess)
  then show ?case by (cases k) (auto intro: trans_le_add2)
qed simp

definition log_fits :: "entry list \<Rightarrow> entry list \<Rightarrow> bool" where
  "log_fits es new \<longleftrightarrow> list_all entry_ok new \<and> int (length (log_text (es @ new))) < 2 ^ 63 \<and>
     int (length (es @ new)) + 1 < 2 ^ 63"

lemma log_fits_append: "log_fits es (xs @ ys) \<Longrightarrow> log_fits es xs \<and> log_fits (es @ xs) ys"
  by (simp add: log_fits_def)

lemma folder_append:
  assumes ok: "folder_ok st mp ess" and k: "Suc k = length (jnls (mdir_at st mp))"
    and fit: "log_fits (concat ess) [en]" "fst en = CHR ''%'' \<longrightarrow> snd en = []" "length (ess ! k) < max_jnl_size st"
    and st': "st' = upd_mdir mp (\<lambda>m. m\<lparr>jnls := (jnls m)[k := (jnls (mdir_at st mp) ! k)\<lparr>nb_patches := Suc (nb_patches (jnls (mdir_at st mp) ! k))\<rparr>]\<rparr>)
      (set_fs st (appended (m_fs st) (jnls (mdir_at st mp) ! k) en))"
  shows "folder_ok st' mp (ess[k := ess ! k @ [en]]) \<and> concat (ess[k := ess ! k @ [en]]) = concat ess @ [en] \<and>
    jversion (jnls (mdir_at st mp) ! k) + int (nb_patches (jnls (mdir_at st mp) ! k)) = 1 + int (length (concat ess)) \<and>
    patch_fd (jnls (mdir_at st mp) ! k) \<noteq> idx_fd (jnls (mdir_at st mp) ! k) \<and>
    Suc (nb_patches (jnls (mdir_at st mp) ! k)) < 2 ^ 32"
proof -
  let ?js = "jnls (mdir_at st mp)" and ?fs = "m_fs st"
  let ?j = "?js ! k"
  have r: "folder_rep ?fs ?js ess" and f: "files_ok ?fs (mpath (mdir_at st mp)) ?js" and mx: "max_jnl_size st < 2 ^ 32"
    using ok by (auto simp: folder_ok_def)
  have kl: "k < length ?js" "Suc k = length ess" using k folder_rep_length [OF r] by auto
  from folder_repD(1) [OF r kl(1)] obtain ms where j: "jnl_rep ?fs ?j (ess ! k) ms" by blast
  have nb: "Suc (nb_patches ?j) < 2 ^ 32" using folder_repD(3) [OF r kl(1)] fit(3) mx by simp
  have sz: "int (length (log_text (ess ! k @ [en]))) < 2 ^ 63"
    using fit(1) length_log_concat [of k ess] kl(2) by (simp add: log_fits_def)
  have "entry_ok en" using fit(1) by (simp add: log_fits_def)
  from jnl_rep_snoc [OF j this sz] nb folder_repD(3) [OF r kl(1)]
  have j': "jnl_rep (appended ?fs ?j en) (?j\<lparr>nb_patches := Suc (nb_patches ?j)\<rparr>) (ess ! k @ [en]) (ms @ [0])"
    by (simp add: appended_def)
  have "folder_rep (appended ?fs ?j en) (?js[k := ?j\<lparr>nb_patches := Suc (nb_patches ?j)\<rparr>]) (ess[k := ess ! k @ [en]])"
    by (rule folder_rep_replace [OF r kl(1) j']) (use k in \<open>auto simp: jfds_def intro: appended_idata\<close>)
  moreover have "files_ok (appended ?fs ?j en) (mpath (mdir_at st mp)) (?js[k := ?j\<lparr>nb_patches := Suc (nb_patches ?j)\<rparr>])"
    by (rule files_ok_update [OF f _ _ kl(1)]) (auto simp: jfds_def)
  ultimately have "folder_ok st' mp (ess[k := ess ! k @ [en]])" using ok st' by (simp add: folder_ok_def)
  with concat_append_last [OF kl(2)] concat_take_last [OF kl(2)] folder_repD(2,3) [OF r kl(1)] nb j
  show ?thesis by (simp add: jnl_rep_def)
qed

lemma insert_blank_ok:
  assumes "folder_ok st mp ess" "log_fits (concat ess) (replicate nb blank)"
  shows "\<exists>st' ess'. insert_blank_patches mp nb st = Done (st', Inr ()) \<and> jnls_step mp st st' \<and>
    folder_ok st' mp ess' \<and> concat ess' = concat ess @ replicate nb blank"
  using assms
proof (induction nb arbitrary: st ess)
  case (Suc nb)
  have fit: "log_fits (concat ess) [blank]" "log_fits (concat ess @ [blank]) (replicate nb blank)"
    using log_fits_append [of "concat ess" "[blank]" "replicate nb blank"] Suc.prems(2) by auto
  from last_jnl_ok [OF Suc.prems(1)] fit(1) obtain st1 ess1 k where
    1: "last_jnl mp st = Done (st1, Inr k)" "jnls_step mp st st1" "folder_ok st1 mp ess1"
      "concat ess1 = concat ess" "Suc k = length (jnls (mdir_at st1 mp))" "length (ess1 ! k) < max_jnl_size st"
    by (auto simp: log_fits_def)
  have mx: "max_jnl_size st1 = max_jnl_size st" using jnls_step_path [OF 1(2)] by simp
  let ?j = "jnls (mdir_at st1 mp) ! k"
  let ?st2 = "upd_mdir mp (\<lambda>m. m\<lparr>jnls := (jnls m)[k := ?j\<lparr>nb_patches := Suc (nb_patches ?j)\<rparr>]\<rparr>)
      (set_fs st1 (appended (m_fs st1) ?j blank))"
  from folder_append [OF 1(3,5), of blank ?st2] fit(1) 1(4,6) mx
  have 2: "folder_ok ?st2 mp (ess1[k := ess1 ! k @ [blank]])" "concat (ess1[k := ess1 ! k @ [blank]]) = concat ess @ [blank]"
      "patch_fd ?j \<noteq> idx_fd ?j" "Suc (nb_patches ?j) < 2 ^ 32"
    by (auto simp: blank_def)
  have "\<exists>v. on_jnl mp k jnl_patch_blank st1 = Done (?st2, Inr v)"
    by (simp add: on_jnl_def jnl_patch_blank_eq [OF 2(3,4)] appended_def blank_def)
  then obtain v where 3: "on_jnl mp k jnl_patch_blank st1 = Done (?st2, Inr v)" by blast
  from Suc.IH [OF 2(1)] fit(2) 2(2) obtain st' ess' where
    4: "insert_blank_patches mp nb ?st2 = Done (st', Inr ())" "jnls_step mp ?st2 st'" "folder_ok st' mp ess'"
      "concat ess' = concat ess @ [blank] @ replicate nb blank" by auto
  have "jnls_step mp st st'" using jnls_step_trans [OF 1(2) jnls_step_trans [OF jnls_stepI 4(2)]] .
  with 1(1) 3 4 show ?case by (intro exI [of _ st'] exI [of _ ess']) simp
qed auto

lemma log_append_ok:
  assumes "folder_ok st mp ess" "log_fits (concat ess) [(action_tag a, h_fields h)]"
  shows "\<exists>st1 st' ess' k. last_jnl mp st = Done (st1, Inr k) \<and>
    on_jnl mp k (\<lambda>fs j. jnl_patch fs j a h) st1 = Done (st', Inr (1 + int (length (concat ess)))) \<and>
    jnls_step mp st st' \<and> folder_ok st' mp ess' \<and> concat ess' = concat ess @ [(action_tag a, h_fields h)]"
proof -
  let ?en = "(action_tag a, h_fields h)"
  from last_jnl_ok [OF assms(1)] assms(2) obtain st1 ess1 k where
    1: "last_jnl mp st = Done (st1, Inr k)" "jnls_step mp st st1" "folder_ok st1 mp ess1"
      "concat ess1 = concat ess" "Suc k = length (jnls (mdir_at st1 mp))" "length (ess1 ! k) < max_jnl_size st"
    by (auto simp: log_fits_def)
  have mx: "max_jnl_size st1 = max_jnl_size st" using jnls_step_path [OF 1(2)] by simp
  let ?j = "jnls (mdir_at st1 mp) ! k"
  let ?st2 = "upd_mdir mp (\<lambda>m. m\<lparr>jnls := (jnls m)[k := ?j\<lparr>nb_patches := Suc (nb_patches ?j)\<rparr>]\<rparr>)
      (set_fs st1 (appended (m_fs st1) ?j ?en))"
  have "fst ?en = CHR ''%'' \<longrightarrow> snd ?en = []" by (cases a) (auto simp: action_tag_def)
  from folder_append [OF 1(3,5) _ this, of ?st2] assms(2) 1(4,6) mx
  have 2: "folder_ok ?st2 mp (ess1[k := ess1 ! k @ [?en]])" "concat (ess1[k := ess1 ! k @ [?en]]) = concat ess @ [?en]"
      "jversion ?j + int (nb_patches ?j) = 1 + int (length (concat ess))"
      "patch_fd ?j \<noteq> idx_fd ?j" "Suc (nb_patches ?j) < 2 ^ 32"
    by auto
  have "on_jnl mp k (\<lambda>fs j. jnl_patch fs j a h) st1 = Done (?st2, Inr (1 + int (length (concat ess))))"
    using 2(3) by (simp add: on_jnl_def jnl_patch_eq [OF 2(4,5)] appended_def)
  moreover have "jnls_step mp st ?st2" using jnls_step_trans [OF 1(2) jnls_stepI] .
  ultimately show ?thesis using 1(1) 2(1,2) by blast
qed

section \<open>Deleting\<close>

lemma prepare_rem_ok:
  assumes ok: "folder_ok st mp ess" and t: "header_target h = Inr (1 + int n)" "n < length (concat ess)"
    and e: "fst (concat ess ! n) = CHR ''+''" "\<not> header_is_directory (entry_header (concat ess ! n))"
  shows "\<exists>st' ess'. mdir_prepare_rem mp h False st = Done (st', Inr ()) \<and> jnls_step mp st st' \<and>
    folder_ok st' mp ess' \<and> concat ess' = (concat ess)[n := jdead (concat ess ! n)]"
proof -
  let ?js = "jnls (mdir_at st mp)" and ?fs = "m_fs st"
  have r: "folder_rep ?fs ?js ess" and f: "files_ok ?fs (mpath (mdir_at st mp)) ?js" using ok by (auto simp: folder_ok_def)
  from folder_rep_holding [OF r t(2)] obtain k i where
    k: "k < length ?js" "i < length (ess ! k)" "n = length (concat (take k ess)) + i" "concat ess ! n = ess ! k ! i"
      "jnl_holding ?js (1 + int n) = Some k" "nat (1 + int n - jversion (?js ! k)) = i" by blast
  from folder_repD(1) [OF r k(1)] obtain ms where j: "jnl_rep ?fs (?js ! k) (ess ! k) ms" by blast
  have rd: "jnl_read ?fs (?js ! k) i = Done (Some (entry_header (ess ! k ! i)), Some MDIR_ADD, None)"
    using jnl_read_rep [OF j k(2)] e(1) k(4) by (simp add: entry_header_def)
  have v: "jversion (?js ! k) + int i = 1 + int n" using folder_repD(2) [OF r k(1)] k(3) by simp
  from jnl_mark_del_rep [OF j k(2)] e(1) k(4) v obtain d where
    d: "jnl_mark_del ?fs (?js ! k) (1 + int n) = Done (set_data ?fs (patch_fd (?js ! k)) d, None)"
      "jnl_rep (set_data ?fs (patch_fd (?js ! k)) d) (?js ! k) ((ess ! k)[i := jdead (ess ! k ! i)]) ms"
    by (auto simp: jdead_def)
  let ?fs' = "set_data ?fs (patch_fd (?js ! k)) d" and ?ess = "ess[k := (ess ! k)[i := jdead (ess ! k ! i)]]"
  have run: "mdir_prepare_rem mp h False st = Done (set_fs st ?fs', Inr ())"
    using t(1) k rd d(1) e(2) by (simp add: mdir_prepare_rem_def find_jnl_def bnd_def)
  have "folder_rep ?fs' (?js[k := ?js ! k]) ?ess"
    by (rule folder_rep_replace [OF r k(1) d(2)]) (auto simp: jfds_def)
  moreover have "files_ok ?fs' (mpath (mdir_at st mp)) (?js[k := ?js ! k])"
    by (rule files_ok_update [OF f _ _ k(1)]) auto
  ultimately have "folder_ok (set_fs st ?fs') mp ?ess" using ok by (simp add: folder_ok_def)
  moreover have "jnls_step mp st (set_fs st ?fs')"
    unfolding jnls_step_def by (intro exI [of _ ?fs'] exI [of _ ?js]) (simp add: upd_mdir_def set_fs_def)
  moreover have "concat ?ess = (concat ess)[n := jdead (concat ess ! n)]"
    using concat_update [of k ess i] k folder_rep_length [OF r] by simp
  ultimately show ?thesis using run by blast
qed

section \<open>Whole patches\<close>

text \<open>A header that is neither a subfolder, nor permissions, nor a mark.\<close>

definition plain_header :: "header \<Rightarrow> bool" where
  "plain_header h \<longleftrightarrow> \<not> header_is_directory h \<and> \<not> header_has_type h SC_PERM_TYPE \<and> \<not> header_has_type h SC_MARK_TYPE"

lemma handle_mark_plain: "plain_header h \<Longrightarrow> handle_mark mp k h v st = Done (st, Inr ())"
  by (simp add: handle_mark_def is_mark_for_def plain_header_def)

lemma finish_patch:
  assumes "folder_ok st mp ess" "plain_header h" "log_fits (concat ess) [(action_tag a, h_fields h)]"
  shows "\<exists>st' ess'. bnd (last_jnl mp) (\<lambda>k. bnd (on_jnl mp k (\<lambda>fs j. jnl_patch fs j a h)) (\<lambda>v.
       bnd (if a = MDIR_ADD then mdir_confirm_add mp h v else ret ()) (\<lambda>_.
       bnd (handle_mark mp k h v) (\<lambda>_. ret (v, h))))) st = Done (st', Inr (1 + int (length (concat ess)), h)) \<and>
    jnls_step mp st st' \<and> folder_ok st' mp ess' \<and> concat ess' = concat ess @ [(action_tag a, h_fields h)]"
proof -
  from log_append_ok [OF assms(1,3)] obtain st1 st' ess' k where
    1: "last_jnl mp st = Done (st1, Inr k)"
      "on_jnl mp k (\<lambda>fs j. jnl_patch fs j a h) st1 = Done (st', Inr (1 + int (length (concat ess))))"
      "jnls_step mp st st'" "folder_ok st' mp ess'" "concat ess' = concat ess @ [(action_tag a, h_fields h)]" by blast
  have c: "(if a = MDIR_ADD then mdir_confirm_add mp h v else ret ()) st' = Done (st', Inr ())" for v
    using assms(2) by (simp add: mdir_confirm_add_def plain_header_def)
  have "bnd (last_jnl mp) (\<lambda>k. bnd (on_jnl mp k (\<lambda>fs j. jnl_patch fs j a h)) (\<lambda>v.
       bnd (if a = MDIR_ADD then mdir_confirm_add mp h v else ret ()) (\<lambda>_.
       bnd (handle_mark mp k h v) (\<lambda>_. ret (v, h))))) st = Done (st', Inr (1 + int (length (concat ess)), h))"
    using 1(1,2) c handle_mark_plain [OF assms(2)] by simp
  with 1(3-5) show ?thesis by blast
qed

lemma patch_add_ok:
  assumes "folder_ok st mp ess" "plain_header h"
    "log_fits (concat ess) (replicate nb blank @ [(CHR ''+'', h_fields h)])"
  shows "\<exists>st' ess'. mdir_patch mp MDIR_ADD h nb st = Done (st', Inr (1 + int (length (concat ess) + nb), h)) \<and>
    jnls_step mp st st' \<and> folder_ok st' mp ess' \<and>
    concat ess' = concat ess @ replicate nb blank @ [(CHR ''+'', h_fields h)]"
proof -
  note fit = log_fits_append [OF assms(3)]
  from insert_blank_ok [OF assms(1)] fit obtain st1 ess1 where
    1: "insert_blank_patches mp nb st = Done (st1, Inr ())" "jnls_step mp st st1" "folder_ok st1 mp ess1"
      "concat ess1 = concat ess @ replicate nb blank" by blast
  have p: "(if MDIR_ADD = MDIR_REM then bnd (mdir_prepare_rem mp h False) (\<lambda>_. ret h) else mdir_prepare_add mp h False) st1
      = Done (st1, Inr h)"
    using assms(2) by (simp add: mdir_prepare_add_def plain_header_def)
  have tag: "action_tag MDIR_ADD = CHR ''+''" by (simp add: action_tag_def)
  from finish_patch [OF 1(3) assms(2), of MDIR_ADD, unfolded tag] fit 1(4) obtain st' ess' where
    2: "bnd (last_jnl mp) (\<lambda>k. bnd (on_jnl mp k (\<lambda>fs j. jnl_patch fs j MDIR_ADD h)) (\<lambda>v.
       bnd (if MDIR_ADD = MDIR_ADD then mdir_confirm_add mp h v else ret ()) (\<lambda>_.
       bnd (handle_mark mp k h v) (\<lambda>_. ret (v, h))))) st1 = Done (st', Inr (1 + int (length (concat ess1)), h))"
      "jnls_step mp st1 st'" "folder_ok st' mp ess'" "concat ess' = concat ess1 @ [(CHR ''+'', h_fields h)]" by auto
  have "mdir_patch mp MDIR_ADD h nb st = Done (st', Inr (1 + int (length (concat ess1)), h))"
    unfolding mdir_patch_def using 1(1) p 2(1) by simp
  with 1(4) 2 jnls_step_trans [OF 1(2) 2(2)] show ?thesis by auto
qed

lemma patch_rem_ok:
  assumes "folder_ok st mp ess" "plain_header h"
    "log_fits (concat ess) (replicate nb blank @ [(CHR ''-'', h_fields h)])"
    "header_target h = Inr (1 + int n)" "n < length (concat ess)"
    "fst (concat ess ! n) = CHR ''+''" "\<not> header_is_directory (entry_header (concat ess ! n))"
  shows "\<exists>st' ess'. mdir_patch mp MDIR_REM h nb st = Done (st', Inr (1 + int (length (concat ess) + nb), h)) \<and>
    jnls_step mp st st' \<and> folder_ok st' mp ess' \<and>
    concat ess' = (concat ess)[n := jdead (concat ess ! n)] @ replicate nb blank @ [(CHR ''-'', h_fields h)]"
proof -
  note fit = log_fits_append [OF assms(3)]
  from insert_blank_ok [OF assms(1)] fit obtain st1 ess1 where
    1: "insert_blank_patches mp nb st = Done (st1, Inr ())" "jnls_step mp st st1" "folder_ok st1 mp ess1"
      "concat ess1 = concat ess @ replicate nb blank" by blast
  have n: "n < length (concat ess1)" "concat ess1 ! n = concat ess ! n" using 1(4) assms(5) by (auto simp: nth_append)
  from prepare_rem_ok [OF 1(3) assms(4) n(1)] n(2) assms(6,7) obtain st2 ess2 where
    2: "mdir_prepare_rem mp h False st1 = Done (st2, Inr ())" "jnls_step mp st1 st2" "folder_ok st2 mp ess2"
      "concat ess2 = (concat ess1)[n := jdead (concat ess ! n)]" by auto
  have p: "(if MDIR_REM = MDIR_REM then bnd (mdir_prepare_rem mp h False) (\<lambda>_. ret h) else mdir_prepare_add mp h False) st1
      = Done (st2, Inr h)"
    using 2(1) by simp
  have same: "length (log_text (xs[n := jdead (xs ! n)])) = length (log_text xs)" if "n < length xs" for xs
    using that log_text_split [OF that] by (simp add: upd_conv_take_nth_drop jdead_def entry_text_def)
  have l2: "concat ess2 = (concat ess)[n := jdead (concat ess ! n)] @ replicate nb blank"
    using 2(4) 1(4) assms(5) by (simp add: list_update_append)
  have fit2: "log_fits (concat ess2) [(CHR ''-'', h_fields h)]"
    using fit same [OF n(1)] 1(4) 2(4) n(2) by (simp add: log_fits_def)
  have tag: "action_tag MDIR_REM = CHR ''-''" by (simp add: action_tag_def)
  from finish_patch [OF 2(3) assms(2), of MDIR_REM, unfolded tag, OF fit2] obtain st' ess' where
    3: "bnd (last_jnl mp) (\<lambda>k. bnd (on_jnl mp k (\<lambda>fs j. jnl_patch fs j MDIR_REM h)) (\<lambda>v.
       bnd (if MDIR_REM = MDIR_ADD then mdir_confirm_add mp h v else ret ()) (\<lambda>_.
       bnd (handle_mark mp k h v) (\<lambda>_. ret (v, h))))) st2 = Done (st', Inr (1 + int (length (concat ess2)), h))"
      "jnls_step mp st2 st'" "folder_ok st' mp ess'" "concat ess' = concat ess2 @ [(CHR ''-'', h_fields h)]" by auto
  have "mdir_patch mp MDIR_REM h nb st = Done (st', Inr (1 + int (length (concat ess2)), h))"
    unfolding mdir_patch_def using 1(1) p 3(1) by simp
  with l2 3 jnls_step_trans [OF 1(2) jnls_step_trans [OF 2(2) 3(2)]] show ?thesis by auto
qed

section \<open>Properties\<close>

text \<open>C3. \<open>mdir_patch\<close> appends: on a folder in use, a header that is neither a subfolder, nor
  permissions, nor a mark gets, after the number of blank patches asked for, the version that
  follows the last one; the folder then holds exactly the former entries, the blanks and the
  new entry, wherever journals begin and end, \<open>mdir_last_version\<close> is the version returned and
  \<open>mdir_read\<close> of it returns the header.\<close>

theorem mdir_patch_add:
  assumes "folder_ok st mp ess" "plain_header h"
    "log_fits (concat ess) (replicate nb blank @ [(CHR ''+'', h_fields h)])"
  shows "\<exists>st' ess' v. mdir_patch mp MDIR_ADD h nb st = Done (st', Inr (v, h)) \<and>
    v = 1 + int (length (concat ess) + nb) \<and> folder_ok st' mp ess' \<and>
    concat ess' = concat ess @ replicate nb blank @ [(CHR ''+'', h_fields h)] \<and>
    mdir_last_version (mdir_at st' mp) = v \<and>
    mdir_read (m_fs st') (jnls (mdir_at st' mp)) v = Done (Some \<lparr>h_fields = h_fields h, h_count = 1\<rparr>, Some MDIR_ADD, None)"
proof -
  from patch_add_ok [OF assms] obtain st' ess' where
    1: "mdir_patch mp MDIR_ADD h nb st = Done (st', Inr (1 + int (length (concat ess) + nb), h))" "folder_ok st' mp ess'"
      "concat ess' = concat ess @ replicate nb blank @ [(CHR ''+'', h_fields h)]" by blast
  let ?js = "jnls (mdir_at st' mp)" and ?n = "length (concat ess) + nb"
  have r: "folder_rep (m_fs st') ?js ess'" using 1(2) by (simp add: folder_ok_def)
  have l: "length (concat ess') = Suc ?n" using 1(3) by simp
  have "ess' \<noteq> []" using l by auto
  then have ne: "?js \<noteq> []" using folder_rep_length [OF r] by auto
  then have ne': "length ?js - 1 < length ?js" by simp
  have "mdir_last_version (mdir_at st' mp) = 1 + int ?n"
    using folder_repD(2,3) [OF r ne'] ne concat_take_last [of "length ?js - 1" ess'] folder_rep_length [OF r] l
    by (simp add: mdir_last_version_def last_conv_nth)
  moreover have "mdir_read (m_fs st') ?js (1 + int ?n) = Done (Some \<lparr>h_fields = h_fields h, h_count = 1\<rparr>, Some MDIR_ADD, None)"
    using mdir_read_rep [OF r, of ?n] l 1(3) by (simp add: nth_append jview_def)
  ultimately show ?thesis using 1 by auto
qed

definition st_sample :: mst where
  "st_sample = \<lparr>m_fs = fs_empty\<lparr>ents := [([''m''], Dir), ([''m'', ''1''], Dir)]\<rparr>, mdir_root = ''/m'', mdirs = [0],
     m_store = (\<lambda>_. \<lparr>mpath = ''/m/1'', jnls = [], permissions = None\<rparr>), m_next = 1,
     dirid_seq = \<lparr>p_size = 8, p_fd = 0\<rparr>, transient_version = \<lparr>p_size = 8, p_fd = 1\<rparr>, max_jnl_size = 2\<rparr>"

lemma comps_sample: "comps ''/m/1'' = [''m'', ''1'']"
  by (simp add: comps_def)

lemma st_sample_ok: "folder_ok st_sample 0 []"
proof -
  have "real_dir (m_fs st_sample) ''/m/1''"
    by (auto simp: real_dir_def comps_sample node_at_def st_sample_def le_Suc_eq)
  then show ?thesis
    by (simp add: folder_ok_def folder_rep_def files_ok_def no_stray_def st_sample_def comps_sample
        node_at_def fs_empty_def PATH_MAX_def)
qed

definition h_sample :: header where
  "h_sample = \<lparr>h_fields = [\<lparr>hf_name = ''a'', hf_value = ''b''\<rparr>], h_count = 1\<rparr>"

lemma h_sample_plain: "plain_header h_sample" by code_simp

lemma h_sample_ok: "entry_ok (CHR ''+'', h_fields h_sample)" "entry_ok (CHR ''-'', h_fields h_sample)"
  by code_simp+

theorem mdir_patch_add_witness:
  "\<exists>st' ess'. mdir_patch 0 MDIR_ADD h_sample 3 st_sample = Done (st', Inr (4, h_sample)) \<and> folder_ok st' 0 ess' \<and>
    mdir_last_version (mdir_at st' 0) = 4"
proof -
  have "log_fits (concat []) (replicate 3 blank @ [(CHR ''+'', h_fields h_sample)])"
    using h_sample_ok by (simp add: log_fits_def numeral_3_eq_3 entry_text_def h_sample_def field_dump_def)
  from mdir_patch_add [OF st_sample_ok h_sample_plain this] show ?thesis by fastforce
qed

text \<open>\<open>mdir_patch\<close> of a removal: the target, a live addition that is not a subfolder, is marked
  as deleted and nothing else changes in what precedes; the removal itself is appended under
  the next version, and the target is no longer read.\<close>

theorem mdir_patch_rem:
  assumes "folder_ok st mp ess" "plain_header h"
    "log_fits (concat ess) (replicate nb blank @ [(CHR ''-'', h_fields h)])"
    "header_target h = Inr (1 + int n)" "n < length (concat ess)"
    "fst (concat ess ! n) = CHR ''+''" "\<not> header_is_directory (entry_header (concat ess ! n))"
  shows "\<exists>st' ess'. mdir_patch mp MDIR_REM h nb st = Done (st', Inr (1 + int (length (concat ess) + nb), h)) \<and>
    folder_ok st' mp ess' \<and>
    concat ess' = (concat ess)[n := jdead (concat ess ! n)] @ replicate nb blank @ [(CHR ''-'', h_fields h)] \<and>
    mdir_read (m_fs st') (jnls (mdir_at st' mp)) (1 + int n) = Done (None, Some MDIR_ADD, None)"
proof -
  from patch_rem_ok [OF assms] obtain st' ess' where
    1: "mdir_patch mp MDIR_REM h nb st = Done (st', Inr (1 + int (length (concat ess) + nb), h))" "folder_ok st' mp ess'"
      "concat ess' = (concat ess)[n := jdead (concat ess ! n)] @ replicate nb blank @ [(CHR ''-'', h_fields h)]" by blast
  then have "n < length (concat ess')" "concat ess' ! n = jdead (concat ess ! n)" using assms(5) by (auto simp: nth_append)
  with mdir_read_rep [of "m_fs st'" "jnls (mdir_at st' mp)" ess' n] 1(2)
  have "mdir_read (m_fs st') (jnls (mdir_at st' mp)) (1 + int n) = Done (None, Some MDIR_ADD, None)"
    by (simp add: folder_ok_def jview_def jdead_def)
  with 1 show ?thesis by blast
qed

definition h_target_sample :: header where
  "h_target_sample = \<lparr>h_fields = [\<lparr>hf_name = ''sc-target'', hf_value = ''1''\<rparr>], h_count = 1\<rparr>"

theorem mdir_patch_rem_witness:
  "\<exists>st1 st2. mdir_patch 0 MDIR_ADD h_sample 0 st_sample = Done (st1, Inr (1, h_sample)) \<and>
    mdir_patch 0 MDIR_REM h_target_sample 0 st1 = Done (st2, Inr (2, h_target_sample)) \<and>
    mdir_read (m_fs st2) (jnls (mdir_at st2 0)) 1 = Done (None, Some MDIR_ADD, None)"
proof -
  have f1: "log_fits (concat []) (replicate 0 blank @ [(CHR ''+'', h_fields h_sample)])"
    using h_sample_ok by (simp add: log_fits_def entry_text_def h_sample_def field_dump_def)
  from patch_add_ok [OF st_sample_ok h_sample_plain f1] obtain st1 ess where
    1: "mdir_patch 0 MDIR_ADD h_sample 0 st_sample = Done (st1, Inr (1, h_sample))" "folder_ok st1 0 ess"
      "concat ess = [(CHR ''+'', h_fields h_sample)]" by auto
  have p: "plain_header h_target_sample" by code_simp
  have t: "header_target h_target_sample = Inr (1 + int 0)" by code_simp
  have ok: "entry_ok (CHR ''-'', h_fields h_target_sample)" by code_simp
  have nd: "\<not> header_is_directory (entry_header (CHR ''+'', h_fields h_sample))" by code_simp
  have f2: "log_fits (concat ess) (replicate 0 blank @ [(CHR ''-'', h_fields h_target_sample)])"
    using ok 1(3) by (simp add: log_fits_def entry_text_def h_sample_def h_target_sample_def field_dump_def)
  from mdir_patch_rem [OF 1(2) p f2 t] 1 nd show ?thesis by auto
qed

text \<open>C4. Reading a folder from a version on: \<open>mdir_read_next\<close> ends and returns the first patch
  after the given version that has not been deleted, with its version and its action, or
  nothing, and no error, when there is none; deleted and blank patches are skipped across
  journals.\<close>

theorem mdir_read_next_live:
  assumes "folder_ok st mp ess"
  shows "mdir_read_next (m_fs st) (jnls (mdir_at st mp)) (int n) = Done (next_live (concat ess) n, None)"
  using mdir_read_next_rep assms by (simp add: folder_ok_def)

theorem mdir_read_next_live_witness:
  "\<exists>st1. mdir_patch 0 MDIR_ADD h_sample 3 st_sample = Done (st1, Inr (4, h_sample)) \<and>
    mdir_read_next (m_fs st1) (jnls (mdir_at st1 0)) (int 0) = Done (Some (h_sample, 4, MDIR_ADD), None)"
proof -
  have f: "log_fits (concat []) (replicate 3 blank @ [(CHR ''+'', h_fields h_sample)])"
    using h_sample_ok by (simp add: log_fits_def numeral_3_eq_3 entry_text_def h_sample_def field_dump_def)
  from patch_add_ok [OF st_sample_ok h_sample_plain f] obtain st1 ess where
    1: "mdir_patch 0 MDIR_ADD h_sample 3 st_sample = Done (st1, Inr (4, h_sample))" "folder_ok st1 0 ess"
      "concat ess = replicate 3 blank @ [(CHR ''+'', h_fields h_sample)]" by auto
  have "next_live (replicate 3 blank @ [(CHR ''+'', h_fields h_sample)]) 0 = Some (h_sample, 4, MDIR_ADD)" by code_simp
  with mdir_read_next_live [OF 1(2), of 0] 1 show ?thesis by auto
qed

section \<open>Listing\<close>

text \<open>What a listing does to a cursor and to the calls made, entry by entry.\<close>

fun scan :: "bool \<Rightarrow> bool \<Rightarrow> mdir_version \<Rightarrow> entry list \<Rightarrow> mdir_cursor \<times> listed list \<Rightarrow> mdir_cursor \<times> listed list" where
  "scan put_cb rem_cb v [] s = s"
| "scan put_cb rem_cb v (en # ens) s =
     (if entry_live en
      then scan put_cb rem_cb (v + 1) ens ((fst s)\<lparr>last_listed_sync := v\<rparr>,
        snd s @ synch_one put_cb rem_cb (fst s) (entry_header en) (entry_action en) v)
      else scan put_cb rem_cb (v + 1) ens s)"

lemma scan_append: "scan p r v (xs @ ys) s = scan p r (v + int (length xs)) ys (scan p r v xs s)"
  by (induction xs arbitrary: v s) (auto simp: algebra_simps)

lemma synch_jnl_rep:
  assumes "jnl_rep fs j es ms" "i + n = length es"
  shows "synch_jnl p r fs j i n cursor out =
    (case scan p r (jversion j + int i) (drop i es) (cursor, out) of (c, ou) \<Rightarrow> Done (c, ou, None))"
  using assms(2)
proof (induction n arbitrary: i cursor out)
  case (Suc n)
  then have i: "i < length es" by simp
  have d: "drop i es = es ! i # drop (Suc i) es" using i by (simp add: Cons_nth_drop_Suc)
  note rd = jnl_read_rep [OF assms(1) i]
  show ?case
  proof (cases "entry_live (es ! i)")
    case True
    with rd Suc.IH [of "Suc i"] Suc.prems d show ?thesis
      by (simp add: entry_live_def entry_header_def entry_action_def Let_def algebra_simps)
  next
    case False
    with rd Suc.IH [of "Suc i"] Suc.prems d show ?thesis by (simp add: entry_live_def algebra_simps)
  qed
qed simp

lemma drop_concat_take:
  "k \<le> length ess \<Longrightarrow> concat (drop k ess) = drop (length (concat (take k ess))) (concat ess)"
  by (metis append_eq_conv_conj append_take_drop_id concat_append)

lemma synch_jnls_rep:
  assumes r: "folder_rep fs js ess"
  shows "k \<le> length js \<Longrightarrow> synch_jnls p q fs (1 + int c) (drop k js) cursor out =
    (case scan p q (1 + int (max c (length (concat (take k ess)))))
        (drop (max c (length (concat (take k ess)))) (concat ess)) (cursor, out) of (cu, ou) \<Rightarrow> Done (cu, ou, None))"
proof (induction "length js - k" arbitrary: k c cursor out)
  case 0
  then show ?case using folder_rep_length [OF r] by simp
next
  case (Suc x)
  let ?b = "length (concat (take k ess))" and ?j = "js ! k" and ?es = "ess ! k"
  have le: "length ess = length js" using folder_rep_length [OF r] .
  have k: "k < length js" using Suc by simp
  have b': "length (concat (take (Suc k) ess)) = ?b + length ?es" using k le by (simp add: length_concat_take_Suc)
  have d: "drop k js = ?j # drop (Suc k) js" using k by (simp add: Cons_nth_drop_Suc)
  note v = folder_repD(2,3) [OF r k]
  have IH: "synch_jnls p q fs (1 + int c) (drop (Suc k) js) cursor out =
    (case scan p q (1 + int (max c (?b + length ?es))) (drop (max c (?b + length ?es)) (concat ess)) (cursor, out) of
       (cu, ou) \<Rightarrow> Done (cu, ou, None))" for c cursor out
    using Suc.hyps(1) [of "Suc k" c cursor out] Suc.hyps(2) k b' by simp
  show ?case
  proof (cases "?b + length ?es \<le> c")
    case True
    then have "max c ?b = c" "max c (?b + length ?es) = c" by auto
    then show ?thesis using True IH v by (simp add: d)
  next
    case False
    let ?c = "max c ?b"
    let ?i = "?c - ?b"
    from folder_repD(1) [OF r k] obtain ms where j: "jnl_rep fs ?j ?es ms" by blast
    have i: "?i + (length ?es - ?i) = length ?es" "?c = ?b + ?i" using False by auto
    obtain cu ou where s: "scan p q (1 + int ?c) (drop ?i ?es) (cursor, out) = (cu, ou)" by fastforce
    have one: "synch_jnl p q fs ?j ?i (length ?es - ?i) cursor out = Done (cu, ou, None)"
      using synch_jnl_rep [OF j i(1), of p q cursor out] s v i(2) by simp
    have "concat (drop k ess) = ?es @ concat (drop (Suc k) ess)"
      using k le by (simp add: Cons_nth_drop_Suc [symmetric])
    then have X: "drop ?b (concat ess) = ?es @ drop (?b + length ?es) (concat ess)"
      using drop_concat_take [of k ess] drop_concat_take [of "Suc k" ess] b' k le by simp
    have "drop (?b + ?i) (concat ess) = drop ?i (drop ?b (concat ess))"
      by (simp only: drop_drop add.commute)
    also have "\<dots> = drop ?i ?es @ drop (?b + length ?es) (concat ess)"
      unfolding X using i(1) by simp
    finally have "drop ?c (concat ess) = drop ?i ?es @ drop (?b + length ?es) (concat ess)" by (simp only: i(2) [symmetric])
    then have "scan p q (1 + int ?c) (drop ?c (concat ess)) (cursor, out) =
        scan p q (1 + int (?b + length ?es)) (drop (?b + length ?es) (concat ess)) (cu, ou)"
      using s i by (simp add: scan_append add.commute)
    moreover have "max ?c (?b + length ?es) = ?b + length ?es" using False by simp
    moreover have "synch_jnls p q fs (1 + int c) (drop k js) cursor out =
        synch_jnls p q fs (1 + int ?c) (drop (Suc k) js) cu ou"
    proof -
      have "max (1 + int c) (jversion ?j) = 1 + int ?c" "nat (1 + int ?c - jversion ?j) = ?i"
        using v by auto
      then show ?thesis using one v False unfolding d by (simp add: Let_def)
    qed
    ultimately show ?thesis using IH [of ?c] by simp
  qed
qed

lemma synch_list_rep:
  assumes "folder_rep fs js ess" "last_listed_sync cursor = int c"
  shows "synch_list p q fs js cursor =
    (case scan p q (1 + int c) (drop c (concat ess)) (cursor, []) of (cu, ou) \<Rightarrow> Done (cu, ou, None))"
  using synch_jnls_rep [OF assms(1), of 0 p q c cursor "[]"] assms(2)
  by (simp add: synch_list_def add.commute)

definition live_from :: "entry list \<Rightarrow> nat \<Rightarrow> nat list" where
  "live_from es c = filter (\<lambda>n. entry_live (es ! n)) [c..<length es]"

lemma live_from_step:
  "c < length es \<Longrightarrow> live_from es c = (if entry_live (es ! c) then [c] else []) @ live_from es (Suc c)"
  by (simp add: live_from_def upt_conv_Cons)

lemma synch_one_unsync:
  "synch_one p q (cursor\<lparr>last_listed_sync := v\<rparr>) h a w = synch_one p q cursor h a w"
  by (simp add: synch_one_def split: mdir_action.split option.split sum.split)

lemma scan_live:
  "c \<le> length es \<Longrightarrow> scan p q (1 + int c) (drop c es) (cursor, out) =
    ((if live_from es c = [] then cursor else cursor\<lparr>last_listed_sync := 1 + int (last (live_from es c))\<rparr>),
     out @ concat (map (\<lambda>n. synch_one p q cursor (entry_header (es ! n)) (entry_action (es ! n)) (1 + int n)) (live_from es c)))"
proof (induction "length es - c" arbitrary: c cursor out)
  case 0
  then show ?case by (simp add: live_from_def)
next
  case (Suc x)
  then have c: "c < length es" by simp
  have d: "drop c es = es ! c # drop (Suc c) es" using c by (simp add: Cons_nth_drop_Suc)
  note IH = Suc.hyps(1) [of "Suc c"]
  show ?case
  proof (cases "entry_live (es ! c)")
    case False
    with IH Suc.hyps(2) c show ?thesis by (simp add: d live_from_step [OF c] algebra_simps)
  next
    case True
    with IH Suc.hyps(2) c show ?thesis
      by (simp add: d live_from_step [OF c] algebra_simps synch_one_unsync)
  qed
qed

text \<open>C37. Listing a folder reports every live patch once: \<open>synch_list\<close> called with a cursor that
  has listed the first \<open>c\<close> versions makes exactly the calls due to the patches that follow and
  are not deleted, in version order, and leaves the cursor on the last of them; called again
  with that cursor it makes no call.\<close>

theorem synch_list_once:
  assumes "folder_ok st mp ess" "last_listed_sync cursor = int c" "c \<le> length (concat ess)"
  shows "\<exists>cursor'. synch_list p q (m_fs st) (jnls (mdir_at st mp)) cursor =
      Done (cursor', concat (map (\<lambda>n. synch_one p q cursor (entry_header (concat ess ! n))
        (entry_action (concat ess ! n)) (1 + int n)) (live_from (concat ess) c)), None) \<and>
    last_listed_sync cursor' = (if live_from (concat ess) c = [] then int c else 1 + int (last (live_from (concat ess) c))) \<and>
    synch_list p q (m_fs st) (jnls (mdir_at st mp)) cursor' = Done (cursor', [], None)"
proof -
  let ?es = "concat ess"
  let ?l = "live_from ?es c"
  let ?cu = "if ?l = [] then cursor else cursor\<lparr>last_listed_sync := 1 + int (last ?l)\<rparr>"
  let ?c' = "if ?l = [] then c else Suc (last ?l)"
  have r: "folder_rep (m_fs st) (jnls (mdir_at st mp)) ess" using assms(1) by (simp add: folder_ok_def)
  have lst: "last ?l \<in> set ?l" if "?l \<noteq> []" using that by simp
  have c': "?c' \<le> length ?es" "last_listed_sync ?cu = int ?c'"
    using lst assms(2,3) by (auto simp: live_from_def split: if_splits)
  have "live_from ?es ?c' = []"
  proof (cases "?l = []")
    case False
    have srt: "sorted ?l" by (simp add: live_from_def sorted_wrt_filter)
    have "n \<notin> set (live_from ?es (Suc (last ?l)))" for n
    proof
      assume "n \<in> set (live_from ?es (Suc (last ?l)))"
      then have n: "Suc (last ?l) \<le> n" "n \<in> set ?l" using lst [OF False] by (auto simp: live_from_def)
      from n(2) srt False have "n \<le> last ?l"
        by (metis in_set_conv_nth last_conv_nth diff_less le_numeral_extra(4) less_numeral_extra(1) length_greater_0_conv sorted_nth_mono Suc_diff_1 less_Suc_eq_le)
      with n(1) show False by simp
    qed
    then show ?thesis using False by (metis all_not_in_conv set_empty)
  qed simp
  then have again: "synch_list p q (m_fs st) (jnls (mdir_at st mp)) ?cu = Done (?cu, [], None)"
    using synch_list_rep [OF r c'(2)] scan_live [OF c'(1)] by simp
  show ?thesis
    using synch_list_rep [OF r assms(2)] scan_live [OF assms(3), of p q cursor "[]"] again c'(2)
    by (intro exI [of _ ?cu]) (simp split: if_splits)
qed

theorem synch_list_once_witness:
  "\<exists>st1 cursor'. mdir_patch 0 MDIR_ADD h_sample 3 st_sample = Done (st1, Inr (4, h_sample)) \<and>
    synch_list True True (m_fs st1) (jnls (mdir_at st1 0)) mdir_cursor_ctor = Done (cursor', [PutCb h_sample 4], None)"
proof -
  have f: "log_fits (concat []) (replicate 3 blank @ [(CHR ''+'', h_fields h_sample)])"
    using h_sample_ok by (simp add: log_fits_def numeral_3_eq_3 entry_text_def h_sample_def field_dump_def)
  from patch_add_ok [OF st_sample_ok h_sample_plain f] obtain st1 ess where
    1: "mdir_patch 0 MDIR_ADD h_sample 3 st_sample = Done (st1, Inr (4, h_sample))" "folder_ok st1 0 ess"
      "concat ess = replicate 3 blank @ [(CHR ''+'', h_fields h_sample)]" by auto
  have l: "live_from (replicate 3 blank @ [(CHR ''+'', h_fields h_sample)]) 0 = [3]" by code_simp
  have o: "synch_one True True mdir_cursor_ctor (entry_header ((replicate 3 blank @ [(CHR ''+'', h_fields h_sample)]) ! 3))
      (entry_action ((replicate 3 blank @ [(CHR ''+'', h_fields h_sample)]) ! 3)) 4 = [PutCb h_sample 4]" by code_simp
  from synch_list_once [OF 1(2), of mdir_cursor_ctor 0 True True] 1(1,3) l o show ?thesis
    by (auto simp: mdir_cursor_ctor_def)
qed

end
