(* ===== verification/Mdsyncd.thy ===== *)
theory Mdsyncd
  imports Cnx Auth Mdir_Log
begin

text \<open>
  The server, after \<open>mdsyncd/sub.c\<close>, \<open>mdsyncd/queries.c\<close> and \<open>mdsyncd/mdsyncd.c\<close>: the commands of a
  connection, executed one after the other, and the subscriptions of a connection, each a
  thread that sends the patches of a folder. The state is that of the folders, of the users
  and of one connection, with the bytes the client has sent and that are not read yet. A
  step of a thread is atomic, for threads of this program only switch when they wait. The
  text of an error is the format of the message. The permission checks have fuel; running
  out of it would exhaust the stack of the program.
\<close>

section \<open>State\<close>

record subscription =
  sub_mdir :: nat
  sub_version :: mdir_version

record cnx_env =
  e_cnx :: mdir_cnx
  e_in :: input
  e_quit :: bool
  e_subs :: "subscription list"

record sst =
  s_mst :: mst
  s_auth :: auth
  s_env :: cnx_env

definition cnx_env_new :: "mdir_syntax \<Rightarrow> input \<Rightarrow> cnx_env" where
  "cnx_env_new sy inp = \<lparr>e_cnx = mdir_cnx_ctor_inbound sy, e_in = inp, e_quit = False, e_subs = []\<rparr>"

definition cnx_env_del :: "cnx_env \<Rightarrow> cnx_env" where
  "cnx_env_del env = env\<lparr>e_subs := [], e_cnx := mdir_cnx_dtor (e_cnx env)\<rparr>"

text \<open>Operations on a part of the state.\<close>

definition on_mst :: "(mst, 'a) act \<Rightarrow> (sst, 'a) act" where
  "on_mst f s = (case f (s_mst s) of
     Done (m, r) \<Rightarrow> Done (s\<lparr>s_mst := m\<rparr>, r) | Raised e \<Rightarrow> Raised e | Crash \<Rightarrow> Crash)"

definition on_cnx :: "(mdir_cnx, 'a) act \<Rightarrow> (sst, 'a) act" where
  "on_cnx f s = (case f (e_cnx (s_env s)) of
     Done (c, r) \<Rightarrow> Done (s\<lparr>s_env := (s_env s)\<lparr>e_cnx := c\<rparr>\<rparr>, r) | Raised e \<Rightarrow> Raised e | Crash \<Rightarrow> Crash)"

definition on_auth :: "(auth, 'a) act \<Rightarrow> (sst, 'a) act" where
  "on_auth f s = (case f (s_auth s) of
     Done (a, r) \<Rightarrow> Done (s\<lparr>s_auth := a\<rparr>, r) | Raised e \<Rightarrow> Raised e | Crash \<Rightarrow> Crash)"

definition allowed :: "(auth \<Rightarrow> (auth \<times> bool) outcome option) \<Rightarrow> (sst, bool) act" where
  "allowed f = on_auth (\<lambda>a. case f a of
     Some (Done (a, b)) \<Rightarrow> Done (a, Inr b) | Some (Raised e) \<Rightarrow> Raised e | Some Crash \<Rightarrow> Crash | None \<Rightarrow> Crash)"

definition upd_env :: "(cnx_env \<Rightarrow> cnx_env) \<Rightarrow> (sst, unit) act" where
  "upd_env f s = Done (s\<lparr>s_env := f (s_env s)\<rparr>, Inr ())"

abbreviation env_user :: "sst \<Rightarrow> string option" where
  "env_user s \<equiv> cnx_user (e_cnx (s_env s))"

text \<open>An error that was answered is cleared, and so are those of the answer.\<close>

definition cleared :: "(sst, unit) act \<Rightarrow> (sst, unit) act" where
  "cleared m = bnd (attempt m) (\<lambda>_. ret ())"

definition answer :: "mdir_cmd \<Rightarrow> int \<Rightarrow> string \<Rightarrow> (sst, unit) act" where
  "answer cmd status compl = on_cnx (mdir_cnx_answer cmd status compl)"

definition arg_str :: "mdir_cmd \<Rightarrow> nat \<Rightarrow> string" where
  "arg_str cmd i = (if i < length (c_args cmd) then case c_args cmd ! i of ArgStr s \<Rightarrow> s | ArgInt _ \<Rightarrow> [] else [])"

section \<open>Subscriptions\<close>

definition subscription_reset_version :: "subscription \<Rightarrow> mdir_version \<Rightarrow> subscription" where
  "subscription_reset_version sub v = (if sub_version sub < v then sub else sub\<lparr>sub_version := v\<rparr>)"

definition subscription_ctor :: "nat \<Rightarrow> string \<Rightarrow> mdir_version \<Rightarrow> (sst, unit) act" where
  "subscription_ctor fuel dirId v =
     bnd (on_mst (mdir_lookup_by_id dirId False)) (\<lambda>mp s.
     bnd (allowed (mdir_user_can_read fuel (env_user s) (permissions (mdir_at (s_mst s) mp)))) (\<lambda>ok.
       if \<not> ok then failure 0 ''No read permission''
       else upd_env (\<lambda>env. env\<lparr>e_subs :=
         subscription_reset_version \<lparr>sub_mdir = mp, sub_version = v\<rparr> v # e_subs env\<rparr>)) s)"

definition subscription_new :: "nat \<Rightarrow> string \<Rightarrow> mdir_version \<Rightarrow> (sst, unit) act" where
  "subscription_new fuel dirId v = subscription_ctor fuel dirId v"

text \<open>A subscription of a connection is designated by its position in the list.\<close>

fun sub_index :: "nat \<Rightarrow> subscription list \<Rightarrow> nat option" where
  "sub_index mp [] = None"
| "sub_index mp (x # xs) = (if sub_mdir x = mp then Some 0 else map_option Suc (sub_index mp xs))"

definition subscription_find :: "string \<Rightarrow> (sst, nat option) act" where
  "subscription_find dirId = bnd (on_mst (mdir_lookup_by_id dirId False)) (\<lambda>mp s.
     Done (s, Inr (sub_index mp (e_subs (s_env s)))))"

definition subscription_del :: "nat \<Rightarrow> (sst, unit) act" where
  "subscription_del k = upd_env (\<lambda>env. env\<lparr>e_subs := take k (e_subs env) @ drop (Suc k) (e_subs env)\<rparr>)"

definition client_needs_patch :: "sst \<Rightarrow> subscription \<Rightarrow> bool" where
  "client_needs_patch s sub \<longleftrightarrow> sub_version sub < mdir_last_version (mdir_at (s_mst s) (sub_mdir sub))"

definition patch_line :: "string \<Rightarrow> mdir_version \<Rightarrow> mdir_version \<Rightarrow> mdir_action \<Rightarrow> string" where
  "patch_line did prev new action =
     ''PATCH '' @ did @ '' '' @ dec_int prev @ '' '' @ dec_int new @ '' '' @ mdir_action2str action @ [NL]"

text \<open>The header of a patch that does not exist is a null pointer.\<close>

definition send_patch :: "header option \<Rightarrow> nat \<Rightarrow> mdir_action \<Rightarrow> mdir_version \<Rightarrow> mdir_version \<Rightarrow> (sst, unit) act" where
  "send_patch ho mp action prev new s =
     (let line = patch_line (mdir_id (s_mst s) (mdir_at (s_mst s) mp)) prev new action in
      if 5 + 1 + PATH_MAX + 1 + 20 + 1 + 20 + 1 + 1 + 1 \<le> length line then Crash
      else bnd (on_cnx (cnx_write line)) (\<lambda>_. case ho of
        None \<Rightarrow> (\<lambda>_. Crash) | Some h \<Rightarrow> on_cnx (cnx_write (header_dump h))) s)"

definition send_next_patch :: "nat \<Rightarrow> (sst, unit) act" where
  "send_next_patch k s =
     (let sub = e_subs (s_env s) ! k; m = mdir_at (s_mst s) (sub_mdir sub) in
      case mdir_read_next (m_fs (s_mst s)) (jnls m) (sub_version sub) of
        Done (_, Some e) \<Rightarrow> Done (s, Inl e)
      | Done (None, None) \<Rightarrow> send_patch None (sub_mdir sub) MDIR_ADD (sub_version sub) (sub_version sub) s
      | Done (Some (h, next_version, action), None) \<Rightarrow>
          bnd (send_patch (Some h) (sub_mdir sub) action (sub_version sub) next_version) (\<lambda>_.
            upd_env (\<lambda>env. env\<lparr>e_subs := (e_subs env)[k := sub\<lparr>sub_version := next_version\<rparr>]\<rparr>)) s
      | Raised e \<Rightarrow> Raised e
      | Crash \<Rightarrow> Crash)"

text \<open>One turn of the thread of a subscription; the thread ends on an error.\<close>

definition subscription_thread :: "nat \<Rightarrow> (sst, unit) act" where
  "subscription_thread k s =
     (if client_needs_patch s (e_subs (s_env s) ! k)
      then bnd (attempt (send_next_patch k)) (\<lambda>r. case r of Inl e \<Rightarrow> subscription_del k | Inr _ \<Rightarrow> ret ()) s
      else Done (s, Inr ()))"

section \<open>Commands\<close>

text \<open>
  A version that cannot be read, or a folder that cannot be found the first time, leaves a pending
  error that makes the creation of the subscription fail.
\<close>

definition exec_sub :: "nat \<Rightarrow> mdir_cmd \<Rightarrow> (sst, unit) act" where
  "exec_sub fuel cmd = (let dir = arg_str cmd 0 in
     case mdir_str2version (arg_str cmd 1) of
       Inl e \<Rightarrow> cleared (answer cmd 403 (err_what e))
     | Inr v \<Rightarrow>
         bnd (attempt (subscription_find dir)) (\<lambda>r. case r of
           Inl e \<Rightarrow> cleared (answer cmd 403 (err_what e))
         | Inr (Some k) \<Rightarrow>
             bnd (upd_env (\<lambda>env. env\<lparr>e_subs := (e_subs env)[k := subscription_reset_version (e_subs env ! k) v]\<rparr>))
               (\<lambda>_. cleared (answer cmd 304 ''OK''))
         | Inr None \<Rightarrow>
             bnd (attempt (subscription_new fuel dir v)) (\<lambda>r. case r of
               Inl e \<Rightarrow> cleared (answer cmd 403 (err_what e))
             | Inr _ \<Rightarrow> cleared (answer cmd 200 ''OK''))))"

text \<open>The error of a folder that cannot be found stays pending here.\<close>

definition exec_unsub :: "mdir_cmd \<Rightarrow> (sst, unit) act" where
  "exec_unsub cmd = bnd (attempt (subscription_find (arg_str cmd 0))) (\<lambda>r. case r of
     Inl e \<Rightarrow> bnd (attempt (answer cmd 501 ''Not subscribed'')) (\<lambda>_ s. Done (s, Inl e))
   | Inr None \<Rightarrow> answer cmd 501 ''Not subscribed''
   | Inr (Some k) \<Rightarrow> bnd (subscription_del k) (\<lambda>_. answer cmd 200 ''OK''))"

definition owner_perms :: "string \<Rightarrow> header" where
  "owner_perms u = fold (\<lambda>(n, v) h. header_field_new h n v)
     [(SC_TYPE_FIELD, SC_PERM_TYPE), (SC_ALLOW_READ_FIELD, u), (SC_ALLOW_WRITE_FIELD, u), (SC_ALLOW_ADMIN_FIELD, u),
      (SC_DENY_READ_FIELD, ''*''), (SC_DENY_WRITE_FIELD, ''*''), (SC_DENY_ADMIN_FIELD, ''*'')] header_new"

definition set_default_perms :: "nat \<Rightarrow> string \<Rightarrow> (sst, unit) act" where
  "set_default_perms mp u = bnd (on_mst (mdir_patch mp MDIR_ADD (owner_perms u) 0)) (\<lambda>_. ret ())"

text \<open>The permission to patch a folder: first administration, for permissions, then writing.\<close>

definition may_patch :: "nat \<Rightarrow> header \<Rightarrow> string option \<Rightarrow> header option \<Rightarrow> (sst, bool) act" where
  "may_patch fuel h user perms =
     bnd (if header_has_type h SC_PERM_TYPE then allowed (mdir_user_can_admin fuel user perms) else ret True) (\<lambda>adm.
       if \<not> adm then ret False else allowed (mdir_user_can_write fuel user perms))"

definition add_header :: "nat \<Rightarrow> string \<Rightarrow> header \<Rightarrow> mdir_action \<Rightarrow> string option \<Rightarrow> (sst, mdir_version) act" where
  "add_header fuel dir h action user =
     bnd (on_mst (mdir_lookup dir)) (\<lambda>mp s.
     bnd (may_patch fuel h user (permissions (mdir_at (s_mst s) mp))) (\<lambda>ok.
       if \<not> ok then failure 0 ''No permission''
       else let is_new_dir = header_is_directory h \<and> field_value h SC_DIRID_FIELD = None in
         if field_value h SC_USER_FIELD \<noteq> None then failure 0 ''Header already has username''
         else case user of
           None \<Rightarrow> (\<lambda>_. Crash)
         | Some u \<Rightarrow>
             bnd (on_mst (mdir_patch mp action (header_field_new h SC_USER_FIELD u) 0)) (\<lambda>(v, h').
               if \<not> is_new_dir then ret v
               else case field_value h' SC_NAME_FIELD of
                 None \<Rightarrow> (\<lambda>_. Crash)
               | Some nm \<Rightarrow> bnd (attempt (on_mst (mdir_lookup (snpath (dir @ ''/'' @ nm))))) (\<lambda>r. case r of
                    Inl e \<Rightarrow> (\<lambda>_. Crash)
                  | Inr child \<Rightarrow> bnd (set_default_perms child u) (\<lambda>_. ret v)))) s)"

definition read_header :: "(sst, header) act" where
  "read_header s = (case header_read header_new (e_in (s_env s)) of
     Done ((h, None), inp) \<Rightarrow> Done (s\<lparr>s_env := (s_env s)\<lparr>e_in := inp\<rparr>\<rparr>, Inr h)
   | Done ((h, Some e), inp) \<Rightarrow> Done (s\<lparr>s_env := (s_env s)\<lparr>e_in := inp\<rparr>\<rparr>, Inl e)
   | Raised e \<Rightarrow> Raised e
   | Crash \<Rightarrow> Crash)"

definition exec_putrem :: "nat \<Rightarrow> mdir_action \<Rightarrow> mdir_cmd \<Rightarrow> (sst, unit) act" where
  "exec_putrem fuel action cmd =
     bnd (attempt (bnd read_header (\<lambda>h s. add_header fuel (arg_str cmd 0) h action (env_user s) s))) (\<lambda>r. case r of
       Inl e \<Rightarrow> cleared (answer cmd 502 (err_what e))
     | Inr v \<Rightarrow> cleared (answer cmd 200 (mdir_version2str v)))"

definition exec_put :: "nat \<Rightarrow> mdir_cmd \<Rightarrow> (sst, unit) act" where
  "exec_put fuel cmd = exec_putrem fuel MDIR_ADD cmd"

definition exec_rem :: "nat \<Rightarrow> mdir_cmd \<Rightarrow> (sst, unit) act" where
  "exec_rem fuel cmd = exec_putrem fuel MDIR_REM cmd"

text \<open>A user that cannot be loaded leaves the connection without user.\<close>

definition set_user :: "string option \<Rightarrow> (sst, unit) act" where
  "set_user u = upd_env (\<lambda>env. env\<lparr>e_cnx := (e_cnx env)\<lparr>cnx_user := u\<rparr>\<rparr>)"

definition exec_auth :: "mdir_cmd \<Rightarrow> (sst, unit) act" where
  "exec_auth cmd = bnd (attempt (on_auth (mdir_user_load (arg_str cmd 0)))) (\<lambda>r. case r of
     Inl e \<Rightarrow> bnd (set_user None) (\<lambda>_. cleared (answer cmd 500 (err_what e)))
   | Inr u \<Rightarrow> bnd (set_user (Some u)) (\<lambda>_. answer cmd 200 ''OK''))"

definition exec_quit :: "mdir_cmd \<Rightarrow> (sst, unit) act" where
  "exec_quit cmd = bnd (upd_env (\<lambda>env. env\<lparr>e_quit := True\<rparr>)) (\<lambda>_. answer cmd 200 ''OK'')"

section \<open>Serving a connection\<close>

definition service :: "string \<Rightarrow> string \<Rightarrow> nat \<Rightarrow> mdir_cmd_def" where
  "service kw callback n = \<lparr>keyword = kw, cb = callback, nb_arg_min = n, nb_arg_max = n,
     arg_types = replicate n CMD_STRING, negseq = False\<rparr>"

definition services :: "mdir_cmd_def list" where
  "services = [service kw_quit ''exec_quit'' 0, service kw_unsub ''exec_unsub'' 1, service kw_sub ''exec_sub'' 2,
     service kw_rem ''exec_rem'' 1, service kw_put ''exec_put'' 1, service kw_auth ''exec_auth'' 1]"

definition init_syntax :: mdir_syntax where
  "init_syntax = fold (\<lambda>d sy. mdir_syntax_register sy d) services (mdir_syntax_ctor True)"

definition exec_cmd :: "nat \<Rightarrow> mdir_cmd \<Rightarrow> (sst, unit) act" where
  "exec_cmd fuel cmd =
     (let f = cb (c_def cmd) in
      if f = ''exec_quit'' then exec_quit cmd
      else if f = ''exec_unsub'' then exec_unsub cmd
      else if f = ''exec_sub'' then exec_sub fuel cmd
      else if f = ''exec_rem'' then exec_rem fuel cmd
      else if f = ''exec_put'' then exec_put fuel cmd
      else if f = ''exec_auth'' then exec_auth cmd
      else ret ())"

text \<open>Reading one command and executing it.\<close>

definition serve_one :: "nat \<Rightarrow> (sst, unit) act" where
  "serve_one fuel s = (case mdir_cmd_read (cnx_syntax (e_cnx (s_env s))) (e_in (s_env s)) of (r, inp) \<Rightarrow>
     let s = s\<lparr>s_env := (s_env s)\<lparr>e_in := inp\<rparr>\<rparr> in
     case r of
       Done cmd \<Rightarrow> exec_cmd fuel cmd s
     | Raised e \<Rightarrow> Done (s, Inl e)
     | Crash \<Rightarrow> Crash)"

text \<open>The loop, with a bound on its turns; the errors left are cleared when it ends.\<close>

fun serve_cnx :: "nat \<Rightarrow> nat \<Rightarrow> sst \<Rightarrow> sst outcome option" where
  "serve_cnx 0 fuel s = None"
| "serve_cnx (Suc n) fuel s = (case serve_one fuel s of
     Done (s, Inr _) \<Rightarrow>
       if e_quit (s_env s) then Some (Done (s\<lparr>s_env := cnx_env_del (s_env s)\<rparr>)) else serve_cnx n fuel s
   | Done (s, Inl e) \<Rightarrow> Some (Done (s\<lparr>s_env := cnx_env_del (s_env s)\<rparr>))
   | Raised e \<Rightarrow> Some (Raised e)
   | Crash \<Rightarrow> Some Crash)"

section \<open>A command never waits for more than it is sent\<close>

text \<open>Operations that return leave no more to read than they found.\<close>

definition reads_on :: "(sst, 'a) act \<Rightarrow> bool" where
  "reads_on m \<longleftrightarrow> (\<forall>s s' r. m s = Done (s', r) \<longrightarrow> length (e_in (s_env s')) \<le> length (e_in (s_env s)))"

lemma reads_onI: "(\<And>s s' r. m s = Done (s', r) \<Longrightarrow> length (e_in (s_env s')) \<le> length (e_in (s_env s))) \<Longrightarrow> reads_on m"
  by (auto simp: reads_on_def)

lemma reads_onD: "reads_on m \<Longrightarrow> m s = Done (s', r) \<Longrightarrow> length (e_in (s_env s')) \<le> length (e_in (s_env s))"
  by (auto simp: reads_on_def)

interpretation srd: state_order "\<lambda>s s'. length (e_in (s_env s')) \<le> length (e_in (s_env s))"
  by unfold_locales auto

lemma reads_on_within: "reads_on m = within (\<lambda>s s'. length (e_in (s_env s')) \<le> length (e_in (s_env s))) m"
  by (simp add: reads_on_def within_def)

lemma reads_on_bnd: "reads_on m \<Longrightarrow> (\<And>x. reads_on (f x)) \<Longrightarrow> reads_on (bnd m f)"
  unfolding reads_on_within by (rule srd.within_bnd)

lemma reads_on_parts [simp]: "reads_on (on_mst f)" "reads_on (on_cnx g)" "reads_on (on_auth h)"
    "reads_on (ret x)" "reads_on (failure c w)" "reads_on (\<lambda>_. Crash)"
  by (auto simp: reads_on_def on_mst_def on_cnx_def on_auth_def failure_def split: outcome.splits)

lemma reads_on_attempt: "reads_on m \<Longrightarrow> reads_on (attempt m)"
  by (auto simp: reads_on_def attempt_def split: outcome.splits)

lemma reads_on_state: "(\<And>t. reads_on (f t)) \<Longrightarrow> reads_on (\<lambda>s. f s s)"
  by (auto simp: reads_on_def)

lemma reads_on_upd: "(\<And>env. e_in (f env) = e_in env) \<Longrightarrow> reads_on (upd_env f)"
  by (auto simp: reads_on_def upd_env_def)

lemma line_loop_shrinks: "line_loop t cr p m inp = (l, e, inp') \<Longrightarrow> length inp' \<le> length inp"
proof (induction inp arbitrary: t cr)
  case Nil
  then show ?case by (simp add: line_loop.simps [of t cr p m "[]"] split: if_splits)
next
  case (Cons x inp)
  have IH: "line_loop t cr p m inp = (l, e, inp') \<Longrightarrow> length inp' \<le> Suc (length inp)" for t cr
    using Cons.IH le_SucI by blast
  from Cons.prems show ?case
    by (simp add: line_loop.simps [of t cr p m "x # inp"] Let_def split: if_splits rd.splits) (auto dest: IH)
qed

lemma read_line_consumes:
  assumes "read_line t m inp = (l, None, inp')" "0 < m"
  shows "length inp' < length inp"
proof (cases inp)
  case Nil
  with assms show ?thesis by (simp add: read_line_def line_loop.simps [of t False "length t" m "[]"])
next
  case (Cons x rest)
  have "length inp' \<le> length rest"
    using assms Cons
    by (simp add: read_line_def line_loop.simps [of t False "length t" m "x # rest"] Let_def split: if_splits rd.splits)
      (auto dest: line_loop_shrinks)
  with Cons show ?thesis by simp
qed

lemma mdir_cmd_read_consumes: "mdir_cmd_read sy inp = (Done cmd, inp') \<Longrightarrow> length inp' < length inp"
  by (auto simp: mdir_cmd_read_def parse_line_def MAX_CMD_LINE_def PATH_MAX_def split: prod.splits option.splits
      dest: read_line_consumes)

lemma header_read_loop_shrinks: "header_read_loop n vb k inp = (vb', k', b, inp') \<Longrightarrow> length inp' \<le> length inp"
proof (induction n arbitrary: vb k inp)
  case 0
  then show ?case
    by (auto simp: header_read_loop.simps [of 0] read_line_def split: prod.splits option.splits dest: line_loop_shrinks)
next
  case (Suc n)
  obtain l e inp1 where r: "read_line vb MAX_HEADLINE_LENGTH inp = (l, e, inp1)" by (metis prod_cases3)
  then have le: "length inp1 \<le> length inp" by (auto simp: read_line_def dest: line_loop_shrinks)
  from Suc.prems r le show ?case
    by (auto simp: header_read_loop.simps [of "Suc n"] split: option.splits if_splits dest!: Suc.IH)
qed

lemma reads_on_read_header: "reads_on read_header"
proof (rule reads_onI)
  fix s s' r assume "read_header s = Done (s', r)"
  moreover obtain vb k b inp' where h: "header_read_loop MAX_HEADER_LINES [] 0 (e_in (s_env s)) = (vb, k, b, inp')"
    by (metis prod_cases4)
  ultimately have "e_in (s_env s') = inp'"
    by (auto simp: read_header_def header_read_def obind_def split: outcome.splits if_splits option.splits)
  then show "length (e_in (s_env s')) \<le> length (e_in (s_env s))" using header_read_loop_shrinks [OF h] by simp
qed

lemma reads_on_if: "reads_on m \<Longrightarrow> reads_on m' \<Longrightarrow> reads_on (if b then m else m')"
  by simp

lemma reads_on_allowed [simp]: "reads_on (allowed f)"
  by (simp add: allowed_def)

lemma reads_on_answer [simp]: "reads_on (answer cmd st txt)" "reads_on (cleared (answer cmd st txt))"
  by (auto simp: answer_def cleared_def intro!: reads_on_bnd reads_on_attempt)

lemmas reads_on_intros = reads_on_bnd reads_on_attempt reads_on_upd

lemma reads_on_may_patch [simp]: "reads_on (may_patch fuel h u ps)"
  by (auto simp: may_patch_def intro!: reads_on_intros)

lemma reads_on_set_default_perms [simp]: "reads_on (set_default_perms mp u)"
  by (auto simp: set_default_perms_def intro!: reads_on_intros)

lemma reads_on_child: "reads_on (bnd (attempt (on_mst f)) (\<lambda>r. case r of
    Inl e \<Rightarrow> (\<lambda>_. Crash) | Inr child \<Rightarrow> bnd (set_default_perms child u) (\<lambda>_. ret v)))"
  by (intro reads_on_intros) (auto intro!: reads_on_intros split: sum.split)

lemma reads_on_add_header: "reads_on (add_header fuel dir h a u)"
proof -
  let ?K = "\<lambda>mp ok. if \<not> ok then failure 0 ''No permission''
       else let is_new_dir = header_is_directory h \<and> field_value h SC_DIRID_FIELD = None in
         if field_value h SC_USER_FIELD \<noteq> None then failure 0 ''Header already has username''
         else case u of
           None \<Rightarrow> (\<lambda>_. Crash)
         | Some u \<Rightarrow>
             bnd (on_mst (mdir_patch mp a (header_field_new h SC_USER_FIELD u) 0)) (\<lambda>(v, h').
               if \<not> is_new_dir then ret v
               else case field_value h' SC_NAME_FIELD of
                 None \<Rightarrow> (\<lambda>_. Crash)
               | Some nm \<Rightarrow> bnd (attempt (on_mst (mdir_lookup (snpath (dir @ ''/'' @ nm))))) (\<lambda>r. case r of
                    Inl e \<Rightarrow> (\<lambda>_. Crash)
                  | Inr child \<Rightarrow> bnd (set_default_perms child u) (\<lambda>_. ret v)))"
  have K: "reads_on (?K mp ok)" for mp ok
    by (auto simp: Let_def split: option.split intro!: reads_on_bnd reads_on_child)
  have "reads_on (\<lambda>s. bnd (may_patch fuel h u (permissions (mdir_at (s_mst s) mp))) (?K mp) s)" for mp
    by (rule reads_on_state [of "\<lambda>t. bnd (may_patch fuel h u (permissions (mdir_at (s_mst t) mp))) (?K mp)"])
      (intro reads_on_bnd reads_on_may_patch K)
  then show ?thesis unfolding add_header_def by (intro reads_on_bnd reads_on_parts)
qed

lemma reads_on_putrem: "reads_on (exec_putrem fuel a cmd)"
proof -
  have "reads_on (\<lambda>s. add_header fuel (arg_str cmd 0) h a (env_user s) s)" for h
    by (rule reads_on_state [of "\<lambda>t. add_header fuel (arg_str cmd 0) h a (env_user t)"]) (rule reads_on_add_header)
  then have "reads_on (attempt (bnd read_header (\<lambda>h s. add_header fuel (arg_str cmd 0) h a (env_user s) s)))"
    by (intro reads_on_attempt reads_on_bnd reads_on_read_header)
  then show ?thesis unfolding exec_putrem_def by (intro reads_on_bnd) (auto split: sum.split)
qed

lemma reads_on_find: "reads_on (subscription_find dir)"
proof -
  have "reads_on (\<lambda>s. Done (s, Inr (sub_index mp (e_subs (s_env s)))))" for mp by (auto simp: reads_on_def)
  then show ?thesis unfolding subscription_find_def by (intro reads_on_bnd reads_on_parts)
qed

lemma reads_on_new: "reads_on (subscription_new fuel dir v)"
proof -
  have u: "reads_on (upd_env (\<lambda>env. env\<lparr>e_subs := f env\<rparr>))" for f by (rule reads_on_upd) simp
  have "reads_on (\<lambda>s. bnd (allowed (mdir_user_can_read fuel (env_user s) (permissions (mdir_at (s_mst s) mp)))) (\<lambda>ok.
       if \<not> ok then failure 0 ''No read permission''
       else upd_env (\<lambda>env. env\<lparr>e_subs :=
         subscription_reset_version \<lparr>sub_mdir = mp, sub_version = v\<rparr> v # e_subs env\<rparr>)) s)" for mp
    by (rule reads_on_state [of "\<lambda>t. bnd (allowed (mdir_user_can_read fuel (env_user t) (permissions (mdir_at (s_mst t) mp)))) _"])
      (rule reads_on_bnd, auto intro: u)
  then show ?thesis unfolding subscription_new_def subscription_ctor_def by (intro reads_on_bnd reads_on_parts)
qed

lemma reads_on_exec: "reads_on (exec_cmd fuel cmd)"
proof -
  have u: "reads_on (upd_env (\<lambda>env. env\<lparr>e_subs := f env\<rparr>))" for f by (rule reads_on_upd) simp
  have "reads_on (\<lambda>s. Done (s, Inl e))" for e :: err by (auto simp: reads_on_def)
  then have "reads_on (exec_unsub cmd)"
    unfolding exec_unsub_def subscription_del_def
    by (intro reads_on_bnd reads_on_attempt reads_on_find)
      (auto split: sum.split option.split intro!: reads_on_bnd reads_on_attempt u)
  moreover have "reads_on (exec_sub fuel cmd)"
    unfolding exec_sub_def Let_def
    by (auto split: sum.split option.split intro!: reads_on_bnd reads_on_attempt reads_on_find reads_on_new u)
  moreover have "reads_on (exec_auth cmd)" "reads_on (exec_quit cmd)"
    unfolding exec_auth_def exec_quit_def set_user_def
    by (auto split: sum.split intro!: reads_on_bnd reads_on_attempt reads_on_upd)
  ultimately show ?thesis
    using reads_on_putrem by (auto simp: exec_cmd_def Let_def exec_put_def exec_rem_def)
qed

text \<open>C8. Serving a connection ends: whatever the client sends, a number of turns greater than
  the number of bytes it sends (with the errors of the socket) is enough for the loop to end,
  each turn reading at least one byte or ending on the end of file.\<close>

theorem serve_cnx_ends:
  assumes "length (e_in (s_env s)) < n"
  shows "serve_cnx n fuel s \<noteq> None"
  using assms
proof (induction n arbitrary: s)
  case (Suc n)
  obtain r inp where c: "mdir_cmd_read (cnx_syntax (e_cnx (s_env s))) (e_in (s_env s)) = (r, inp)" by fastforce
  show ?case
  proof (cases "serve_one fuel s")
    case (Done x)
    obtain s' q where x: "x = (s', q)" by (cases x)
    show ?thesis
    proof (cases q)
      case (Inr u)
      then obtain cmd where cmd: "r = Done cmd" using Done x c by (auto simp: serve_one_def Let_def split: outcome.splits)
      let ?s = "s\<lparr>s_env := (s_env s)\<lparr>e_in := inp\<rparr>\<rparr>"
      have "exec_cmd fuel cmd ?s = Done (s', q)" using Done x c cmd by (simp add: serve_one_def Let_def)
      then have "length (e_in (s_env s')) \<le> length inp" using reads_onD [OF reads_on_exec] by fastforce
      moreover have "length inp < length (e_in (s_env s))" using mdir_cmd_read_consumes c cmd by simp
      ultimately have "serve_cnx n fuel s' \<noteq> None" using Suc by auto
      with Done x Inr show ?thesis by simp
    qed (use Done x in simp)
  qed simp_all
qed simp

theorem serve_cnx_ends_witness:
  "serve_cnx 4 9 \<lparr>s_mst = st_sample, s_auth = au_sample, s_env = cnx_env_new init_syntax (map Got ''a b'')\<rparr> \<noteq> None"
  by (rule serve_cnx_ends) (simp add: cnx_env_new_def)

section \<open>Permissions to patch\<close>

text \<open>The permission checks of the server decide as the specification of access does.\<close>

definition grants_admin :: "(string \<Rightarrow> header option) \<Rightarrow> header option \<Rightarrow> string option \<Rightarrow> header option \<Rightarrow> bool" where
  "grants_admin H d user perms = access (member H user) perms d SC_ALLOW_ADMIN_FIELD SC_DENY_ADMIN_FIELD"

definition grants_write :: "(string \<Rightarrow> header option) \<Rightarrow> header option \<Rightarrow> string option \<Rightarrow> header option \<Rightarrow> bool" where
  "grants_write H d user perms \<longleftrightarrow>
     access (member H user) perms d SC_ALLOW_WRITE_FIELD SC_DENY_WRITE_FIELD \<or> grants_admin H d user perms"

text \<open>The users that a folder's permissions and the default ones name are known, with enough fuel.\<close>

definition perms_known :: "(string \<Rightarrow> header option) \<Rightarrow> header option \<Rightarrow> string set \<Rightarrow> nat \<Rightarrow> header option \<Rightarrow> auth \<Rightarrow> bool" where
  "perms_known H d N fuel perms au \<longleftrightarrow> closed_in H N \<and> card N < fuel \<and>
     auth_ok H d (3 * (perm_size perms + perm_size d)) au \<and>
     names_ok N SC_ALLOW_WRITE_FIELD SC_DENY_WRITE_FIELD perms \<and> names_ok N SC_ALLOW_WRITE_FIELD SC_DENY_WRITE_FIELD d \<and>
     names_ok N SC_ALLOW_ADMIN_FIELD SC_DENY_ADMIN_FIELD perms \<and> names_ok N SC_ALLOW_ADMIN_FIELD SC_DENY_ADMIN_FIELD d"

lemma may_patch_decides:
  assumes "perms_known H d N fuel perms (s_auth s)"
  shows "\<exists>au. may_patch fuel h user perms s = Done (s\<lparr>s_auth := au\<rparr>,
    Inr ((header_has_type h SC_PERM_TYPE \<longrightarrow> grants_admin H d user perms) \<and> grants_write H d user perms))"
proof -
  let ?s = "perm_size perms + perm_size d"
  from assms have k: "closed_in H N" "card N < fuel"
    "names_ok N SC_ALLOW_WRITE_FIELD SC_DENY_WRITE_FIELD perms" "names_ok N SC_ALLOW_WRITE_FIELD SC_DENY_WRITE_FIELD d"
    "names_ok N SC_ALLOW_ADMIN_FIELD SC_DENY_ADMIN_FIELD perms" "names_ok N SC_ALLOW_ADMIN_FIELD SC_DENY_ADMIN_FIELD d"
    and a: "auth_ok H d (?s + (2 * ?s + 0)) (s_auth s)" by (auto simp: perms_known_def)
  have w: "\<exists>au'. mdir_user_can_write fuel user perms au = Some (Done (au', grants_write H d user perms))"
    if "auth_ok H d (2 * ?s + 0) au" for au
    using or_admin_access [OF k(1,2) that k(3-6), of user]
    by (auto simp: mdir_user_can_write_def grants_write_def grants_admin_def)
  show ?thesis
  proof (cases "header_has_type h SC_PERM_TYPE")
    case False
    obtain au where "mdir_user_can_write fuel user perms (s_auth s) = Some (Done (au, grants_write H d user perms))"
      using w [of "s_auth s"] auth_ok_mono [OF a] by auto
    with False show ?thesis by (auto simp: may_patch_def allowed_def on_auth_def)
  next
    case True
    obtain au1 where 1: "mdir_user_can_admin fuel user perms (s_auth s) = Some (Done (au1, grants_admin H d user perms))"
      "auth_ok H d (2 * ?s + 0) au1"
      using check_perms_access [OF k(1,2) a k(5,6), of user] by (auto simp: mdir_user_can_admin_def grants_admin_def)
    obtain au2 where 2: "mdir_user_can_write fuel user perms au1 = Some (Done (au2, grants_write H d user perms))"
      using w [OF 1(2)] by blast
    show ?thesis
    proof (cases "grants_admin H d user perms")
      case adm: True
      with True 1 2 show ?thesis by (auto simp: may_patch_def allowed_def on_auth_def bnd_def)
    next
      case False
      with True 1 show ?thesis by (auto simp: may_patch_def allowed_def on_auth_def bnd_def)
    qed
  qed
qed

lemma read_header_done:
  assumes "header_read header_new (e_in (s_env s)) = Done ((h, None), inp)"
  shows "read_header s = Done (s\<lparr>s_env := (s_env s)\<lparr>e_in := inp\<rparr>\<rparr>, Inr h)"
  using assms by (simp add: read_header_def)

lemma on_mst_done: "f (s_mst s) = Done (m, r) \<Longrightarrow> on_mst f s = Done (s\<lparr>s_mst := m\<rparr>, r)"
  by (simp add: on_mst_def)

lemma attempt_done: "m s = Done (s', r) \<Longrightarrow> attempt m s = Done (s', Inr r)"
  by (simp add: attempt_def)

lemma plain_with_user: "plain_header h \<Longrightarrow> plain_header (header_field_new h SC_USER_FIELD u)"
proof -
  have "field_value (header_field_new h SC_USER_FIELD u) SC_TYPE_FIELD = field_value h SC_TYPE_FIELD"
    by (simp add: field_value_hd fields_named_new) code_simp
  then show "plain_header h \<Longrightarrow> plain_header (header_field_new h SC_USER_FIELD u)"
    by (simp add: plain_header_def header_has_type_def header_is_directory_def)
qed

lemma add_header_denied:
  assumes "mdir_lookup dir (s_mst s) = Done (m, Inr mp)" "perms = permissions (mdir_at m mp)"
    "perms_known H d N fuel perms (s_auth s)"
    "\<not> grants_write H d user perms \<or> (header_has_type h SC_PERM_TYPE \<and> \<not> grants_admin H d user perms)"
  shows "\<exists>au. add_header fuel dir h a user s = Done (s\<lparr>s_mst := m, s_auth := au\<rparr>, Inl (Err 0 ''No permission''))"
proof -
  let ?s = "s\<lparr>s_mst := m\<rparr>"
  have l: "on_mst (mdir_lookup dir) s = Done (?s, Inr mp)" using on_mst_done [of "mdir_lookup dir"] assms(1) by simp
  obtain au where "may_patch fuel h user perms ?s = Done (?s\<lparr>s_auth := au\<rparr>, Inr False)"
    using may_patch_decides [of H d N fuel perms ?s h user] assms(3,4) by auto
  with l assms(2) show ?thesis by (intro exI [of _ au]) (simp add: add_header_def bnd_def failure_def)
qed

lemma add_header_granted:
  assumes "mdir_lookup dir (s_mst s) = Done (m, Inr mp)" "perms = permissions (mdir_at m mp)"
    "perms_known H d N fuel perms (s_auth s)" "grants_write H d (Some u) perms"
    "plain_header h" "field_value h SC_USER_FIELD = None"
    "mdir_patch mp a (header_field_new h SC_USER_FIELD u) 0 m = Done (m', Inr (v, h'))"
  shows "\<exists>au. add_header fuel dir h a (Some u) s = Done (s\<lparr>s_mst := m', s_auth := au\<rparr>, Inr v)"
proof -
  let ?s = "s\<lparr>s_mst := m\<rparr>"
  have l: "on_mst (mdir_lookup dir) s = Done (?s, Inr mp)" using on_mst_done [of "mdir_lookup dir"] assms(1) by simp
  obtain au where 1: "may_patch fuel h (Some u) perms ?s = Done (?s\<lparr>s_auth := au\<rparr>, Inr True)"
    using may_patch_decides [of H d N fuel perms ?s h "Some u"] assms(3-5) by (auto simp: plain_header_def)
  have 2: "on_mst (mdir_patch mp a (header_field_new h SC_USER_FIELD u) 0) (?s\<lparr>s_auth := au\<rparr>) =
      Done (?s\<lparr>s_auth := au, s_mst := m'\<rparr>, Inr (v, h'))"
    using on_mst_done [of "mdir_patch mp a (header_field_new h SC_USER_FIELD u) 0" "?s\<lparr>s_auth := au\<rparr>"] assms(7) by simp
  have "\<not> header_is_directory h" using assms(5) by (simp add: plain_header_def)
  moreover have "s\<lparr>s_auth := au, s_mst := m'\<rparr> = s\<lparr>s_mst := m', s_auth := au\<rparr>" by simp
  ultimately show ?thesis
    using l 1 2 assms(2,6) by (intro exI [of _ au]) (simp add: add_header_def bnd_def)
qed

lemma exec_putrem_steps:
  assumes "header_read header_new (e_in (s_env s)) = Done ((h, None), inp)"
    "add_header fuel (arg_str cmd 0) h a (env_user s) (s\<lparr>s_env := (s_env s)\<lparr>e_in := inp\<rparr>\<rparr>) = Done (s', r)"
  shows "exec_putrem fuel a cmd s = (case r of
    Inl e \<Rightarrow> cleared (answer cmd 502 (err_what e)) s' | Inr v \<Rightarrow> cleared (answer cmd 200 (mdir_version2str v)) s')"
proof -
  have "bnd read_header (\<lambda>h s. add_header fuel (arg_str cmd 0) h a (env_user s) s) s = Done (s', r)"
    using read_header_done [OF assms(1)] assms(2) by (simp add: bnd_def)
  then have "attempt (bnd read_header (\<lambda>h s. add_header fuel (arg_str cmd 0) h a (env_user s) s)) s = Done (s', Inr r)"
    by (simp add: attempt_def)
  then show ?thesis by (cases r) (simp_all add: exec_putrem_def)
qed

section \<open>Properties\<close>

text \<open>C5. Nothing is written without permission: when the user of the connection, if any, has
  neither the permission to write nor to administrate a folder, or when the header sent holds
  permissions and the user may not administrate, a \<open>put\<close> or a \<open>rem\<close> for that folder is answered 502
  and the state of all folders is left as the lookup of the folder left it; users, subscriptions
  and the rest of the connection are untouched.\<close>

theorem put_needs_permission:
  assumes "header_read header_new (e_in (s_env s)) = Done ((h, None), inp)"
    "mdir_lookup (arg_str cmd 0) (s_mst s) = Done (m, Inr mp)" "perms = permissions (mdir_at m mp)"
    "perms_known H d N fuel perms (s_auth s)"
    "\<not> grants_write H d (env_user s) perms \<or>
       (header_has_type h SC_PERM_TYPE \<and> \<not> grants_admin H d (env_user s) perms)"
  shows "\<exists>au. exec_putrem fuel action cmd s = cleared (answer cmd 502 ''No permission'')
    (s\<lparr>s_env := (s_env s)\<lparr>e_in := inp\<rparr>, s_mst := m, s_auth := au\<rparr>)"
proof -
  let ?s = "s\<lparr>s_env := (s_env s)\<lparr>e_in := inp\<rparr>\<rparr>"
  obtain au where "add_header fuel (arg_str cmd 0) h action (env_user s) ?s =
      Done (?s\<lparr>s_mst := m, s_auth := au\<rparr>, Inl (Err 0 ''No permission''))"
    using add_header_denied [of "arg_str cmd 0" ?s m mp perms H d N fuel "env_user s" h] assms(2-5) by auto
  with exec_putrem_steps [OF assms(1)] show ?thesis by (intro exI [of _ au]) simp
qed

definition st_root :: "header option \<Rightarrow> mst" where
  "st_root perms = st_sample\<lparr>m_fs := fs_empty\<lparr>ents := [([''m''], Dir), ([''m'', ''root''], Dir)]\<rparr>,
     m_store := (\<lambda>_. \<lparr>mpath = ''/m/root'', jnls = [], permissions = perms\<rparr>)\<rparr>"

definition srv_sample :: "header option \<Rightarrow> string option \<Rightarrow> input \<Rightarrow> sst" where
  "srv_sample perms user inp = \<lparr>s_mst = st_root perms, s_auth = au_sample,
     s_env = (cnx_env_new init_syntax inp)\<lparr>e_cnx := (mdir_cnx_ctor_inbound init_syntax)\<lparr>cnx_user := user\<rparr>\<rparr>\<rparr>"

definition cmd_put_sample :: mdir_cmd where
  "cmd_put_sample = \<lparr>c_def = service kw_put ''exec_put'' 1, c_seq = 3, c_args = [ArgStr ''/'']\<rparr>"

definition deny_all :: header where
  "deny_all = header_field_new (header_field_new header_new SC_DENY_WRITE_FIELD ''*'') SC_DENY_ADMIN_FIELD ''*''"

lemma st_root_ok: "folder_ok (st_root perms) 0 []"
proof -
  have c: "comps ''/m/root'' = [''m'', ''root'']" by (simp add: comps_def)
  have "real_dir (m_fs (st_root perms)) ''/m/root''"
    by (auto simp: real_dir_def c node_at_def st_root_def le_Suc_eq)
  then show ?thesis
    by (simp add: folder_ok_def folder_rep_def files_ok_def no_stray_def st_root_def c st_sample_def
        node_at_def fs_empty_def PATH_MAX_def)
qed

lemma st_root_lookup: "mdir_lookup ''/'' (st_root perms) = Done (st_root perms, Inr 0)"
  by (simp add: mdir_lookup_def mdir_lookup_by_id_def st_root_def st_sample_def mdir_id_def)

lemma h_sample_read: "header_read header_new (map Got (header_dump h_sample)) = Done ((h_sample, None), [])"
proof -
  have "readable h_sample" by code_simp
  from header_read_dump_lemma [OF this, of header_new "[]"] show ?thesis by (simp add: header_new_def h_sample_def)
qed

lemma perms_known_sample:
  assumes "perm_size perms \<le> 10"
    "names_ok {''admin'', ''staff'', ''bob'', ''*''} SC_ALLOW_WRITE_FIELD SC_DENY_WRITE_FIELD perms"
    "names_ok {''admin'', ''staff'', ''bob'', ''*''} SC_ALLOW_ADMIN_FIELD SC_DENY_ADMIN_FIELD perms"
  shows "perms_known (header_of au_sample) (Some default_header) {''admin'', ''staff'', ''bob'', ''*''} 5 perms au_sample"
proof -
  have "default_perms au_sample = Some default_header" by (simp add: au_sample_def)
  moreover have "perm_size (Some default_header) = 4" by code_simp
  ultimately show ?thesis
    using assms closed_sample tags_sample names_sample(3,4) by (simp add: perms_known_def auth_ok_def)
qed

theorem put_needs_permission_witness:
  "\<exists>au. exec_putrem 5 MDIR_ADD cmd_put_sample (srv_sample (Some deny_all) None (map Got (header_dump h_sample))) =
     cleared (answer cmd_put_sample 502 ''No permission'')
       ((srv_sample (Some deny_all) None [])\<lparr>s_mst := st_root (Some deny_all), s_auth := au\<rparr>)"
proof -
  let ?s = "srv_sample (Some deny_all) None (map Got (header_dump h_sample))"
  have in1: "header_read header_new (e_in (s_env ?s)) = Done ((h_sample, None), [])"
    using h_sample_read by (simp add: srv_sample_def cnx_env_new_def)
  have arg: "arg_str cmd_put_sample 0 = ''/''" by (simp add: arg_str_def cmd_put_sample_def)
  have lk: "mdir_lookup (arg_str cmd_put_sample 0) (s_mst ?s) = Done (st_root (Some deny_all), Inr 0)"
    using st_root_lookup by (simp add: arg srv_sample_def)
  have pm: "Some deny_all = permissions (mdir_at (st_root (Some deny_all)) 0)" by (simp add: st_root_def)
  have "names_ok {''admin'', ''staff'', ''bob'', ''*''} SC_ALLOW_WRITE_FIELD SC_DENY_WRITE_FIELD (Some deny_all)"
    "names_ok {''admin'', ''staff'', ''bob'', ''*''} SC_ALLOW_ADMIN_FIELD SC_DENY_ADMIN_FIELD (Some deny_all)"
    "perm_size (Some deny_all) \<le> 10" by code_simp+
  then have kn: "perms_known (header_of au_sample) (Some default_header) {''admin'', ''staff'', ''bob'', ''*''} 5
      (Some deny_all) (s_auth ?s)" using perms_known_sample by (simp add: srv_sample_def)
  have star: "member H user ''*''" for H user by (intro member_hit) (simp add: hit_def)
  have fields: "map (\<lambda>hf. (hf_name hf, hf_value hf)) (h_fields deny_all) = [(''sc-deny-write'', ''*''), (''sc-deny-admin'', ''*'')]"
    by code_simp
  then have "\<not> grants_write (header_of au_sample) (Some default_header) (env_user ?s) (Some deny_all)"
    using star by (auto simp: grants_write_def grants_admin_def access_def map_eq_Cons_conv sc_names)
  with put_needs_permission [OF in1 lk pm kn, of MDIR_ADD] show ?thesis by (auto simp: srv_sample_def cnx_env_new_def)
qed

text \<open>C6. What a user may write is logged: with the permission to write, a \<open>put\<close> of a header that
  is neither a subfolder, nor permissions, nor a mark and does not name its user is answered
  200 with the next version of the folder, and the log of the folder gets exactly one more
  entry, the header with the name of the user added.\<close>

theorem put_logged:
  assumes "header_read header_new (e_in (s_env s)) = Done ((h, None), inp)"
    "mdir_lookup (arg_str cmd 0) (s_mst s) = Done (m, Inr mp)" "perms = permissions (mdir_at m mp)"
    "perms_known H d N fuel perms (s_auth s)" "env_user s = Some u" "grants_write H d (Some u) perms"
    "plain_header h" "field_value h SC_USER_FIELD = None" "folder_ok m mp ess"
    "log_fits (concat ess) [(CHR ''+'', h_fields (header_field_new h SC_USER_FIELD u))]"
  shows "\<exists>au m' ess'. exec_put fuel cmd s =
      cleared (answer cmd 200 (mdir_version2str (1 + int (length (concat ess)))))
        (s\<lparr>s_env := (s_env s)\<lparr>e_in := inp\<rparr>, s_mst := m', s_auth := au\<rparr>) \<and>
    folder_ok m' mp ess' \<and>
    concat ess' = concat ess @ [(CHR ''+'', h_fields (header_field_new h SC_USER_FIELD u))]"
proof -
  let ?s = "s\<lparr>s_env := (s_env s)\<lparr>e_in := inp\<rparr>\<rparr>" and ?h = "header_field_new h SC_USER_FIELD u"
  obtain m' ess' where p: "mdir_patch mp MDIR_ADD ?h 0 m = Done (m', Inr (1 + int (length (concat ess)), ?h))"
    "folder_ok m' mp ess'" "concat ess' = concat ess @ [(CHR ''+'', h_fields ?h)]"
    using patch_add_ok [OF assms(9) plain_with_user [OF assms(7)], of 0 u] assms(10) by auto
  obtain au where "add_header fuel (arg_str cmd 0) h MDIR_ADD (Some u) ?s =
      Done (?s\<lparr>s_mst := m', s_auth := au\<rparr>, Inr (1 + int (length (concat ess))))"
    using add_header_granted [of "arg_str cmd 0" ?s m mp perms H d N fuel u h MDIR_ADD m'] assms(2-8) p(1) by auto
  with exec_putrem_steps [OF assms(1), of fuel cmd MDIR_ADD] assms(5) p(2,3) show ?thesis
    by (intro exI [of _ au] exI [of _ m'] exI [of _ ess']) (simp add: exec_put_def)
qed

theorem put_logged_witness:
  "\<exists>au m' ess'. exec_put 5 cmd_put_sample (srv_sample None (Some ''bob'') (map Got (header_dump h_sample))) =
      cleared (answer cmd_put_sample 200 ''1'') ((srv_sample None (Some ''bob'') [])\<lparr>s_mst := m', s_auth := au\<rparr>) \<and>
    folder_ok m' 0 ess' \<and> concat ess' = [(CHR ''+'', h_fields (header_field_new h_sample SC_USER_FIELD ''bob''))]"
proof -
  let ?s = "srv_sample None (Some ''bob'') (map Got (header_dump h_sample))"
  have in1: "header_read header_new (e_in (s_env ?s)) = Done ((h_sample, None), [])"
    using h_sample_read by (simp add: srv_sample_def cnx_env_new_def)
  have arg: "arg_str cmd_put_sample 0 = ''/''" by (simp add: arg_str_def cmd_put_sample_def)
  have lk: "mdir_lookup (arg_str cmd_put_sample 0) (s_mst ?s) = Done (st_root None, Inr 0)"
    using st_root_lookup by (simp add: arg srv_sample_def)
  have pm: "None = permissions (mdir_at (st_root None) 0)" by (simp add: st_root_def)
  have kn: "perms_known (header_of au_sample) (Some default_header) {''admin'', ''staff'', ''bob'', ''*''} 5 None (s_auth ?s)"
    using perms_known_sample [of None] by (simp add: srv_sample_def perm_size_def names_ok_def)
  have us: "env_user ?s = Some ''bob''" by (simp add: srv_sample_def)
  have "map (\<lambda>hf. (hf_name hf, hf_value hf)) (h_fields default_header) =
      [(''sc-allow-read'', ''*''), (''sc-deny-write'', ''*''), (''sc-allow-admin'', ''admin''), (''sc-deny-admin'', ''*'')]"
    by code_simp
  then have gr: "grants_write (header_of au_sample) (Some default_header) (Some ''bob'') None"
    using member_sample by (auto simp: grants_write_def grants_admin_def access_def map_eq_Cons_conv sc_names)
  have hu: "field_value h_sample SC_USER_FIELD = None" by code_simp
  have "entry_ok (CHR ''+'', h_fields (header_field_new h_sample SC_USER_FIELD ''bob''))"
    "length (log_text [(CHR ''+'', h_fields (header_field_new h_sample SC_USER_FIELD ''bob''))]) < 1000" by code_simp+
  then have fit: "log_fits (concat []) [(CHR ''+'', h_fields (header_field_new h_sample SC_USER_FIELD ''bob''))]"
    by (simp add: log_fits_def)
  have one: "mdir_version2str (1 + int (length (concat []))) = ''1''" by code_simp
  show ?thesis
    using put_logged [OF in1 lk pm kn us gr h_sample_plain hu st_root_ok fit] one
    by (simp add: srv_sample_def cnx_env_new_def)
qed

section \<open>Subscriptions\<close>

lemma last_version_rep:
  assumes "folder_rep fs (jnls m) ess"
  shows "mdir_last_version m = int (length (concat ess))"
proof (cases "jnls m = []")
  case True
  with folder_rep_length [OF assms] show ?thesis by (simp add: mdir_last_version_def)
next
  case False
  then have k: "length (jnls m) - 1 < length (jnls m)" by simp
  with False folder_repD(2,3) [OF assms k] concat_take_last [of "length (jnls m) - 1" ess] folder_rep_length [OF assms]
  show ?thesis by (simp add: mdir_last_version_def last_conv_nth)
qed

lemma find_filter: "find P xs = (case filter P xs of [] \<Rightarrow> None | x # _ \<Rightarrow> Some x)"
  by (induction xs) auto

lemma next_live_from: "next_live es n = (case live_from es n of [] \<Rightarrow> None
    | i # _ \<Rightarrow> Some (entry_header (es ! i), 1 + int i, entry_action (es ! i)))"
  by (simp add: next_live_def live_from_def find_filter split: list.split)

lemma live_from_Cons: "live_from es n = i # is \<Longrightarrow> n \<le> i \<and> i < length es \<and> entry_live (es ! i) \<and> live_from es (Suc i) = is"
proof (induction "length es - n" arbitrary: n)
  case 0
  then show ?case by (simp add: live_from_def)
next
  case (Suc x)
  then have n: "n < length es" by simp
  show ?case
  proof (cases "entry_live (es ! n)")
    case True
    with Suc.prems live_from_step [OF n] n show ?thesis by auto
  next
    case False
    with Suc.prems live_from_step [OF n] have l: "live_from es (Suc n) = i # is" by simp
    have "x = length es - Suc n" using Suc.hyps(2) by simp
    from Suc.hyps(1) [OF this l] show ?thesis by simp
  qed
qed

text \<open>The bytes sent for the live entries of a log from a version on.\<close>

fun feed :: "string \<Rightarrow> entry list \<Rightarrow> nat \<Rightarrow> nat list \<Rightarrow> string" where
  "feed did es n [] = []"
| "feed did es n (i # is) = patch_line did (int n) (1 + int i) (entry_action (es ! i)) @
     header_dump (entry_header (es ! i)) @ feed did es (Suc i) is"

fun turns :: "nat \<Rightarrow> nat \<Rightarrow> (sst, unit) act" where
  "turns 0 k = ret ()"
| "turns (Suc t) k = bnd (subscription_thread k) (\<lambda>_. turns t k)"

definition sent :: "nat \<Rightarrow> string \<Rightarrow> mdir_version \<Rightarrow> sst \<Rightarrow> sst" where
  "sent k txt v s = s\<lparr>s_env := (s_env s)\<lparr>e_cnx := (e_cnx (s_env s))\<lparr>sock_out := sock_out (e_cnx (s_env s)) @ txt\<rparr>,
     e_subs := (e_subs (s_env s))[k := (e_subs (s_env s) ! k)\<lparr>sub_version := v\<rparr>]\<rparr>\<rparr>"

lemma dec_int_length: "0 \<le> v \<Longrightarrow> v < 2 ^ 63 \<Longrightarrow> length (dec_int v) \<le> 19"
  using length_dec_nat [where n = "nat v" and k = 19] by (simp add: dec_int_def)

text \<open>A subscription to a folder in use, on a connection that works.\<close>

definition sub_ok :: "sst \<Rightarrow> nat \<Rightarrow> nat \<Rightarrow> entry list list \<Rightarrow> nat \<Rightarrow> bool" where
  "sub_ok s k mp ess n \<longleftrightarrow> k < length (e_subs (s_env s)) \<and> e_subs (s_env s) ! k = \<lparr>sub_mdir = mp, sub_version = int n\<rparr> \<and>
     folder_ok (s_mst s) mp ess \<and> n \<le> length (concat ess) \<and> int (length (concat ess)) < 2 ^ 63 \<and>
     broken (e_cnx (s_env s)) = None"

lemma sent_ok: "sub_ok s k mp ess n \<Longrightarrow> m \<le> length (concat ess) \<Longrightarrow> sub_ok (sent k txt (int m) s) k mp ess m"
  by (auto simp: sub_ok_def sent_def)

lemma sent_mst [simp]: "s_mst (sent k txt v s) = s_mst s"
  by (simp add: sent_def)

lemma sent_sent: "k < length (e_subs (s_env s)) \<Longrightarrow> sent k t2 v2 (sent k t1 v1 s) = sent k (t1 @ t2) v2 s"
  by (simp add: sent_def)

lemma subscription_turn:
  assumes ok: "sub_ok s k mp ess n" and l: "live_from (concat ess) n = i # is"
    and did: "did = mdir_id (s_mst s) (mdir_at (s_mst s) mp)"
  shows "subscription_thread k s = Done (sent k (feed did (concat ess) n [i]) (1 + int i) s, Inr ())"
proof -
  let ?es = "concat ess" and ?m = "mdir_at (s_mst s) mp"
  from ok have k: "k < length (e_subs (s_env s))" "e_subs (s_env s) ! k = \<lparr>sub_mdir = mp, sub_version = int n\<rparr>"
    and f: "folder_ok (s_mst s) mp ess" and br: "broken (e_cnx (s_env s)) = None" by (auto simp: sub_ok_def)
  have rep: "folder_rep (m_fs (s_mst s)) (jnls ?m) ess" using f by (simp add: folder_ok_def)
  from live_from_Cons [OF l] have i: "n \<le> i" "i < length ?es" by auto
  have need: "client_needs_patch s (e_subs (s_env s) ! k)"
    using i last_version_rep [OF rep] by (simp add: client_needs_patch_def k(2))
  have rd: "mdir_read_next (m_fs (s_mst s)) (jnls ?m) (int n) =
      Done (Some (entry_header (?es ! i), 1 + int i, entry_action (?es ! i)), None)"
    using mdir_read_next_rep [OF rep, of n] by (simp add: next_live_from l)
  have "length (mpath ?m) + 25 < PATH_MAX" using f by (simp add: folder_ok_def files_ok_def)
  then have "length did \<le> PATH_MAX - 26" by (simp add: did mdir_id_def)
  moreover have "length (dec_int (int n)) \<le> 19" "length (dec_int (1 + int i)) \<le> 19"
    using dec_int_length [of "int n"] dec_int_length [of "1 + int i"] i ok by (auto simp: sub_ok_def)
  moreover have "length (mdir_action2str (entry_action (?es ! i))) = 1"
    by (cases "entry_action (?es ! i)") (simp_all add: mdir_action2str_def)
  ultimately have len: "length (patch_line did (int n) (1 + int i) (entry_action (?es ! i))) < 5 + 1 + PATH_MAX + 1 + 20 + 1 + 20 + 1 + 1 + 1"
    by (simp add: patch_line_def PATH_MAX_def)
  have "send_next_patch k s = Done (sent k (feed did ?es n [i]) (1 + int i) s, Inr ())"
    using rd len br k
    by (simp add: send_next_patch_def send_patch_def did [symmetric] bnd_def on_cnx_def cnx_write_def upd_env_def sent_def)
  with need show ?thesis by (simp add: subscription_thread_def attempt_def)
qed

lemma turns_feed:
  assumes "sub_ok s k mp ess n" "live_from (concat ess) n = is" "did = mdir_id (s_mst s) (mdir_at (s_mst s) mp)"
  shows "turns (length is) k s =
    Done (sent k (feed did (concat ess) n is) (if is = [] then int n else 1 + int (last is)) s, Inr ())"
  using assms
proof (induction "is" arbitrary: s n)
  case Nil
  then have "sent k [] (int n) s = s" by (simp add: sub_ok_def sent_def list_update_same_conv)
  with Nil show ?case by simp
next
  case (Cons i "is")
  let ?s = "sent k (feed did (concat ess) n [i]) (1 + int i) s"
  from live_from_Cons [OF Cons.prems(2)] have i: "i < length (concat ess)" "live_from (concat ess) (Suc i) = is" by auto
  have "sub_ok ?s k mp ess (Suc i)" using sent_ok [OF Cons.prems(1), of "Suc i"] i(1) by simp
  from Cons.IH [OF this i(2)] Cons.prems(3) have "turns (length is) k ?s =
      Done (sent k (feed did (concat ess) (Suc i) is) (if is = [] then int (Suc i) else 1 + int (last is)) ?s, Inr ())"
    by simp
  moreover have "k < length (e_subs (s_env s))" using Cons.prems(1) by (simp add: sub_ok_def)
  ultimately show ?case using subscription_turn [OF Cons.prems] by (simp add: sent_sent)
qed

lemma live_from_last:
  assumes "n < length es" "entry_live (last es)"
  shows "live_from es n \<noteq> [] \<and> last (live_from es n) = length es - 1"
proof -
  from assms(1) have "[n..<length es] = [n..<length es - 1] @ [length es - 1]"
    by (metis Suc_diff_1 less_Suc_eq_le less_zeroE upt_Suc_append gr0I)
  moreover have "last es = es ! (length es - 1)" using assms(1) by (intro last_conv_nth) auto
  ultimately show ?thesis using assms(2) by (simp add: live_from_def)
qed

text \<open>C7. A subscription feeds its client: from a version on, as many turns of the thread as
  there are patches not deleted after it send exactly these patches, in order, each with the
  version of the patch sent before it and its own, and nothing else; when the last patch of the
  folder is not deleted, the subscription has then reached the last version of the folder and
  the next turns send nothing.\<close>

theorem subscription_feeds:
  assumes "sub_ok s k mp ess n" "concat ess \<noteq> [] \<longrightarrow> entry_live (last (concat ess))"
    "is = live_from (concat ess) n" "did = mdir_id (s_mst s) (mdir_at (s_mst s) mp)"
  shows "\<exists>s'. turns (length is) k s = Done (s', Inr ()) \<and>
    sock_out (e_cnx (s_env s')) = sock_out (e_cnx (s_env s)) @ feed did (concat ess) n is \<and>
    sub_version (e_subs (s_env s') ! k) = int (length (concat ess)) \<and>
    s_mst s' = s_mst s \<and> subscription_thread k s' = Done (s', Inr ())"
proof -
  let ?es = "concat ess"
  let ?v = "if is = [] then int n else 1 + int (last is)"
  let ?s = "sent k (feed did ?es n is) ?v s"
  have t: "turns (length is) k s = Done (?s, Inr ())" using turns_feed [OF assms(1) _ assms(4)] assms(3) by simp
  have v: "?v = int (length ?es)"
  proof (cases "n < length ?es")
    case True
    then have "?es \<noteq> []" by (metis less_zeroE list.size(3))
    with live_from_last [OF True] assms(2,3) True show ?thesis by (cases "length ?es") auto
  next
    case False
    then show ?thesis using assms(1,3) by (simp add: live_from_def sub_ok_def)
  qed
  have ok: "sub_ok ?s k mp ess (length ?es)" using sent_ok [OF assms(1), of "length ?es"] v by simp
  then have "\<not> client_needs_patch ?s (e_subs (s_env ?s) ! k)"
    using last_version_rep by (auto simp: client_needs_patch_def sub_ok_def folder_ok_def)
  then have "subscription_thread k ?s = Done (?s, Inr ())" by (simp add: subscription_thread_def)
  moreover have "sub_version (e_subs (s_env ?s) ! k) = int (length ?es)" using ok by (simp add: sub_ok_def)
  ultimately show ?thesis using t by (intro exI [of _ ?s]) (simp add: sent_def)
qed

theorem subscription_feeds_witness:
  "\<exists>s s'. e_subs (s_env s) = [\<lparr>sub_mdir = 0, sub_version = 0\<rparr>] \<and> turns 1 0 s = Done (s', Inr ()) \<and>
     sock_out (e_cnx (s_env s')) = ''PATCH root 0 2 +'' @ [NL] @ header_dump h_sample"
proof -
  have fit: "log_fits (concat []) (replicate 1 blank @ [(CHR ''+'', h_fields h_sample)])"
    using h_sample_ok by (simp add: log_fits_def entry_text_def h_sample_def field_dump_def)
  from patch_add_ok [OF st_root_ok [of None] h_sample_plain fit] obtain m ess where
    m: "jnls_step 0 (st_root None) m" "folder_ok m 0 ess" "concat ess = [blank, (CHR ''+'', h_fields h_sample)]" by auto
  define s where "s = (srv_sample None None [])\<lparr>s_mst := m, s_env := (cnx_env_new init_syntax [])\<lparr>e_subs := [\<lparr>sub_mdir = 0, sub_version = 0\<rparr>]\<rparr>\<rparr>"
  have ok: "sub_ok s 0 0 ess 0"
    using m(2,3) by (simp add: sub_ok_def s_def cnx_env_new_def mdir_cnx_ctor_inbound_def cnx_ctor_common_def)
  have tail: "concat ess \<noteq> [] \<longrightarrow> entry_live (last (concat ess))" unfolding m(3) by (simp add: entry_live_def)
  have l: "[1] = live_from (concat ess) 0" unfolding m(3) by code_simp
  have root: "mdir_root m = ''/m''" "mpath (mdir_at m 0) = ''/m/root''"
    using m(1) by (auto simp: jnls_step_def upd_mdir_def set_fs_def st_root_def st_sample_def)
  then have d: "''root'' = mdir_id (s_mst s) (mdir_at (s_mst s) 0)" by (simp add: mdir_id_def s_def)
  have fd: "feed ''root'' (concat ess) 0 [1] = ''PATCH root 0 2 +'' @ [NL] @ header_dump h_sample"
    unfolding m(3) by code_simp
  from subscription_feeds [OF ok tail l d] obtain s' where "turns (length [1::nat]) 0 s = Done (s', Inr ())"
    "sock_out (e_cnx (s_env s')) = sock_out (e_cnx (s_env s)) @ feed ''root'' (concat ess) 0 [1]" by blast
  with fd show ?thesis
    by (intro exI [of _ s] exI [of _ s']) (simp add: s_def cnx_env_new_def mdir_cnx_ctor_inbound_def cnx_ctor_common_def)
qed

end
