(* ===== verification/Mdsyncc.thy ===== *)
theory Mdsyncc
  imports Cnx Mdir_Log
begin

text \<open>
  The client, after \<open>mdsyncc/command.c\<close>, \<open>mdsyncc/c2l.c\<close>, \<open>mdsyncc/reader.c\<close>, \<open>mdsyncc/writer.c\<close>,
  \<open>mdsyncc/connecter.c\<close> and \<open>mdsyncc/mdsyncc.c\<close>: the writer visits the folders, subscribes to them
  and sends the transient patches; the reader handles the answers and applies the patches
  that come, in the order of their versions. Commands are structures reached by address, for
  they are linked from their folder and, through the query they embed, from the connection.
  Each command read, and the visit of the folders, is one atomic step.
\<close>

section \<open>State\<close>

record command =
  cm_mdirc :: nat
  cm_kw :: string
  cm_header :: "header option"
  cm_filename :: string

record patch =
  old_version :: mdir_version
  new_version :: mdir_version
  p_header :: header
  p_action :: mdir_action

record c2l_map =
  central :: mdir_version
  local_version :: mdir_version

record mdirc =
  commands :: "nat list"
  c2l_maps :: "c2l_map list"
  subscribed :: bool
  patches :: "patch list"
  nb_pending_acks :: nat
  quarantine :: int

record cst =
  c_mst :: mst
  c_mdircs :: "nat \<Rightarrow> mdirc"
  c_cmds :: "nat \<Rightarrow> command option"
  c_next :: nat
  c_cnx :: mdir_cnx
  c_in :: input
  terminate_reader :: bool

definition mdirc_alloc :: mdirc where
  "mdirc_alloc = \<lparr>commands = [], c2l_maps = [], subscribed = False, patches = [], nb_pending_acks = 0, quarantine = 0\<rparr>"

abbreviation mdirc_at :: "cst \<Rightarrow> nat \<Rightarrow> mdirc" where
  "mdirc_at s mp \<equiv> c_mdircs s mp"

definition set_mdirc :: "nat \<Rightarrow> (mdirc \<Rightarrow> mdirc) \<Rightarrow> cst \<Rightarrow> cst" where
  "set_mdirc mp f s = s\<lparr>c_mdircs := (c_mdircs s)(mp := f (c_mdircs s mp))\<rparr>"

definition upd_mdirc :: "nat \<Rightarrow> (mdirc \<Rightarrow> mdirc) \<Rightarrow> (cst, unit) act" where
  "upd_mdirc mp f s = Done (set_mdirc mp f s, Inr ())"

definition in_mst :: "(mst, 'a) act \<Rightarrow> (cst, 'a) act" where
  "in_mst f s = (case f (c_mst s) of
     Done (m, r) \<Rightarrow> Done (s\<lparr>c_mst := m\<rparr>, r) | Raised e \<Rightarrow> Raised e | Crash \<Rightarrow> Crash)"

definition in_cnx :: "(mdir_cnx, 'a) act \<Rightarrow> (cst, 'a) act" where
  "in_cnx f s = (case f (c_cnx s) of
     Done (c, r) \<Rightarrow> Done (s\<lparr>c_cnx := c\<rparr>, r) | Raised e \<Rightarrow> Raised e | Crash \<Rightarrow> Crash)"

definition tolerate :: "(cst, unit) act \<Rightarrow> (cst, bool) act" where
  "tolerate m = bnd (attempt m) (\<lambda>r. ret (case r of Inl e \<Rightarrow> False | Inr _ \<Rightarrow> True))"

section \<open>Commands\<close>

definition command_ctor :: "int \<Rightarrow> nat \<Rightarrow> string \<Rightarrow> nat \<Rightarrow> string \<Rightarrow> string \<Rightarrow> header option \<Rightarrow> (cst, unit) act" where
  "command_ctor now a kw mp folder filename ho s =
     (let folder = (if folder = [] then ''/'' else folder);
          s = s\<lparr>c_cmds := (c_cmds s)(a \<mapsto> \<lparr>cm_mdirc = mp, cm_kw = kw, cm_header = map_option header_ref ho,
                 cm_filename = snpath filename\<rparr>)\<rparr>
      in bnd (in_cnx (mdir_cnx_query now kw ho (Some a)
              (folder # (if kw = kw_sub then [mdir_version2str (mdir_last_version (mdir_at (c_mst s) mp))] else []))))
           (\<lambda>_. upd_mdirc mp (\<lambda>m. m\<lparr>commands := a # commands m\<rparr>)) s)"

definition command_new :: "int \<Rightarrow> string \<Rightarrow> nat \<Rightarrow> string \<Rightarrow> string \<Rightarrow> header option \<Rightarrow> (cst, nat) act" where
  "command_new now kw mp folder filename ho s =
     (let a = c_next s; s = s\<lparr>c_next := Suc a\<rparr> in
      case command_ctor now a kw mp folder filename ho s of
        Done (s, Inr _) \<Rightarrow> Done (s, Inr a)
      | Done (s, Inl e) \<Rightarrow> Done (s\<lparr>c_cmds := (c_cmds s)(a := None)\<rparr>, Inl e)
      | Raised e \<Rightarrow> Raised e
      | Crash \<Rightarrow> Crash)"

definition command_del :: "nat \<Rightarrow> (cst, unit) act" where
  "command_del a s = (case c_cmds s a of
     None \<Rightarrow> Crash
   | Some cmd \<Rightarrow> upd_mdirc (cm_mdirc cmd) (\<lambda>m. m\<lparr>commands := remove1 a (commands m)\<rparr>)
       (s\<lparr>c_cmds := (c_cmds s)(a := None)\<rparr>))"

definition command_get_by_path :: "cst \<Rightarrow> nat \<Rightarrow> string \<Rightarrow> string \<Rightarrow> nat option" where
  "command_get_by_path s mp kw path =
     find (\<lambda>a. case c_cmds s a of None \<Rightarrow> False | Some cmd \<Rightarrow> cm_kw cmd = kw \<and> cm_filename cmd = path)
       (commands (mdirc_at s mp))"

section \<open>Central and local versions\<close>

definition c2l_new :: "c2l_map list \<Rightarrow> mdir_version \<Rightarrow> mdir_version \<Rightarrow> c2l_map list" where
  "c2l_new ms c l = \<lparr>central = c, local_version = l\<rparr> # ms"

definition c2l_del :: "c2l_map \<Rightarrow> c2l_map list \<Rightarrow> c2l_map list" where
  "c2l_del m ms = remove1 m ms"

definition c2l_search :: "c2l_map list \<Rightarrow> mdir_version \<Rightarrow> c2l_map option" where
  "c2l_search ms c = find (\<lambda>m. central m = c) ms"

section \<open>Answers\<close>

text \<open>The status is converted to 32 bits. An answer without text leaves its argument unset.\<close>

definition to_int32 :: "int \<Rightarrow> int" where
  "to_int32 v = (v + 2 ^ 31) mod 2 ^ 32 - 2 ^ 31"

definition cmd_status :: "mdir_cmd \<Rightarrow> int" where
  "cmd_status cmd = to_int32 (status_of cmd)"

definition cmd_compl :: "mdir_cmd \<Rightarrow> string option" where
  "cmd_compl cmd = (case c_args cmd of _ # ArgStr s # _ \<Rightarrow> Some s | _ \<Rightarrow> None)"

definition retrieve_command :: "int \<Rightarrow> mdir_cmd \<Rightarrow> (cst, nat \<times> command) act" where
  "retrieve_command now cmd = bnd (in_cnx (mdir_cnx_query_retrieve now cmd)) (\<lambda>a s.
     case c_cmds s a of None \<Rightarrow> Crash | Some command \<Rightarrow> Done (s, Inr (a, command)))"

definition finalize_sub :: "int \<Rightarrow> mdir_cmd \<Rightarrow> (cst, unit) act" where
  "finalize_sub now cmd = bnd (retrieve_command now cmd) (\<lambda>(a, command).
     bnd (upd_mdirc (cm_mdirc command) (\<lambda>m.
            if cmd_status cmd = 200 then m\<lparr>subscribed := True\<rparr> else m\<lparr>quarantine := now + 5 * 60\<rparr>))
       (\<lambda>_. command_del a))"

definition finalize_unsub :: "int \<Rightarrow> mdir_cmd \<Rightarrow> (cst, unit) act" where
  "finalize_unsub now cmd = bnd (retrieve_command now cmd) (\<lambda>(a, command).
     bnd (upd_mdirc (cm_mdirc command) (\<lambda>m. if cmd_status cmd = 200 then m\<lparr>subscribed := False\<rparr> else m))
       (\<lambda>_. command_del a))"

definition remove_local_file :: "string \<Rightarrow> (cst, unit) act" where
  "remove_local_file local_file = bnd (in_mst (do_sys (\<lambda>fs. sys_unlink fs local_file))) (\<lambda>r.
     case r of Some e \<Rightarrow> failure e ''unlink(%s)'' | None \<Rightarrow> ret ())"

text \<open>The version of a transient file follows the sign that begins its name.\<close>

definition remember_version_map :: "nat \<Rightarrow> string \<Rightarrow> string \<Rightarrow> (cst, unit) act" where
  "remember_version_map mp central_str local_file =
     (case mdir_str2version central_str of
        Inl e \<Rightarrow> (\<lambda>s. Done (s, Inl e))
      | Inr c \<Rightarrow>
          if CHR ''/'' \<notin> set local_file then failure 0 ''Bad filename''
          else case mdir_str2version (drop 1 (Basename local_file)) of
            Inl e \<Rightarrow> (\<lambda>s. Done (s, Inl e))
          | Inr l \<Rightarrow> upd_mdirc mp (\<lambda>m. m\<lparr>c2l_maps := c2l_new (c2l_maps m) c l\<rparr>))"

definition retry_later :: "int \<Rightarrow> bool" where
  "retry_later status \<longleftrightarrow> 300 \<le> status \<and> status < 400"

text \<open>The name of the file where a refused patch is kept: its last extension becomes \<open>.err\<close>.\<close>

definition err_filename :: "string \<Rightarrow> string option" where
  "err_filename f = (case last_index CHR ''.'' 0 None f of
     None \<Rightarrow> None
   | Some i \<Rightarrow> if take 3 (drop (Suc i) f) = ''tmp'' then Some (take (Suc i) f @ ''err'' @ drop (i + 4) f) else None)"

definition refused_header :: "header \<Rightarrow> int \<Rightarrow> string \<Rightarrow> header" where
  "refused_header h status compl =
     header_field_new h SC_STATUS_FIELD (take 1023 (dec_int status @ ''; error='' @ [DQ] @ compl @ [DQ]))"

definition save_refused :: "command \<Rightarrow> int \<Rightarrow> string \<Rightarrow> (cst, unit) act" where
  "save_refused command status compl = (case (cm_header command, err_filename (cm_filename command)) of
     (Some h, Some f) \<Rightarrow> in_mst (do_err (\<lambda>fs. header_to_file fs (refused_header h status compl) f))
   | _ \<Rightarrow> (\<lambda>_. Crash))"

definition no_save :: "command \<Rightarrow> (cst, unit) act" where
  "no_save command = (case (cm_header command, err_filename (cm_filename command)) of
     (Some h, Some f) \<Rightarrow> ret () | _ \<Rightarrow> (\<lambda>_. Crash))"

text \<open>
  The errors are cleared at the end. The file is unlinked even if the versions could not be
  remembered; a refused patch is not saved when its file could not be unlinked.
\<close>

definition fin_putrem :: "nat \<Rightarrow> command \<Rightarrow> int \<Rightarrow> string option \<Rightarrow> (cst, unit) act" where
  "fin_putrem a command status compl =
     (if cm_filename command = [] then (\<lambda>_. Crash)
      else bnd (if status = 200 then
                  (case compl of None \<Rightarrow> (\<lambda>_. Crash) | Some c \<Rightarrow>
                     bnd (tolerate (remember_version_map (cm_mdirc command) c (cm_filename command)))
                       (\<lambda>_. bnd (tolerate (remove_local_file (cm_filename command))) (\<lambda>_. ret ())))
                else if \<not> retry_later status then
                  (case compl of None \<Rightarrow> (\<lambda>_. Crash) | Some c \<Rightarrow>
                     bnd (tolerate (remove_local_file (cm_filename command)))
                       (\<lambda>ok. if ok then bnd (tolerate (save_refused command status c)) (\<lambda>_. ret ()) else no_save command))
                else ret ())
             (\<lambda>_. command_del a))"

definition acked :: "nat \<Rightarrow> (cst, unit) act" where
  "acked mp s = (if nb_pending_acks (mdirc_at s mp) = 0 then Crash
     else upd_mdirc mp (\<lambda>m. m\<lparr>nb_pending_acks := nb_pending_acks m - 1\<rparr>) s)"

definition finalize_put :: "int \<Rightarrow> mdir_cmd \<Rightarrow> (cst, unit) act" where
  "finalize_put now cmd = bnd (retrieve_command now cmd) (\<lambda>(a, command).
     bnd (acked (cm_mdirc command)) (\<lambda>_. fin_putrem a command (cmd_status cmd) (cmd_compl cmd)))"

definition finalize_rem :: "int \<Rightarrow> mdir_cmd \<Rightarrow> (cst, unit) act" where
  "finalize_rem now cmd = bnd (retrieve_command now cmd) (\<lambda>(a, command).
     bnd (acked (cm_mdirc command)) (\<lambda>_. fin_putrem a command (cmd_status cmd) (cmd_compl cmd)))"

definition stop_reader :: "(cst, unit) act" where
  "stop_reader s = Done (s\<lparr>terminate_reader := True\<rparr>, Inr ())"

definition finalize_auth :: "int \<Rightarrow> mdir_cmd \<Rightarrow> (cst, unit) act" where
  "finalize_auth now cmd = bnd (retrieve_command now cmd) (\<lambda>(a, command).
     bnd (if cmd_status cmd \<noteq> 200 then stop_reader else ret ()) (\<lambda>_. command_del a))"

definition finalize_quit :: "int \<Rightarrow> mdir_cmd \<Rightarrow> (cst, unit) act" where
  "finalize_quit now cmd = bnd (retrieve_command now cmd) (\<lambda>(a, command).
     bnd stop_reader (\<lambda>_. command_del a))"

section \<open>Patches received\<close>

text \<open>A patch goes after those whose old version is not greater.\<close>

fun insert_patch :: "patch \<Rightarrow> patch list \<Rightarrow> patch list" where
  "insert_patch p [] = [p]"
| "insert_patch p (q # qs) = (if old_version p < old_version q then p # q # qs else q # insert_patch p qs)"

definition fetch_header :: "(cst, header) act" where
  "fetch_header s = (case header_read header_new (c_in s) of
     Done ((h, None), inp) \<Rightarrow> Done (s\<lparr>c_in := inp\<rparr>, Inr h)
   | Done ((h, Some e), inp) \<Rightarrow> Done (s\<lparr>c_in := inp\<rparr>, Inl e)
   | Raised e \<Rightarrow> Raised e
   | Crash \<Rightarrow> Crash)"

definition patch_ctor :: "nat \<Rightarrow> mdir_version \<Rightarrow> mdir_version \<Rightarrow> mdir_action \<Rightarrow> (cst, unit) act" where
  "patch_ctor mp old new action = bnd fetch_header (\<lambda>h s.
     case c2l_search (c2l_maps (mdirc_at s mp)) new of
       None \<Rightarrow> upd_mdirc mp (\<lambda>m. m\<lparr>patches := insert_patch \<lparr>old_version = old, new_version = new, p_header = h, p_action = action\<rparr> (patches m)\<rparr>) s
     | Some c \<Rightarrow> upd_mdirc mp (\<lambda>m. m\<lparr>c2l_maps := c2l_del c (c2l_maps m),
         patches := insert_patch \<lparr>old_version = old, new_version = new,
           p_header = header_field_new h SC_LOCALID_FIELD (mdir_version2str (local_version c)), p_action = action\<rparr> (patches m)\<rparr>) s)"

definition patch_new :: "nat \<Rightarrow> mdir_version \<Rightarrow> mdir_version \<Rightarrow> mdir_action \<Rightarrow> (cst, unit) act" where
  "patch_new mp old new action = patch_ctor mp old new action"

definition patch_del :: "nat \<Rightarrow> (cst, unit) act" where
  "patch_del mp = upd_mdirc mp (\<lambda>m. m\<lparr>patches := tl (patches m)\<rparr>)"

text \<open>The loop of \<open>try_apply\<close>, over the patches that are stored when it begins.\<close>

fun apply_patches :: "nat \<Rightarrow> patch list \<Rightarrow> (cst, unit) act" where
  "apply_patches mp [] = ret ()"
| "apply_patches mp (p # ps) = (\<lambda>s.
     if mdir_last_version (mdir_at (c_mst s) mp) \<noteq> old_version p then Done (s, Inr ())
     else if new_version p \<le> old_version p then Crash
     else bnd (in_mst (mdir_patch mp (p_action p) (p_header p)
            (nat ((new_version p - old_version p - 1) mod 2 ^ 32)))) (\<lambda>(v, h).
          if v \<noteq> new_version p then (\<lambda>_. Crash)
          else bnd (patch_del mp) (\<lambda>_. apply_patches mp ps)) s)"

definition try_apply :: "nat \<Rightarrow> (cst, unit) act" where
  "try_apply mp s = (if 0 < nb_pending_acks (mdirc_at s mp) then Done (s, Inr ())
     else apply_patches mp (patches (mdirc_at s mp)) s)"

definition patch_service :: "mdir_cmd \<Rightarrow> (cst, unit) act" where
  "patch_service cmd = (case c_args cmd of
     [ArgStr did, ArgInt old, ArgInt new, ArgStr act] \<Rightarrow>
       bnd (in_mst (mdir_lookup_by_id did False)) (\<lambda>mp.
         case mdir_str2action act of
           Inl e \<Rightarrow> (\<lambda>s. Done (s, Inl e))
         | Inr action \<Rightarrow> bnd (patch_new mp old new action) (\<lambda>_. try_apply mp))
   | _ \<Rightarrow> (\<lambda>_. Crash))"

section \<open>Reader\<close>

definition patch_def :: mdir_cmd_def where
  "patch_def = \<lparr>keyword = kw_patch, cb = ''patch_service'', nb_arg_min = 4, nb_arg_max = 4,
     arg_types = [CMD_STRING, CMD_INTEGER, CMD_INTEGER, CMD_STRING], negseq = False\<rparr>"

definition connecter_begin :: mdir_syntax where
  "connecter_begin = fold (\<lambda>d sy. mdir_syntax_register sy d)
     [MDIR_CNX_ANSW_REGISTER kw_sub ''finalize_sub'', MDIR_CNX_ANSW_REGISTER kw_unsub ''finalize_unsub'',
      MDIR_CNX_ANSW_REGISTER kw_put ''finalize_put'', MDIR_CNX_ANSW_REGISTER kw_rem ''finalize_rem'',
      MDIR_CNX_ANSW_REGISTER kw_quit ''finalize_quit'', MDIR_CNX_ANSW_REGISTER kw_auth ''finalize_auth'', patch_def]
     (mdir_syntax_ctor True)"

definition client_cmd :: "int \<Rightarrow> mdir_cmd \<Rightarrow> (cst, unit) act" where
  "client_cmd now cmd =
     (let f = cb (c_def cmd) in
      if f = ''finalize_sub'' then finalize_sub now cmd
      else if f = ''finalize_unsub'' then finalize_unsub now cmd
      else if f = ''finalize_put'' then finalize_put now cmd
      else if f = ''finalize_rem'' then finalize_rem now cmd
      else if f = ''finalize_quit'' then finalize_quit now cmd
      else if f = ''finalize_auth'' then finalize_auth now cmd
      else if f = ''patch_service'' then patch_service cmd
      else ret ())"

text \<open>One turn of the reader; an error or the request to terminate ends the thread.\<close>

definition read_one :: "int \<Rightarrow> (cst, unit) act" where
  "read_one now s = (case mdir_cmd_read (cnx_syntax (c_cnx s)) (c_in s) of (r, inp) \<Rightarrow>
     let s = s\<lparr>c_in := inp\<rparr> in
     case r of Done cmd \<Rightarrow> client_cmd now cmd s | Raised e \<Rightarrow> Done (s, Inl e) | Crash \<Rightarrow> Crash)"

fun reader_thread :: "nat \<Rightarrow> int \<Rightarrow> cst \<Rightarrow> cst outcome option" where
  "reader_thread 0 now s = None"
| "reader_thread (Suc n) now s = (case read_one now s of
     Done (s, Inr _) \<Rightarrow> if terminate_reader s then Some (Done s) else reader_thread n now s
   | Done (s, Inl e) \<Rightarrow> Some (Done s)
   | Raised e \<Rightarrow> Some (Raised e)
   | Crash \<Rightarrow> Some Crash)"

section \<open>Writer\<close>

definition without_localid :: "header \<Rightarrow> header" where
  "without_localid h = h\<lparr>h_fields := filter (\<lambda>hf. \<not> strcasecmp_eq (hf_name hf) SC_LOCALID_FIELD) (h_fields h)\<rparr>"

definition send_transient :: "int \<Rightarrow> nat \<Rightarrow> string \<Rightarrow> string \<Rightarrow> string \<Rightarrow> (cst, unit) act" where
  "send_transient now mp folder filename kw s =
     (if command_get_by_path s mp kw filename \<noteq> None then Done (s, Inr ())
      else case header_from_file (m_fs (c_mst s)) filename of
        Raised e \<Rightarrow> Done (s, Inr ())
      | Crash \<Rightarrow> Crash
      | Done h \<Rightarrow> bnd (attempt (command_new now kw mp folder filename (Some (without_localid h)))) (\<lambda>r.
          case r of Inl e \<Rightarrow> ret ()
          | Inr _ \<Rightarrow> upd_mdirc mp (\<lambda>m. m\<lparr>nb_pending_acks := (nb_pending_acks m + 1) mod 2 ^ 32\<rparr>)) s)"

fun send_transients :: "int \<Rightarrow> nat \<Rightarrow> string \<Rightarrow> string \<Rightarrow> string list \<Rightarrow> (cst, unit) act" where
  "send_transients now mp folder dir [] = ret ()"
| "send_transients now mp folder dir (nm # ns) =
     bnd (if take 1 nm = ''+'' then send_transient now mp folder (snpath (dir @ ''/'' @ nm)) kw_put
          else if take 1 nm = ''-'' then send_transient now mp folder (snpath (dir @ ''/'' @ nm)) kw_rem
          else ret ())
       (\<lambda>_. send_transients now mp folder dir ns)"

definition ls_transients :: "int \<Rightarrow> nat \<Rightarrow> string \<Rightarrow> (cst, unit) act" where
  "ls_transients now mp folder s =
     (let dir = snpath (mpath (mdir_at (c_mst s) mp) @ ''/.tmp'') in
      case sys_readdir (m_fs (c_mst s)) dir of
        Inl e \<Rightarrow> if e = ENOENT then Done (s, Inr ()) else Done (s, Inl (Err e ''opendir(%s)''))
      | Inr names \<Rightarrow> send_transients now mp folder dir names s)"

text \<open>An error other than a missing file ends the visit of the folder.\<close>

definition mdirc_hidden :: "nat \<Rightarrow> (cst, bool) act" where
  "mdirc_hidden mp s = (case open_input (m_fs (c_mst s)) (snpath (mpath (mdir_at (c_mst s) mp) @ ''/.hide'')) of
     Inr _ \<Rightarrow> Done (s, Inr True)
   | Inl e \<Rightarrow> if e = ENOENT then Done (s, Inr False) else Done (s, Inl (Err e ''Cannot open'')))"

definition subscribe_dir :: "int \<Rightarrow> nat \<Rightarrow> bool \<Rightarrow> (cst, unit) act" where
  "subscribe_dir now mp new s =
     (if subscribed (mdirc_at s mp) \<or> new then Done (s, Inr ())
      else bnd (mdirc_hidden mp) (\<lambda>hidden s.
        if hidden then Done (s, Inr ())
        else if quarantine (mdirc_at s mp) = 0 \<or> quarantine (mdirc_at s mp) \<le> now then
          (if command_get_by_path s mp kw_sub [] \<noteq> None then Done (s, Inr ())
           else bnd (command_new now kw_sub mp (mdir_id (c_mst s) (mdir_at (c_mst s) mp)) [] None) (\<lambda>_. ret ()) s)
        else Done (s, Inr ())) s)"

text \<open>
  The recursion over the folders has fuel: a folder linked below itself makes the program recurse
  without end, until its stack is exhausted.
\<close>

fun parse_dir_rec :: "nat \<Rightarrow> int \<Rightarrow> nat \<Rightarrow> bool \<Rightarrow> string \<Rightarrow> string \<Rightarrow> (cst, unit) act"
  and visit_folders :: "nat \<Rightarrow> int \<Rightarrow> nat \<Rightarrow> string \<Rightarrow> string list \<Rightarrow> (cst, unit) act" where
  "parse_dir_rec 0 now mp new nm parent_path = (\<lambda>_. Crash)"
| "parse_dir_rec (Suc n) now mp new nm parent_path =
     bnd (subscribe_dir now mp new) (\<lambda>_.
     bnd (ls_transients now mp (Make_path PATH_MAX [parent_path, nm])) (\<lambda>_ s.
       case sys_readdir (m_fs (c_mst s)) (mpath (mdir_at (c_mst s) mp)) of
         Inl e \<Rightarrow> Done (s, Inl (Err e ''opendir %s''))
       | Inr names \<Rightarrow> visit_folders n now mp (Make_path PATH_MAX [parent_path, nm]) names s))"
| "visit_folders n now mp path [] = ret ()"
| "visit_folders n now mp path (nm # ns) = (\<lambda>s.
     let link = snpath (mpath (mdir_at (c_mst s) mp) @ ''/'' @ nm) in
     case sys_lstat_lnk (m_fs (c_mst s)) link of
       Inl e \<Rightarrow> Done (s, Inl (Err e ''lstat %s''))
     | Inr False \<Rightarrow> visit_folders n now mp path ns s
     | Inr True \<Rightarrow> bnd (in_mst (lookup_abs link)) (\<lambda>child s.
         bnd (parse_dir_rec n now child (mdir_is_transient (c_mst s) (mdir_at (c_mst s) child)) nm path)
           (\<lambda>_. visit_folders n now mp path ns) s) s)"

text \<open>One turn of the writer; its errors are cleared.\<close>

definition writer_thread :: "nat \<Rightarrow> int \<Rightarrow> (cst, unit) act" where
  "writer_thread fuel now = bnd (in_mst (mdir_lookup ''/'')) (\<lambda>root.
     bnd (tolerate (parse_dir_rec fuel now root False [] [])) (\<lambda>_. ret ()))"

section \<open>Order of the patches received\<close>

definition ordered :: "patch list \<Rightarrow> bool" where
  "ordered ps \<longleftrightarrow> sorted (map old_version ps)"

lemma set_insert_patch [simp]: "set (insert_patch p ps) = insert p (set ps)"
  by (induction ps) auto

lemma ordered_insert: "ordered ps \<Longrightarrow> ordered (insert_patch p ps)"
proof (induction ps)
  case (Cons q qs)
  then have "ordered (insert_patch p qs)" "\<forall>x \<in> set qs. old_version q \<le> old_version x" by (auto simp: ordered_def)
  with Cons.prems show ?case by (auto simp: ordered_def)
qed (simp add: ordered_def)

lemma patch_new_effect:
  assumes "patch_new mp old new a s = Done (s', Inr ())"
  shows "c_mst s' = c_mst s" "nb_pending_acks (mdirc_at s' mp) = nb_pending_acks (mdirc_at s mp)"
    "\<exists>p. patches (mdirc_at s' mp) = insert_patch p (patches (mdirc_at s mp)) \<and>
      old_version p = old \<and> new_version p = new \<and> p_action p = a"
proof -
  from assms obtain s1 h where f: "fetch_header s = Done (s1, Inr h)"
    and s': "(case c2l_search (c2l_maps (mdirc_at s1 mp)) new of
       None \<Rightarrow> upd_mdirc mp (\<lambda>m. m\<lparr>patches := insert_patch \<lparr>old_version = old, new_version = new, p_header = h, p_action = a\<rparr> (patches m)\<rparr>) s1
     | Some c \<Rightarrow> upd_mdirc mp (\<lambda>m. m\<lparr>c2l_maps := c2l_del c (c2l_maps m),
         patches := insert_patch \<lparr>old_version = old, new_version = new,
           p_header = header_field_new h SC_LOCALID_FIELD (mdir_version2str (local_version c)), p_action = a\<rparr> (patches m)\<rparr>) s1)
       = Done (s', Inr ())"
    unfolding patch_new_def patch_ctor_def bnd_eq_Done by blast
  from f have s1: "c_mst s1 = c_mst s" "c_mdircs s1 = c_mdircs s"
    by (auto simp: fetch_header_def split: outcome.splits option.splits)
  from s' s1 show "c_mst s' = c_mst s" "nb_pending_acks (mdirc_at s' mp) = nb_pending_acks (mdirc_at s mp)"
    "\<exists>p. patches (mdirc_at s' mp) = insert_patch p (patches (mdirc_at s mp)) \<and>
      old_version p = old \<and> new_version p = new \<and> p_action p = a"
    by (auto simp: upd_mdirc_def set_mdirc_def split: option.splits)
qed

lemma apply_patches_suffix:
  assumes "apply_patches mp ps s = Done (s', r)" "patches (mdirc_at s mp) = ps"
  shows "\<exists>k. patches (mdirc_at s' mp) = drop k ps \<and> k \<le> length ps \<and>
    (r = Inr () \<longrightarrow> k < length ps \<longrightarrow> mdir_last_version (mdir_at (c_mst s') mp) \<noteq> old_version (ps ! k))"
  using assms
proof (induction ps arbitrary: s)
  case (Cons p ps)
  show ?case
  proof (cases "mdir_last_version (mdir_at (c_mst s) mp) = old_version p \<and> old_version p < new_version p")
    case False
    with Cons.prems show ?thesis by (intro exI [of _ 0]) (auto split: if_splits)
  next
    case True
    let ?m = "in_mst (mdir_patch mp (p_action p) (p_header p) (nat ((new_version p - old_version p - 1) mod 2 ^ 32)))"
    have keep: "c_mdircs t = c_mdircs s" if "?m s = Done (t, x)" for t x
      using that by (auto simp: in_mst_def split: outcome.splits)
    from Cons.prems(1) True consider e where "?m s = Done (s', Inl e)" "r = Inl e"
      | t h where "?m s = Done (t, Inr (new_version p, h))"
          "apply_patches mp ps (set_mdirc mp (\<lambda>m. m\<lparr>patches := tl (patches m)\<rparr>) t) = Done (s', r)"
      by (auto simp: bnd_def patch_del_def upd_mdirc_def split: outcome.splits sum.splits if_splits prod.splits)
    then show ?thesis
    proof cases
      case 1
      with keep Cons.prems(2) show ?thesis by (intro exI [of _ 0]) auto
    next
      case 2
      let ?t = "set_mdirc mp (\<lambda>m. m\<lparr>patches := tl (patches m)\<rparr>) t"
      have "patches (mdirc_at ?t mp) = ps" using keep [OF 2(1)] Cons.prems(2) by (simp add: set_mdirc_def)
      from Cons.IH [OF 2(2) this] obtain k where "patches (mdirc_at s' mp) = drop k ps" "k \<le> length ps"
        "r = Inr () \<longrightarrow> k < length ps \<longrightarrow> mdir_last_version (mdir_at (c_mst s') mp) \<noteq> old_version (ps ! k)" by blast
      then show ?thesis by (intro exI [of _ "Suc k"]) auto
    qed
  qed
qed auto

section \<open>Properties\<close>

text \<open>C30. The patches kept aside stay in the order of their versions, whatever patches come and
  get applied; and after an attempt to apply them that met no error, while no acknowledgement is
  awaited, the first patch left, if any, does not follow the last version of the folder: nothing
  that could be applied is kept waiting at the head of the list.\<close>

theorem patches_in_order:
  assumes "ordered (patches (mdirc_at s mp))" "patch_new mp old new a s = Done (s1, Inr ())"
    "try_apply mp s1 = Done (s2, r)"
  shows "ordered (patches (mdirc_at s1 mp)) \<and> ordered (patches (mdirc_at s2 mp)) \<and>
    (r = Inr () \<and> nb_pending_acks (mdirc_at s mp) = 0 \<and> patches (mdirc_at s2 mp) \<noteq> [] \<longrightarrow>
      mdir_last_version (mdir_at (c_mst s2) mp) \<noteq> old_version (hd (patches (mdirc_at s2 mp))))"
proof -
  note e = patch_new_effect [OF assms(2)]
  from e(3) assms(1) ordered_insert have o1: "ordered (patches (mdirc_at s1 mp))" by metis
  show ?thesis
  proof (cases "0 < nb_pending_acks (mdirc_at s1 mp)")
    case True
    with assms(3) o1 e(2) show ?thesis by (simp add: try_apply_def)
  next
    case False
    with assms(3) have "apply_patches mp (patches (mdirc_at s1 mp)) s1 = Done (s2, r)" by (simp add: try_apply_def)
    from apply_patches_suffix [OF this refl] obtain k where
      k: "patches (mdirc_at s2 mp) = drop k (patches (mdirc_at s1 mp))"
        "r = Inr () \<longrightarrow> k < length (patches (mdirc_at s1 mp)) \<longrightarrow>
          mdir_last_version (mdir_at (c_mst s2) mp) \<noteq> old_version (patches (mdirc_at s1 mp) ! k)" by blast
    then have "ordered (patches (mdirc_at s2 mp))" using o1 by (simp add: ordered_def drop_map [symmetric] sorted_wrt_drop)
    with o1 k show ?thesis by (auto simp: hd_drop_conv_nth)
  qed
qed

text \<open>A stale patch blocks a folder: once a patch kept aside starts from a version that the
  folder has passed (the server sends again what follows the version of a second subscription),
  every patch that starts from the same version or a later one is kept behind it, and no attempt
  to apply patches changes anything.\<close>

theorem stale_patch_blocks:
  assumes "patches (mdirc_at s mp) = q # qs" "old_version q < mdir_last_version (mdir_at (c_mst s) mp)"
    "patch_new mp old new a s = Done (s', Inr ())" "old_version q \<le> old"
  shows "(\<exists>qs'. patches (mdirc_at s' mp) = q # qs' \<and> length qs' = Suc (length qs)) \<and> try_apply mp s' = Done (s', Inr ())"
proof -
  note e = patch_new_effect [OF assms(3)]
  have len: "length (insert_patch p ps) = Suc (length ps)" for p ps by (induction ps) auto
  from e(3) assms(1,4) obtain qs' where p: "patches (mdirc_at s' mp) = q # qs'" "length qs' = Suc (length qs)" using len by auto
  with e(1) assms(2) show ?thesis by (auto simp: try_apply_def)
qed

definition cl_stale :: cst where
  "cl_stale = \<lparr>c_mst = st_sample\<lparr>m_store := (\<lambda>_. \<lparr>mpath = ''/m/1'',
        jnls = [\<lparr>patch_fd = 1, repatch_fd = 1, idx_fd = 2, jversion = 1, nb_patches = 2\<rparr>], permissions = None\<rparr>)\<rparr>,
     c_mdircs = (\<lambda>_. mdirc_alloc\<lparr>patches := [\<lparr>old_version = 1, new_version = 2, p_header = h_sample, p_action = MDIR_ADD\<rparr>]\<rparr>),
     c_cmds = (\<lambda>_. None), c_next = 0, c_cnx = mdir_cnx_ctor_outbound connecter_begin None,
     c_in = map Got (header_dump h_sample), terminate_reader = False\<rparr>"

lemma cl_stale_read: "\<exists>s'. patch_new 0 2 3 MDIR_ADD cl_stale = Done (s', Inr ())"
proof -
  have "readable h_sample" by code_simp
  from header_read_dump_lemma [OF this, of header_new "[]"]
  have "fetch_header cl_stale = Done (cl_stale\<lparr>c_in := []\<rparr>, Inr (header_new\<lparr>h_fields := h_fields h_sample\<rparr>))"
    by (simp add: fetch_header_def cl_stale_def header_new_def)
  then show ?thesis
    by (simp add: patch_new_def patch_ctor_def upd_mdirc_def split: option.split)
qed

theorem stale_patch_blocks_witness:
  "\<exists>s'. patch_new 0 2 3 MDIR_ADD cl_stale = Done (s', Inr ()) \<and> try_apply 0 s' = Done (s', Inr ()) \<and>
     length (patches (mdirc_at s' 0)) = 2"
proof -
  obtain s' where n: "patch_new 0 2 3 MDIR_ADD cl_stale = Done (s', Inr ())" using cl_stale_read by blast
  have "patches (mdirc_at cl_stale 0) = [\<lparr>old_version = 1, new_version = 2, p_header = h_sample, p_action = MDIR_ADD\<rparr>]"
    "mdir_last_version (mdir_at (c_mst cl_stale) 0) = 2"
    by (simp_all add: cl_stale_def mdir_last_version_def st_sample_def)
  with stale_patch_blocks [OF this(1) _ n] show ?thesis using n by auto
qed

theorem patches_in_order_witness:
  "\<exists>s1 s2 r. patch_new 0 2 3 MDIR_ADD cl_stale = Done (s1, Inr ()) \<and> try_apply 0 s1 = Done (s2, r) \<and>
     ordered (patches (mdirc_at s2 0))"
proof -
  obtain s1 where n: "patch_new 0 2 3 MDIR_ADD cl_stale = Done (s1, Inr ())" using cl_stale_read by blast
  have o: "ordered (patches (mdirc_at cl_stale 0))" by (simp add: cl_stale_def ordered_def)
  have q: "patches (mdirc_at cl_stale 0) = [\<lparr>old_version = 1, new_version = 2, p_header = h_sample, p_action = MDIR_ADD\<rparr>]"
    by (simp add: cl_stale_def)
  note e = patch_new_effect [OF n]
  obtain p where p: "patches (mdirc_at s1 0) = insert_patch p (patches (mdirc_at cl_stale 0))" "old_version p = 2"
    using e(3) by blast
  have "mdir_last_version (mdir_at (c_mst s1) 0) = 2"
    unfolding e(1) by (simp add: cl_stale_def mdir_last_version_def st_sample_def)
  then have "try_apply 0 s1 = Done (s1, Inr ())" using p(1) by (simp add: try_apply_def q p(2))
  with patches_in_order [OF o n this] n show ?thesis by blast
qed

end
