(* ===== verification/Replication.thy ===== *)
theory Replication
  imports Mdsyncd Mdsyncc
begin

text \<open>
  The server and the client together: the bytes that the subscription thread of the server writes,
  read by the client, make the log of the client a replica of the log of the server, with the
  same versions. What the argument needs of the client is the locale \<open>log_reader\<close>, interpreted
  on the model of \<open>mdsyncc\<close>; what it needs of the log of the server is \<open>log_wf\<close>, which patches
  preserve.
\<close>

section \<open>Logs\<close>

abbreviation TAG_ADD :: char where "TAG_ADD \<equiv> CHR ''+''"
abbreviation TAG_REM :: char where "TAG_REM \<equiv> CHR ''-''"
abbreviation TAG_DEAD :: char where "TAG_DEAD \<equiv> CHR ''%''"

definition removes :: "entry list \<Rightarrow> nat \<Rightarrow> nat \<Rightarrow> bool" where
  "removes es j t \<longleftrightarrow> fst (es ! j) = TAG_REM \<and> header_target (entry_header (es ! j)) = Inr (1 + int t)"

text \<open>A removal targets an earlier entry, which is dead since then.\<close>

definition log_wf :: "entry list \<Rightarrow> bool" where
  "log_wf es \<longleftrightarrow> (\<forall>j < length es. fst (es ! j) = TAG_REM \<longrightarrow> (\<exists>t < j. removes es j t \<and> \<not> entry_live (es ! t)))"

lemma entry_header_target: "header_target (entry_header (c, h_fields h)) = header_target h"
  by (simp add: header_target_def field_value_hd fields_named_def entry_header_def)

lemma log_wf_add: "log_wf es \<Longrightarrow> fst en \<noteq> TAG_REM \<Longrightarrow> log_wf (es @ [en])"
  by (fastforce simp: log_wf_def removes_def nth_append less_Suc_eq)

lemma log_wf_rem:
  assumes "log_wf es" "t < length es" "fst en = TAG_REM" "header_target (entry_header en) = Inr (1 + int t)" "fst (es ! t) = TAG_ADD"
  shows "log_wf (es[t := jdead (es ! t)] @ [en])"
  unfolding log_wf_def
proof (intro allI impI)
  let ?es = "es[t := jdead (es ! t)] @ [en]"
  fix j assume j: "j < length ?es" "fst (?es ! j) = TAG_REM"
  show "\<exists>u < j. removes ?es j u \<and> \<not> entry_live (?es ! u)"
  proof (cases "j = length es")
    case True
    with assms show ?thesis by (intro exI [of _ t]) (simp add: removes_def nth_append entry_live_def jdead_def)
  next
    case False
    then have l: "j < length es" using j(1) by simp
    then have "j \<noteq> t" using j(2) by (auto simp: nth_append jdead_def)
    then have e: "?es ! j = es ! j" using l by (simp add: nth_append)
    with assms(1) l j(2) obtain u where u: "u < j" "removes es j u" "\<not> entry_live (es ! u)"
      unfolding log_wf_def by metis
    then have "\<not> entry_live (?es ! u)" using l by (cases "u = t") (auto simp: nth_append entry_live_def jdead_def)
    with u e show ?thesis by (auto simp: removes_def)
  qed
qed

text \<open>What a client does with a patch: blanks for the versions skipped, the target deleted.\<close>

definition killed :: "header \<Rightarrow> entry list \<Rightarrow> entry list" where
  "killed h cs = (case header_target h of
     Inl e \<Rightarrow> cs
   | Inr v \<Rightarrow> let t = nat (v - 1) in
       if t < length cs \<and> fst (cs ! t) = TAG_ADD then cs[t := jdead (cs ! t)] else cs)"

definition received :: "entry list \<Rightarrow> nat \<Rightarrow> entry \<Rightarrow> entry list" where
  "received cs i en = (let c1 = cs @ replicate (i - length cs) blank in
     (if fst en = TAG_REM then killed (entry_header en) c1 else c1) @ [en])"

lemma length_killed [simp]: "length (killed h cs) = length cs"
  by (auto simp: killed_def Let_def split: sum.split)

lemma length_received [simp]: "length cs \<le> i \<Longrightarrow> length (received cs i en) = Suc i"
  by (auto simp: received_def Let_def)

lemma killed_target: "header_target h = Inr (1 + int t) \<Longrightarrow> killed h cs =
    (if t < length cs \<and> fst (cs ! t) = TAG_ADD then cs[t := jdead (cs ! t)] else cs)"
  by (simp add: killed_def)

definition sendable :: "entry \<Rightarrow> bool" where
  "sendable en \<longleftrightarrow> entry_ok en \<and> entry_live en \<and> plain_header (entry_header en) \<and> readable (entry_header en)"

definition receivable :: "entry list \<Rightarrow> nat \<Rightarrow> entry \<Rightarrow> bool" where
  "receivable cs i en \<longleftrightarrow> sendable en \<and> length cs \<le> i \<and> log_fits cs (replicate (i - length cs) blank @ [en]) \<and>
     i - length cs < 2 ^ 32 \<and>
     (fst en = TAG_REM \<longrightarrow> (\<exists>t < i. header_target (entry_header en) = Inr (1 + int t) \<and>
        (t < length cs \<longrightarrow> fst (cs ! t) = TAG_ADD \<and> \<not> header_is_directory (entry_header (cs ! t)) \<or> \<not> entry_live (cs ! t))))"

definition patch_bytes :: "string \<Rightarrow> nat \<Rightarrow> nat \<Rightarrow> entry \<Rightarrow> string" where
  "patch_bytes did n i en = patch_line did (int n) (1 + int i) (entry_action en) @ header_dump (entry_header en)"

lemma feed_bytes: "feed did es n (i # is) = patch_bytes did n i (es ! i) @ feed did es (Suc i) is"
  by (simp add: patch_bytes_def)

section \<open>Replicas\<close>

text \<open>
  A log that holds the first versions of another: what lives there is the same here, what is dead
  there is dead here or will be when the removal that killed it is received.
\<close>

definition behind :: "entry list \<Rightarrow> entry list \<Rightarrow> bool" where
  "behind cs es \<longleftrightarrow> length cs \<le> length es \<and> length (log_text cs) \<le> length (log_text (take (length cs) es)) \<and>
     (\<forall>t < length cs. (entry_live (es ! t) \<longrightarrow> cs ! t = es ! t) \<and>
       (\<not> entry_live (es ! t) \<longrightarrow> \<not> entry_live (cs ! t) \<or>
         (fst (cs ! t) = TAG_ADD \<and> \<not> header_is_directory (entry_header (cs ! t)) \<and>
          (\<exists>j. length cs \<le> j \<and> j < length es \<and> removes es j t))))"

definition replica :: "entry list \<Rightarrow> entry list \<Rightarrow> bool" where
  "replica cs es \<longleftrightarrow> length cs = length es \<and>
     (\<forall>t < length es. (entry_live (es ! t) \<longrightarrow> cs ! t = es ! t) \<and> (\<not> entry_live (es ! t) \<longrightarrow> \<not> entry_live (cs ! t)))"

lemma behind_end: "behind cs es \<Longrightarrow> length cs = length es \<Longrightarrow> replica cs es"
  by (auto simp: behind_def replica_def)

lemma log_text_append [simp]: "log_text (xs @ ys) = log_text xs @ log_text ys"
  by (simp add: log_text_def)

lemma length_log_blanks: "length (log_text (replicate k blank)) \<le> length (log_text xs)" if "length xs = k" for xs
  using that
proof (induction k arbitrary: xs)
  case (Suc k)
  then obtain x ys where "xs = x # ys" "length ys = k" by (cases xs) auto
  with Suc.IH [of ys] show ?case by (simp add: log_text_def entry_text_def)
qed (simp add: log_text_def)

lemma length_log_killed: "length (log_text (killed h cs)) = length (log_text cs)"
proof -
  have "length (log_text (cs[t := jdead (cs ! t)])) = length (log_text cs)" if "t < length cs" for t
    using that log_text_split [OF that] by (simp add: upd_conv_take_nth_drop jdead_def entry_text_def)
  then show ?thesis by (auto simp: killed_def Let_def split: sum.split)
qed

lemma live_from_gap: "live_from es n = i # is \<Longrightarrow> n \<le> t \<Longrightarrow> t < i \<Longrightarrow> \<not> entry_live (es ! t)"
proof (induction "t - n" arbitrary: n)
  case 0
  then have "t = n" by simp
  with 0 live_from_Cons [OF 0(2)] live_from_step [of n es] show ?case by (auto split: if_splits)
next
  case (Suc x)
  then have n: "n < length es" "n < i" using live_from_Cons [OF Suc.prems(1)] by auto
  then have "live_from es (Suc n) = i # is" using Suc.prems(1) live_from_step [OF n(1)] by (auto split: if_splits)
  with Suc.hyps(1) [of "Suc n"] Suc.hyps(2) Suc.prems show ?case by simp
qed

lemma killed_nth:
  assumes "t < length cs"
  shows "killed h cs ! t = cs ! t \<or> \<not> entry_live (killed h cs ! t)"
    and "header_target h \<noteq> Inr (1 + int t) \<Longrightarrow> killed h cs ! t = cs ! t \<or> fst (cs ! t) = TAG_ADD \<and> (\<exists>v. header_target h = Inr v \<and> v < 1)"
    and "header_target h = Inr (1 + int t) \<Longrightarrow> fst (cs ! t) = TAG_ADD \<Longrightarrow> \<not> entry_live (killed h cs ! t)"
  using assms by (auto simp: killed_def Let_def nth_list_update entry_live_def jdead_def split: sum.split)

text \<open>One patch brings the client closer.\<close>

lemma behind_received:
  assumes wf: "log_wf es" and b: "behind cs es" and l: "live_from es (length cs) = i # is"
  shows "behind (received cs i (es ! i)) es"
proof -
  let ?n = "length cs" and ?en = "es ! i"
  let ?c1 = "cs @ replicate (i - ?n) blank" and ?cs = "received cs i ?en"
  from live_from_Cons [OF l] have i: "?n \<le> i" "i < length es" "entry_live ?en" by auto
  have len: "length ?cs = Suc i" using i(1) by simp
  have last: "?cs ! i = ?en" using i(1) by (simp add: received_def Let_def nth_append)
  have below: "?cs ! t = ?c1 ! t \<or> \<not> entry_live (?cs ! t) \<and> removes es i t" if "t < i" for t
  proof (cases "fst ?en = TAG_REM")
    case False
    with that i(1) show ?thesis by (auto simp: received_def Let_def nth_append)
  next
    case True
    with wf i(2) obtain u where u: "header_target (entry_header ?en) = Inr (1 + int u)"
      unfolding log_wf_def removes_def by metis
    have "?cs ! t = killed (entry_header ?en) ?c1 ! t"
      using True that i(1) by (simp add: received_def Let_def nth_append)
    with u True that i(1) show ?thesis
      by (auto simp: killed_target removes_def entry_live_def jdead_def nth_list_update)
  qed
  have gap: "\<not> entry_live (es ! t)" if "?n \<le> t" "t < i" for t using live_from_gap [OF l that] .
  have dead_rem: "\<not> entry_live (es ! t)" if "removes es i t" "t < i" for t
    using wf i(2) that unfolding log_wf_def removes_def by fastforce
  have pend: "Suc i \<le> j" if "?n \<le> j" "removes es j t" "j \<noteq> i" for j t
    using that gap [of j] by (force simp: removes_def entry_live_def)
  have c1: "?c1 ! t = (if t < ?n then cs ! t else blank)" if "t < i" for t using that by (simp add: nth_append)
  have "length (log_text ?cs) \<le> length (log_text (take (Suc i) es))"
  proof -
    have "take (Suc i) es = take ?n es @ drop ?n (take i es) @ [?en]"
      using i(1,2) by (simp add: take_Suc_conv_app_nth) (metis append_take_drop_id min.absorb1 take_take)
    moreover have "length (log_text (replicate (i - ?n) blank)) \<le> length (log_text (drop ?n (take i es)))"
      by (rule length_log_blanks) (use i in simp)
    ultimately show ?thesis
      using b length_log_killed [of "entry_header ?en" ?c1] by (simp add: received_def Let_def behind_def)
  qed
  moreover have "(entry_live (es ! t) \<longrightarrow> ?cs ! t = es ! t) \<and> (\<not> entry_live (es ! t) \<longrightarrow> \<not> entry_live (?cs ! t) \<or>
      (fst (?cs ! t) = TAG_ADD \<and> \<not> header_is_directory (entry_header (?cs ! t)) \<and>
        (\<exists>j. Suc i \<le> j \<and> j < length es \<and> removes es j t)))" if t: "t < Suc i" for t
  proof (cases "t = i")
    case True
    with last i(3) show ?thesis by simp
  next
    case False
    then have ti: "t < i" using t by simp
    show ?thesis
    proof (cases "entry_live (es ! t)")
      case True
      have "t < ?n" by (rule ccontr) (use gap [of t] ti True in auto)
      moreover have "\<not> removes es i t" using dead_rem [of t] ti True by auto
      ultimately show ?thesis using below [OF ti] c1 [OF ti] b True by (auto simp: behind_def)
    next
      case dead: False
      show ?thesis
      proof (cases "entry_live (?cs ! t)")
        case True
        then have e: "?cs ! t = ?c1 ! t" using below [OF ti] by auto
        with True c1 [OF ti] have tn: "t < ?n" by (auto simp: entry_live_def blank_def split: if_splits)
        then have "entry_live (cs ! t)" "?cs ! t = cs ! t" using True e c1 [OF ti] by auto
        with b dead tn obtain j where j: "fst (cs ! t) = TAG_ADD" "\<not> header_is_directory (entry_header (cs ! t))"
          "?n \<le> j" "j < length es" "removes es j t" by (auto simp: behind_def)
        have "j \<noteq> i"
        proof
          assume "j = i"
          then have "\<not> entry_live (?cs ! t)"
            using j(1,5) ti tn i(1) killed_nth(3) [of t ?c1 "entry_header ?en"]
            by (auto simp: removes_def received_def Let_def nth_append)
          with True show False by simp
        qed
        with pend [OF j(3,5)] j \<open>?cs ! t = cs ! t\<close> dead show ?thesis by auto
      qed (use dead in simp)
    qed
  qed
  ultimately show ?thesis using i(2) len unfolding behind_def by simp
qed

lemma behind_target:
  assumes wf: "log_wf es" and b: "behind cs es" and i: "i < length es" "length cs \<le> i" "fst (es ! i) = TAG_REM"
  shows "\<exists>t < i. header_target (entry_header (es ! i)) = Inr (1 + int t) \<and>
    (t < length cs \<longrightarrow> fst (cs ! t) = TAG_ADD \<and> \<not> header_is_directory (entry_header (cs ! t)) \<or> \<not> entry_live (cs ! t))"
proof -
  from wf i(1,3) obtain t where t: "t < i" "removes es i t" "\<not> entry_live (es ! t)" unfolding log_wf_def by blast
  with b show ?thesis by (intro exI [of _ t]) (auto simp: behind_def removes_def)
qed

text \<open>The limits that the log of the server stays within.\<close>

definition log_sized :: "entry list \<Rightarrow> bool" where
  "log_sized es \<longleftrightarrow> int (length (log_text es)) < 2 ^ 63 \<and> length es < 2 ^ 32"

lemma log_text_take: "length (log_text (take k es)) \<le> length (log_text es)"
  by (metis append_take_drop_id le_add1 length_append log_text_append)

lemma behind_fits:
  assumes "behind cs es" "live_from es (length cs) = i # is" "log_sized es" "entry_ok (es ! i)"
  shows "log_fits cs (replicate (i - length cs) blank @ [es ! i])"
proof -
  let ?n = "length cs" and ?en = "es ! i"
  from live_from_Cons [OF assms(2)] have i: "?n \<le> i" "i < length es" by auto
  have "take (Suc i) es = take ?n es @ drop ?n (take i es) @ [?en]"
    using i(1,2) by (simp add: take_Suc_conv_app_nth) (metis append_take_drop_id min.absorb1 take_take)
  moreover have "length (log_text (replicate (i - ?n) blank)) \<le> length (log_text (drop ?n (take i es)))"
    by (rule length_log_blanks) (use i in simp)
  ultimately have "length (log_text (cs @ replicate (i - ?n) blank @ [?en])) \<le> length (log_text (take (Suc i) es))"
    using assms(1) by (simp add: behind_def)
  also have "\<dots> \<le> length (log_text es)" by (rule log_text_take)
  finally have "int (length (log_text (cs @ replicate (i - ?n) blank @ [?en]))) < 2 ^ 63"
    using assms(3) by (auto simp: log_sized_def)
  then show ?thesis using assms(3,4) i by (auto simp: log_fits_def log_sized_def list_all_iff)
qed

lemma behind_receivable:
  assumes "log_wf es" "behind cs es" "live_from es (length cs) = i # is" "log_sized es" "sendable (es ! i)"
  shows "receivable cs i (es ! i)"
proof -
  from live_from_Cons [OF assms(3)] have i: "length cs \<le> i" "i < length es" by auto
  then have "i - length cs < 2 ^ 32" using assms(4) by (auto simp: log_sized_def)
  with i behind_fits [OF assms(2-4)] behind_target [OF assms(1,2) i(2,1)] assms(5) show ?thesis
    by (simp add: receivable_def sendable_def)
qed

section \<open>Readers of a log\<close>

locale log_reader =
  fixes holds :: "'s \<Rightarrow> entry list \<Rightarrow> bool"
    and wire :: "'s \<Rightarrow> input"
    and readcmd :: "'s \<Rightarrow> 's outcome"
    and did :: string
  assumes read_patch: "holds s cs \<Longrightarrow> receivable cs i en \<Longrightarrow>
    wire s = map Got (patch_bytes did (length cs) i en) @ rest \<Longrightarrow>
    \<exists>s'. readcmd s = Done s' \<and> wire s' = rest \<and> holds s' (received cs i en)"
begin

lemma read_feed:
  assumes "holds s cs" "behind cs es" "log_wf es" "log_sized es" "list_all sendable (map ((!) es) is)"
    "live_from es (length cs) = is" "wire s = map Got (feed did es (length cs) is) @ rest"
  shows "\<exists>s' cs'. ((\<lambda>r. obind r readcmd) ^^ length is) (Done s) = Done s' \<and> wire s' = rest \<and> holds s' cs' \<and>
    behind cs' es \<and> length cs' = (if is = [] then length cs else Suc (last is))"
  using assms
proof (induction "is" arbitrary: s cs)
  case Nil
  then show ?case by auto
next
  case (Cons i "is")
  from live_from_Cons [OF Cons.prems(6)] have i: "length cs \<le> i" "i < length es" "live_from es (Suc i) = is" by auto
  have rv: "receivable cs i (es ! i)"
    using behind_receivable [OF Cons.prems(3,2,6,4)] Cons.prems(5) by simp
  have w: "wire s = map Got (patch_bytes did (length cs) i (es ! i)) @ map Got (feed did es (Suc i) is) @ rest"
    using Cons.prems(7) by (simp only: feed_bytes map_append append_assoc)
  from read_patch [OF Cons.prems(1) rv w] obtain s1 where
    1: "readcmd s = Done s1" "wire s1 = map Got (feed did es (Suc i) is) @ rest" "holds s1 (received cs i (es ! i))" by blast
  have b: "behind (received cs i (es ! i)) es" by (rule behind_received [OF Cons.prems(3,2,6)])
  have len: "length (received cs i (es ! i)) = Suc i" using i(1) by simp
  from Cons.IH [OF 1(3) b Cons.prems(3,4)] Cons.prems(5) i(3) 1(2) len obtain s' cs' where
    "((\<lambda>r. obind r readcmd) ^^ length is) (Done s1) = Done s'" "wire s' = rest" "holds s' cs'" "behind cs' es"
    "length cs' = (if is = [] then Suc i else Suc (last is))" by auto
  with 1(1) show ?case by (intro exI [of _ s'] exI [of _ cs']) (simp add: funpow_Suc_right del: funpow.simps)
qed

theorem read_all:
  assumes "holds s cs" "behind cs es" "log_wf es" "log_sized es" "list_all (\<lambda>en. entry_live en \<longrightarrow> sendable en) es"
    "es \<noteq> [] \<longrightarrow> entry_live (last es)" "is = live_from es (length cs)"
    "wire s = map Got (feed did es (length cs) is) @ rest"
  shows "\<exists>s' cs'. ((\<lambda>r. obind r readcmd) ^^ length is) (Done s) = Done s' \<and> wire s' = rest \<and> holds s' cs' \<and> replica cs' es"
proof -
  have sd: "list_all sendable (map ((!) es) is)"
    using assms(5,7) by (auto simp: live_from_def list_all_iff)
  from read_feed [OF assms(1-4) sd _ assms(8)] assms(7) obtain s' cs' where
    1: "((\<lambda>r. obind r readcmd) ^^ length is) (Done s) = Done s'" "wire s' = rest" "holds s' cs'" "behind cs' es"
      "length cs' = (if is = [] then length cs else Suc (last is))" by blast
  have "length cs' = length es"
  proof (cases "length cs < length es")
    case True
    then have "es \<noteq> []" by auto
    with live_from_last [OF True] assms(6,7) 1(5) True show ?thesis by (cases "length es") auto
  next
    case False
    then show ?thesis using 1(5) assms(2,7) by (simp add: live_from_def behind_def)
  qed
  with 1 behind_end show ?thesis by blast
qed

end

section \<open>The client reads a log\<close>

lemma prepare_rem_dead:
  assumes "folder_ok st mp ess" "header_target h = Inr (1 + int n)" "n < length (concat ess)" "\<not> entry_live (concat ess ! n)"
  shows "mdir_prepare_rem mp h False st = Done (st, Inr ())"
proof -
  let ?js = "jnls (mdir_at st mp)"
  have r: "folder_rep (m_fs st) ?js ess" using assms(1) by (simp add: folder_ok_def)
  from folder_rep_holding [OF r assms(3)] obtain k i where
    k: "k < length ?js" "i < length (ess ! k)" "concat ess ! n = ess ! k ! i"
      "jnl_holding ?js (1 + int n) = Some k" "nat (1 + int n - jversion (?js ! k)) = i" by blast
  from folder_repD(1) [OF r k(1)] obtain ms where "jnl_rep (m_fs st) (?js ! k) (ess ! k) ms" by blast
  from jnl_read_rep [OF this k(2)] k assms(2,4) show ?thesis
    by (simp add: mdir_prepare_rem_def find_jnl_def entry_live_def)
qed

lemma patch_rem_dead:
  assumes "folder_ok st mp ess" "plain_header h"
    "log_fits (concat ess) (replicate nb blank @ [(CHR ''-'', h_fields h)])"
    "header_target h = Inr (1 + int n)" "n < length (concat ess) + nb"
    "\<not> entry_live ((concat ess @ replicate nb blank) ! n)"
  shows "\<exists>st' ess'. mdir_patch mp MDIR_REM h nb st = Done (st', Inr (1 + int (length (concat ess) + nb), h)) \<and>
    jnls_step mp st st' \<and> folder_ok st' mp ess' \<and>
    concat ess' = concat ess @ replicate nb blank @ [(CHR ''-'', h_fields h)]"
proof -
  note fit = log_fits_append [OF assms(3)]
  from insert_blank_ok [OF assms(1)] fit obtain st1 ess1 where
    1: "insert_blank_patches mp nb st = Done (st1, Inr ())" "jnls_step mp st st1" "folder_ok st1 mp ess1"
      "concat ess1 = concat ess @ replicate nb blank" by blast
  have p: "(if MDIR_REM = MDIR_REM then bnd (mdir_prepare_rem mp h False) (\<lambda>_. ret h) else mdir_prepare_add mp h False) st1
      = Done (st1, Inr h)"
    using prepare_rem_dead [OF 1(3) assms(4)] 1(4) assms(5,6) by simp
  have tag: "action_tag MDIR_REM = CHR ''-''" by (simp add: action_tag_def)
  have fit2: "log_fits (concat ess1) [(CHR ''-'', h_fields h)]" using fit 1(4) by simp
  from finish_patch [OF 1(3) assms(2), of MDIR_REM, unfolded tag, OF fit2] obtain st' ess' where
    3: "bnd (last_jnl mp) (\<lambda>k. bnd (on_jnl mp k (\<lambda>fs j. jnl_patch fs j MDIR_REM h)) (\<lambda>v.
       bnd (if MDIR_REM = MDIR_ADD then mdir_confirm_add mp h v else ret ()) (\<lambda>_.
       bnd (handle_mark mp k h v) (\<lambda>_. ret (v, h))))) st1 = Done (st', Inr (1 + int (length (concat ess1)), h))"
      "jnls_step mp st1 st'" "folder_ok st' mp ess'" "concat ess' = concat ess1 @ [(CHR ''-'', h_fields h)]" by auto
  have "mdir_patch mp MDIR_REM h nb st = Done (st', Inr (1 + int (length (concat ess1)), h))"
    unfolding mdir_patch_def using 1(1) p 3(1) by simp
  with 1(4) 3 jnls_step_trans [OF 1(2) 3(2)] show ?thesis by auto
qed

lemma folder_received:
  assumes "folder_ok st mp css" "receivable (concat css) i en"
  shows "\<exists>st' css'. mdir_patch mp (entry_action en) (entry_header en) (i - length (concat css)) st =
      Done (st', Inr (1 + int i, entry_header en)) \<and> jnls_step mp st st' \<and> folder_ok st' mp css' \<and>
    concat css' = received (concat css) i en"
proof -
  let ?cs = "concat css" and ?nb = "i - length (concat css)" and ?h = "entry_header en"
  from assms(2) have le: "length ?cs \<le> i" and pl: "plain_header ?h"
    and fit: "log_fits ?cs (replicate ?nb blank @ [en])" and tg: "fst en = TAG_ADD \<or> fst en = TAG_REM"
    by (auto simp: receivable_def sendable_def entry_ok_def entry_live_def)
  have i: "length ?cs + ?nb = i" using le by simp
  have hf: "h_fields ?h = snd en" by (simp add: entry_header_def)
  show ?thesis
  proof (cases "fst en = TAG_ADD")
    case True
    then have en: "(CHR ''+'', h_fields ?h) = en" "entry_action en = MDIR_ADD" "fst en \<noteq> TAG_REM"
      by (auto simp: hf entry_action_def intro: prod_eqI)
    from patch_add_ok [OF assms(1) pl, of ?nb] fit show ?thesis unfolding en i using en(3)
      by (auto simp: received_def Let_def)
  next
    case False
    then have tr: "fst en = TAG_REM" using tg by simp
    then have en: "(CHR ''-'', h_fields ?h) = en" "entry_action en = MDIR_REM"
      by (auto simp: hf entry_action_def intro: prod_eqI)
    from assms(2) tr obtain t where t: "t < i" "header_target ?h = Inr (1 + int t)"
      "t < length ?cs \<longrightarrow> fst (?cs ! t) = TAG_ADD \<and> \<not> header_is_directory (entry_header (?cs ! t)) \<or> \<not> entry_live (?cs ! t)"
      by (auto simp: receivable_def)
    let ?c1 = "?cs @ replicate ?nb blank"
    show ?thesis
    proof (cases "t < length ?cs \<and> fst (?cs ! t) = TAG_ADD")
      case True
      then have nd: "\<not> header_is_directory (entry_header (?cs ! t))" using t(3) by (auto simp: entry_live_def)
      have "received ?cs i en = ?cs[t := jdead (?cs ! t)] @ replicate ?nb blank @ [en]"
        using True tr t(2) by (simp add: received_def Let_def killed_target nth_append list_update_append)
      with patch_rem_ok [OF assms(1) pl _ t(2), of ?nb, unfolded en i] fit True nd en show ?thesis by auto
    next
      case False
      then have dead: "\<not> entry_live (?c1 ! t)" using t by (auto simp: nth_append entry_live_def blank_def)
      then have "fst (?c1 ! t) \<noteq> TAG_ADD" by (auto simp: entry_live_def)
      then have "received ?cs i en = ?c1 @ [en]"
        using tr t(2) by (simp add: received_def Let_def killed_target)
      with patch_rem_dead [OF assms(1) pl _ t(2), of ?nb, unfolded en i] fit t(1) dead en show ?thesis by auto
    qed
  qed
qed

definition client_read :: "int \<Rightarrow> cst \<Rightarrow> cst outcome" where
  "client_read now s = (case read_one now s of
     Done (s', Inr _) \<Rightarrow> Done s' | Done (s', Inl e) \<Rightarrow> Raised e | Raised e \<Rightarrow> Raised e | Crash \<Rightarrow> Crash)"

text \<open>A client that has a folder loaded, waits for no acknowledgement there and keeps no patch aside.\<close>

definition client_holds :: "string \<Rightarrow> nat \<Rightarrow> cst \<Rightarrow> entry list \<Rightarrow> bool" where
  "client_holds did mp s cs \<longleftrightarrow> (\<exists>css. folder_ok (c_mst s) mp css \<and> concat css = cs) \<and>
     find (\<lambda>m. mdir_id (c_mst s) (mdir_at (c_mst s) m) = did) (mdirs (c_mst s)) = Some mp \<and>
     patches (mdirc_at s mp) = [] \<and> nb_pending_acks (mdirc_at s mp) = 0 \<and> c2l_maps (mdirc_at s mp) = [] \<and>
     cnx_syntax (c_cnx s) = connecter_begin \<and> word_ok did \<and> length did < PATH_MAX"

lemma find_patch_def: "find_def (defs connecter_begin) 0 ''PATCH'' = Some patch_def"
  by code_simp

lemma transcode_patch:
  assumes "0 \<le> old" "old < 2 ^ 63" "0 \<le> new" "new < 2 ^ 63"
  shows "with_args patch_def 0 [did, dec_int old, dec_int new, act] =
    Done \<lparr>c_def = patch_def, c_seq = 0, c_args = [ArgStr did, ArgInt old, ArgInt new, ArgStr act]\<rparr>"
  using assms by (simp add: with_args_def args_of_def patch_def_def transcode_def strtoll0_dec_int numeral_2_eq_2 numeral_3_eq_3)

lemma read_patch_line:
  assumes "word_ok did" "length did < PATH_MAX" "0 \<le> old" "old < 2 ^ 63" "0 \<le> new" "new < 2 ^ 63"
  shows "mdir_cmd_read connecter_begin (map Got (patch_line did old new a) @ rest) =
    (Done \<lparr>c_def = patch_def, c_seq = 0, c_args = [ArgStr did, ArgInt old, ArgInt new, ArgStr (mdir_action2str a)]\<rparr>, rest)"
proof -
  let ?ws = "[did, dec_int old, dec_int new, mdir_action2str a]"
  have l: "patch_line did old new a = join (''PATCH'' # ?ws) @ [NL]" by (simp add: patch_line_def)
  have k: "word_ok ''PATCH''" "\<not> is_seq ''PATCH''" by code_simp+
  have w: "word_ok (mdir_action2str a)" by (cases a) (simp_all add: mdir_action2str_def word_ok_def is_delimiter_def)
  have "length (mdir_action2str a) = 1" by (cases a) (simp_all add: mdir_action2str_def)
  with assms(2) dec_int_length [OF assms(3,4)] dec_int_length [OF assms(5,6)]
  have len: "length (join (''PATCH'' # ?ws)) < MAX_CMD_LINE" by (simp add: MAX_CMD_LINE_def)
  have "mdir_cmd_read connecter_begin (map Got (join (''PATCH'' # ?ws) @ [NL]) @ rest) = (with_args patch_def 0 ?ws, rest)"
    by (rule read_plain_line [OF _ len k(2) _ find_patch_def])
      (use k w assms(1) word_ok_dec_int in \<open>simp_all add: CMD_MAX_ARGS_def patch_def_def\<close>)
  then show ?thesis unfolding l transcode_patch [OF assms(3-6)] .
qed

lemma find_after_step:
  "jnls_step mp st st' \<Longrightarrow> find (\<lambda>m. mdir_id st' (mdir_at st' m) = did) (mdirs st') = find (\<lambda>m. mdir_id st (mdir_at st m) = did) (mdirs st)"
proof -
  assume "jnls_step mp st st'"
  then have "mdirs st' = mdirs st" "\<And>m. mdir_id st' (mdir_at st' m) = mdir_id st (mdir_at st m)"
    by (auto simp: jnls_step_def upd_mdir_def set_fs_def mdir_id_def)
  then show ?thesis by simp
qed

lemma apply_one:
  assumes "mdir_last_version (mdir_at (c_mst s) mp) = old_version p" "old_version p < new_version p"
    "nat ((new_version p - old_version p - 1) mod 2 ^ 32) = nb"
    "mdir_patch mp (p_action p) (p_header p) nb (c_mst s) = Done (st', Inr (new_version p, h))"
  shows "apply_patches mp (p # ps) s =
    apply_patches mp ps (set_mdirc mp (\<lambda>m. m\<lparr>patches := tl (patches m)\<rparr>) (s\<lparr>c_mst := st'\<rparr>))"
proof -
  have "in_mst (mdir_patch mp (p_action p) (p_header p) nb) s = Done (s\<lparr>c_mst := st'\<rparr>, Inr (new_version p, h))"
    using assms(4) by (simp add: in_mst_def)
  with assms(1-3) show ?thesis by (simp add: patch_del_def upd_mdirc_def bnd_def)
qed

lemma client_reads_patch:
  assumes h: "client_holds did mp s cs" and r: "receivable cs i en"
    and w: "c_in s = map Got (patch_bytes did (length cs) i en) @ rest"
  shows "\<exists>s'. client_read now s = Done s' \<and> c_in s' = rest \<and> client_holds did mp s' (received cs i en)"
proof -
  let ?old = "int (length cs)" and ?new = "1 + int i" and ?hd = "entry_header en" and ?a = "entry_action en"
  let ?args = "[ArgStr did, ArgInt ?old, ArgInt ?new, ArgStr (mdir_action2str ?a)]"
  from h obtain css where css: "folder_ok (c_mst s) mp css" "concat css = cs"
    and fd: "find (\<lambda>m. mdir_id (c_mst s) (mdir_at (c_mst s) m) = did) (mdirs (c_mst s)) = Some mp"
    and mc: "patches (mdirc_at s mp) = []" "nb_pending_acks (mdirc_at s mp) = 0" "c2l_maps (mdirc_at s mp) = []"
    and sy: "cnx_syntax (c_cnx s) = connecter_begin" and did: "word_ok did" "length did < PATH_MAX"
    by (auto simp: client_holds_def)
  from r have le: "length cs \<le> i" and rd: "readable ?hd" and nb: "i - length cs < 2 ^ 32"
    and fit: "int (length (cs @ replicate (i - length cs) blank @ [en])) + 1 < 2 ^ 63"
    by (auto simp: receivable_def sendable_def log_fits_def)
  let ?s1 = "s\<lparr>c_in := map Got (header_dump ?hd) @ rest\<rparr>" and ?s2 = "s\<lparr>c_in := rest\<rparr>"
  let ?p = "\<lparr>old_version = ?old, new_version = ?new, p_header = ?hd, p_action = ?a\<rparr>"
  let ?s3 = "set_mdirc mp (\<lambda>m. m\<lparr>patches := [?p]\<rparr>) ?s2"
  have cmd: "mdir_cmd_read connecter_begin (c_in s) =
      (Done \<lparr>c_def = patch_def, c_seq = 0, c_args = ?args\<rparr>, map Got (header_dump ?hd) @ rest)"
    using read_patch_line [OF did, of ?old ?new ?a "map Got (header_dump ?hd) @ rest"] fit le by (simp add: w patch_bytes_def)
  have fh: "fetch_header ?s1 = Done (?s2, Inr ?hd)"
    using header_read_dump_lemma [OF rd, of header_new rest] by (simp add: fetch_header_def header_new_def entry_header_def)
  have pn: "patch_new mp ?old ?new ?a ?s1 = Done (?s3, Inr ())"
    using fh mc by (simp add: patch_new_def patch_ctor_def c2l_search_def upd_mdirc_def set_mdirc_def)
  from folder_received [OF css(1), of i en] r css(2) obtain st' css' where
    st: "mdir_patch mp ?a ?hd (i - length cs) (c_mst s) = Done (st', Inr (?new, ?hd))" "jnls_step mp (c_mst s) st'"
      "folder_ok st' mp css'" "concat css' = received cs i en" by auto
  have rep: "folder_rep (m_fs (c_mst s)) (jnls (mdir_at (c_mst s) mp)) css" using css(1) by (simp add: folder_ok_def)
  have lv: "mdir_last_version (mdir_at (c_mst s) mp) = ?old" using last_version_rep [OF rep] css(2) by simp
  let ?s4 = "set_mdirc mp (\<lambda>m. m\<lparr>patches := []\<rparr>) (?s2\<lparr>c_mst := st'\<rparr>)"
  have nbe: "nat ((?new - ?old - 1) mod 2 ^ 32) = i - length cs"
  proof -
    have "?new - ?old - 1 = int (i - length cs)" using le by simp
    then show ?thesis using nb by (simp add: of_nat_mod [symmetric] del: of_nat_diff)
  qed
  have "apply_patches mp [?p] ?s3 = apply_patches mp [] (set_mdirc mp (\<lambda>m. m\<lparr>patches := tl (patches m)\<rparr>) (?s3\<lparr>c_mst := st'\<rparr>))"
    by (rule apply_one [where nb = "i - length cs" and h = ?hd])
      (use lv le nbe st(1) in \<open>simp_all only: patch.simps\<close>, simp_all add: set_mdirc_def lv)
  moreover have "set_mdirc mp (\<lambda>m. m\<lparr>patches := tl (patches m)\<rparr>) (?s3\<lparr>c_mst := st'\<rparr>) = ?s4" by (simp add: set_mdirc_def)
  ultimately have ta: "try_apply mp ?s3 = Done (?s4, Inr ())" using mc by (simp add: try_apply_def set_mdirc_def)
  have "mdir_lookup_by_id did False (c_mst s) = Done (c_mst s, Inr mp)" using fd by (simp add: mdir_lookup_by_id_def)
  then have lk: "in_mst (mdir_lookup_by_id did False) ?s1 = Done (?s1, Inr mp)" by (simp add: in_mst_def)
  have "mdir_str2action (mdir_action2str ?a) = Inr ?a" by (cases ?a) (simp_all add: mdir_str2action_def mdir_action2str_def)
  with lk pn ta have ps: "patch_service \<lparr>c_def = patch_def, c_seq = 0, c_args = ?args\<rparr> ?s1 = Done (?s4, Inr ())"
    by (simp add: patch_service_def bnd_def)
  have cb: "client_cmd now \<lparr>c_def = patch_def, c_seq = 0, c_args = ?args\<rparr> ?s1 = Done (?s4, Inr ())"
    using ps by (simp add: client_cmd_def Let_def patch_def_def)
  then have "client_read now s = Done ?s4"
    using cmd sy by (simp add: client_read_def read_one_def Let_def)
  moreover have "client_holds did mp ?s4 (received cs i en)"
    using st(3,4) find_after_step [OF st(2), of did] fd mc sy did by (auto simp: client_holds_def set_mdirc_def)
  moreover have "c_in ?s4 = rest" by (simp add: set_mdirc_def)
  ultimately show ?thesis by blast
qed

interpretation cl: log_reader "client_holds did mp" c_in "client_read now" did
  for did :: string and mp :: nat and now :: int
  by unfold_locales (rule client_reads_patch)

section \<open>Properties\<close>

text \<open>C1. The client becomes a replica of the server. Let a folder of the server hold a
  well-formed log whose entries can be sent (headers within the limits of a header, neither
  subfolders, nor permissions, nor marks), with a subscription at version \<open>n\<close>, and let a client
  hold the first \<open>n\<close> versions of that log, up to deletions it has not heard of. Then the turns of
  the subscription thread write bytes which, read by the client whatever follows them, are
  consumed exactly, without error and without reaching an assertion, and leave the client with a
  log of the same length in which every live entry of the server stands under the same version
  and every entry deleted on the server is deleted or blank.\<close>

theorem replication:
  assumes "sub_ok s k mp ess n" "es = concat ess" "log_wf es" "log_sized es"
    "list_all (\<lambda>en. entry_live en \<longrightarrow> sendable en) es" "es \<noteq> [] \<longrightarrow> entry_live (last es)"
    "did = mdir_id (s_mst s) (mdir_at (s_mst s) mp)"
    "client_holds did mp' c cs" "behind cs es" "length cs = n" "t = length (live_from es n)"
  shows "\<exists>s' txt. turns t k s = Done (s', Inr ()) \<and>
    sock_out (e_cnx (s_env s')) = sock_out (e_cnx (s_env s)) @ txt \<and>
    (\<exists>c' cs'. ((\<lambda>r. obind r (client_read now)) ^^ t) (Done (c\<lparr>c_in := map Got txt @ rest\<rparr>)) = Done c' \<and>
      c_in c' = rest \<and> client_holds did mp' c' cs' \<and> replica cs' es)"
proof -
  let ?is = "live_from es n" and ?c = "c\<lparr>c_in := map Got (feed did es n (live_from es n)) @ rest\<rparr>"
  have h: "client_holds did mp' ?c cs" using assms(8) by (simp add: client_holds_def)
  have w: "c_in ?c = map Got (feed did es (length cs) ?is) @ rest" using assms(10) by simp
  have i: "?is = live_from es (length cs)" using assms(10) by simp
  from cl.read_all [OF h assms(9,3-6) i w, of now] assms(11) obtain c' cs' where
    c: "((\<lambda>r. obind r (client_read now)) ^^ t) (Done ?c) = Done c'" "c_in c' = rest" "client_holds did mp' c' cs'"
      "replica cs' es" by blast
  from turns_feed [OF assms(1) _ assms(7)] assms(2,11) obtain v where
    "turns t k s = Done (sent k (feed did es n ?is) v s, Inr ())" by auto
  with c show ?thesis by (intro exI [of _ "sent k (feed did es n ?is) v s"] exI [of _ "feed did es n ?is"]) (auto simp: sent_def)
qed

definition srv_sub :: "mst \<Rightarrow> sst" where
  "srv_sub m = (srv_sample None None [])\<lparr>s_mst := m,
     s_env := (cnx_env_new init_syntax [])\<lparr>e_subs := [\<lparr>sub_mdir = 0, sub_version = 0\<rparr>]\<rparr>\<rparr>"

definition cl_sample :: cst where
  "cl_sample = \<lparr>c_mst = st_root None, c_mdircs = (\<lambda>_. mdirc_alloc), c_cmds = (\<lambda>_. None), c_next = 0,
     c_cnx = mdir_cnx_ctor_outbound connecter_begin None, c_in = [], terminate_reader = False\<rparr>"

theorem replication_witness:
  "\<exists>m s' txt c' cs'. turns 1 0 (srv_sub m) = Done (s', Inr ()) \<and> sock_out (e_cnx (s_env s')) = txt \<and>
     client_read 0 (cl_sample\<lparr>c_in := map Got txt @ []\<rparr>) = Done c' \<and> client_holds ''root'' 0 c' cs' \<and>
     replica cs' [blank, (CHR ''+'', h_fields h_sample)]"
proof -
  let ?es = "[blank, (CHR ''+'', h_fields h_sample)]"
  have fit: "log_fits (concat []) (replicate 1 blank @ [(CHR ''+'', h_fields h_sample)])"
    using h_sample_ok by (simp add: log_fits_def entry_text_def h_sample_def field_dump_def)
  from patch_add_ok [OF st_root_ok [of None] h_sample_plain fit] obtain m ess where
    m: "jnls_step 0 (st_root None) m" "folder_ok m 0 ess" "concat ess = ?es" by auto
  have ok: "sub_ok (srv_sub m) 0 0 ess 0"
    using m(2,3) by (simp add: sub_ok_def srv_sub_def cnx_env_new_def mdir_cnx_ctor_inbound_def cnx_ctor_common_def)
  have wf: "log_wf ?es" by (auto simp: log_wf_def less_Suc_eq blank_def)
  have "length (log_text ?es) < 100" by code_simp
  then have sz: "log_sized ?es" by (simp add: log_sized_def)
  have "sendable (CHR ''+'', h_fields h_sample)" by code_simp
  then have sd: "list_all (\<lambda>en. entry_live en \<longrightarrow> sendable en) ?es" by (simp add: entry_live_def blank_def)
  have tl: "?es \<noteq> [] \<longrightarrow> entry_live (last ?es)" by (simp add: entry_live_def)
  have "mdir_root m = ''/m''" "mpath (mdir_at m 0) = ''/m/root''"
    using m(1) by (auto simp: jnls_step_def upd_mdir_def set_fs_def st_root_def st_sample_def)
  then have d: "''root'' = mdir_id (s_mst (srv_sub m)) (mdir_at (s_mst (srv_sub m)) 0)" by (simp add: mdir_id_def srv_sub_def)
  have "word_ok ''root''" "length ''root'' < PATH_MAX" by (simp_all add: word_ok_def is_delimiter_def PATH_MAX_def)
  then have cl: "client_holds ''root'' 0 cl_sample []"
    using st_root_ok [of None]
    by (auto simp: client_holds_def cl_sample_def mdirc_alloc_def mdir_cnx_ctor_outbound_def cnx_ctor_common_def
        st_root_def st_sample_def mdir_id_def intro: exI [of _ "[]"])
  have b: "behind [] ?es" by (simp add: behind_def log_text_def)
  have l: "1 = length (live_from ?es 0)" by code_simp
  have so: "sock_out (e_cnx (s_env (srv_sub m))) = []"
    by (simp add: srv_sub_def cnx_env_new_def mdir_cnx_ctor_inbound_def cnx_ctor_common_def)
  from replication [OF ok m(3) [symmetric] wf sz sd tl d cl b _ l, of 0 "[]"] so show ?thesis by auto
qed

text \<open>The log of a folder of the server stays well-formed: adding a header, or removing a live
  entry that is not a subfolder, keeps every removal after the entry it targets, the target
  dead, and the last entry of the log alive, so that subscriptions always have a patch to send
  when they are behind.\<close>

theorem server_log_wf:
  assumes "folder_ok st mp ess" "plain_header h" "log_wf (concat ess)"
    "log_fits (concat ess) [(action_tag a, h_fields h)]"
    "a = MDIR_REM \<Longrightarrow> header_target h = Inr (1 + int n) \<and> n < length (concat ess) \<and> fst (concat ess ! n) = TAG_ADD \<and>
       \<not> header_is_directory (entry_header (concat ess ! n))"
  shows "\<exists>st' ess' v. mdir_patch mp a h 0 st = Done (st', Inr (v, h)) \<and> folder_ok st' mp ess' \<and>
    length (concat ess') = Suc (length (concat ess)) \<and> log_wf (concat ess') \<and> entry_live (last (concat ess'))"
proof (cases a)
  case MDIR_ADD
  then have t: "action_tag a = CHR ''+''" by (simp add: action_tag_def)
  from patch_add_ok [OF assms(1,2), of 0] assms(4) t obtain st' ess' where
    "mdir_patch mp MDIR_ADD h 0 st = Done (st', Inr (1 + int (length (concat ess)), h))" "folder_ok st' mp ess'"
    "concat ess' = concat ess @ [(CHR ''+'', h_fields h)]" by auto
  with MDIR_ADD log_wf_add [OF assms(3), of "(CHR ''+'', h_fields h)"] show ?thesis by (auto simp: entry_live_def)
next
  case MDIR_REM
  then have t: "action_tag a = CHR ''-''" by (simp add: action_tag_def)
  note r = assms(5) [OF MDIR_REM]
  from patch_rem_ok [OF assms(1,2), of 0 n] assms(4) t r obtain st' ess' where
    p: "mdir_patch mp MDIR_REM h 0 st = Done (st', Inr (1 + int (length (concat ess)), h))" "folder_ok st' mp ess'"
    "concat ess' = (concat ess)[n := jdead (concat ess ! n)] @ [(CHR ''-'', h_fields h)]" by auto
  have "log_wf (concat ess')" unfolding p(3) by (rule log_wf_rem [OF assms(3)]) (use r t entry_header_target in auto)
  with MDIR_REM p show ?thesis by (auto simp: entry_live_def)
qed

theorem server_log_wf_witness:
  "\<exists>st1 ess1 st2 ess2. mdir_patch 0 MDIR_ADD h_sample 0 st_sample = Done (st1, Inr (1, h_sample)) \<and> folder_ok st1 0 ess1 \<and>
     (\<exists>v. mdir_patch 0 MDIR_REM h_target_sample 0 st1 = Done (st2, Inr (v, h_target_sample))) \<and>
     log_wf (concat ess2) \<and> length (concat ess2) = 2 \<and> folder_ok st2 0 ess2"
proof -
  have f1: "log_fits (concat []) (replicate 0 blank @ [(CHR ''+'', h_fields h_sample)])"
    using h_sample_ok by (simp add: log_fits_def entry_text_def h_sample_def field_dump_def)
  from patch_add_ok [OF st_sample_ok h_sample_plain f1] obtain st1 ess where
    1: "mdir_patch 0 MDIR_ADD h_sample 0 st_sample = Done (st1, Inr (1, h_sample))" "folder_ok st1 0 ess"
      "concat ess = [(CHR ''+'', h_fields h_sample)]" by auto
  have p: "plain_header h_target_sample" by code_simp
  have t: "header_target h_target_sample = Inr (1 + int 0)" by code_simp
  have ok: "entry_ok (CHR ''-'', h_fields h_target_sample)" by code_simp
  have nd: "\<not> header_is_directory (entry_header (CHR ''+'', h_fields h_sample))" by code_simp
  have f2: "log_fits (concat ess) [(action_tag MDIR_REM, h_fields h_target_sample)]"
    using ok 1(3) by (simp add: log_fits_def entry_text_def h_sample_def h_target_sample_def field_dump_def action_tag_def)
  have wf: "log_wf (concat ess)" unfolding 1(3) by (simp add: log_wf_def)
  from server_log_wf [OF 1(2) p wf f2, of 0] t 1(3) nd obtain st2 ess2 v where
    "mdir_patch 0 MDIR_REM h_target_sample 0 st1 = Done (st2, Inr (v, h_target_sample))" "folder_ok st2 0 ess2"
    "length (concat ess2) = 2" "log_wf (concat ess2)" by auto
  with 1 show ?thesis by blast
qed

end
