(* ===== verification/Dates.thy ===== *)
theory Dates
  imports Prelude
begin

text \<open>
  Dates, after \<open>lib/timetools.c\<close> and \<open>vadrouille/cal_date.c\<close>: the length of months, the dates of the calendar
  (normalised when they are built, compared, read from what the user types), and the date
  fields of headers, which hold universal time. \<open>guint\<close> and \<open>unsigned\<close> are natural numbers below
  \<open>2 ^ 32\<close> with the wrap-around written out, \<open>long\<close> is \<open>int\<close> with signed overflow leaving defined
  behaviour. The functions of \<open>time.h\<close> are modelled for a time zone whose offset to universal
  time, an argument of the definitions, is constant.
\<close>

section \<open>Months\<close>

definition to_guint :: "int \<Rightarrow> nat" where
  "to_guint v = nat (v mod 2 ^ 32)"

definition guint32 :: "nat \<Rightarrow> nat" where "guint32 n = to_guint (int n)"

definition is_leap_year :: "nat \<Rightarrow> bool" where
  "is_leap_year y \<longleftrightarrow> y mod 4 = 0 \<and> (y mod 100 \<noteq> 0 \<or> y mod 400 = 0)"

definition days :: "nat list" where
  "days = [31, 28, 31, 30, 31, 30, 31, 31, 30, 31, 30, 31]"

text \<open>The month is from 0 to 11 in every call.\<close>

definition month_days :: "nat \<Rightarrow> nat \<Rightarrow> nat" where
  "month_days y m = days ! m + (if m = 1 \<and> is_leap_year y then 1 else 0)"

section \<open>Dates of the calendar\<close>

text \<open>The year is 0 when the date is not set, the hour is above 23 when it has no time.\<close>

record cal_date =
  cd_year :: nat
  cd_month :: nat
  cd_day :: nat
  cd_hour :: nat
  cd_min :: nat
  cd_str :: string

definition cal_date_is_set :: "cal_date \<Rightarrow> bool" where
  "cal_date_is_set cd \<longleftrightarrow> cd_year cd \<noteq> 0"

definition cal_date_has_time :: "cal_date \<Rightarrow> bool" where
  "cal_date_has_time cd \<longleftrightarrow> cal_date_is_set cd \<and> cd_hour cd \<le> 23"

definition bound_time :: "cal_date \<Rightarrow> cal_date" where
  "bound_time cd = (if cal_date_has_time cd then
     let h = guint32 (cd_hour cd + cd_min cd div 60) in
     cd\<lparr>cd_min := cd_min cd mod 60, cd_day := guint32 (cd_day cd + h div 24), cd_hour := h mod 24\<rparr>
   else cd)"

lemma month_days_pos: "m < 12 \<Longrightarrow> 28 \<le> month_days y m"
  by (auto simp: month_days_def days_def less_Suc_eq numeral_eq_Suc)

lemma month_days_le: "m < 12 \<Longrightarrow> month_days y m \<le> 31"
  by (auto simp: month_days_def days_def less_Suc_eq numeral_eq_Suc)

text \<open>The loop that carries days into months; the month stays below 12.\<close>

function bound_days :: "nat \<Rightarrow> nat \<Rightarrow> nat \<Rightarrow> nat \<times> nat \<times> nat" where
  "bound_days y m d =
     (if m < 12 \<and> month_days y m < d then
        (if 12 \<le> m + 1 then bound_days (guint32 (y + 1)) (m + 1 - 12) (d - month_days y m)
         else bound_days y (m + 1) (d - month_days y m))
      else (y, m, d))"
  by pat_completeness auto

termination
proof (relation "measure (\<lambda>(y, m, d). d)")
  fix y m d :: nat
  assume "m < 12 \<and> month_days y m < d"
  with month_days_pos [of m y]
  show "((guint32 (y + 1), m + 1 - 12, d - month_days y m), y, m, d) \<in> measure (\<lambda>(y, m, d). d)"
    "((y, m + 1, d - month_days y m), y, m, d) \<in> measure (\<lambda>(y, m, d). d)" by auto
qed simp

declare bound_days.simps [simp del]

definition bound_date :: "cal_date \<Rightarrow> cal_date" where
  "bound_date cd = (if cal_date_is_set cd then
     (case bound_days (guint32 (cd_year cd + cd_month cd div 12)) (cd_month cd mod 12) (cd_day cd) of
        (y, m, d) \<Rightarrow> cd\<lparr>cd_year := y, cd_month := m, cd_day := d\<rparr>)
   else cd)"

definition dec0 :: "nat \<Rightarrow> nat \<Rightarrow> string" where
  "dec0 w n = pad0 w (dec_nat n)"

text \<open>\<open>str\<close> has room for 16 characters and the NUL.\<close>

definition cal_str :: "cal_date \<Rightarrow> string" where
  "cal_str cd = (if \<not> cal_date_is_set cd then []
     else take 16 (dec0 4 (cd_year cd) @ ''-'' @ dec0 2 (guint32 (cd_month cd + 1)) @ ''-'' @ dec0 2 (cd_day cd) @
       (if cal_date_has_time cd then SP # dec0 2 (cd_hour cd) @ ''h'' @ dec0 2 (cd_min cd) else [])))"

definition cal_date_ctor :: "nat \<Rightarrow> nat \<Rightarrow> nat \<Rightarrow> nat \<Rightarrow> nat \<Rightarrow> cal_date" where
  "cal_date_ctor y M d h m =
     (let cd = bound_date (bound_time \<lparr>cd_year = y, cd_month = M, cd_day = d, cd_hour = h, cd_min = m, cd_str = []\<rparr>)
      in cd\<lparr>cd_str := cal_str cd\<rparr>)"

definition guint_compare :: "nat \<Rightarrow> nat \<Rightarrow> int" where
  "guint_compare a b = (if a < b then -1 else if a > b then 1 else 0)"

definition cal_date_compare :: "cal_date \<Rightarrow> cal_date \<Rightarrow> int" where
  "cal_date_compare a b =
     (if cd_year a \<noteq> cd_year b then guint_compare (cd_year a) (cd_year b)
      else if cd_month a \<noteq> cd_month b then guint_compare (cd_month a) (cd_month b)
      else if cd_day a \<noteq> cd_day b then guint_compare (cd_day a) (cd_day b)
      else if \<not> cal_date_has_time a then
        (if cal_date_has_time b \<and> (0 < cd_hour b \<or> 0 < cd_min b) then -1 else 0)
      else if \<not> cal_date_has_time b \<and> (0 < cd_hour a \<or> 0 < cd_min a) then 1
      else if cd_hour a \<noteq> cd_hour b then guint_compare (cd_hour a) (cd_hour b)
      else if cd_min a \<noteq> cd_min b then guint_compare (cd_min a) (cd_min b)
      else 0)"

section \<open>What the user types\<close>

text \<open>The result of an operation on \<open>long\<close>, which must not overflow.\<close>

definition long_ok :: "int \<Rightarrow> int outcome" where
  "long_ok v = (if - (2 ^ 63) \<le> v \<and> v < 2 ^ 63 then Done v else Crash)"

definition issep :: "char \<Rightarrow> bool" where
  "issep c \<longleftrightarrow> isblank c \<or> c \<in> set ''-/:hH''"

text \<open>A unit of durations: its letter, the rest of its name, its length in minutes.\<close>

definition strip_unit :: "string \<Rightarrow> string \<Rightarrow> string" where
  "strip_unit name s = (if take (length name) s = name
     then (case drop (length name) s of c # t \<Rightarrow> if c = CHR ''s'' then t else c # t | [] \<Rightarrow> []) else s)"

definition duration_unit :: "char \<Rightarrow> (string \<times> int) option" where
  "duration_unit c = (if c = CHR ''m'' then Some (''in'', 1)
     else if c = CHR ''h'' then Some (''our'', 60)
     else if c = CHR ''d'' then Some (''ay'', 60 * 24) else None)"

lemma read_digits_len: "length (snd (read_digits b acc s)) \<le> length s"
  by (induction b acc s rule: read_digits.induct) (auto split: option.splits)

lemma strtoll10_len: "length (snd (strtoll10 s)) \<le> length s"
proof -
  have "length (snd (skip_sign s)) \<le> length s"
    using length_dropWhile_le [of isspace s] by (auto simp: skip_sign_def split: list.splits)
  with read_digits_len [of 10 0 "snd (skip_sign s)"] show ?thesis
    by (auto simp: strtoll10_def split: prod.splits)
qed

lemma strip_unit_len: "length (strip_unit n s) \<le> length s"
  by (auto simp: strip_unit_def split: list.splits)
     (metis length_Cons length_drop diff_le_self le_SucI Suc_leD)+

function parse_duration :: "int \<Rightarrow> string \<Rightarrow> int outcome" where
  "parse_duration d s =
     (if s = [] then Done d
      else case strtoll10 s of (v, e) \<Rightarrow>
        (case dropWhile isblank e of
           [] \<Rightarrow> long_ok (d + v)
         | c # t \<Rightarrow> (case duration_unit c of
             None \<Rightarrow> Raised (Err 0 ''Cannot parse as duration'')
           | Some (name, k) \<Rightarrow> obind (long_ok (v * k)) (\<lambda>w. obind (long_ok (d + w))
               (\<lambda>d. parse_duration d (dropWhile isblank (strip_unit name t)))))))"
  by pat_completeness auto
termination
proof (relation "measure (\<lambda>(d, s). length s)")
  fix d d' w :: int and s e t name :: string and c :: char and x v k p
  assume "(v, e) = strtoll10 s" "dropWhile isblank e = c # t"
  then have "length t < length s"
    using strtoll10_len [of s] length_dropWhile_le [of isblank e] by (metis snd_conv length_Cons less_eq_Suc_le order_trans)
  with strip_unit_len [of name t] length_dropWhile_le [of isblank "strip_unit name t"]
  show "((d', dropWhile isblank (strip_unit name t)), d, s) \<in> measure (\<lambda>(d, s). length s)" by simp
qed simp

declare parse_duration.simps [simp del]

text \<open>
  Reading the hour and the minutes, then building the date; \<open>old\<close> is the structure before it
  is built, on which the code asserts.
\<close>

definition input_hour :: "int \<Rightarrow> int \<Rightarrow> int \<Rightarrow> string \<Rightarrow> cal_date outcome" where
  "input_hour y M d j =
     (let build = (\<lambda>h m. Done (cal_date_ctor (to_guint y) (to_guint M) (to_guint d) (to_guint h) (to_guint m))) in
      if j = [] then build 99 0
      else case strtoll10 j of (h, i) \<Rightarrow>
        if h < 0 \<or> 23 < h then Raised (Err 0 ''Invalid hour'')
        else let i = dropWhile issep i in
          if i = [] then build h 0
          else case strtoll10 i of (m, _) \<Rightarrow>
            if m < 0 \<or> 59 < m then Raised (Err 0 ''Invalid minutes'') else build h m)"

definition input_date :: "string \<Rightarrow> cal_date option \<Rightarrow> cal_date outcome" where
  "input_date i ref = (case strtoll10 i of (y, j) \<Rightarrow>
     if j = [] then Raised (Err 0 ''Invalid date : lacks a month'')
     else if ref \<noteq> None \<and> (hd j = CHR ''h'' \<or> hd j = CHR ''H'')
     then input_hour (int (cd_year (the ref))) (int (cd_month (the ref))) (int (cd_day (the ref))) i
     else case strtoll10 (dropWhile issep j) of (M, i) \<Rightarrow>
       if i = [] then Raised (Err 0 ''Invalid date : lacks a day'')
       else if M < 1 \<or> 12 < M then Raised (Err 0 ''Invalid month'')
       else case strtoll10 (dropWhile issep i) of (d, j) \<Rightarrow>
         if d < 1 \<or> 31 < d then Raised (Err 0 ''Invalid day'')
         else if int (month_days (to_guint y) (nat (M - 1))) < d then Raised (Err 0 ''No such day in this month'')
         else input_hour y (M - 1) d (dropWhile isblank j))"

definition cal_date_ctor_from_input :: "cal_date \<Rightarrow> string \<Rightarrow> cal_date option \<Rightarrow> cal_date outcome" where
  "cal_date_ctor_from_input old i ref =
     (let ref = (case ref of Some r \<Rightarrow> if cal_date_is_set r then Some r else None | None \<Rightarrow> None);
          i = dropWhile isblank i in
      if i = [] then Done (cal_date_ctor 0 0 0 99 0)
      else case ref of
        Some r \<Rightarrow>
          if hd i = CHR ''+'' then
            obind (parse_duration 0 (tl i)) (\<lambda>du.
              if \<not> cal_date_is_set old then Crash
              else obind (long_ok (int (if cal_date_has_time r then cd_min r else 0) + du)) (\<lambda>m.
                Done (cal_date_ctor (cd_year r) (cd_month r) (cd_day r)
                  (if cal_date_has_time r then cd_hour r else 0) (to_guint m))))
          else input_date i ref
      | None \<Rightarrow> input_date i ref)"

section \<open>The functions of the C library\<close>

record tm =
  tm_year :: int
  tm_mon :: int
  tm_mday :: int
  tm_hour :: int
  tm_min :: int
  tm_sec :: int

text \<open>
  The proleptic Gregorian calendar: the number of days before a year and before a month of
  a year, counted from the first day of the year 0.
\<close>

definition days_before :: "int \<Rightarrow> int" where
  "days_before y = 365 * y + (y + 3) div 4 - (y + 99) div 100 + (y + 399) div 400"

definition mdays :: "int \<Rightarrow> nat \<Rightarrow> int" where
  "mdays y m = int (month_days (nat (y mod 400)) m)"

fun month_start :: "int \<Rightarrow> nat \<Rightarrow> int" where
  "month_start y 0 = 0"
| "month_start y (Suc m) = month_start y m + mdays y m"

definition timegm :: "tm \<Rightarrow> int" where
  "timegm t = (let y = tm_year t + 1900 + tm_mon t div 12; m = nat (tm_mon t mod 12) in
     (days_before y + month_start y m + tm_mday t - 1 - days_before 1970) * 86400
     + tm_hour t * 3600 + tm_min t * 60 + tm_sec t)"

definition gmtime :: "int \<Rightarrow> tm" where
  "gmtime ts =
     (let dn = ts div 86400 + days_before 1970; s = ts mod 86400; r = dn mod 146097;
          y = int (last (filter (\<lambda>y. days_before (int y) \<le> r) [0..<400])); k = r - days_before y;
          m = last (filter (\<lambda>m. month_start y m \<le> k) [0..<12])
      in \<lparr>tm_year = 400 * (dn div 146097) + y - 1900, tm_mon = int m, tm_mday = k - month_start y m + 1,
          tm_hour = s div 3600, tm_min = s div 60 mod 60, tm_sec = s mod 60\<rparr>)"

definition localtime :: "int \<Rightarrow> int \<Rightarrow> tm" where
  "localtime tz ts = gmtime (ts + tz)"

definition mktime :: "int \<Rightarrow> tm \<Rightarrow> int" where
  "mktime tz t = timegm t - tz"

text \<open>\<open>%u\<close> of \<open>sscanf\<close>, and a format that is a sequence of them.\<close>

definition scan_u :: "string \<Rightarrow> (nat \<times> string) option" where
  "scan_u s = (case skip_sign s of (neg, t) \<Rightarrow>
     if starts_digit 10 t then
       (case read_digits 10 0 t of (n, r) \<Rightarrow>
          Some (if 2 ^ 64 \<le> int n then to_guint (- 1) else to_guint (if neg then - int n else int n), r))
     else None)"

fun sscanf_u :: "nat \<Rightarrow> string \<Rightarrow> nat list" where
  "sscanf_u 0 s = []"
| "sscanf_u (Suc n) s = (case scan_u s of None \<Rightarrow> [] | Some (v, r) \<Rightarrow> v # sscanf_u n r)"

section \<open>Date fields\<close>

text \<open>The field is an array of 20 characters.\<close>

definition sc_tm2gmfield :: "int \<Rightarrow> tm \<Rightarrow> bool \<Rightarrow> string" where
  "sc_tm2gmfield tz t with_hour =
     (if with_hour then
        let gm = gmtime (mktime tz t) in
        take 19 (dec0 4 (to_guint (tm_year gm + 1900)) @ [SP] @ dec0 2 (to_guint (tm_mon gm + 1)) @ [SP] @
          dec0 2 (to_guint (tm_mday gm)) @ [SP] @ dec0 2 (to_guint (tm_hour gm)) @ [SP] @
          dec0 2 (to_guint (tm_min gm)) @ [SP] @ dec0 2 (to_guint (tm_sec gm)))
      else
        take 19 (dec0 4 (to_guint (tm_year t + 1900)) @ [SP] @ dec0 2 (to_guint (tm_mon t + 1)) @ [SP] @
          dec0 2 (to_guint (tm_mday t))))"

definition sc_ts2gmfield :: "int \<Rightarrow> int \<Rightarrow> bool \<Rightarrow> string" where
  "sc_ts2gmfield tz ts with_hour = sc_tm2gmfield tz (localtime tz ts) with_hour"

definition mirrored :: "tm \<Rightarrow> tm \<Rightarrow> tm" where
  "mirrored u v = \<lparr>tm_year = tm_year u * 2 - tm_year v, tm_mon = tm_mon u * 2 - tm_mon v,
     tm_mday = tm_mday u * 2 - tm_mday v, tm_hour = tm_hour u * 2 - tm_hour v,
     tm_min = tm_min u * 2 - tm_min v, tm_sec = tm_sec u * 2 - tm_sec v\<rparr>"

definition fits_int :: "int \<Rightarrow> bool" where
  "fits_int v \<longleftrightarrow> - (2 ^ 31) \<le> v \<and> v < 2 ^ 31"

text \<open>The fields are \<open>int\<close>: doubling one must not overflow.\<close>

definition mkgmtime :: "int \<Rightarrow> tm \<Rightarrow> (int \<times> tm) outcome" where
  "mkgmtime tz utc =
     (if list_all (\<lambda>f. fits_int (f utc * 2)) [tm_year, tm_mon, tm_mday, tm_hour, tm_min, tm_sec] then
        let t = mktime tz (mirrored utc (gmtime (mktime tz utc))) in Done (t, gmtime t)
      else Crash)"

definition to_int :: "nat \<Rightarrow> int" where
  "to_int n = (if int n < 2 ^ 31 then int n else int n - 2 ^ 32)"

definition mktm :: "nat \<Rightarrow> nat \<Rightarrow> nat \<Rightarrow> nat \<Rightarrow> nat \<Rightarrow> nat \<Rightarrow> tm" where
  "mktm y M d h m s = \<lparr>tm_year = to_int (to_guint (int y - 1900)), tm_mon = to_int (to_guint (int M - 1)),
     tm_mday = to_int d, tm_hour = to_int h, tm_min = to_int m, tm_sec = to_int s\<rparr>"

text \<open>
  The year, month and day, and the hour, minutes and seconds when \<open>hour_set\<close> is set, which
  the function does not assign otherwise.
\<close>

type_synonym uints = "(nat \<times> nat \<times> nat) \<times> (nat \<times> nat \<times> nat) option"

definition local_uints :: "tm \<Rightarrow> uints" where
  "local_uints t = ((to_guint (tm_year t + 1900), to_guint (tm_mon t + 1), to_guint (tm_mday t)),
     Some (to_guint (tm_hour t), to_guint (tm_min t), to_guint (tm_sec t)))"

definition sc_gmfield2uint :: "int \<Rightarrow> string \<Rightarrow> uints outcome" where
  "sc_gmfield2uint tz str =
     (let utc = (\<lambda>y M d h m s. obind (mkgmtime tz (mktm y M d h m s)) (\<lambda>(t, _). Done (local_uints (localtime tz t)))) in
      case sscanf_u 6 str of
        [y, M, d] \<Rightarrow> Done ((y, M, d), None)
      | [y, M, d, h, m] \<Rightarrow> utc y M d h m 0
      | [y, M, d, h, m, s] \<Rightarrow> utc y M d h m s
      | _ \<Rightarrow> Raised (Err 0 ''Cannot convert string to date''))"

definition sc_gmfield2ts :: "int \<Rightarrow> string \<Rightarrow> (int \<times> bool) outcome" where
  "sc_gmfield2ts tz str = obind (sc_gmfield2uint tz str) (\<lambda>((y, M, d), hms).
     let ts = mktime tz (case hms of Some (h, m, s) \<Rightarrow> mktm y M d h m s | None \<Rightarrow> mktm y M d 0 0 0) in
     if ts = -1 then Raised (Err 0 ''mktime'') else Done (ts, hms \<noteq> None))"

text \<open>
  The text and the length that \<open>sc_gmfield2str\<close> gives; when the date alone does not fit, the size
  of what remains of the buffer wraps around.
\<close>

definition sc_gmfield2str :: "int \<Rightarrow> nat \<Rightarrow> string \<Rightarrow> (string \<times> nat) outcome" where
  "sc_gmfield2str tz maxlen gm = obind (sc_gmfield2uint tz gm) (\<lambda>((y, M, d), hms).
     let s = dec0 4 y @ ''-'' @ dec0 2 M @ ''-'' @ dec0 2 d in
     case hms of
       None \<Rightarrow> Done (take (maxlen - 1) s, length s)
     | Some (h, m, sec) \<Rightarrow>
         if maxlen < length s then Crash
         else let s' = s @ SP # dec_nat h @ ''h'' @ dec_nat m @ ''m'' @ dec_nat sec @ ''s'' in
           Done (take (maxlen - 1) s', length s'))"

definition cal_date_ctor_from_str :: "int \<Rightarrow> string \<Rightarrow> cal_date outcome" where
  "cal_date_ctor_from_str tz str = obind (sc_gmfield2uint tz str) (\<lambda>((y, M, d), hms).
     case hms of
       Some (h, m, s) \<Rightarrow> Done (cal_date_ctor y (to_guint (int M - 1)) d h m)
     | None \<Rightarrow> Done (cal_date_ctor y (to_guint (int M - 1)) d 99 99))"

definition cal_date_ctor_from_tm :: "tm \<Rightarrow> cal_date" where
  "cal_date_ctor_from_tm t = cal_date_ctor (to_guint (tm_year t + 1900)) (to_guint (tm_mon t)) (to_guint (tm_mday t))
     (to_guint (tm_hour t)) (to_guint (tm_min t))"

definition cal_date_to_str :: "int \<Rightarrow> cal_date \<Rightarrow> nat \<Rightarrow> string outcome" where
  "cal_date_to_str tz cd sz =
     (if \<not> cal_date_is_set cd then Crash
      else let ht = cal_date_has_time cd;
               s = sc_tm2gmfield tz
                 \<lparr>tm_year = to_int (to_guint (int (cd_year cd) - 1900)), tm_mon = to_int (cd_month cd), tm_mday = to_int (cd_day cd),
                  tm_hour = (if ht then to_int (cd_hour cd) else 0), tm_min = (if ht then to_int (cd_min cd) else 0), tm_sec = 0\<rparr> ht in
        if sz \<le> length s then Raised (Err 0 ''Buffer too small'') else Done s)"

section \<open>The calendar\<close>

definition leap :: "int \<Rightarrow> bool" where
  "leap y \<longleftrightarrow> y mod 4 = 0 \<and> (y mod 100 \<noteq> 0 \<or> y mod 400 = 0)"

lemma div_round_up:
  fixes y k :: int
  assumes "0 < k" "k = j + 1"
  shows "(y + 1 + j) div k - (y + j) div k = (if y mod k = 0 then 1 else 0)"
proof -
  have "(y + 1 + j) div k = y div k + 1" using assms div_add_self2 [of k y] by (simp add: add.assoc add.commute [of 1])
  moreover have "(y + j) div k = y div k + (if y mod k = 0 then 0 else 1)"
  proof (rule int_div_pos_eq)
    show "y + j = k * (y div k + (if y mod k = 0 then 0 else 1)) + (if y mod k = 0 then k - 1 else y mod k - 1)"
    proof -
      obtain q r where q: "y div k = q" "y mod k = r" "y = k * q + r" by (metis mult_div_mod_eq)
      then show ?thesis unfolding q(1,2) using assms(2) by (simp add: distrib_left)
    qed
    show "0 \<le> (if y mod k = 0 then k - 1 else y mod k - 1)"
    proof (cases "y mod k = 0")
      case False
      with pos_mod_sign [OF assms(1), of y] have "1 \<le> y mod k" by linarith
      then show ?thesis by simp
    qed (use assms(1) in simp)
    show "(if y mod k = 0 then k - 1 else y mod k - 1) < k"
      using pos_mod_bound [OF assms(1), of y] by simp
  qed
  ultimately show ?thesis by simp
qed

lemma leap_dvd: "(y :: int) mod 100 = 0 \<Longrightarrow> y mod 4 = 0" "y mod 400 = 0 \<Longrightarrow> y mod 100 = 0"
  using mod_mod_cancel [of 4 100 y] mod_mod_cancel [of 100 400 y] by simp_all

lemma year_terms:
  fixes y :: int
  assumes "a' - a = p" "b' - b = q" "c' - c = r"
  shows "(365 * (y + 1) + a' - b' + c') - (365 * y + a - b + c) = 365 + p - q + r"
  using assms by simp

lemma days_before_Suc: "days_before (y + 1) = days_before y + 365 + (if leap y then 1 else 0)"
proof -
  have "days_before (y + 1) - days_before y = 365 + (if y mod 4 = 0 then 1 else 0)
      - (if y mod 100 = 0 then 1 else 0) + (if y mod 400 = 0 then 1 else 0)"
    unfolding days_before_def by (rule year_terms; rule div_round_up) simp_all
  then show ?thesis using leap_dvd [of y]
    by (cases "y mod 4 = 0"; cases "y mod 100 = 0"; cases "y mod 400 = 0") (simp_all add: leap_def)
qed

lemma leap_cycle [simp]: "leap (y mod 400) = leap y"
  using mod_mod_cancel [of 4 400 y] mod_mod_cancel [of 100 400 y] by (simp add: leap_def)

lemma mod_0_int: "(n mod numeral k = (0 :: nat)) = (int n mod numeral k = 0)"
  by (metis of_nat_eq_0_iff of_nat_mod of_nat_numeral)

lemma leap_nat: "is_leap_year n = leap (int n)"
  unfolding is_leap_year_def leap_def mod_0_int ..

lemma mdays_alt: "mdays y m = int (days ! m) + (if m = 1 \<and> leap y then 1 else 0)"
  by (simp add: mdays_def month_days_def leap_nat)

lemma mdays_nat: "mdays (int y) m = int (month_days y m)"
  by (simp add: mdays_alt month_days_def leap_nat)

lemma mdays_cycle [simp]: "mdays (y mod 400) m = mdays y m"
  by (simp add: mdays_alt)

lemma month_start_cycle [simp]: "month_start (y mod 400) m = month_start y m"
  by (induction m) simp_all

lemma mdays_bounds: "m < 12 \<Longrightarrow> 28 \<le> mdays y m" "m < 12 \<Longrightarrow> mdays y m \<le> 31"
  using month_days_pos [of m] month_days_le [of m] by (auto simp: mdays_def)

lemma year_length: "month_start y 12 = days_before (y + 1) - days_before y"
  unfolding days_before_Suc by (simp add: numeral_eq_Suc mdays_alt days_def)

text \<open>The first day of a month, the months counted from the first of the year 0.\<close>

definition first_day :: "int \<Rightarrow> int" where
  "first_day k = days_before (k div 12) + month_start (k div 12) (nat (k mod 12))"

lemma first_day_month: "m < 12 \<Longrightarrow> first_day (12 * y + int m) = days_before y + month_start y m"
  by (simp add: first_day_def)

lemma first_day_Suc: "first_day (k + 1) = first_day k + mdays (k div 12) (nat (k mod 12))"
proof -
  define y m where ym: "y = k div 12" "m = nat (k mod 12)"
  then have m: "m < 12" and k: "k = 12 * y + int m" by simp_all
  show ?thesis
  proof (cases "m = 11")
    case True
    have "first_day (k + 1) = days_before (y + 1)"
      using first_day_month [of 0 "y + 1"] by (simp add: k True distrib_left add.commute)
    moreover have "month_start y 11 + mdays y 11 = days_before (y + 1) - days_before y"
      using year_length [of y] month_start.simps(2) [of y 11] by simp
    ultimately show ?thesis using first_day_month [OF m, of y] unfolding ym [symmetric] by (simp add: k True)
  next
    case False
    with m first_day_month [of "Suc m" y] first_day_month [of m y]
    show ?thesis unfolding ym [symmetric] unfolding k by (simp add: add.assoc add.commute [of 1])
  qed
qed

lemma month_div: "0 \<le> m \<Longrightarrow> m < 12 \<Longrightarrow> (12 * y + m) div 12 = y \<and> (12 * y + m) mod 12 = (m :: int)"
  by simp

lemma first_day_next: "m < 12 \<Longrightarrow> first_day (12 * y + int m + 1) = first_day (12 * y + int m) + mdays y m"
  unfolding first_day_Suc by simp

lemma first_day_step: "first_day k + 28 \<le> first_day (k + 1)" "first_day (k + 1) \<le> first_day k + 31"
proof -
  have "nat (k mod 12) < 12" by simp
  then show "first_day k + 28 \<le> first_day (k + 1)" "first_day (k + 1) \<le> first_day k + 31"
    unfolding first_day_Suc by (intro add_left_mono mdays_bounds; assumption)+
qed

lemma first_day_mono: "j \<le> k \<Longrightarrow> first_day j + 28 * (k - j) \<le> first_day k"
proof (induction k rule: int_ge_induct)
  case (step i)
  then show ?case using first_day_step(1) [of i] by simp
qed simp

lemma first_day_le: "j \<le> k \<Longrightarrow> first_day j \<le> first_day k"
proof -
  assume "j \<le> k"
  then have "first_day j \<le> first_day j + 28 * (k - j)" by simp
  also have "\<dots> \<le> first_day k" using \<open>j \<le> k\<close> by (rule first_day_mono)
  finally show ?thesis .
qed

lemma first_day_unique:
  assumes "first_day j \<le> d" "d < first_day (j + 1)" "first_day k \<le> d" "d < first_day (k + 1)"
  shows "j = k"
proof (rule ccontr)
  assume "j \<noteq> k"
  then consider "j + 1 \<le> k" | "k + 1 \<le> j" by linarith
  then show False using first_day_mono [of "j + 1" k] first_day_mono [of "k + 1" j] assms by cases simp_all
qed

lemma days_before_first: "days_before y = first_day (12 * y)"
  using first_day_month [of 0 y] by simp

lemma days_before_mono: "x \<le> y \<Longrightarrow> days_before x + 336 * (y - x) \<le> days_before y"
  using first_day_mono [of "12 * x" "12 * y"] by (simp add: days_before_first algebra_simps)

lemma days_before_cycle: "days_before (400 * q + y) = 146097 * q + days_before y"
proof -
  have d: "400 * q + y + 3 = 4 * (100 * q) + (y + 3)" "400 * q + y + 99 = 100 * (4 * q) + (y + 99)"
    "400 * q + y + 399 = 400 * q + (y + 399)" by simp_all
  have c: "0 < k \<Longrightarrow> (k * p + x) div k = p + x div k" for k p x :: int by (rule div_mult_self4) simp
  have r: "365 * (400 * q + y) + (100 * q + a) - (4 * q + b) + (q + c) = 146097 * q + (365 * y + a - b + c)" for a b c by simp
  show ?thesis unfolding days_before_def d c [OF zero_less_numeral] by (rule r)
qed

text \<open>A step function is inverted by the search that \<open>gmtime\<close> makes.\<close>

lemma last_filter_upt:
  fixes f :: "nat \<Rightarrow> int"
  assumes "f 0 \<le> k" "0 < n" "\<And>i j. i < j \<Longrightarrow> j < n \<Longrightarrow> f i < f j"
  defines "r \<equiv> last (filter (\<lambda>i. f i \<le> k) [0..<n])"
  shows "r < n \<and> f r \<le> k \<and> (Suc r < n \<longrightarrow> k < f (Suc r))"
  using assms(1-3) unfolding r_def
proof (induction n)
  case (Suc n)
  show ?case
  proof (cases "n = 0 \<or> f n \<le> k")
    case True
    with Suc.prems(1) show ?thesis by auto
  next
    case False
    with Suc have IH: "last (filter (\<lambda>i. f i \<le> k) [0..<n]) < n" "f (last (filter (\<lambda>i. f i \<le> k) [0..<n])) \<le> k"
      "Suc (last (filter (\<lambda>i. f i \<le> k) [0..<n])) < n \<longrightarrow> k < f (Suc (last (filter (\<lambda>i. f i \<le> k) [0..<n])))" by auto
    moreover have "Suc (last (filter (\<lambda>i. f i \<le> k) [0..<n])) = n \<or> Suc (last (filter (\<lambda>i. f i \<le> k) [0..<n])) < n"
      using IH(1) by linarith
    ultimately show ?thesis using False by auto
  qed
qed simp

text \<open>The fields of a date, each within its range.\<close>

definition tm_ok :: "tm \<Rightarrow> bool" where
  "tm_ok t \<longleftrightarrow> 0 \<le> tm_mon t \<and> tm_mon t < 12 \<and> 1 \<le> tm_mday t \<and> tm_mday t \<le> mdays (tm_year t + 1900) (nat (tm_mon t)) \<and>
     0 \<le> tm_hour t \<and> tm_hour t < 24 \<and> 0 \<le> tm_min t \<and> tm_min t < 60 \<and> 0 \<le> tm_sec t \<and> tm_sec t < 60"

definition month_index :: "tm \<Rightarrow> int" where
  "month_index t = 12 * (tm_year t + 1900) + tm_mon t"

definition epoch :: int where "epoch = days_before 1970"

lemma timegm_alt:
  "timegm t = (first_day (month_index t) + tm_mday t - 1 - epoch) * 86400 + tm_hour t * 3600 + tm_min t * 60 + tm_sec t"
proof -
  have d: "(12 * y + m) div 12 = y + m div 12" "(12 * y + m) mod 12 = m mod 12" for y m :: int
    by (rule div_mult_self4, simp) (rule mod_mult_self4)
  show ?thesis unfolding timegm_def first_day_def month_index_def Let_def epoch_def d by (rule refl)
qed

lemma month_start_less: "i < j \<Longrightarrow> j < 12 \<Longrightarrow> month_start y i < month_start y j"
  using first_day_mono [of "12 * y + int i" "12 * y + int j"] first_day_month [of i y] first_day_month [of j y] by simp

lemma split_sixty: "s = 60 * a + c \<Longrightarrow> a = 60 * h + b \<Longrightarrow> h * 3600 + b * 60 + c = (s :: int)"
  by simp

lemma split_day:
  fixes s :: int
  assumes "0 \<le> s" "s < 86400"
  shows "(s div 3600) * 3600 + (s div 60 mod 60) * 60 + s mod 60 = s"
    "0 \<le> s div 3600" "s div 3600 < 24" "0 \<le> s div 60 mod 60" "s div 60 mod 60 < 60"
proof -
  have h: "s div 3600 = s div 60 div 60" using zdiv_zmult2_eq [of 60 s 60] by simp
  show "(s div 3600) * 3600 + (s div 60 mod 60) * 60 + s mod 60 = s"
    unfolding h by (rule split_sixty [of s "s div 60"]) simp_all
  show "s div 3600 < 24" using assms(2) zdiv_mono1 [of s 86399 3600] by simp
qed (use assms in \<open>simp_all add: pos_imp_zdiv_nonneg_iff\<close>)

lemma gmtime_day:
  obtains y m where "m < 12" "first_day (12 * y + int m) \<le> ts div 86400 + epoch"
    "ts div 86400 + epoch < first_day (12 * y + int m + 1)"
    "gmtime ts = \<lparr>tm_year = y - 1900, tm_mon = int m, tm_mday = ts div 86400 + epoch - first_day (12 * y + int m) + 1,
       tm_hour = ts mod 86400 div 3600, tm_min = ts mod 86400 div 60 mod 60, tm_sec = ts mod 86400 mod 60\<rparr>"
proof -
  define dn q r where dn: "dn = ts div 86400 + epoch" "q = dn div 146097" "r = dn mod 146097"
  define yy where yy: "yy = last (filter (\<lambda>y. days_before (int y) \<le> r) [0..<400])"
  define k where k: "k = r - days_before (int yy)"
  define m where m: "m = last (filter (\<lambda>m. month_start (int yy) m \<le> k) [0..<12])"
  have r: "0 \<le> r" "r < 146097" "dn = 146097 * q + r" by (simp_all add: dn)
  have y0: "days_before (int 0) \<le> r" using r(1) by (simp add: days_before_def)
  have ylt: "i < j \<Longrightarrow> days_before (int i) < days_before (int j)" for i j
    using days_before_mono [of "int i" "int j"] by simp
  have y: "yy < 400" "days_before (int yy) \<le> r" "Suc yy < 400 \<longrightarrow> r < days_before (int (Suc yy))"
    using last_filter_upt [of "\<lambda>y. days_before (int y)" r 400, OF y0 _ ylt] unfolding yy [symmetric] by simp_all
  have "r < days_before (int yy + 1)"
  proof (cases "Suc yy < 400")
    case False
    with y(1) have "yy = 399" by simp
    then show ?thesis using r(2) by (simp add: days_before_def)
  qed (use y(3) in \<open>simp add: add.commute\<close>)
  then have k': "0 \<le> k" "k < month_start (int yy) 12" using y(2) by (simp_all add: k year_length)
  have mm: "m < 12" "month_start (int yy) m \<le> k" "Suc m < 12 \<longrightarrow> k < month_start (int yy) (Suc m)"
    using last_filter_upt [of "month_start (int yy)" k 12, OF _ _ month_start_less] k'(1) unfolding m [symmetric] by simp_all
  have m12: "k < month_start (int yy) (Suc m)"
  proof (cases "Suc m < 12")
    case False
    with mm(1) have "Suc m = 12" by simp
    with k'(2) show ?thesis by simp
  qed (use mm(3) in simp)
  let ?y = "400 * q + int yy"
  have s: "month_start ?y j = month_start (int yy) j" for j
    using month_start_cycle [of ?y j] month_start_cycle [of "int yy" j] by simp
  have f: "first_day (12 * ?y + int m) = 146097 * q + days_before (int yy) + month_start (int yy) m"
    using first_day_month [OF mm(1), of ?y] by (simp add: s days_before_cycle)
  have d: "mdays ?y m = mdays (int yy) m" using mdays_cycle [of ?y m] mdays_cycle [of "int yy" m] by simp
  have g: "first_day (12 * ?y + int m + 1) = first_day (12 * ?y + int m) + mdays (int yy) m"
    unfolding first_day_next [OF mm(1)] d ..
  show ?thesis
  proof (rule that [OF mm(1), of ?y])
    show "first_day (12 * ?y + int m) \<le> ts div 86400 + epoch"
      using mm(2) r(3) unfolding f k dn(1) [symmetric] by simp
    show "ts div 86400 + epoch < first_day (12 * ?y + int m + 1)"
      using m12 r(3) unfolding g f k dn(1) [symmetric] by simp
    show "gmtime ts = \<lparr>tm_year = ?y - 1900, tm_mon = int m, tm_mday = ts div 86400 + epoch - first_day (12 * ?y + int m) + 1,
       tm_hour = ts mod 86400 div 3600, tm_min = ts mod 86400 div 60 mod 60, tm_sec = ts mod 86400 mod 60\<rparr>"
      using r(3) unfolding gmtime_def Let_def epoch_def [symmetric] dn [symmetric] yy [symmetric] k [symmetric]
        m [symmetric] f by (simp add: k)
  qed
qed

lemma timegm_gmtime [simp]: "timegm (gmtime ts) = ts"
proof -
  have "timegm (gmtime ts) = ts div 86400 * 86400 +
      (ts mod 86400 div 3600 * 3600 + ts mod 86400 div 60 mod 60 * 60 + ts mod 86400 mod 60)"
    by (rule gmtime_day [of ts]) (simp add: timegm_alt month_index_def)
  also have "\<dots> = ts" using split_day(1) [of "ts mod 86400"] div_mult_mod_eq [of ts 86400] by simp
  finally show ?thesis .
qed

lemma gmtime_ok: "tm_ok (gmtime ts)"
proof -
  obtain y m where g: "m < 12" "first_day (12 * y + int m) \<le> ts div 86400 + epoch"
    "ts div 86400 + epoch < first_day (12 * y + int m + 1)"
    "gmtime ts = \<lparr>tm_year = y - 1900, tm_mon = int m, tm_mday = ts div 86400 + epoch - first_day (12 * y + int m) + 1,
       tm_hour = ts mod 86400 div 3600, tm_min = ts mod 86400 div 60 mod 60, tm_sec = ts mod 86400 mod 60\<rparr>"
    by (rule gmtime_day)
  have "first_day (12 * y + int m + 1) = first_day (12 * y + int m) + mdays y m"
    by (rule first_day_next [OF g(1)])
  with g split_day(2-5) [of "ts mod 86400"] show ?thesis by (simp add: tm_ok_def)
qed

lemma tm_day:
  assumes "tm_ok t"
  shows "timegm t div 86400 + epoch = first_day (month_index t) + tm_mday t - 1"
    "timegm t mod 86400 = tm_hour t * 3600 + tm_min t * 60 + tm_sec t"
    "tm_mday t \<le> first_day (month_index t + 1) - first_day (month_index t)"
proof -
  let ?s = "tm_hour t * 3600 + tm_min t * 60 + tm_sec t"
  have s: "0 \<le> ?s" "?s < 86400" using assms by (auto simp: tm_ok_def)
  have t: "timegm t = ?s + (first_day (month_index t) + tm_mday t - 1 - epoch) * 86400" by (simp add: timegm_alt)
  have "(?s + d * 86400) div 86400 = d" "(?s + d * 86400) mod 86400 = ?s" for d using s by simp_all
  note d = this
  show "timegm t div 86400 + epoch = first_day (month_index t) + tm_mday t - 1" "timegm t mod 86400 = ?s"
    unfolding t d by simp_all
  have "nat (tm_mon t) < 12" "int (nat (tm_mon t)) = tm_mon t" using assms by (auto simp: tm_ok_def)
  then have "first_day (month_index t + 1) = first_day (month_index t) + mdays (tm_year t + 1900) (nat (tm_mon t))"
    unfolding month_index_def using first_day_next [of "nat (tm_mon t)" "tm_year t + 1900"] by simp
  then show "tm_mday t \<le> first_day (month_index t + 1) - first_day (month_index t)" using assms by (simp add: tm_ok_def)
qed

lemma month_index_ok: "tm_ok t \<Longrightarrow> month_index t div 12 = tm_year t + 1900 \<and> month_index t mod 12 = tm_mon t"
  unfolding month_index_def tm_ok_def using month_div by blast

lemma unique_60: "a * 60 + s = b * 60 + s' \<Longrightarrow> 0 \<le> s \<Longrightarrow> s < 60 \<Longrightarrow> 0 \<le> s' \<Longrightarrow> s' < 60 \<Longrightarrow> a = (b :: int)"
  by simp

lemma sixty_unique:
  fixes h h' :: int
  assumes "h * 3600 + m * 60 + s = h' * 3600 + m' * 60 + s'"
    and "0 \<le> m" "m < 60" "0 \<le> s" "s < 60" "0 \<le> m'" "m' < 60" "0 \<le> s'" "s' < 60"
  shows "h = h'" "m = m'" "s = s'"
proof -
  have "(h * 60 + m) * 60 + s = (h' * 60 + m') * 60 + s'" using assms(1) by simp
  with assms(4,5,8,9) have e: "h * 60 + m = h' * 60 + m'" by (rule_tac unique_60)
  with assms(1) show "s = s'" by simp
  from e assms(2,3,6,7) show "h = h'" by (rule unique_60)
  with e show "m = m'" by simp
qed

lemma timegm_inject:
  assumes "tm_ok t" "tm_ok u" "timegm t = timegm u"
  shows "t = u"
proof -
  have k: "month_index t = month_index u"
    using tm_day [OF assms(1)] tm_day [OF assms(2)] assms
    by (intro first_day_unique [of _ "timegm t div 86400 + epoch"]) (auto simp: tm_ok_def)
  then have "tm_year t = tm_year u" "tm_mon t = tm_mon u"
    using month_index_ok [OF assms(1)] month_index_ok [OF assms(2)] by auto
  moreover have "tm_mday t = tm_mday u" "tm_hour t * 3600 + tm_min t * 60 + tm_sec t = tm_hour u * 3600 + tm_min u * 60 + tm_sec u"
    using tm_day [OF assms(1)] tm_day [OF assms(2)] assms(3) k by auto
  moreover from this(2) have "tm_hour t = tm_hour u" "tm_min t = tm_min u" "tm_sec t = tm_sec u"
    using assms(1,2) by (auto simp: tm_ok_def elim: sixty_unique)
  ultimately show ?thesis by simp
qed

lemma gmtime_timegm: "tm_ok t \<Longrightarrow> gmtime (timegm t) = t"
  by (rule timegm_inject) (simp_all add: gmtime_ok)

section \<open>Dates are normalised\<close>

lemma guint32_id: "n < 2 ^ 32 \<Longrightarrow> guint32 n = n"
  by (simp add: guint32_def to_guint_def)

lemma to_guint_int: "n < 2 ^ 32 \<Longrightarrow> to_guint (int n) = n"
  by (simp add: to_guint_def)

text \<open>The number of a day, the month beginning at 0 and possibly beyond 11.\<close>

definition day_number :: "nat \<Rightarrow> nat \<Rightarrow> nat \<Rightarrow> int" where
  "day_number y m d = first_day (12 * int y + int m) + int d"

lemma day_number_next:
  assumes "m < 12" "month_days y m < d"
  shows "day_number (if 12 \<le> m + 1 then y + 1 else y) (if 12 \<le> m + 1 then m + 1 - 12 else m + 1) (d - month_days y m)
    = day_number y m d"
proof -
  have "first_day (12 * int y + int m + 1) = first_day (12 * int y + int m) + int (month_days y m)"
    using first_day_next [OF assms(1), of "int y"] by (simp add: mdays_nat)
  moreover have "12 * int (if 12 \<le> m + 1 then y + 1 else y) + int (if 12 \<le> m + 1 then m + 1 - 12 else m + 1)
      = 12 * int y + int m + 1" using assms(1) by auto
  ultimately show ?thesis using assms(2) by (simp only: day_number_def)
qed

lemma bound_days_spec:
  assumes "m < 12" "y + d < 2 ^ 32" "bound_days y m d = (y', m', d')"
  shows "m' < 12 \<and> d' \<le> month_days y' m' \<and> (0 < d \<longrightarrow> 0 < d') \<and> y \<le> y' \<and> day_number y' m' d' = day_number y m d"
  using assms
proof (induction y m d arbitrary: y' m' d' rule: bound_days.induct)
  case (1 y m d)
  show ?case
  proof (cases "month_days y m < d")
    case False
    with 1(5) show ?thesis using 1(3) by (simp add: bound_days.simps [of y m d])
  next
    case True
    let ?y = "if 12 \<le> m + 1 then y + 1 else y" and ?m = "if 12 \<le> m + 1 then m + 1 - 12 else m + 1"
    let ?d = "d - month_days y m"
    have u: "guint32 (Suc y) = Suc y" using 1(4) True by (intro guint32_id) simp
    have d: "?y + ?d < 2 ^ 32" using 1(4) True month_days_pos [OF 1(3), of y] by auto
    have "bound_days ?y ?m ?d = (y', m', d')"
      using 1(3,5) True by (simp add: bound_days.simps [of y m d] u split: if_splits)
    moreover have "?m < 12" using 1(3) by auto
    ultimately have "m' < 12 \<and> d' \<le> month_days y' m' \<and> (0 < ?d \<longrightarrow> 0 < d') \<and> ?y \<le> y' \<and>
        day_number y' m' d' = day_number ?y ?m ?d"
      using 1(1,2) [of y' m' d'] 1(3) True d by (simp add: u split: if_splits)
    then show ?thesis using True day_number_next [OF 1(3) True] by (auto split: if_splits)
  qed
qed

definition minutes :: "nat \<Rightarrow> nat \<Rightarrow> nat \<Rightarrow> nat \<Rightarrow> nat \<Rightarrow> int" where
  "minutes y M d h m = (day_number y M d * 24 + int h) * 60 + int m"

lemma minutes_carry:
  "minutes y M (d + (h + m div 60) div 24) ((h + m div 60) mod 24) (m mod 60) = minutes y M d h m"
proof -
  have "int (m div 60) * 60 + int (m mod 60) = int m" by (metis of_nat_add of_nat_mult div_mult_mod_eq of_nat_numeral)
  moreover have "int ((h + m div 60) div 24) * 24 + int ((h + m div 60) mod 24) = int h + int (m div 60)"
    by (metis of_nat_add of_nat_mult div_mult_mod_eq of_nat_numeral)
  ultimately show ?thesis by (simp add: minutes_def day_number_def algebra_simps)
qed

lemma month_carry: "day_number (y + M div 12) (M mod 12) d = day_number y M d"
proof -
  have "12 * int (y + M div 12) + int (M mod 12) = 12 * int y + int M"
    by (simp add: distrib_left add.assoc) (metis of_nat_add of_nat_mult mult_div_mod_eq of_nat_numeral)
  then show ?thesis by (simp only: day_number_def)
qed



section \<open>Comparing dates\<close>

definition cal_ok :: "cal_date \<Rightarrow> bool" where
  "cal_ok cd \<longleftrightarrow> 0 < cd_year cd \<and> cd_month cd < 12 \<and> 0 < cd_day cd \<and>
     cd_day cd \<le> month_days (cd_year cd) (cd_month cd) \<and> (cd_hour cd < 24 \<longrightarrow> cd_min cd < 60)"

text \<open>A date without time stands for the beginning of its day.\<close>

definition moment :: "cal_date \<Rightarrow> int" where
  "moment cd = (if cal_date_has_time cd then minutes (cd_year cd) (cd_month cd) (cd_day cd) (cd_hour cd) (cd_min cd)
     else minutes (cd_year cd) (cd_month cd) (cd_day cd) 0 0)"

definition same_day :: "cal_date \<Rightarrow> cal_date \<Rightarrow> bool" where
  "same_day a b \<longleftrightarrow> cd_year a = cd_year b \<and> cd_month a = cd_month b \<and> cd_day a = cd_day b"

definition day_of :: "cal_date \<Rightarrow> int" where
  "day_of cd = day_number (cd_year cd) (cd_month cd) (cd_day cd)"

definition time_of :: "cal_date \<Rightarrow> int" where
  "time_of cd = (if cal_date_has_time cd then int (cd_hour cd) * 60 + int (cd_min cd) else 0)"

lemma moment_alt: "moment cd = day_of cd * 1440 + time_of cd"
  by (simp add: moment_def day_of_def time_of_def minutes_def)

lemma time_of_bounds: "cal_ok cd \<Longrightarrow> 0 \<le> time_of cd \<and> time_of cd < 1440"
  by (auto simp: time_of_def cal_ok_def cal_date_has_time_def)

lemma day_of_less:
  assumes "cal_ok a" "cal_ok b"
    and "cd_year a < cd_year b \<or> cd_year a = cd_year b \<and>
      (cd_month a < cd_month b \<or> cd_month a = cd_month b \<and> cd_day a < cd_day b)"
  shows "day_of a < day_of b"
proof -
  let ?k = "12 * int (cd_year a) + int (cd_month a)" and ?l = "12 * int (cd_year b) + int (cd_month b)"
  have f: "first_day (?k + 1) = first_day ?k + int (month_days (cd_year a) (cd_month a))"
    using first_day_next [of "cd_month a" "int (cd_year a)"] assms(1) by (simp add: mdays_nat cal_ok_def)
  from assms(3) consider "?k + 1 \<le> ?l" | "?k = ?l" "cd_day a < cd_day b"
  proof (elim disjE conjE)
    assume "cd_year a < cd_year b"
    moreover have "cd_month a < 12" using assms(1) by (simp add: cal_ok_def)
    ultimately have "?k + 1 \<le> ?l" by linarith
    then show ?thesis by (rule that(1))
  qed (use that in auto)
  then show ?thesis
  proof cases
    case 1
    have "first_day ?k + int (cd_day a) \<le> first_day (?k + 1)" using assms(1) f by (simp add: cal_ok_def)
    also have "\<dots> \<le> first_day ?l" using 1 by (rule first_day_le)
    also have "\<dots> < first_day ?l + int (cd_day b)" using assms(2) by (simp add: cal_ok_def)
    finally show ?thesis by (simp add: day_of_def day_number_def)
  qed (simp add: day_of_def day_number_def)
qed

lemma sgn_moment:
  assumes "cal_ok a" "cal_ok b" "day_of a < day_of b"
  shows "sgn (moment a - moment b) = - 1" "sgn (moment b - moment a) = 1"
  using assms time_of_bounds [of a] time_of_bounds [of b] by (simp_all add: moment_alt sgn_if)

lemma compare_other_day:
  assumes "cal_ok a" "cal_ok b" "\<not> same_day a b"
  shows "cal_date_compare a b = sgn (moment a - moment b)"
proof -
  let ?lt = "\<lambda>a b. cd_year a < cd_year b \<or> cd_year a = cd_year b \<and>
      (cd_month a < cd_month b \<or> cd_month a = cd_month b \<and> cd_day a < cd_day b)"
  consider "?lt a b" | "?lt b a" using assms(3) unfolding same_day_def by (meson linorder_neqE_nat)
  then show ?thesis
  proof cases
    case 1
    then have "cal_date_compare a b = - 1"
      by (elim disjE conjE) (simp_all add: cal_date_compare_def guint_compare_def)
    then show ?thesis using sgn_moment(1) [OF assms(1,2) day_of_less [OF assms(1,2) 1]] by simp
  next
    case 2
    then have "cal_date_compare a b = 1"
      by (elim disjE conjE) (simp_all add: cal_date_compare_def guint_compare_def)
    then show ?thesis using sgn_moment(2) [OF assms(2,1) day_of_less [OF assms(2,1) 2]] by simp
  qed
qed

lemma same_day_day_of: "same_day a b \<Longrightarrow> day_of a = day_of b"
  by (simp add: same_day_def day_of_def)

text \<open>C32. Dates are compared by their moment, a date without time standing for the beginning of its day, but for
one case: a date at midnight is told to come before the same day without time, while the comparison the
other way round says that they are equal.\<close>

theorem cal_date_compare_moment:
  assumes "cal_ok a" "cal_ok b"
  shows "cal_date_compare a b =
    (if same_day a b \<and> cal_date_has_time a \<and> cd_hour a = 0 \<and> cd_min a = 0 \<and> \<not> cal_date_has_time b then - 1
     else sgn (moment a - moment b))"
proof (cases "same_day a b")
  case False
  then show ?thesis using compare_other_day [OF assms False] by simp
next
  case True
  have "sgn (moment a - moment b) = sgn (time_of a - time_of b)"
    using same_day_day_of [OF True] by (simp add: moment_alt)
  then show ?thesis using True assms
    by (auto simp: cal_date_compare_def same_day_def guint_compare_def time_of_def cal_ok_def
        cal_date_has_time_def cal_date_is_set_def sgn_if)
qed

theorem cal_date_compare_moment_witness:
  "cal_date_compare (cal_date_ctor 2009 4 2 0 0) (cal_date_ctor 2009 4 2 99 0) = - 1 \<and>
   cal_date_compare (cal_date_ctor 2009 4 2 99 0) (cal_date_ctor 2009 4 2 0 0) = 0"
proof -
  define a b where ab: "a = cal_date_ctor 2009 4 2 0 0" "b = cal_date_ctor 2009 4 2 99 0"
  have b: "d \<le> 31 \<Longrightarrow> bound_days 2009 4 d = (2009, 4, d)" for d
    by (simp add: bound_days.simps [of 2009 4 d] month_days_def days_def)
  note d = ab b cal_date_ctor_def bound_time_def bound_date_def cal_date_has_time_def cal_date_is_set_def Let_def
    guint32_id month_days_def days_def is_leap_year_def
  have "cal_ok a" "cal_ok b" by (simp_all add: d cal_ok_def)
  moreover have t: "same_day a b" "cal_date_has_time a" "cd_hour a = 0" "cd_min a = 0" "\<not> cal_date_has_time b"
    by (simp_all add: d same_day_def)
  moreover have "moment b - moment a = 0" using t same_day_day_of [OF t(1)] by (simp add: moment_alt time_of_def)
  ultimately show ?thesis
    using cal_date_compare_moment [of a b] cal_date_compare_moment [of b a] unfolding ab [symmetric] by simp
qed

section \<open>Reading a date back\<close>

lemma length_dec0: "0 < w \<Longrightarrow> n < 10 ^ w \<Longrightarrow> length (dec0 w n) = w"
  by (frule (1) length_dec_nat) (simp add: dec0_def pad0_def)

lemma dec0_hd: "\<exists>d < 10. \<exists>cs. dec0 w n = digit_char d # cs"
proof (cases "w \<le> length (dec_nat n)")
  case True
  then show ?thesis using dec_nat_hd [of n] by (simp add: dec0_def pad0_def)
next
  case False
  then obtain k where "w - length (dec_nat n) = Suc k" by (metis diff_is_0_eq not0_implies_Suc)
  moreover have "CHR ''0'' = digit_char 0" by code_simp
  ultimately show ?thesis by (intro exI [of _ 0]) (simp add: dec0_def pad0_def)
qed

lemma starts_digit_dec0 [simp]: "starts_digit 10 (dec0 w n @ t)"
  using dec0_hd [of w n] by (auto simp: starts_digit_def)

lemma read_digits_dec0: "\<not> starts_digit 10 t \<Longrightarrow> read_digits 10 0 (dec0 w n @ t) = (n, t)"
  by (simp add: dec0_def pad0_def read_digits_zeros read_digits_dec_nat)

lemma strtoll10_dec0: "\<not> starts_digit 10 t \<Longrightarrow> int n < 2 ^ 63 \<Longrightarrow> strtoll10 (dec0 w n @ t) = (int n, t)"
  by (simp add: strtoll10_def skip_sign_digit read_digits_dec0)

lemma digit_not_sep: "d < 10 \<Longrightarrow> \<not> issep (digit_char d) \<and> \<not> isblank (digit_char d)"
  by (auto simp: issep_def isblank_def simp flip: of_char_eq_iff [where 'a = nat])

lemma dropWhile_dec0: "dropWhile issep (dec0 w n @ t) = dec0 w n @ t" "dropWhile isblank (dec0 w n @ t) = dec0 w n @ t"
  using dec0_hd [of w n] digit_not_sep by auto

lemma seps [simp]:
  "issep CHR ''-''" "issep CHR ''h''" "issep SP" "\<not> starts_digit 10 (CHR ''-'' # s)" "\<not> starts_digit 10 (CHR ''h'' # s)"
  "\<not> starts_digit 10 (SP # s)"
  by (simp_all add: issep_def starts_digit_def digit_val_def)

lemma cal_date_ctor_id:
  assumes "cal_ok cd" "cd_year cd \<le> 9999"
  shows "cal_date_ctor (cd_year cd) (cd_month cd) (cd_day cd) (cd_hour cd) (cd_min cd) = cd\<lparr>cd_str := cal_str cd\<rparr>"
proof -
  have d: "cd_day cd < 2 ^ 32" "cd_hour cd < 24 \<Longrightarrow> cd_hour cd < 2 ^ 32"
    using assms(1) month_days_le [of "cd_month cd" "cd_year cd"] by (auto simp: cal_ok_def)
  have "bound_time (cd\<lparr>cd_str := []\<rparr>) = cd\<lparr>cd_str := []\<rparr>"
    using assms(1) d by (auto simp: bound_time_def cal_ok_def cal_date_has_time_def Let_def guint32_id)
  moreover have "bound_date (cd\<lparr>cd_str := []\<rparr>) = cd\<lparr>cd_str := []\<rparr>"
    using assms by (auto simp: bound_date_def cal_ok_def guint32_id bound_days.simps [of "cd_year cd" "cd_month cd" "cd_day cd"])
  ultimately show ?thesis
    by (cases cd) (simp add: cal_date_ctor_def Let_def cal_str_def cal_date_is_set_def cal_date_has_time_def)
qed

text \<open>C33. What the calendar shows of a date can be typed back: the text of a date of the years 1 to 9999,
with or without its time, is read as that date.\<close>

theorem cal_date_input_roundtrip:
  assumes "cal_ok cd" "cd_year cd \<le> 9999" "cd_hour cd < 24 \<or> cd_hour cd = 99 \<and> cd_min cd = 0" "cd_str cd = cal_str cd"
  shows "cal_date_ctor_from_input old (cd_str cd) None = Done cd"
proof -
  let ?y = "cd_year cd" and ?M = "cd_month cd" and ?d = "cd_day cd" and ?h = "cd_hour cd" and ?m = "cd_min cd"
  let ?t = "if ?h < 24 then SP # dec0 2 ?h @ ''h'' @ dec0 2 ?m else []"
  have o: "0 < ?y" "?M < 12" "0 < ?d" "?d \<le> month_days ?y ?M" "?d \<le> 31" "?h < 24 \<Longrightarrow> ?m < 60"
    using assms(1) month_days_le [of ?M ?y] by (auto simp: cal_ok_def)
  have "length (dec0 4 ?y) = 4" "length (dec0 2 (?M + 1)) = 2" "length (dec0 2 ?d) = 2"
    "?h < 24 \<Longrightarrow> length (dec0 2 ?h) = 2" "?h < 24 \<Longrightarrow> length (dec0 2 ?m) = 2"
    using o assms(2) by (auto intro: length_dec0)
  then have s: "cd_str cd = dec0 4 ?y @ CHR ''-'' # dec0 2 (?M + 1) @ CHR ''-'' # dec0 2 ?d @ ?t"
    using o assms(4) by (auto simp: cal_str_def cal_date_is_set_def cal_date_has_time_def guint32_id)
  have g: "to_guint (int ?y) = ?y" "to_guint (int ?M) = ?M" "to_guint (int ?d) = ?d" "?h < 24 \<Longrightarrow> to_guint (int ?h) = ?h"
    "?h < 24 \<Longrightarrow> to_guint (int ?m) = ?m" "to_guint 99 = 99" "to_guint 0 = 0"
    using o assms(2) by (auto simp: to_guint_def)
  have c: "cal_date_ctor ?y ?M ?d ?h ?m = cd" using cal_date_ctor_id [OF assms(1,2)] assms(4) by simp
  have h: "input_hour (int ?y) (int ?M) (int ?d) (dropWhile isblank ?t) = Done cd"
  proof (cases "?h < 24")
    case True
    then have "strtoll10 (dec0 2 ?m) = (int ?m, [])" "\<not> (\<forall>x \<in> set (dec0 2 ?m). issep x)"
      "dropWhile issep (dec0 2 ?m) = dec0 2 ?m"
      using strtoll10_dec0 [of "[]" ?m 2] dropWhile_dec0(1) [of 2 ?m "[]"] dec0_hd [of 2 ?m] digit_not_sep o(6) by auto
    with True o(6) g c dec0_hd [of 2 ?h] show ?thesis
      by (auto simp: input_hour_def Let_def dropWhile_dec0 strtoll10_dec0)
  next
    case False
    with assms(3) g c show ?thesis by (simp add: input_hour_def Let_def)
  qed
  have t: "\<not> starts_digit 10 ?t" by simp
  have "input_date (cd_str cd) None = input_hour (int ?y) (int ?M) (int ?d) (dropWhile isblank ?t)"
    using o assms(2) t g(1) unfolding s by (simp add: input_date_def strtoll10_dec0 dropWhile_dec0 nat_int)
  moreover have "dropWhile isblank (cd_str cd) = cd_str cd" "cd_str cd \<noteq> []"
    using dec0_hd [of 4 ?y] unfolding s by (auto simp: dropWhile_dec0)
  ultimately show ?thesis using h by (simp add: cal_date_ctor_from_input_def)
qed

theorem cal_date_input_roundtrip_witness:
  "cal_date_ctor_from_input (cal_date_ctor 0 0 0 99 0) ''0008-02-29 23h59'' None = Done (cal_date_ctor 8 1 29 23 59)"
proof -
  have "cd_str (cal_date_ctor 8 1 29 23 59) = ''0008-02-29 23h59''" by code_simp
  moreover have "cal_ok (cal_date_ctor 8 1 29 23 59)" by code_simp
  moreover have "cd_str (cal_date_ctor 8 1 29 23 59) = cal_str (cal_date_ctor 8 1 29 23 59)" by code_simp
  moreover have "cd_year (cal_date_ctor 8 1 29 23 59) \<le> 9999" by code_simp
  moreover have "cd_hour (cal_date_ctor 8 1 29 23 59) < 24" by code_simp
  ultimately show ?thesis using cal_date_input_roundtrip [of "cal_date_ctor 8 1 29 23 59"] by metis
qed

section \<open>Date fields\<close>

lemma scan_u_dec0: "\<not> starts_digit 10 t \<Longrightarrow> int n < 2 ^ 32 \<Longrightarrow> scan_u (dec0 w n @ t) = Some (n, t)"
  by (simp add: scan_u_def skip_sign_digit read_digits_dec0 to_guint_def)

lemma scan_u_SP: "scan_u (SP # s) = scan_u s"
  by (simp add: scan_u_def skip_sign_def)

lemma sscanf_dec0s:
  assumes "int a < 2 ^ 32" "int b < 2 ^ 32" "int c < 2 ^ 32" "int d < 2 ^ 32" "int e < 2 ^ 32" "int f < 2 ^ 32"
  shows "sscanf_u 6 (dec0 4 a @ SP # dec0 2 b @ SP # dec0 2 c @ SP # dec0 2 d @ SP # dec0 2 e @ SP # dec0 2 f) = [a, b, c, d, e, f]"
proof -
  have "scan_u (dec0 2 f) = Some (f, [])" using scan_u_dec0 [of "[]" f 2] assms(6) by simp
  moreover have six: "(6 :: nat) = Suc (Suc (Suc (Suc (Suc (Suc 0)))))" by simp
  ultimately show ?thesis using assms unfolding six by (simp add: scan_u_dec0 scan_u_SP)
qed

lemma gmtime_month:
  "first_day (month_index (gmtime ts)) \<le> ts div 86400 + epoch" "ts div 86400 + epoch < first_day (month_index (gmtime ts) + 1)"
proof -
  obtain y m where "first_day (12 * y + int m) \<le> ts div 86400 + epoch" "ts div 86400 + epoch < first_day (12 * y + int m + 1)"
    "gmtime ts = \<lparr>tm_year = y - 1900, tm_mon = int m, tm_mday = ts div 86400 + epoch - first_day (12 * y + int m) + 1,
       tm_hour = ts mod 86400 div 3600, tm_min = ts mod 86400 div 60 mod 60, tm_sec = ts mod 86400 mod 60\<rparr>"
    by (rule gmtime_day)
  then show "first_day (month_index (gmtime ts)) \<le> ts div 86400 + epoch" "ts div 86400 + epoch < first_day (month_index (gmtime ts) + 1)"
    by (simp_all add: month_index_def)
qed

lemma month_index_year: "month_index (gmtime ts) = 12 * (tm_year (gmtime ts) + 1900) + tm_mon (gmtime ts)"
  by (simp add: month_index_def)

lemma gmtime_year:
  assumes "days_before a \<le> ts div 86400 + epoch" "ts div 86400 + epoch < days_before b"
  shows "a \<le> tm_year (gmtime ts) + 1900" "tm_year (gmtime ts) + 1900 < b"
proof -
  let ?y = "tm_year (gmtime ts) + 1900" and ?k = "month_index (gmtime ts)"
  have k: "12 * ?y \<le> ?k" "?k + 1 \<le> 12 * (?y + 1)"
    using gmtime_ok [of ts] unfolding month_index_year tm_ok_def by simp_all
  show "a \<le> ?y"
  proof (rule ccontr)
    assume "\<not> a \<le> ?y"
    then have "12 * (?y + 1) \<le> 12 * a" by simp
    with k(2) have "?k + 1 \<le> 12 * a" by (rule order_trans)
    from first_day_le [OF this] show False using gmtime_month(2) [of ts] assms(1) by (simp add: days_before_first)
  qed
  show "?y < b"
  proof (rule ccontr)
    assume "\<not> ?y < b"
    then have "12 * b \<le> 12 * ?y" by simp
    from this k(1) have "12 * b \<le> ?k" by (rule order_trans)
    from first_day_le [OF this] show False using gmtime_month(1) [of ts] assms(2) by (simp add: days_before_first)
  qed
qed

definition slip :: "int \<Rightarrow> int \<Rightarrow> int" where
  "slip tz ts = (let u = month_index (gmtime ts); v = month_index (gmtime (ts - tz)) in
     first_day (2 * u - v) - 2 * first_day u + first_day v)"

lemma timegm_mirrored:
  "timegm (mirrored u v) = 2 * timegm u - timegm v +
     86400 * (first_day (2 * month_index u - month_index v) - 2 * first_day (month_index u) + first_day (month_index v))"
proof -
  have "month_index (mirrored u v) = 2 * month_index u - month_index v" by (simp add: month_index_def mirrored_def)
  then show ?thesis by (simp add: timegm_alt) (simp add: mirrored_def)
qed

lemma mktime_mirrored: "mktime tz (mirrored (gmtime ts) (gmtime (mktime tz (gmtime ts)))) = ts + 86400 * slip tz ts"
  by (simp add: mktime_def timegm_mirrored slip_def Let_def)

lemma day_shift:
  fixes tz ts :: int
  assumes "\<bar>tz\<bar> < 86400"
  shows "(ts - tz) div 86400 \<le> ts div 86400 + 1" "ts div 86400 \<le> (ts - tz) div 86400 + 1"
proof -
  have "(ts - tz) div 86400 \<le> (ts + 86400) div 86400" "(ts - 86400) div 86400 \<le> (ts - tz) div 86400"
    using assms by (intro zdiv_mono1; simp)+
  then show "(ts - tz) div 86400 \<le> ts div 86400 + 1" "ts div 86400 \<le> (ts - tz) div 86400 + 1" by simp_all
qed

lemma month_shift:
  assumes "first_day j \<le> d" "d < first_day (j + 1)" "first_day k \<le> e" "e < first_day (k + 1)" "d \<le> e + 1"
  shows "j \<le> k + 1"
proof (rule ccontr)
  assume "\<not> j \<le> k + 1"
  then have "(k + 1) + 1 \<le> j" by simp
  then have "first_day (k + 1) + 28 \<le> first_day j" using first_day_le first_day_step(1) [of "k + 1"] by fastforce
  then show False using assms by simp
qed

lemma slip_bounds:
  assumes "\<bar>tz\<bar> < 86400"
  shows "\<bar>slip tz ts\<bar> \<le> 3"
proof -
  let ?u = "month_index (gmtime ts)" and ?v = "month_index (gmtime (ts - tz))"
  have "?u \<le> ?v + 1" "?v \<le> ?u + 1"
    using month_shift [OF gmtime_month gmtime_month, of ts "ts - tz"] month_shift [OF gmtime_month gmtime_month, of "ts - tz" ts]
      day_shift [OF assms, of ts] by simp_all
  then consider "?v = ?u" | "?v = ?u - 1" | "?v = ?u + 1" by linarith
  then show ?thesis
    using first_day_step [of ?u] first_day_step [of "?u - 1"] by cases (simp_all add: slip_def Let_def)
qed

lemma tm_uints:
  assumes "tm_ok t" "0 \<le> tm_year t + 1900" "tm_year t + 1900 \<le> 10000"
  shows "mktm (to_guint (tm_year t + 1900)) (to_guint (tm_mon t + 1)) (to_guint (tm_mday t))
      (to_guint (tm_hour t)) (to_guint (tm_min t)) (to_guint (tm_sec t)) = t"
    "int (to_guint (tm_year t + 1900)) = tm_year t + 1900" "int (to_guint (tm_mon t + 1)) = tm_mon t + 1"
    "int (to_guint (tm_mday t)) = tm_mday t" "int (to_guint (tm_hour t)) = tm_hour t"
    "int (to_guint (tm_min t)) = tm_min t" "int (to_guint (tm_sec t)) = tm_sec t"
proof -
  have "nat (tm_mon t) < 12" "tm_mday t \<le> mdays (tm_year t + 1900) (nat (tm_mon t))" using assms(1) by (auto simp: tm_ok_def)
  then have d: "tm_mday t \<le> 31" using mdays_bounds(2) by (metis order_trans)
  have g: "0 \<le> v \<Longrightarrow> v < 2 ^ 32 \<Longrightarrow> int (to_guint v) = v" for v by (simp add: to_guint_def)
  show i: "int (to_guint (tm_year t + 1900)) = tm_year t + 1900" "int (to_guint (tm_mon t + 1)) = tm_mon t + 1"
    "int (to_guint (tm_mday t)) = tm_mday t" "int (to_guint (tm_hour t)) = tm_hour t"
    "int (to_guint (tm_min t)) = tm_min t" "int (to_guint (tm_sec t)) = tm_sec t"
    using assms d by (auto simp: tm_ok_def intro!: g)
  have "to_int (to_guint v) = v" if "- (2 ^ 31) \<le> v" "v < 2 ^ 31" for v
  proof (cases "0 \<le> v")
    case False
    then have "(v + 2 ^ 32) mod 2 ^ 32 = v + 2 ^ 32" using that by (intro mod_pos_pos_trivial) auto
    then have "v mod 2 ^ 32 = v + 2 ^ 32" unfolding mod_add_self2 .
    with False that show ?thesis by (simp add: to_int_def to_guint_def)
  qed (use that in \<open>simp add: to_int_def to_guint_def\<close>)
  note w = this
  show "mktm (to_guint (tm_year t + 1900)) (to_guint (tm_mon t + 1)) (to_guint (tm_mday t))
      (to_guint (tm_hour t)) (to_guint (tm_min t)) (to_guint (tm_sec t)) = t"
    using assms d by (intro tm.equality) (simp_all add: mktm_def i w tm_ok_def)
qed

lemma gmfield_text:
  assumes "0 \<le> ts" "ts < 253402300800"
  defines "g \<equiv> gmtime ts"
  shows "sc_ts2gmfield tz ts True = dec0 4 (to_guint (tm_year g + 1900)) @ SP # dec0 2 (to_guint (tm_mon g + 1)) @
      SP # dec0 2 (to_guint (tm_mday g)) @ SP # dec0 2 (to_guint (tm_hour g)) @ SP # dec0 2 (to_guint (tm_min g)) @
      SP # dec0 2 (to_guint (tm_sec g))"
    and "1970 \<le> tm_year g + 1900" "tm_year g + 1900 < 10000"
proof -
  have "0 div 86400 \<le> ts div 86400" "ts div 86400 \<le> 253402300799 div 86400" using assms(1,2) by (intro zdiv_mono1; simp)+
  then show y: "1970 \<le> tm_year g + 1900" "tm_year g + 1900 < 10000"
    unfolding g_def by (intro gmtime_year [of 1970 ts 10000]; simp add: epoch_def days_before_def)+
  have ok: "tm_ok g" by (simp add: g_def gmtime_ok)
  have "tm_mday g \<le> 31"
    using ok mdays_bounds(2) [of "nat (tm_mon g)"] unfolding tm_ok_def by (metis nat_less_iff of_nat_numeral order_trans)
  then have d: "nat (tm_mday g) \<le> 31" by simp
  note u = tm_uints [OF ok]
  have "int (to_guint (tm_year g + 1900)) < 10 ^ 4" "int (to_guint (tm_mon g + 1)) < 10 ^ 2"
    "int (to_guint (tm_mday g)) < 10 ^ 2" "int (to_guint (tm_hour g)) < 10 ^ 2" "int (to_guint (tm_min g)) < 10 ^ 2"
    "int (to_guint (tm_sec g)) < 10 ^ 2"
    using u y \<open>tm_mday g \<le> 31\<close> ok by (simp_all add: tm_ok_def)
  then have "length (dec0 4 (to_guint (tm_year g + 1900))) = 4" "length (dec0 2 (to_guint (tm_mon g + 1))) = 2"
    "length (dec0 2 (to_guint (tm_mday g))) = 2" "length (dec0 2 (to_guint (tm_hour g))) = 2"
    "length (dec0 2 (to_guint (tm_min g))) = 2" "length (dec0 2 (to_guint (tm_sec g))) = 2"
    by (intro length_dec0; simp)+
  moreover have "gmtime (mktime tz (localtime tz ts)) = g" by (simp add: mktime_def localtime_def g_def)
  ultimately show "sc_ts2gmfield tz ts True = dec0 4 (to_guint (tm_year g + 1900)) @ SP # dec0 2 (to_guint (tm_mon g + 1)) @
      SP # dec0 2 (to_guint (tm_mday g)) @ SP # dec0 2 (to_guint (tm_hour g)) @ SP # dec0 2 (to_guint (tm_min g)) @
      SP # dec0 2 (to_guint (tm_sec g))"
    by (simp add: sc_ts2gmfield_def sc_tm2gmfield_def Let_def)
qed

lemma mkgmtime_gmtime:
  assumes "0 \<le> ts" "ts < 253402300800"
  shows "mkgmtime tz (gmtime ts) = Done (ts + 86400 * slip tz ts, gmtime (ts + 86400 * slip tz ts))"
proof -
  let ?g = "gmtime ts"
  have ok: "tm_ok ?g" by (rule gmtime_ok)
  have y: "1970 \<le> tm_year ?g + 1900" "tm_year ?g + 1900 < 10000" using gmfield_text(2,3) [OF assms] by simp_all
  have "tm_mday ?g \<le> 31"
    using ok mdays_bounds(2) [of "nat (tm_mon ?g)"] unfolding tm_ok_def by (metis nat_less_iff of_nat_numeral order_trans)
  with ok y have "list_all (\<lambda>f. fits_int (f ?g * 2)) [tm_year, tm_mon, tm_mday, tm_hour, tm_min, tm_sec]"
    by (simp add: fits_int_def tm_ok_def)
  then show ?thesis by (simp only: mkgmtime_def Let_def mktime_mirrored if_True)
qed


lemma gmtime_eq: "tm_ok t \<Longrightarrow> timegm t = ts \<Longrightarrow> gmtime ts = t"
  using gmtime_timegm by blast


end
