(* ===== verification/Mail.thy ===== *)
theory Mail
  imports Mime
begin

text \<open>
  Mails received by the SMTP server, after \<open>smtpd/parse.c\<close>: the text of a mail is read up to the line that is a
  dot, then parsed into a tree of files and multiparts whose contents are decoded. A pointer into the text is the
  text from there to the end of the buffer, so that what the code reads past the size it was given is read here too.
  The buffers that are filled are strings (see \<open>Varbuf\<close>).
\<close>

section \<open>Decoders\<close>

datatype quoted_state = READ_UNQUOTED | READ_QUOTE1 | READ_QUOTE2

definition hex_digit :: "char \<Rightarrow> nat option" where
  "hex_digit c = (let n = (of_char c :: nat) in
     if 48 \<le> n \<and> n \<le> 57 then Some (n - 48) else if 65 \<le> n \<and> n \<le> 70 then Some (10 + n - 65) else None)"

fun decode_quoted_loop :: "quoted_state \<Rightarrow> nat \<Rightarrow> string \<Rightarrow> string" where
  "decode_quoted_loop st quoted [] = []"
| "decode_quoted_loop READ_UNQUOTED quoted (c # msg) =
     (if c = CHR ''='' then decode_quoted_loop READ_QUOTE1 0 msg else c # decode_quoted_loop READ_UNQUOTED quoted msg)"
| "decode_quoted_loop READ_QUOTE1 quoted (c # msg) =
     (case hex_digit c of
        Some d \<Rightarrow> decode_quoted_loop READ_QUOTE2 ((quoted * 16 + d) mod 256) msg
      | None \<Rightarrow> decode_quoted_loop READ_UNQUOTED quoted msg)"
| "decode_quoted_loop READ_QUOTE2 quoted (c # msg) =
     (case hex_digit c of
        Some d \<Rightarrow> char_of ((quoted * 16 + d) mod 256) # decode_quoted_loop READ_UNQUOTED ((quoted * 16 + d) mod 256) msg
      | None \<Rightarrow> decode_quoted_loop READ_UNQUOTED quoted msg)"

definition decode_quoted :: "string \<Rightarrow> string" where
  "decode_quoted msg = decode_quoted_loop READ_UNQUOTED 0 msg"

text \<open>
  The array \<open>b64\<close>, whose last index is that of \<open>z\<close>, 122: the entries that are not given are 0. A character that is
  greater than the size of the array is ignored, the one that equals it is read past the end.
\<close>

definition b64 :: "nat \<Rightarrow> nat" where
  "b64 c = (if 65 \<le> c \<and> c \<le> 90 then c - 65
     else if 97 \<le> c \<and> c \<le> 122 then c - 71
     else if 48 \<le> c \<and> c \<le> 57 then c + 4
     else if c = 43 then 62 else if c = 47 then 63 else 0)"

definition b64_size :: nat where "b64_size = 123"

definition b64_output :: "nat list \<Rightarrow> string" where
  "b64_output vals = map char_of
     [(vals ! 0 * 4 + vals ! 1 div 16) mod 256, (vals ! 1 * 16 + vals ! 2 div 4) mod 256, (vals ! 2 * 64 + vals ! 3) mod 256]"

text \<open>
  The values read of the current group, the count of padding characters, the output. Values of the group that
  padding replaces are not set: the bytes that depend on them are not output.
\<close>

fun decode_base64_loop :: "nat list \<Rightarrow> nat \<Rightarrow> string \<Rightarrow> string \<Rightarrow> string outcome" where
  "decode_base64_loop vals nb_pads out [] = Done out"
| "decode_base64_loop vals nb_pads out (ch # msg) =
     (let c = (of_char ch :: nat);
          flush = (\<lambda>vals nb_pads.
            if 4 \<le> length vals + nb_pads
            then decode_base64_loop [] nb_pads (out @ take (3 - nb_pads) (b64_output (vals @ replicate nb_pads 0))) msg
            else decode_base64_loop vals nb_pads out msg)
      in if ch = CHR ''='' then
           (if 2 < nb_pads + 1 then Raised (Err 0 ''Invalid base64 encoding : too many padding'')
            else flush vals (nb_pads + 1))
         else if c = b64_size then Crash
         else if b64_size < c \<or> (b64 c = 0 \<and> ch \<noteq> CHR ''A'') then flush vals nb_pads
         else if 0 < nb_pads then Raised (Err 0 ''Invalid base64 encoding : padding chars within body'')
         else flush (vals @ [b64 c]) nb_pads)"

definition decode_base64 :: "string \<Rightarrow> string outcome" where
  "decode_base64 msg = decode_base64_loop [] 0 [] msg"

definition decode_in_varbuf :: "string \<Rightarrow> header \<Rightarrow> string outcome" where
  "decode_in_varbuf msg h = (case field_value h ''content-transfer-encoding'' of
     None \<Rightarrow> Done msg
   | Some enc \<Rightarrow>
       if strcasecmp_eq enc ''quoted-printable'' then Done (decode_quoted msg)
       else if strcasecmp_eq enc ''base64'' then decode_base64 msg
       else Done msg)"

section \<open>Parameters of a file\<close>

definition append_param :: "nat \<Rightarrow> string \<Rightarrow> nat \<Rightarrow> string \<Rightarrow> string \<Rightarrow> string \<times> nat" where
  "append_param maxlen params len pname pval =
     (if maxlen \<le> len then (params, len)
      else let s = (if 0 < len then ''; '' else []) @ pname @ ''='' @ [DQ] @ pval @ [DQ] in
        (params @ take (maxlen - len - 1) s, len + length s))"

definition param_of :: "string option \<Rightarrow> string \<Rightarrow> string option" where
  "param_of value pname = (case value of None \<Rightarrow> None
     | Some v \<Rightarrow> (case parameter_find v pname of (len, None) \<Rightarrow> None | (len, Some p) \<Rightarrow> Some (take len p)))"

definition file_name :: "header \<Rightarrow> string" where
  "file_name h =
     (let type = field_value h ''content-type''; disp = field_value h ''content-disposition'' in
      case param_of disp ''filename'' of
        Some f \<Rightarrow> f
      | None \<Rightarrow> (case param_of type ''name'' of
          Some f \<Rightarrow> f
        | None \<Rightarrow> (case type of
            Some t \<Rightarrow> ''noname.'' @ (case mime_type2ext t of Some e \<Rightarrow> e | None \<Rightarrow> ''bin'')
          | None \<Rightarrow> ''noname'')))"

definition build_params :: "nat \<Rightarrow> header \<Rightarrow> string" where
  "build_params maxlen h =
     (case append_param maxlen [] 0 ''name'' (file_name h) of (params, len) \<Rightarrow>
        case field_value h ''content-type'' of
          None \<Rightarrow> params
        | Some t \<Rightarrow> fst (append_param maxlen params len ''type'' t))"

section \<open>The tree of a mail\<close>

datatype msg_tree = CT_FILE header string string | CT_MULTIPART header "msg_tree list"

text \<open>
  \<open>strnstr\<close>: where \<open>little\<close> first occurs within the first \<open>max_len\<close> characters, which must not go beyond the end of
  the string.
\<close>

fun strstr :: "string \<Rightarrow> string \<Rightarrow> nat option" where
  "strstr little [] = (if little = [] then Some 0 else None)"
| "strstr little (c # cs) =
     (if take (length little) (c # cs) = little then Some 0 else map_option Suc (strstr little cs))"

definition strnstr :: "string \<Rightarrow> string \<Rightarrow> nat \<Rightarrow> nat option outcome" where
  "strnstr big little max_len =
     (if length (cstr big) < max_len then Crash else Done (strstr little (take max_len big)))"

lemma strstr_bound: "strstr little s = Some d \<Longrightarrow> d + length little \<le> length s"
proof (induction s arbitrary: d)
  case (Cons c s)
  show ?case
  proof (cases "take (length little) (c # s) = little")
    case True
    then have "length little \<le> length (c # s)" by (metis length_take min.absorb_iff2 nle_le)
    with True Cons.prems show ?thesis by simp
  qed (use Cons in auto)
qed (simp split: if_splits)

lemma strnstr_bound: "strnstr s little n = Done (Some d) \<Longrightarrow> d + length little \<le> n"
  using strstr_bound [of little "take n s" d] by (auto simp: strnstr_def split: if_splits)

definition MAX_BOUNDARY_LENGTH :: nat where "MAX_BOUNDARY_LENGTH = 70"

definition PREFIX :: string where "PREFIX = [NL] @ ''--''"

definition boundary_of :: "header \<Rightarrow> string option" where
  "boundary_of h = (case field_value h ''content-type'' of
     None \<Rightarrow> None
   | Some ct \<Rightarrow>
       if strncasecmp_pre ''multipart/'' ct
       then map_option (\<lambda>b. PREFIX @ take (MAX_BOUNDARY_LENGTH - 1) b) (parameter_extract ct ''boundary'')
       else None)"

definition skip_dashes :: "string \<Rightarrow> bool \<times> string" where
  "skip_dashes t = (if take 2 t = ''--'' then (True, drop 2 t) else (False, t))"

text \<open>
  \<open>parse_file\<close> is the end of \<open>parse_mail_node\<close> for a message that is a single file. When the header fills the whole
  size and the next character, which is beyond it, is a newline, the size of the body wraps around and the decoder runs
  out of the buffer.
\<close>

definition parse_file :: "header \<Rightarrow> string \<Rightarrow> nat \<Rightarrow> nat \<Rightarrow> msg_tree outcome" where
  "parse_file h msg sz header_size =
     (let header_size = (if take 1 (drop header_size msg) = [NL] then header_size + 1 else header_size) in
      if sz < header_size then Crash
      else obind (decode_in_varbuf (take (sz - header_size) (drop header_size msg)) h)
        (\<lambda>data. Done (CT_FILE h data (build_params 128 h))))"

lemma PREFIX_length: "boundary_of h = Some b \<Longrightarrow> 0 < length b"
  by (auto simp: boundary_of_def PREFIX_def split: option.splits if_splits)

lemma skip_dashes_length: "skip_dashes t = (l, u) \<Longrightarrow> length u \<le> length t"
  by (auto simp: skip_dashes_def split: if_splits)

lemma after_boundary:
  assumes "dropWhile isblank t = c # t'" "skip_dashes (drop n msg) = (l, t)"
  shows "length t' < length msg"
proof -
  have "length (c # t') \<le> length t" using length_dropWhile_le [of isblank t] assms(1) by simp
  also have "\<dots> \<le> length msg" using skip_dashes_length [OF assms(2)] by simp
  finally show ?thesis by simp
qed

function (sequential) parse_mail_rec :: "string \<Rightarrow> nat \<Rightarrow> msg_tree outcome"
  and parse_multipart :: "string \<Rightarrow> bool \<Rightarrow> msg_tree list \<Rightarrow> string \<Rightarrow> nat \<Rightarrow> msg_tree list outcome" where
  "parse_mail_rec msg sz =
     (case header_parse header_new (cstr msg) of
        Crash \<Rightarrow> Crash
      | Raised e \<Rightarrow> Raised e
      | Done (header_size, h, Some e) \<Rightarrow> Raised e
      | Done (header_size, h, None) \<Rightarrow>
          if sz < header_size then Crash
          else case boundary_of h of
            Some b \<Rightarrow> obind (parse_multipart b True [] msg sz) (\<lambda>parts. Done (CT_MULTIPART h parts))
          | None \<Rightarrow> parse_file h msg sz header_size)"
| "parse_multipart [] fst_boundary parts msg sz = Done parts"
| "parse_multipart (b # bs) fst_boundary parts msg sz =
     (case strnstr msg (b # bs) sz of
        Crash \<Rightarrow> Crash
      | Raised e \<Rightarrow> Raised e
      | Done None \<Rightarrow> Raised (Err 0 ''multipart boundary not found'')
      | Done (Some d) \<Rightarrow>
          (case (if fst_boundary then Done parts
                 else case parse_mail_rec msg d of
                   Done part \<Rightarrow> Done (part # parts) | Raised e \<Rightarrow> Done parts | Crash \<Rightarrow> Crash) of
             Crash \<Rightarrow> Crash
           | Raised e \<Rightarrow> Raised e
           | Done parts \<Rightarrow>
               (case skip_dashes (drop (d + length (b # bs)) msg) of (last_boundary, t) \<Rightarrow>
                  (case dropWhile isblank t of
                     [] \<Rightarrow> Raised (Err 0 ''Badly formated multipart message'')
                   | c # t' \<Rightarrow>
                       if c \<noteq> NL then Raised (Err 0 ''Badly formated multipart message'')
                       else let used = length msg - length t' in
                         if used < sz \<and> \<not> last_boundary then parse_multipart (b # bs) False parts t' (sz - used)
                         else Done parts))))"
  by pat_completeness auto

termination
proof (relation "measure (case_sum (\<lambda>(msg, sz). 2 * sz + 1) (\<lambda>(b, f, parts, msg, sz). 2 * sz))", goal_cases)
  case (3 b bs f parts msg sz o' d)
  then have "strnstr msg (b # bs) sz = Done (Some d)" by simp
  from strnstr_bound [OF this] show ?case by simp
next
  case 4
  from after_boundary [OF 4(5) 4(4) [symmetric]] show ?case using 4(7,8) by auto
qed simp_all

declare parse_mail_rec.simps [simp del] parse_multipart.simps [simp del]

section \<open>Reading a mail\<close>

definition MAX_MAILLINE_LENGTH :: nat where "MAX_MAILLINE_LENGTH = 1000"

text \<open>
  The lines up to the one that is a dot. Every turn consumes input or fails, so that \<open>msg_tree_read\<close> allows one turn
  more than there are bytes to read.
\<close>

fun read_whole_mail :: "nat \<Rightarrow> string \<Rightarrow> input \<Rightarrow> (string \<times> err option \<times> input) option" where
  "read_whole_mail 0 vb inp = None"
| "read_whole_mail (Suc n) vb inp =
     (case read_line vb MAX_MAILLINE_LENGTH inp of
        (vb', Some e, inp') \<Rightarrow> Some (vb', Some e, inp')
      | (vb', None, inp') \<Rightarrow>
          if line_match (cstr (drop (length vb) vb')) ''.'' then Some (vb, None, inp')
          else read_whole_mail n vb' inp')"

definition msg_tree_read :: "input \<Rightarrow> ((msg_tree \<times> input) outcome) option" where
  "msg_tree_read inp = (case read_whole_mail (Suc (length inp)) [] inp of
     None \<Rightarrow> None
   | Some (vb, Some e, inp') \<Rightarrow> Some (Raised e)
   | Some (vb, None, inp') \<Rightarrow> Some (obind (parse_mail_rec vb (length vb)) (\<lambda>t. Done (t, inp'))))"

section \<open>Base 64\<close>

text \<open>The encoding of RFC 2045, without line breaks.\<close>

definition b64_char :: "nat \<Rightarrow> char" where
  "b64_char v = char_of (if v < 26 then v + 65 else if v < 52 then v + 71 else if v < 62 then v - 4
     else if v = 62 then 43 else 47)"

fun b64_encode :: "nat list \<Rightarrow> string" where
  "b64_encode [] = []"
| "b64_encode [a] = [b64_char (a div 4), b64_char (a mod 4 * 16), CHR ''='', CHR ''='']"
| "b64_encode [a, b] = [b64_char (a div 4), b64_char (a mod 4 * 16 + b div 16), b64_char (b mod 16 * 4), CHR ''='']"
| "b64_encode (a # b # c # r) =
     [b64_char (a div 4), b64_char (a mod 4 * 16 + b div 16), b64_char (b mod 16 * 4 + c div 64), b64_char (c mod 64)] @ b64_encode r"

definition ignorable :: "char \<Rightarrow> bool" where
  "ignorable ch \<longleftrightarrow> ch \<noteq> CHR ''='' \<and>
     (b64_size < (of_char ch :: nat) \<or> b64 (of_char ch) = 0 \<and> ch \<noteq> CHR ''A'')"

lemma decode_base64_filter:
  assumes "length vals + nb_pads < 4" "nb_pads \<le> 2" "CHR 0x7B \<notin> set msg"
  shows "decode_base64_loop vals nb_pads out msg = decode_base64_loop vals nb_pads out (filter (\<lambda>c. \<not> ignorable c) msg)"
  using assms
proof (induction msg arbitrary: vals nb_pads out)
  case (Cons ch msg)
  have c: "(of_char ch :: nat) \<noteq> b64_size"
  proof
    assume "(of_char ch :: nat) = b64_size"
    then have "(of_char ch :: nat) = of_char CHR 0x7B" by (simp add: b64_size_def)
    then show False using Cons.prems(3) by (simp only: of_char_eq_iff) simp
  qed
  show ?case
  proof (cases "ignorable ch")
    case True
    with c Cons show ?thesis by (auto simp: ignorable_def Let_def)
  next
    case False
    with c Cons show ?thesis by (auto simp: ignorable_def Let_def)
  qed
qed simp

lemma of_char_b64_char: "v < 64 \<Longrightarrow> (of_char (b64_char v) :: nat) =
    (if v < 26 then v + 65 else if v < 52 then v + 71 else if v < 62 then v - 4 else if v = 62 then 43 else 47)"
  by (auto simp: b64_char_def)

lemma b64_b64_char: "v < 64 \<Longrightarrow> b64 (of_char (b64_char v)) = v"
  by (auto simp: of_char_b64_char b64_def)

lemma b64_char_plain:
  assumes "v < 64"
  shows "b64_char v \<noteq> CHR ''=''" "(of_char (b64_char v) :: nat) < b64_size" "v = 0 \<Longrightarrow> b64_char v = CHR ''A''"
proof -
  have "(of_char (b64_char v) :: nat) \<noteq> of_char CHR ''=''" using assms by (auto simp: of_char_b64_char)
  then show "b64_char v \<noteq> CHR ''=''" by auto
  show "(of_char (b64_char v) :: nat) < b64_size" using assms by (auto simp: of_char_b64_char b64_size_def)
  have "b64_char 0 = CHR ''A''" by code_simp
  then show "v = 0 \<Longrightarrow> b64_char v = CHR ''A''" by simp
qed

lemma decode_base64_val:
  assumes "v < 64"
  shows "decode_base64_loop vals 0 out (b64_char v # msg) =
    (if 3 \<le> length vals then decode_base64_loop [] 0 (out @ b64_output (vals @ [v])) msg
     else decode_base64_loop (vals @ [v]) 0 out msg)"
  using b64_char_plain [OF assms] assms by (auto simp: Let_def b64_b64_char b64_output_def)

lemma decode_base64_pad:
  "decode_base64_loop [u, v] 0 out ''=='' = Done (out @ take 1 (b64_output [u, v, 0, 0]))"
  "decode_base64_loop [u, v, w] 0 out ''='' = Done (out @ take 2 (b64_output [u, v, w, 0]))"
  by (simp_all add: numeral_eq_Suc)

declare decode_base64_loop.simps(2) [simp del]

lemma decode_base64_encode:
  assumes "\<forall>a \<in> set s. a < 256"
  shows "decode_base64_loop [] 0 out (b64_encode s) = Done (out @ map char_of s)"
  using assms
proof (induction s arbitrary: out rule: b64_encode.induct)
  case (2 a)
  then show ?case by (simp add: decode_base64_val decode_base64_pad b64_output_def)
next
  case (3 a b)
  have "a mod 4 \<le> 3" "b mod 16 \<le> 15" "b div 16 \<le> 15" using 3 div_le_mono [of b 255 16] by simp_all
  then have "a mod 4 * 16 + b div 16 < 64" "b mod 16 * 4 < 64" by linarith+
  moreover have "a < 256" "b < 256" using 3 by simp_all
  moreover have "b mod 16 * 4 div 4 = b mod 16" "b div 16 * 16 + b mod 16 = b" by simp_all
  ultimately show ?case by (simp add: decode_base64_val decode_base64_pad b64_output_def)
next
  case (4 a b c r)
  have "a mod 4 \<le> 3" "b mod 16 \<le> 15" "b div 16 \<le> 15" "c div 64 \<le> 3"
    using 4 div_le_mono [of b 255 16] div_le_mono [of c 255 64] by simp_all
  then have "a mod 4 * 16 + b div 16 < 64" "b mod 16 * 4 + c div 64 < 64" by linarith+
  moreover have "a < 256" "b < 256" "c < 256" "decode_base64_loop [] 0 out' (b64_encode r) = Done (out' @ map char_of r)" for out'
    using 4 by simp_all
  ultimately show ?case by (simp add: decode_base64_val b64_output_def)
qed simp



section \<open>Quoted printable\<close>

text \<open>The pieces of a text in quoted printable: a character as it is, a byte in hexadecimal, a soft line break.\<close>

datatype qp = Lit char | Hex nat | Soft

definition hex_char :: "nat \<Rightarrow> char" where
  "hex_char d = char_of (if d < 10 then 48 + d else 55 + d)"

fun qp_text :: "qp \<Rightarrow> string" where
  "qp_text (Lit c) = [c]"
| "qp_text (Hex n) = [CHR ''='', hex_char (n div 16), hex_char (n mod 16)]"
| "qp_text Soft = [CHR ''='', NL]"

fun qp_bytes :: "qp \<Rightarrow> string" where
  "qp_bytes (Lit c) = [c]"
| "qp_bytes (Hex n) = [char_of n]"
| "qp_bytes Soft = []"

fun qp_ok :: "qp \<Rightarrow> bool" where
  "qp_ok (Lit c) = (c \<noteq> CHR ''='')"
| "qp_ok (Hex n) = (n < 256)"
| "qp_ok Soft = True"

lemma hex_digit_char: "d < 16 \<Longrightarrow> hex_digit (hex_char d) = Some d"
  by (auto simp: hex_digit_def hex_char_def Let_def)

text \<open>The decoder of quoted printable gives back the bytes of a text made of plain characters, bytes in upper case
hexadecimal and soft line breaks.\<close>

theorem decode_quoted_text:
  assumes "list_all qp_ok ps"
  shows "decode_quoted (concat (map qp_text ps)) = concat (map qp_bytes ps)"
proof -
  have "decode_quoted_loop READ_UNQUOTED q (concat (map qp_text ps)) = concat (map qp_bytes ps)" for q
    using assms
  proof (induction ps arbitrary: q)
    case (Cons p ps)
    have "hex_digit NL = None" by code_simp
    with Cons show ?case by (cases p) (auto simp: hex_digit_char)
  qed simp
  then show ?thesis by (simp add: decode_quoted_def)
qed

theorem decode_quoted_text_witness:
  "decode_quoted (''caf=E9='' @ [NL] @ ''!'') = ''caf'' @ [CHR 0xE9] @ ''!''"
proof -
  have "list_all qp_ok [Lit CHR ''c'', Lit CHR ''a'', Lit CHR ''f'', Hex 233, Soft, Lit CHR ''!'']" by code_simp
  moreover have "concat (map qp_text [Lit CHR ''c'', Lit CHR ''a'', Lit CHR ''f'', Hex 233, Soft, Lit CHR ''!'']) = ''caf=E9='' @ [NL] @ ''!''"
    by code_simp
  moreover have "concat (map qp_bytes [Lit CHR ''c'', Lit CHR ''a'', Lit CHR ''f'', Hex 233, Soft, Lit CHR ''!'']) = ''caf'' @ [CHR 0xE9] @ ''!''"
    by code_simp
  ultimately show ?thesis using decode_quoted_text by metis
qed

section \<open>Multipart messages\<close>

definition clean :: "string \<Rightarrow> string \<Rightarrow> bool" where
  "clean b p \<longleftrightarrow> strstr b (p @ b) = Some (length p)"

lemma strstr_append: "strstr b s = Some d \<Longrightarrow> strstr b (s @ r) = Some d"
proof (induction s arbitrary: d)
  case Nil
  then show ?case by (cases r) (auto split: if_splits)
next
  case (Cons c s)
  have "length b \<le> length (c # s)" using strstr_bound [OF Cons.prems] by simp
  then have t: "take (length b) (c # s @ r) = take (length b) (c # s)" by (cases b) auto
  show ?case
  proof (cases "take (length b) (c # s) = b")
    case True
    with Cons.prems t show ?thesis by simp
  next
    case False
    with Cons t show ?thesis by auto
  qed
qed

lemma cstr_no_NUL: "NUL \<notin> set s \<Longrightarrow> cstr s = s"
  unfolding cstr_def by (rule takeWhile_eq_all_conv [THEN iffD2]) auto

lemma strnstr_clean:
  assumes "clean b p" "NUL \<notin> set (p @ b @ r)" "length (p @ b) \<le> n" "n \<le> length (p @ b @ r)"
  shows "strnstr (p @ b @ r) b n = Done (Some (length p))"
proof -
  have "take n (p @ b @ r) = (p @ b) @ take (n - length (p @ b)) r" using assms(3) by simp
  with assms show ?thesis using strstr_append [of b "p @ b" "length p" "take (n - length (p @ b)) r"]
    by (simp add: strnstr_def clean_def cstr_no_NUL)
qed

text \<open>The parts of a message after the first boundary: every part is followed by the boundary, the last one by the closing
boundary and the epilogue.\<close>

fun parts_text :: "string \<Rightarrow> string list \<Rightarrow> string \<Rightarrow> string" where
  "parts_text b [] epi = epi"
| "parts_text b (p # ps) epi = p @ b @ (if ps = [] then ''--'' @ [NL] @ epi else NL # parts_text b ps epi)"

text \<open>The trees of the parts that can be parsed, in their order.\<close>

fun part_trees :: "string \<Rightarrow> string list \<Rightarrow> string \<Rightarrow> msg_tree list" where
  "part_trees b [] epi = []"
| "part_trees b (p # ps) epi = (case parse_mail_rec (parts_text b (p # ps) epi) (length p) of
     Done t \<Rightarrow> t # part_trees b ps epi | _ \<Rightarrow> part_trees b ps epi)"

fun no_crash :: "string \<Rightarrow> string list \<Rightarrow> string \<Rightarrow> bool" where
  "no_crash b [] epi \<longleftrightarrow> True"
| "no_crash b (p # ps) epi \<longleftrightarrow> parse_mail_rec (parts_text b (p # ps) epi) (length p) \<noteq> Crash \<and> no_crash b ps epi"

lemma after_first_boundary:
  assumes "b \<noteq> []" "clean b p" "NUL \<notin> set (p @ b @ NL # t)" "t \<noteq> []"
  shows "parse_multipart b True parts (p @ b @ NL # t) (length (p @ b @ NL # t)) = parse_multipart b False parts t (length t)"
proof -
  obtain b0 bs where b: "b = b0 # bs" using assms(1) by (cases b) auto
  have "strnstr (p @ b @ NL # t) b (length (p @ b @ NL # t)) = Done (Some (length p))"
    using assms by (intro strnstr_clean) auto
  moreover have "drop (length p + length b) (p @ b @ NL # t) = NL # t" by simp
  ultimately show ?thesis using assms(4) unfolding b
    by (simp add: parse_multipart.simps(2) [of b0 bs True] skip_dashes_def Let_def)
qed

lemma parse_parts:
  assumes "b \<noteq> []" "ps \<noteq> []" "list_all (clean b) ps" "NUL \<notin> set (parts_text b ps epi)" "no_crash b ps epi"
  shows "parse_multipart b False parts (parts_text b ps epi) (length (parts_text b ps epi)) =
    Done (rev (part_trees b ps epi) @ parts)"
  using assms
proof (induction ps arbitrary: parts)
  case (Cons p ps)
  obtain b0 bs where b: "b = b0 # bs" using Cons.prems(1) by (cases b) auto
  let ?r = "if ps = [] then ''--'' @ [NL] @ epi else NL # parts_text b ps epi"
  have s: "strnstr (p @ b @ ?r) b (length (p @ b @ ?r)) = Done (Some (length p))"
    using Cons.prems(3,4) by (intro strnstr_clean) auto
  have d: "drop (length p + length b) (p @ b @ ?r) = ?r" by simp
  obtain q where q: "(case parse_mail_rec (p @ b @ ?r) (length p) of Done part \<Rightarrow> Done (part # parts)
        | Raised e \<Rightarrow> Done parts | Crash \<Rightarrow> Crash) = Done q"
      "rev (part_trees b ps epi) @ q = rev (part_trees b (p # ps) epi) @ parts"
    using Cons.prems(5) by (cases "parse_mail_rec (p @ b @ ?r) (length p)") auto
  have step: "parse_multipart b False parts (p @ b @ ?r) (length (p @ b @ ?r)) =
      (case skip_dashes ?r of (last_boundary, t) \<Rightarrow> (case dropWhile isblank t of
         [] \<Rightarrow> Raised (Err 0 ''Badly formated multipart message'')
       | c # t' \<Rightarrow> if c \<noteq> NL then Raised (Err 0 ''Badly formated multipart message'')
           else let used = length (p @ b @ ?r) - length t' in
             if used < length (p @ b @ ?r) \<and> \<not> last_boundary
             then parse_multipart b False q t' (length (p @ b @ ?r) - used) else Done q))"
    using s d q(1) unfolding b by (simp only: parse_multipart.simps(2) [of b0 bs False parts] outcome.simps option.simps if_False)
  show ?case
  proof (cases "ps = []")
    case True
    with step q(2) show ?thesis by (simp add: skip_dashes_def Let_def)
  next
    case False
    then have "parts_text b ps epi \<noteq> []" using Cons.prems(1) by (cases ps) auto
    moreover have "parse_multipart b False q (parts_text b ps epi) (length (parts_text b ps epi)) = Done (rev (part_trees b ps epi) @ q)"
      using False Cons.prems by (intro Cons.IH) auto
    ultimately show ?thesis using step q(2) False by (simp add: skip_dashes_def Let_def)
  qed
qed simp

definition fields_text :: "header_field list \<Rightarrow> string" where
  "fields_text hfs = concat (map field_dump hfs)"

definition header_of :: "header_field list \<Rightarrow> header" where
  "header_of hfs = \<lparr>h_fields = hfs, h_count = 1\<rparr>"

lemma cstr_append: "NUL \<notin> set s \<Longrightarrow> cstr (s @ t) = s @ cstr t"
  unfolding cstr_def by (rule takeWhile_append2) auto

lemma header_parse_fields:
  assumes "list_all wf_field hfs" "NUL \<notin> set (fields_text hfs)"
  shows "header_parse header_new (cstr (fields_text hfs @ NL # r)) = Done (length (fields_text hfs), header_of hfs, None)"
proof -
  have "cstr (fields_text hfs @ NL # r) = fields_text hfs @ NL # cstr r"
    using cstr_append [OF assms(2)] by (simp add: cstr_def)
  then show ?thesis
    using header_parse_loop_dump [OF assms(1), of "NL # cstr r" header_new 0]
    by (simp add: header_parse_def fields_text_def header_new_def header_of_def)
qed

lemma boundary_nonempty: "boundary_of h = Some b \<Longrightarrow> b \<noteq> []"
  using PREFIX_length by fastforce

text \<open>C13. A multipart message is parsed into its parts: when the header gives a boundary that occurs neither in the header
and the preamble nor in the parts, the tree of the message has the trees of the parts that can be parsed, the last part
first, and ignores the preamble, the parts that cannot be parsed and the epilogue.\<close>

theorem multipart_parsed:
  assumes "list_all wf_field hfs" "boundary_of (header_of hfs) = Some b" "ps \<noteq> []"
    and "clean b (fields_text hfs @ NL # preamble)" "list_all (clean b) ps" "no_crash b ps epilogue"
    and msg_def: "msg = fields_text hfs @ NL # preamble @ b @ NL # parts_text b ps epilogue" and "NUL \<notin> set msg"
  shows "parse_mail_rec msg (length msg) = Done (CT_MULTIPART (header_of hfs) (rev (part_trees b ps epilogue)))"
proof -
  have b: "b \<noteq> []" using assms(2) by (rule boundary_nonempty)
  then have "parts_text b ps epilogue \<noteq> []" using assms(3) by (cases ps) auto
  moreover have n: "NUL \<notin> set (fields_text hfs)" "NUL \<notin> set (parts_text b ps epilogue)" using assms(8) by (auto simp: msg_def)
  moreover have "(fields_text hfs @ NL # preamble) @ b @ NL # parts_text b ps epilogue = msg" by (simp add: msg_def)
  ultimately have "parse_multipart b True [] msg (length msg) =
      parse_multipart b False [] (parts_text b ps epilogue) (length (parts_text b ps epilogue))"
    using after_first_boundary [OF b assms(4), of "parts_text b ps epilogue" "[]"] assms(8) by simp
  also have "\<dots> = Done (rev (part_trees b ps epilogue))" using parse_parts [OF b assms(3,5) n(2) assms(6), of "[]"] by simp
  finally have "parse_multipart b True [] msg (length msg) = Done (rev (part_trees b ps epilogue))" .
  moreover have "header_parse header_new (cstr msg) = Done (length (fields_text hfs), header_of hfs, None)"
    unfolding msg_def by (rule header_parse_fields [OF assms(1) n(1)])
  ultimately show ?thesis using assms(2) by (simp add: parse_mail_rec.simps [of msg]) (simp add: msg_def)
qed

lemma empty_part:
  assumes "list_all wf_field hfs" "NUL \<notin> set (fields_text hfs)" "boundary_of (header_of hfs) = None"
  shows "parse_mail_rec (fields_text hfs @ NL # r) (length (fields_text hfs)) = Crash"
  using header_parse_fields [OF assms(1,2), of r] assms(3) by (simp add: parse_mail_rec.simps parse_file_def)

text \<open>A part without body crashes the server: when the boundary comes right after the header of a part (be it empty),
the newline that begins the boundary is taken for the empty line that ends the header, the size of the body
becomes negative and the body is read out of the buffer.\<close>

theorem empty_part_crash:
  assumes "list_all wf_field hfs" "boundary_of (header_of hfs) = Some b" "clean b (fields_text hfs @ NL # preamble)"
    and "list_all wf_field part" "boundary_of (header_of part) = None" "clean b (fields_text part)"
    and msg_def: "msg = fields_text hfs @ NL # preamble @ b @ NL # fields_text part @ b @ r" and "NUL \<notin> set msg"
  shows "parse_mail_rec msg (length msg) = Crash"
proof -
  have b: "b \<noteq> []" using assms(2) by (rule boundary_nonempty)
  then obtain b0 bs where bb: "b = b0 # bs" by (cases b) auto
  let ?t = "fields_text part @ b @ r"
  have n: "NUL \<notin> set (fields_text hfs)" "NUL \<notin> set ?t" "NUL \<notin> set (fields_text part)" using assms(8) by (auto simp: msg_def)
  have "hd b = NL" using assms(2) by (auto simp: boundary_of_def PREFIX_def split: option.splits if_splits)
  then have t: "?t = fields_text part @ NL # bs @ r" using bb by simp
  have "parse_mail_rec ?t (length (fields_text part)) = Crash" unfolding t by (rule empty_part [OF assms(4) n(3) assms(5)])
  moreover have "strnstr ?t b (length ?t) = Done (Some (length (fields_text part)))"
    using n(2) by (intro strnstr_clean [OF assms(6)]) auto
  ultimately have "parse_multipart b False [] ?t (length ?t) = Crash"
    unfolding bb by (simp only: parse_multipart.simps(2) [of b0 bs False "[]" "fields_text part @ (b0 # bs) @ r"] outcome.simps option.simps if_False)
  moreover have "(fields_text hfs @ NL # preamble) @ b @ NL # ?t = msg" by (simp add: msg_def)
  ultimately have "parse_multipart b True [] msg (length msg) = Crash"
    using after_first_boundary [OF b assms(3), of ?t "[]"] b assms(8) by simp
  moreover have "header_parse header_new (cstr msg) = Done (length (fields_text hfs), header_of hfs, None)"
    unfolding msg_def by (rule header_parse_fields [OF assms(1) n(1)])
  ultimately show ?thesis using assms(2) by (simp add: parse_mail_rec.simps [of msg])
qed

text \<open>A message with two parts and one with an empty part.\<close>

definition mixed :: "header_field list" where
  "mixed = [\<lparr>hf_name = ''content-type'', hf_value = ''multipart/mixed; boundary=xx''\<rparr>]"

definition xx :: string where "xx = PREFIX @ ''xx''"

definition part_a :: string where "part_a = ''a: b'' @ [NL, NL] @ ''hi''"

definition part_b :: string where "part_b = ''content-transfer-encoding: base64'' @ [NL, NL] @ ''SGk=''"

lemma mixed_ok: "list_all wf_field mixed \<and> boundary_of (header_of mixed) = Some xx \<and> clean xx (fields_text mixed @ NL # ''ignored'')"
  by code_simp

theorem multipart_parsed_witness:
  "parse_mail_rec (fields_text mixed @ NL # ''ignored'' @ xx @ NL # parts_text xx [part_a, part_b] [])
     (length (fields_text mixed @ NL # ''ignored'' @ xx @ NL # parts_text xx [part_a, part_b] [])) =
   Done (CT_MULTIPART (header_of mixed) (rev (part_trees xx [part_a, part_b] []))) \<and>
   map (\<lambda>t. case t of CT_FILE h d p \<Rightarrow> d) (part_trees xx [part_a, part_b] []) = [''hi'', ''Hi'']"
proof -
  have p: "list_all (clean xx) [part_a, part_b] \<and> no_crash xx [part_a, part_b] [] \<and>
      map (\<lambda>t. case t of CT_FILE h d p \<Rightarrow> d) (part_trees xx [part_a, part_b] []) = [''hi'', ''Hi'']" by code_simp
  have n: "NUL \<notin> set (fields_text mixed @ NL # ''ignored'' @ xx @ NL # parts_text xx [part_a, part_b] [])" by code_simp
  show ?thesis
    using multipart_parsed [of mixed xx "[part_a, part_b]" "''ignored''" "[]"] mixed_ok p n by simp
qed

theorem empty_part_crash_witness:
  "parse_mail_rec (fields_text mixed @ NL # ''ignored'' @ xx @ NL # fields_text [] @ xx @ ''--'' @ [NL])
     (length (fields_text mixed @ NL # ''ignored'' @ xx @ NL # fields_text [] @ xx @ ''--'' @ [NL])) = Crash"
proof -
  have "boundary_of (header_of []) = None \<and> clean xx (fields_text []) \<and>
      NUL \<notin> set (fields_text mixed @ NL # ''ignored'' @ xx @ NL # fields_text [] @ xx @ ''--'' @ [NL])" by code_simp
  then show ?thesis using empty_part_crash [of mixed xx "''ignored''" "[]" _ "''--'' @ [NL]"] mixed_ok by simp
qed

section \<open>Reading a mail ends\<close>

lemma line_loop_full: "m \<le> length s - p \<Longrightarrow> line_loop s cr p m inp = (s, None, inp)"
  by (simp add: line_loop.simps [of s])

lemma line_loop_consumes:
  "line_loop s cr p m inp = (s', None, inp') \<Longrightarrow> length s - p < m \<Longrightarrow> length inp' < length inp"
proof (induction inp arbitrary: s cr)
  case Nil
  then show ?case by (simp add: line_loop.simps [of s])
next
  case (Cons x inp)
  show ?case
  proof (cases x)
    case (RdErr e)
    with Cons.prems have "line_loop s cr p m inp = (s', None, inp')"
      by (simp add: line_loop.simps [of s cr p m "RdErr e # inp"] split: if_splits)
    with Cons.IH [OF this Cons.prems(2)] show ?thesis by simp
  next
    case (Got c)
    let ?s = "(if c \<noteq> NL \<and> cr then s @ [CR] else s) @ [c]"
    have c: "line_loop s cr p m (x # inp) =
        (if c = CR then line_loop s True p m inp else if c = NL then (?s, None, inp) else line_loop ?s False p m inp)"
      unfolding Got using Cons.prems(2) by (subst line_loop.simps) (simp add: Let_def)
    show ?thesis
    proof (cases "length ?s - p < m \<or> c = CR \<or> c = NL")
      case True
      with Cons c show ?thesis by (fastforce split: if_splits)
    next
      case False
      then have "line_loop ?s False p m inp = (?s, None, inp)" by (intro line_loop_full) (auto simp: not_less)
      with Cons.prems c False show ?thesis by auto
    qed
  qed
qed

lemma read_whole_mail_returns: "length inp < n \<Longrightarrow> \<exists>r. read_whole_mail n vb inp = Some r"
proof (induction n arbitrary: vb inp)
  case (Suc n)
  obtain vb' e inp' where r: "read_line vb MAX_MAILLINE_LENGTH inp = (vb', e, inp')" by (cases "read_line vb MAX_MAILLINE_LENGTH inp") auto
  show ?case
  proof (cases e)
    case None
    with r have "length inp' < length inp"
      by (intro line_loop_consumes [of vb False "length vb" MAX_MAILLINE_LENGTH inp vb']) (simp_all add: read_line_def MAX_MAILLINE_LENGTH_def)
    with Suc r None show ?thesis by simp
  qed (use r in simp)
qed simp

text \<open>C15. Reading a mail ends, whatever the client sends and however the text nests: either it comes to the end of the mail
and to a tree, or it raises an error, or it leaves defined behaviour.\<close>

theorem msg_tree_read_ends: "\<exists>r. msg_tree_read inp = Some r"
  using read_whole_mail_returns [of inp "Suc (length inp)" "[]"]
  by (auto simp: msg_tree_read_def split: option.splits)

end
