(* ===== verification/Smtpd.thy ===== *)
theory Smtpd
  imports Mail Mdsyncd Dates
begin

text \<open>
  The SMTP server, after \<open>smtpd/smtpd.c\<close>, \<open>smtpd/queries.c\<close> and \<open>smtpd/smtpd.h\<close>: the state
  of a connection (who the client is, the sender and the recipient of the mail), the commands,
  and the delivery of a mail, whose header and parts become files of the file server and whose
  summary is submitted to the mailbox of the recipient. The request to the file server
  (\<open>mkstemp\<close> and \<open>chn_send_file_request\<close>) is the argument \<open>send\<close>: from the number of files sent before
  and the contents, the reference of the file or the error. The offset of the local time
  (constant), the clock and the name of the host are arguments too.
\<close>

section \<open>The state of a connection\<close>

definition SERVICE_CLOSING :: int where "SERVICE_CLOSING = 221"
definition REPLY_OK :: int where "REPLY_OK = 250"
definition START_MAIL :: int where "START_MAIL = 354"
definition LOCAL_ERROR :: int where "LOCAL_ERROR = 451"
definition SYNTAX_ERR :: int where "SYNTAX_ERR = 500"
definition BAD_SEQUENCE :: int where "BAD_SEQUENCE = 503"
definition MBOX_UNAVAIL_2 :: int where "MBOX_UNAVAIL_2 = 550"

definition SC_MAIL_TYPE :: string where "SC_MAIL_TYPE = ''mail''"
definition SC_FROM_FIELD :: string where "SC_FROM_FIELD = ''sc-from''"
definition SC_DESCR_FIELD :: string where "SC_DESCR_FIELD = ''sc-descr''"
definition SC_EXTID_FIELD :: string where "SC_EXTID_FIELD = ''sc-extid''"
definition SC_RESOURCE_FIELD :: string where "SC_RESOURCE_FIELD = ''sc-resource''"
definition SC_START_FIELD :: string where "SC_START_FIELD = ''sc-start''"

text \<open>Null pointers are \<open>None\<close>; \<open>z_in\<close> is what the client sends.\<close>

record smtp_env =
  z_cnx :: mdir_cnx
  z_quit :: bool
  domain :: "string option"
  reverse_path :: "string option"
  forward_path :: "string option"
  mailbox :: "nat option"
  client_address :: string
  reception_date :: string
  reception_time :: string
  z_in :: input

text \<open>The connection, the folders, the files that the file server has got.\<close>

record smtp_st =
  z_env :: smtp_env
  z_mst :: mst
  z_files :: "string list"

text \<open>The arguments that stand for the file server, the host and the clock.\<close>

record smtp_world =
  send :: "nat \<Rightarrow> string \<Rightarrow> string res"
  my_hostname :: string
  tzone :: int
  clock :: int

definition on_z_mst :: "(mst, 'a) act \<Rightarrow> (smtp_st, 'a) act" where
  "on_z_mst f s = (case f (z_mst s) of
     Done (m, r) \<Rightarrow> Done (s\<lparr>z_mst := m\<rparr>, r) | Raised e \<Rightarrow> Raised e | Crash \<Rightarrow> Crash)"

definition upd_z :: "(smtp_env \<Rightarrow> smtp_env) \<Rightarrow> (smtp_st, unit) act" where
  "upd_z f s = Done (s\<lparr>z_env := f (z_env s)\<rparr>, Inr ())"

definition z_write :: "string \<Rightarrow> (smtp_st, unit) act" where
  "z_write t s = (case cnx_write t (z_cnx (z_env s)) of
     Done (c, r) \<Rightarrow> Done (s\<lparr>z_env := (z_env s)\<lparr>z_cnx := c\<rparr>\<rparr>, r) | Raised e \<Rightarrow> Raised e | Crash \<Rightarrow> Crash)"

section \<open>Answers\<close>

text \<open>The line is built in 100 bytes, and must fit.\<close>

definition answer_gen :: "int \<Rightarrow> string \<Rightarrow> char \<Rightarrow> (smtp_st, unit) act" where
  "answer_gen status cmpl sep =
     (let line = dec0 3 (nat status) @ [sep] @ cmpl @ [CR, NL] in
      if length line < 100 then z_write line else (\<lambda>_. Crash))"

definition smtp_answer :: "int \<Rightarrow> string \<Rightarrow> (smtp_st, unit) act" where
  "smtp_answer status cmpl = answer_gen status cmpl SP"

section \<open>HELO, MAIL and RCPT\<close>

definition reset_state :: "smtp_env \<Rightarrow> smtp_env" where
  "reset_state env = env\<lparr>domain := None, reverse_path := None, forward_path := None\<rparr>"

definition set_domain :: "string \<Rightarrow> smtp_env \<Rightarrow> smtp_env" where
  "set_domain ident env = (reset_state env)\<lparr>domain := Some ident\<rparr>"

text \<open>The address without the angle brackets around it.\<close>

definition set_address :: "string \<Rightarrow> string" where
  "set_address v = (if v \<noteq> [] \<and> hd v = CHR ''<'' \<and> last v = CHR ''>'' then take (length v - 2) (drop 1 v) else v)"

definition set_reverse_path :: "string \<Rightarrow> smtp_env \<Rightarrow> smtp_env" where
  "set_reverse_path v env = env\<lparr>reverse_path := Some (set_address v)\<rparr>"

definition set_forward_path :: "string \<Rightarrow> (smtp_st, unit) act" where
  "set_forward_path v =
     bnd (upd_z (\<lambda>env. env\<lparr>forward_path := Some (set_address v)\<rparr>)) (\<lambda>_.
     bnd (attempt (on_z_mst (mdir_lookup (snpath (''/mailboxes/Incoming/'' @ set_address v))))) (\<lambda>r. case r of
       Inr mp \<Rightarrow> upd_z (\<lambda>env. env\<lparr>mailbox := Some mp\<rparr>)
     | Inl e \<Rightarrow> bnd (upd_z (\<lambda>env. env\<lparr>mailbox := None, forward_path := None\<rparr>)) (\<lambda>_ s. Done (s, Inl e))))"

definition exec_helo :: "smtp_world \<Rightarrow> mdir_cmd \<Rightarrow> (smtp_st, unit) act" where
  "exec_helo w cmd = bnd (upd_z (set_domain (arg_str cmd 0))) (\<lambda>_. smtp_answer REPLY_OK (my_hostname w))"

definition exec_mail :: "mdir_cmd \<Rightarrow> (smtp_st, unit) act" where
  "exec_mail cmd s = (let from = arg_str cmd 0 in
     if domain (z_env s) = None then smtp_answer BAD_SEQUENCE ''What about presenting yourself first ?'' s
     else if \<not> strncasecmp_pre ''FROM:'' from then
       smtp_answer SYNTAX_ERR (''I remember RFC mentioning '' @ [CHR 39] @ ''MAIL FROM:...'' @ [CHR 39]) s
     else bnd (upd_z (set_reverse_path (drop 5 from))) (\<lambda>_. smtp_answer REPLY_OK ''Ok'') s)"

definition exec_rcpt :: "mdir_cmd \<Rightarrow> (smtp_st, unit) act" where
  "exec_rcpt cmd s = (let to = arg_str cmd 0 in
     if reverse_path (z_env s) = None then smtp_answer BAD_SEQUENCE ''No MAIL command ?'' s
     else if \<not> strncasecmp_pre ''TO:'' to then
       smtp_answer SYNTAX_ERR (''It should be '' @ [CHR 39] @ ''RCPT TO:...'' @ [CHR 39] @ '', shouldn'' @ [CHR 39] @ ''t it ?'') s
     else bnd (attempt (set_forward_path (dropWhile (\<lambda>c. c = SP) (drop 3 to)))) (\<lambda>r. case r of
       Inl e \<Rightarrow> bnd (attempt (smtp_answer MBOX_UNAVAIL_2 ''Bad guess'')) (\<lambda>_. ret ())
     | Inr _ \<Rightarrow> smtp_answer REPLY_OK ''Ok'') s)"

section \<open>DATA\<close>

definition send_varbuf :: "smtp_world \<Rightarrow> string \<Rightarrow> (smtp_st, string) act" where
  "send_varbuf w vb s = (case send w (length (z_files s)) vb of
     Inl e \<Rightarrow> Done (s, Inl e) | Inr ref \<Rightarrow> Done (s\<lparr>z_files := z_files s @ [vb]\<rparr>, Inr ref))"

definition store_file :: "smtp_world \<Rightarrow> string \<Rightarrow> string \<Rightarrow> header \<Rightarrow> (smtp_st, header) act" where
  "store_file w vb params global_header = bnd (send_varbuf w vb) (\<lambda>ref.
     ret (header_field_new global_header SC_RESOURCE_FIELD (if params \<noteq> [] then ref @ ''; '' @ params else ref)))"

fun store_file_rec :: "smtp_world \<Rightarrow> msg_tree \<Rightarrow> header \<Rightarrow> (smtp_st, header) act"
  and store_parts :: "smtp_world \<Rightarrow> msg_tree list \<Rightarrow> header \<Rightarrow> (smtp_st, header) act" where
  "store_file_rec w (CT_FILE h data params) g = (if data \<noteq> [] then store_file w data params g else ret g)"
| "store_file_rec w (CT_MULTIPART h parts) g = store_parts w parts g"
| "store_parts w [] g = ret g"
| "store_parts w (t # ts) g = bnd (store_file_rec w t g) (store_parts w ts)"

definition store_header :: "smtp_world \<Rightarrow> header \<Rightarrow> header \<Rightarrow> (smtp_st, header) act" where
  "store_header w to_save g = store_file w (header_dump to_save) ''type=text/plain'' g"

fun tree_header :: "msg_tree \<Rightarrow> header" where
  "tree_header (CT_FILE h data params) = h"
| "tree_header (CT_MULTIPART h parts) = h"

definition add_field :: "string \<Rightarrow> string option \<Rightarrow> header \<Rightarrow> header" where
  "add_field nm vo h = (case vo of None \<Rightarrow> h | Some v \<Rightarrow> header_field_new h nm v)"

text \<open>
  The mail is read from the socket: \<open>msg_tree_read\<close> always returns. A null sender is dereferenced.
\<close>

definition read_tree :: "(smtp_st, msg_tree) act" where
  "read_tree s = (case msg_tree_read (z_in (z_env s)) of
     Some (Done (t, inp)) \<Rightarrow> Done (s\<lparr>z_env := (z_env s)\<lparr>z_in := inp\<rparr>\<rparr>, Inr t)
   | Some (Raised e) \<Rightarrow> Done (s, Inl e)
   | Some Crash \<Rightarrow> Crash
   | None \<Rightarrow> Crash)"

definition submit_mail :: "smtp_world \<Rightarrow> msg_tree \<Rightarrow> header \<Rightarrow> (smtp_st, unit) act" where
  "submit_mail w t h s =
     (let h = add_field SC_DESCR_FIELD (field_value (tree_header t) ''subject'') h;
          h = add_field SC_EXTID_FIELD (field_value (tree_header t) ''message-id'') h;
          h = header_field_new h SC_START_FIELD (sc_tm2gmfield (tzone w) (localtime (tzone w) (clock w)) True)
      in case mailbox (z_env s) of
           None \<Rightarrow> Crash | Some mp \<Rightarrow> on_z_mst (mdir_patch_request mp MDIR_ADD h) s)"

definition process_mail :: "smtp_world \<Rightarrow> (smtp_st, unit) act" where
  "process_mail w = bnd read_tree (\<lambda>t s. case reverse_path (z_env s) of
     None \<Rightarrow> Crash
   | Some from \<Rightarrow>
       bnd (store_header w (tree_header t)
              (header_field_new (header_field_new header_new SC_TYPE_FIELD SC_MAIL_TYPE) SC_FROM_FIELD from)) (\<lambda>h.
       bnd (store_file_rec w t h) (\<lambda>h. submit_mail w t h)) s)"

text \<open>The error of a mail that was refused stays pending after the answer.\<close>

definition exec_data :: "smtp_world \<Rightarrow> mdir_cmd \<Rightarrow> (smtp_st, unit) act" where
  "exec_data w cmd s =
     (if forward_path (z_env s) = None then smtp_answer BAD_SEQUENCE ''What recipient, again ?'' s
      else bnd (smtp_answer START_MAIL ''Go ahaid, end with a single dot'') (\<lambda>_.
           bnd (attempt (process_mail w)) (\<lambda>r. case r of
             Inr _ \<Rightarrow> smtp_answer REPLY_OK ''Ok''
           | Inl e \<Rightarrow> bnd (attempt (smtp_answer LOCAL_ERROR ''Something bad happened at some point''))
                        (\<lambda>_ s. Done (s, Inl e)))) s)"

section \<open>Other commands\<close>

definition exec_rset :: "mdir_cmd \<Rightarrow> (smtp_st, unit) act" where
  "exec_rset cmd = bnd (upd_z reset_state) (\<lambda>_. smtp_answer REPLY_OK ''Ok'')"

definition exec_vrfy :: "mdir_cmd \<Rightarrow> (smtp_st, unit) act" where
  "exec_vrfy cmd = smtp_answer LOCAL_ERROR ''Not implemented yet''"

definition exec_expn :: "mdir_cmd \<Rightarrow> (smtp_st, unit) act" where
  "exec_expn cmd = smtp_answer LOCAL_ERROR ''Not implemented yet''"

definition exec_help :: "mdir_cmd \<Rightarrow> (smtp_st, unit) act" where
  "exec_help cmd = smtp_answer LOCAL_ERROR ''Not implemented yet''"

definition exec_noop :: "mdir_cmd \<Rightarrow> (smtp_st, unit) act" where
  "exec_noop cmd = smtp_answer REPLY_OK ''Ok''"

definition smtp_exec_quit :: "mdir_cmd \<Rightarrow> (smtp_st, unit) act" where
  "smtp_exec_quit cmd = bnd (upd_z (\<lambda>env. env\<lparr>z_quit := True\<rparr>)) (\<lambda>_. smtp_answer SERVICE_CLOSING ''Bye'')"

section \<open>The server\<close>

definition UINT_MAX :: nat where "UINT_MAX = 2 ^ 32 - 1"

definition smtp_service :: "string \<Rightarrow> string \<Rightarrow> nat \<Rightarrow> nat \<Rightarrow> nat \<Rightarrow> mdir_cmd_def" where
  "smtp_service kw callback amin amax n = \<lparr>keyword = kw, cb = callback, nb_arg_min = amin, nb_arg_max = amax,
     arg_types = replicate n CMD_STRING, negseq = False\<rparr>"

text \<open>The table of the commands, in which \<open>help\<close> is there twice and \<open>noop\<close> is not.\<close>

definition smtp_services :: "mdir_cmd_def list" where
  "smtp_services = [
     smtp_service ''ehlo'' ''exec_helo'' 1 1 1,
     smtp_service ''helo'' ''exec_helo'' 1 1 1,
     smtp_service ''mail'' ''exec_mail'' 1 UINT_MAX 1,
     smtp_service ''rcpt'' ''exec_rcpt'' 1 UINT_MAX 1,
     smtp_service ''data'' ''exec_data'' 0 0 0,
     smtp_service ''rset'' ''exec_rset'' 0 0 0,
     smtp_service ''vrfy'' ''exec_vrfy'' 1 1 1,
     smtp_service ''expn'' ''exec_expn'' 1 1 1,
     smtp_service ''help'' ''exec_help'' 0 1 1,
     smtp_service ''help'' ''exec_help'' 0 UINT_MAX 0,
     smtp_service ''quit'' ''exec_quit'' 0 0 0]"

definition smtp_syntax :: mdir_syntax where
  "smtp_syntax = fold (\<lambda>d sy. mdir_syntax_register sy d) smtp_services (mdir_syntax_ctor False)"

definition client_host :: string where "client_host = ''0.0.0.0''"

text \<open>The buffers of the dates have 11 and 9 bytes.\<close>

definition smtp_env_ctor :: "smtp_world \<Rightarrow> input \<Rightarrow> smtp_env" where
  "smtp_env_ctor w inp = (let tm = localtime (tzone w) (clock w) in
     \<lparr>z_cnx = mdir_cnx_ctor_inbound smtp_syntax, z_quit = False, domain = None, reverse_path = None,
      forward_path = None, mailbox = None, client_address = take 99 client_host,
      reception_date = take 10 (dec0 4 (nat (tm_year tm + 1900)) @ ''-'' @ dec0 2 (nat (tm_mon tm + 1)) @ ''-'' @ dec0 2 (nat (tm_mday tm))),
      reception_time = take 8 (dec0 2 (nat (tm_hour tm)) @ '':'' @ dec0 2 (nat (tm_min tm)) @ '':'' @ dec0 2 (nat (tm_sec tm))),
      z_in = inp\<rparr>)"

definition smtp_env_del :: "smtp_env \<Rightarrow> smtp_env" where
  "smtp_env_del env = env\<lparr>z_cnx := mdir_cnx_dtor (z_cnx env), domain := None, reverse_path := None, forward_path := None\<rparr>"

definition smtp_exec :: "smtp_world \<Rightarrow> mdir_cmd \<Rightarrow> (smtp_st, unit) act" where
  "smtp_exec w cmd =
     (let f = cb (c_def cmd) in
      if f = ''exec_helo'' then exec_helo w cmd
      else if f = ''exec_mail'' then exec_mail cmd
      else if f = ''exec_rcpt'' then exec_rcpt cmd
      else if f = ''exec_data'' then exec_data w cmd
      else if f = ''exec_rset'' then exec_rset cmd
      else if f = ''exec_vrfy'' then exec_vrfy cmd
      else if f = ''exec_expn'' then exec_expn cmd
      else if f = ''exec_help'' then exec_help cmd
      else if f = ''exec_noop'' then exec_noop cmd
      else if f = ''exec_quit'' then smtp_exec_quit cmd
      else ret ())"

definition smtp_serve_one :: "smtp_world \<Rightarrow> (smtp_st, unit) act" where
  "smtp_serve_one w s = (case mdir_cmd_read (cnx_syntax (z_cnx (z_env s))) (z_in (z_env s)) of (r, inp) \<Rightarrow>
     let s = s\<lparr>z_env := (z_env s)\<lparr>z_in := inp\<rparr>\<rparr> in
     case r of
       Done cmd \<Rightarrow> smtp_exec w cmd s
     | Raised e \<Rightarrow> Done (s, Inl e)
     | Crash \<Rightarrow> Crash)"

text \<open>
  The loop, with a bound on its turns: it ends when the client quits or an error is pending, and
  the connection is then destroyed.
\<close>

fun smtp_loop :: "smtp_world \<Rightarrow> nat \<Rightarrow> smtp_st \<Rightarrow> smtp_st outcome option" where
  "smtp_loop w 0 s = None"
| "smtp_loop w (Suc n) s =
     (if z_quit (z_env s) then Some (Done (s\<lparr>z_env := smtp_env_del (z_env s)\<rparr>))
      else case smtp_serve_one w s of
        Done (s, Inr _) \<Rightarrow> smtp_loop w n s
      | Done (s, Inl e) \<Rightarrow> Some (Done (s\<lparr>z_env := smtp_env_del (z_env s)\<rparr>))
      | Raised e \<Rightarrow> Some (Raised e)
      | Crash \<Rightarrow> Some Crash)"

definition smtp_serve_cnx :: "smtp_world \<Rightarrow> nat \<Rightarrow> smtp_st \<Rightarrow> smtp_st outcome option" where
  "smtp_serve_cnx w n s = (case z_write (''220 '' @ my_hostname w @ [NL]) s of
     Done (s, Inr _) \<Rightarrow> smtp_loop w n s
   | Done (s, Inl e) \<Rightarrow> Some (Done (s\<lparr>z_env := smtp_env_del (z_env s)\<rparr>))
   | Raised e \<Rightarrow> Some (Raised e)
   | Crash \<Rightarrow> Some Crash)"

section \<open>What every command keeps\<close>

definition smtp_ok :: "smtp_env \<Rightarrow> bool" where
  "smtp_ok env \<longleftrightarrow> (forward_path env \<noteq> None \<longrightarrow> reverse_path env \<noteq> None \<and> mailbox env \<noteq> None) \<and>
     (reverse_path env \<noteq> None \<longrightarrow> domain env \<noteq> None)"

definition keeps_sequence :: "smtp_st \<Rightarrow> smtp_st \<Rightarrow> bool" where
  "keeps_sequence s s' \<longleftrightarrow> (smtp_ok (z_env s) \<longrightarrow> smtp_ok (z_env s'))"

interpretation seq: state_order keeps_sequence
  by unfold_locales (auto simp: keeps_sequence_def)

definition reads_less :: "smtp_st \<Rightarrow> smtp_st \<Rightarrow> bool" where
  "reads_less s s' \<longleftrightarrow> length (z_in (z_env s')) \<le> length (z_in (z_env s))"

interpretation rd: state_order reads_less
  by unfold_locales (auto simp: reads_less_def)

text \<open>What neither touches the addresses nor the input: answers, folders and files.\<close>

definition same_env :: "smtp_st \<Rightarrow> smtp_st \<Rightarrow> bool" where
  "same_env s s' \<longleftrightarrow> (\<exists>c. z_env s' = (z_env s)\<lparr>z_cnx := c\<rparr>)"

interpretation env: state_order same_env
proof
  show "same_env s s" for s unfolding same_env_def by (rule exI [of _ "z_cnx (z_env s)"]) simp
  show "same_env s t \<Longrightarrow> same_env t u \<Longrightarrow> same_env s u" for s t u by (auto simp: same_env_def)
qed

lemma same_envI: "z_env s' = z_env s \<Longrightarrow> same_env s s'"
  unfolding same_env_def by (rule exI [of _ "z_cnx (z_env s)"]) simp

lemma same_env_step:
  assumes "same_env s s'"
  shows "keeps_sequence s s'" "reads_less s s'"
proof -
  obtain c where "z_env s' = (z_env s)\<lparr>z_cnx := c\<rparr>" using assms by (auto simp: same_env_def)
  then show "keeps_sequence s s'" "reads_less s s'" by (simp_all add: keeps_sequence_def reads_less_def smtp_ok_def)
qed

lemma same_env_within:
  assumes "within same_env m"
  shows "within keeps_sequence m" "within reads_less m"
  using assms same_env_step by (auto simp: within_def)

lemma same_env_parts: "within same_env (on_z_mst f)" "within same_env (smtp_answer st tx)" "within same_env (z_write t)"
    "within same_env (send_varbuf w vb)"
proof -
  show m: "within same_env (on_z_mst f)"
    by (rule withinI) (auto simp: on_z_mst_def split: outcome.splits intro!: same_envI)
  show z: "within same_env (z_write t)" for t
    by (rule withinI) (auto simp: z_write_def same_env_def split: outcome.splits)
  show "within same_env (smtp_answer st tx)"
    using z by (auto simp: smtp_answer_def answer_gen_def Let_def intro: within_Crash)
  show "within same_env (send_varbuf w vb)"
    by (rule withinI) (auto simp: send_varbuf_def split: sum.splits intro!: same_envI)
qed

lemma same_env_store: "within same_env (store_file_rec w t g)" "within same_env (store_parts w ts g)"
    and same_env_store_header: "within same_env (store_header w h g)"
proof -
  have f: "within same_env (store_file w vb ps g)" for w vb ps g
    unfolding store_file_def by (intro env.within_intros same_env_parts)
  show "within same_env (store_header w h g)" unfolding store_header_def by (rule f)
  show "within same_env (store_file_rec w t g)" "within same_env (store_parts w ts g)"
  proof (induction w t g and w ts g rule: store_file_rec_store_parts.induct)
    case (4 w t ts g)
    then show ?case unfolding store_parts.simps by (intro env.within_intros)
  qed (auto intro: f env.within_intros)
qed

lemmas smtp_env_parts = same_env_parts [THEN same_env_within(1)] same_env_parts [THEN same_env_within(2)]
  same_env_store [THEN same_env_within(1)] same_env_store [THEN same_env_within(2)]
  same_env_store_header [THEN same_env_within(1)] same_env_store_header [THEN same_env_within(2)]

lemma within_upd_z:
  "(\<And>env. smtp_ok env \<Longrightarrow> smtp_ok (f env)) \<Longrightarrow> within keeps_sequence (upd_z f)"
  "(\<And>env. z_in (f env) = z_in env) \<Longrightarrow> within reads_less (upd_z f)"
  by (auto simp: within_def upd_z_def keeps_sequence_def reads_less_def)

lemma read_whole_mail_shrinks: "read_whole_mail n vb inp = Some (vb', e, inp') \<Longrightarrow> length inp' \<le> length inp"
proof (induction n arbitrary: vb inp)
  case (Suc n)
  obtain l e1 inp1 where r: "read_line vb MAX_MAILLINE_LENGTH inp = (l, e1, inp1)" by (metis prod_cases3)
  then have "length inp1 \<le> length inp" by (auto simp: read_line_def dest: line_loop_shrinks)
  with Suc.prems r show ?case by (auto split: option.splits if_splits dest!: Suc.IH)
qed simp

lemma read_tree_env:
  assumes "read_tree s = Done (s', r)"
  shows "length (z_in (z_env s')) \<le> length (z_in (z_env s)) \<and> (\<exists>inp. s' = s\<lparr>z_env := (z_env s)\<lparr>z_in := inp\<rparr>\<rparr>)"
proof (cases "s' = s")
  case True
  then show ?thesis by (auto intro!: exI [of _ "z_in (z_env s)"])
next
  case False
  with assms obtain t inp where t: "msg_tree_read (z_in (z_env s)) = Some (Done (t, inp))"
      "s' = s\<lparr>z_env := (z_env s)\<lparr>z_in := inp\<rparr>\<rparr>"
    by (auto simp: read_tree_def split: option.splits outcome.splits)
  then obtain vb e where "read_whole_mail (Suc (length (z_in (z_env s)))) [] (z_in (z_env s)) = Some (vb, e, inp)"
    by (auto simp: msg_tree_read_def obind_def simp del: read_whole_mail.simps split: option.splits outcome.splits)
  from read_whole_mail_shrinks [OF this] t show ?thesis by auto
qed

lemma within_read_tree: "within keeps_sequence read_tree" "within reads_less read_tree"
  by (auto simp: within_def keeps_sequence_def reads_less_def smtp_ok_def dest!: read_tree_env)


lemma within_process_mail:
  "within keeps_sequence (process_mail w)" "within reads_less (process_mail w)"
proof -
  have "within same_env (submit_mail w t h)" for t h
    unfolding submit_mail_def Let_def by (intro within_option same_env_parts)
  then have "within same_env (\<lambda>s. case reverse_path (z_env s) of None \<Rightarrow> Crash | Some from \<Rightarrow>
      bnd (store_header w (tree_header t)
         (header_field_new (header_field_new header_new SC_TYPE_FIELD SC_MAIL_TYPE) SC_FROM_FIELD from)) (\<lambda>h.
        bnd (store_file_rec w t h) (\<lambda>h. submit_mail w t h)) s)" for t
    by (intro within_option env.within_bnd same_env_store same_env_store_header)
  note M = this [THEN same_env_within(1)] this [THEN same_env_within(2)]
  show "within keeps_sequence (process_mail w)"
    unfolding process_mail_def by (rule seq.within_bnd [OF within_read_tree(1) M(1)])
  show "within reads_less (process_mail w)"
    unfolding process_mail_def by (rule rd.within_bnd [OF within_read_tree(2) M(2)])
qed

lemma set_forward_path_cases:
  assumes "set_forward_path v s = Done (s', r)"
  obtains mp m where "r = Inr ()" "s' = s\<lparr>z_mst := m, z_env := (z_env s)\<lparr>forward_path := Some (set_address v), mailbox := Some mp\<rparr>\<rparr>"
      "mdir_lookup (snpath (''/mailboxes/Incoming/'' @ set_address v)) (z_mst s) = Done (m, Inr mp)"
  | e m where "r = Inl e" "s' = s\<lparr>z_mst := m, z_env := (z_env s)\<lparr>forward_path := None, mailbox := None\<rparr>\<rparr>"
      "mdir_lookup (snpath (''/mailboxes/Incoming/'' @ set_address v)) (z_mst s) = Done (m, Inl e)"
  using assms
  by (auto simp: set_forward_path_def upd_z_def bnd_def attempt_def on_z_mst_def split: outcome.splits sum.splits)

lemma within_set_forward_path:
  "within reads_less (set_forward_path v)"
  by (rule withinI) (erule set_forward_path_cases, auto simp: reads_less_def)


lemma within_exec_data: "within keeps_sequence (exec_data w cmd)" "within reads_less (exec_data w cmd)"
  unfolding exec_data_def
  by (intro within_if seq.within_intros rd.within_intros within_sum within_process_mail smtp_env_parts)+

lemma within_exec_rcpt: "within reads_less (exec_rcpt cmd)"
  unfolding exec_rcpt_def Let_def
  by (intro within_if rd.within_intros within_sum within_set_forward_path smtp_env_parts)

lemma exec_rcpt_sequence: "within keeps_sequence (exec_rcpt cmd)"
proof (rule withinI)
  fix s s' r assume e: "exec_rcpt cmd s = Done (s', r)"
  let ?K = "\<lambda>r. case r of Inl e \<Rightarrow> bnd (attempt (smtp_answer MBOX_UNAVAIL_2 ''Bad guess'')) (\<lambda>_. ret ())
     | Inr _ \<Rightarrow> smtp_answer REPLY_OK ''Ok''"
  let ?v = "dropWhile (\<lambda>c. c = SP) (drop 3 (arg_str cmd 0))"
  show "keeps_sequence s s'"
  proof (cases "reverse_path (z_env s) = None \<or> \<not> strncasecmp_pre ''TO:'' (arg_str cmd 0)")
    case True
    with e have "\<exists>st tx. smtp_answer st tx s = Done (s', r)"
      unfolding exec_rcpt_def Let_def by (auto simp del: append.simps split: if_splits)
    then show ?thesis using withinD [OF smtp_env_parts(2)] by blast
  next
    case False
    then have "bnd (attempt (set_forward_path ?v)) ?K s = Done (s', r)"
      using e unfolding exec_rcpt_def Let_def by (auto simp del: append.simps)
    then obtain s1 q where q: "set_forward_path ?v s = Done (s1, q)" "?K q s1 = Done (s', r)"
      by (auto simp: bnd_def attempt_def split: outcome.splits)
    from q(1) False have "keeps_sequence s s1"
      by (cases rule: set_forward_path_cases) (auto simp: keeps_sequence_def smtp_ok_def)
    moreover have "within keeps_sequence (?K q)"
      by (intro within_sum seq.within_intros smtp_env_parts)
    ultimately show ?thesis using q(2) seq.trans withinD by fast
  qed
qed


lemma within_smtp_exec: "within keeps_sequence (smtp_exec w cmd)" "within reads_less (smtp_exec w cmd)"
proof -
  have "within keeps_sequence (exec_helo w cmd)" "within keeps_sequence (exec_rset cmd)"
      "within keeps_sequence (smtp_exec_quit cmd)"
    unfolding exec_helo_def exec_rset_def smtp_exec_quit_def
    by (intro seq.within_intros within_upd_z(1) smtp_env_parts; simp add: smtp_ok_def set_domain_def reset_state_def)+
  moreover have "within keeps_sequence (exec_mail cmd)"
  proof (rule withinI)
    fix s s' r assume e: "exec_mail cmd s = Done (s', r)"
    let ?s = "s\<lparr>z_env := set_reverse_path (drop 5 (arg_str cmd 0)) (z_env s)\<rparr>"
    consider st tx where "smtp_answer st tx s = Done (s', r)"
      | "domain (z_env s) \<noteq> None" "smtp_answer REPLY_OK ''Ok'' ?s = Done (s', r)"
      using e unfolding exec_mail_def Let_def by (auto simp: upd_z_def bnd_def simp del: append.simps split: if_splits)
    then show "keeps_sequence s s'"
    proof cases
      case 2
      then have "keeps_sequence s ?s" by (auto simp: keeps_sequence_def smtp_ok_def set_reverse_path_def)
      with 2(2) show ?thesis using withinD [OF smtp_env_parts(2)] seq.trans by blast
    qed (use withinD [OF smtp_env_parts(2)] in blast)
  qed
  ultimately show "within keeps_sequence (smtp_exec w cmd)"
    unfolding smtp_exec_def Let_def exec_vrfy_def exec_expn_def exec_help_def exec_noop_def
    by (auto intro: within_exec_data exec_rcpt_sequence smtp_env_parts seq.within_intros)
  have "within reads_less (exec_helo w cmd)" "within reads_less (exec_rset cmd)" "within reads_less (smtp_exec_quit cmd)"
    unfolding exec_helo_def exec_rset_def smtp_exec_quit_def
    by (intro rd.within_intros within_upd_z(2) smtp_env_parts; simp add: set_domain_def reset_state_def)+
  moreover have "within reads_less (exec_mail cmd)"
    unfolding exec_mail_def Let_def
    by (intro within_if rd.within_intros within_upd_z(2) smtp_env_parts) (simp add: set_reverse_path_def)
  ultimately show "within reads_less (smtp_exec w cmd)"
    unfolding smtp_exec_def Let_def exec_vrfy_def exec_expn_def exec_help_def exec_noop_def
    by (auto intro: within_exec_data within_exec_rcpt smtp_env_parts rd.within_intros)
qed


section \<open>The files of a mail\<close>

text \<open>The non-empty files of a mail in the order of its tree, each with its parameters.\<close>

fun leaves :: "msg_tree \<Rightarrow> (string \<times> string) list" where
  "leaves (CT_FILE h data params) = (if data \<noteq> [] then [(data, params)] else [])"
| "leaves (CT_MULTIPART h parts) = concat (map leaves parts)"

definition mail_files :: "msg_tree \<Rightarrow> (string \<times> string) list" where
  "mail_files t = (header_dump (tree_header t), ''type=text/plain'') # leaves t"

definition resource :: "string \<Rightarrow> string \<Rightarrow> string" where
  "resource ref params = (if params \<noteq> [] then ref @ ''; '' @ params else ref)"

text \<open>Sending files one after the other until one is refused: what was sent, the resources or the error.\<close>

fun send_all :: "smtp_world \<Rightarrow> nat \<Rightarrow> (string \<times> string) list \<Rightarrow> string list \<times> string list res" where
  "send_all w k [] = ([], Inr [])"
| "send_all w k ((d, p) # fs) = (case send w k d of
     Inl e \<Rightarrow> ([], Inl e)
   | Inr ref \<Rightarrow> (case send_all w (Suc k) fs of (dn, r) \<Rightarrow>
       (d # dn, case r of Inl e \<Rightarrow> Inl e | Inr rs \<Rightarrow> Inr (resource ref p # rs))))"

fun store_all :: "smtp_world \<Rightarrow> (string \<times> string) list \<Rightarrow> header \<Rightarrow> (smtp_st, header) act" where
  "store_all w [] g = ret g"
| "store_all w ((d, p) # fs) g = bnd (store_file w d p g) (store_all w fs)"

lemma store_all_Nil: "store_all w [] = ret"
  by (rule ext) simp

lemma store_all_append: "store_all w (xs @ ys) g = bnd (store_all w xs g) (store_all w ys)"
proof (induction xs arbitrary: g)
  case (Cons x xs)
  have "bnd (store_file w (fst x) (snd x) g) (store_all w (xs @ ys)) =
      bnd (store_file w (fst x) (snd x) g) (\<lambda>g. bnd (store_all w xs g) (store_all w ys))"
    by (rule bnd_ext) (rule Cons.IH)
  then show ?case by (cases x) (simp add: bnd_assoc)
qed (simp add: bnd_ret)

lemma store_rec_all:
  "store_file_rec w t g = store_all w (leaves t) g"
  "store_parts w ts g = store_all w (concat (map leaves ts)) g"
proof (induction w t g and w ts g rule: store_file_rec_store_parts.induct)
  case (4 w t ts g)
  have "bnd (store_file_rec w t g) (store_parts w ts) = bnd (store_all w (leaves t) g) (store_all w (concat (map leaves ts)))"
    unfolding 4(1) by (rule bnd_ext) (rule 4(2))
  then show ?case by (simp add: store_all_append)
qed (auto simp: bnd_ret store_all_Nil)

definition with_resources :: "header \<Rightarrow> string list \<Rightarrow> header" where
  "with_resources g rs = fold (\<lambda>r h. header_field_new h SC_RESOURCE_FIELD r) rs g"

lemma store_all_run:
  assumes "send_all w (length (z_files s)) fs = (dn, r)"
  shows "store_all w fs g s = Done (s\<lparr>z_files := z_files s @ dn\<rparr>,
    case r of Inl e \<Rightarrow> Inl e | Inr rs \<Rightarrow> Inr (with_resources g rs))"
  using assms
proof (induction fs arbitrary: s g dn r)
  case Nil
  then show ?case by (auto simp: with_resources_def)
next
  case (Cons f fs)
  obtain d p where f: "f = (d, p)" by (cases f)
  show ?case
  proof (cases "send w (length (z_files s)) d")
    case (Inl e)
    with Cons.prems f show ?thesis by (auto simp: store_file_def send_varbuf_def bnd_def)
  next
    case (Inr ref)
    let ?s = "s\<lparr>z_files := z_files s @ [d]\<rparr>"
    obtain dn' r' where c: "send_all w (length (z_files ?s)) fs = (dn', r')" by fastforce
    have "store_all w (f # fs) g s = store_all w fs (header_field_new g SC_RESOURCE_FIELD (resource ref p)) ?s"
      using Inr f by (simp add: store_file_def send_varbuf_def bnd_def resource_def)
    with Cons.IH [OF c] Cons.prems f Inr c show ?thesis
      by (auto simp: with_resources_def split: sum.splits)
  qed
qed

text \<open>The header submitted to the mailbox.\<close>

definition mail_summary :: "smtp_world \<Rightarrow> msg_tree \<Rightarrow> string \<Rightarrow> string list \<Rightarrow> header" where
  "mail_summary w t from rs = fold (\<lambda>(n, v) h. header_field_new h n v)
     ([(SC_TYPE_FIELD, SC_MAIL_TYPE), (SC_FROM_FIELD, from)] @ map (Pair SC_RESOURCE_FIELD) rs @
      map (Pair SC_DESCR_FIELD) (case field_value (tree_header t) ''subject'' of None \<Rightarrow> [] | Some v \<Rightarrow> [v]) @
      map (Pair SC_EXTID_FIELD) (case field_value (tree_header t) ''message-id'' of None \<Rightarrow> [] | Some v \<Rightarrow> [v]) @
      [(SC_START_FIELD, sc_ts2gmfield (tzone w) (clock w) True)]) header_new"

lemma with_resources_fold: "with_resources g rs = fold (\<lambda>(n, v) h. header_field_new h n v) (map (Pair SC_RESOURCE_FIELD) rs) g"
  by (induction rs arbitrary: g) (auto simp: with_resources_def)

lemma store_mail:
  assumes "send_all w (length (z_files s)) (mail_files t) = (dn, r)"
  shows "bnd (store_header w (tree_header t) g) (\<lambda>h. store_file_rec w t h) s = Done (s\<lparr>z_files := z_files s @ dn\<rparr>,
    case r of Inl e \<Rightarrow> Inl e | Inr rs \<Rightarrow> Inr (with_resources g rs))"
  using store_all_run [OF assms] by (simp add: mail_files_def store_header_def store_rec_all)

lemma process_mail_run:
  assumes "reverse_path (z_env s) = Some from" "mailbox (z_env s) = Some mp"
    "msg_tree_read (z_in (z_env s)) = Some (Done (t, rest))"
    "send_all w (length (z_files s)) (mail_files t) = (dn, r)"
    "s' = s\<lparr>z_env := (z_env s)\<lparr>z_in := rest\<rparr>, z_files := z_files s @ dn\<rparr>"
  shows "process_mail w s = (case r of
      Inl e \<Rightarrow> Done (s', Inl e)
    | Inr rs \<Rightarrow> on_z_mst (mdir_patch_request mp MDIR_ADD (mail_summary w t from rs)) s')"
proof -
  let ?g = "header_field_new (header_field_new header_new SC_TYPE_FIELD SC_MAIL_TYPE) SC_FROM_FIELD from"
  let ?s = "s\<lparr>z_env := (z_env s)\<lparr>z_in := rest\<rparr>\<rparr>"
  have st: "bnd (store_header w (tree_header t) ?g) (\<lambda>h. store_file_rec w t h) ?s =
      Done (s', case r of Inl e \<Rightarrow> Inl e | Inr rs \<Rightarrow> Inr (with_resources ?g rs))"
    using store_mail [of w ?s t dn r ?g] assms(4,5) by simp
  have "process_mail w s = bnd (bnd (store_header w (tree_header t) ?g) (\<lambda>h. store_file_rec w t h)) (submit_mail w t) ?s"
    using assms(1,3) by (simp add: process_mail_def read_tree_def bnd_def [of read_tree] bnd_assoc)
  then have "process_mail w s = (case r of Inl e \<Rightarrow> Done (s', Inl e) | Inr rs \<Rightarrow> submit_mail w t (with_resources ?g rs) s')"
    unfolding bnd_def [of "bnd _ _"] st by (auto split: sum.splits)
  moreover have "submit_mail w t (with_resources ?g rs) s' =
      on_z_mst (mdir_patch_request mp MDIR_ADD (mail_summary w t from rs)) s'" for rs
    using assms(2,5)
    by (simp add: submit_mail_def mail_summary_def add_field_def with_resources_fold sc_ts2gmfield_def split: option.split)
  ultimately show ?thesis by (simp add: sum.case_eq_if)
qed


lemma process_mail_crash:
  assumes "reverse_path (z_env s) = Some from" "mailbox (z_env s) = Some mp" "process_mail w s = Crash"
  shows "msg_tree_read (z_in (z_env s)) = Some Crash \<or> (\<exists>h. mdir_patch_request mp MDIR_ADD h (z_mst s) = Crash)"
proof -
  obtain r where r: "read_whole_mail (Suc (length (z_in (z_env s)))) [] (z_in (z_env s)) = Some r"
    using read_whole_mail_returns by blast
  then have "msg_tree_read (z_in (z_env s)) \<noteq> None"
    by (auto simp: msg_tree_read_def simp del: read_whole_mail.simps split: option.split prod.split)
  moreover
  { fix t rest assume t: "msg_tree_read (z_in (z_env s)) = Some (Done (t, rest))"
    obtain dn q where q: "send_all w (length (z_files s)) (mail_files t) = (dn, q)" by fastforce
    from process_mail_run [OF assms(1,2) t q refl] assms(3) have ?thesis
      by (auto simp: on_z_mst_def split: sum.splits outcome.splits) }
  moreover have "process_mail w s \<noteq> Crash" if "msg_tree_read (z_in (z_env s)) = Some (Raised e)" for e
    using that by (simp add: process_mail_def read_tree_def bnd_def)
  ultimately show ?thesis using assms(3) by (cases "the (msg_tree_read (z_in (z_env s)))") auto
qed

lemma short_answer:
  assumes "length tx < 90" "st \<in> {START_MAIL, REPLY_OK, LOCAL_ERROR, BAD_SEQUENCE}"
  obtains c r where "smtp_answer st tx s = Done (s\<lparr>z_env := (z_env s)\<lparr>z_cnx := c\<rparr>\<rparr>, r)"
proof -
  have "length (dec0 3 (nat START_MAIL)) = 3" "length (dec0 3 (nat REPLY_OK)) = 3"
      "length (dec0 3 (nat LOCAL_ERROR)) = 3" "length (dec0 3 (nat BAD_SEQUENCE)) = 3"
    by code_simp+
  with assms have "length (dec0 3 (nat st) @ [SP] @ tx @ [CR, NL]) < 100" by auto
  then have "smtp_answer st tx s = z_write (dec0 3 (nat st) @ [SP] @ tx @ [CR, NL]) s"
    by (simp add: smtp_answer_def answer_gen_def)
  with that show thesis
    by (cases "broken (z_cnx (z_env s))") (auto simp: z_write_def cnx_write_def intro: that [of "z_cnx (z_env s)"])
qed

lemma exec_data_crash:
  assumes "forward_path (z_env s) \<noteq> None" "exec_data w cmd s = Crash"
  shows "\<exists>c. process_mail w (s\<lparr>z_env := (z_env s)\<lparr>z_cnx := c\<rparr>\<rparr>) = Crash"
proof -
  let ?tx = "''Go ahaid, end with a single dot''" and ?bad = "''Something bad happened at some point''"
  obtain c r where a: "smtp_answer START_MAIL ?tx s = Done (s\<lparr>z_env := (z_env s)\<lparr>z_cnx := c\<rparr>\<rparr>, r)"
    using short_answer [of ?tx START_MAIL s] by auto
  let ?s = "s\<lparr>z_env := (z_env s)\<lparr>z_cnx := c\<rparr>\<rparr>"
  have "smtp_answer REPLY_OK ''Ok'' t \<noteq> Crash" for t
    by (rule short_answer [of "''Ok''" REPLY_OK t]) simp_all
  moreover have "smtp_answer LOCAL_ERROR ?bad t \<noteq> Crash" for t
    by (rule short_answer [of ?bad LOCAL_ERROR t]) simp_all
  ultimately have nc: "smtp_answer REPLY_OK ''Ok'' t \<noteq> Crash" "smtp_answer LOCAL_ERROR ?bad t \<noteq> Crash" for t .
  have "process_mail w ?s = Crash"
  proof (cases "process_mail w ?s")
    case (Done x)
    obtain t q where x: "x = (t, q)" by (cases x)
    from a assms Done x nc [of t] show ?thesis
      by (cases r; cases q) (auto simp: exec_data_def bnd_def attempt_def split: outcome.splits)
  qed (use a assms in \<open>auto simp: exec_data_def bnd_def attempt_def split: sum.splits\<close>)
  then show ?thesis ..
qed

section \<open>Properties\<close>

text \<open>
  The states that the server may meet while it serves a connection: between two commands of
  the client the folders and the files may be changed by the threads that serve the others.
\<close>

inductive smtp_reach :: "smtp_world \<Rightarrow> smtp_st \<Rightarrow> bool" for w where
  begins: "z_env s = smtp_env_ctor w inp \<Longrightarrow> smtp_reach w s"
| serves: "smtp_reach w s \<Longrightarrow> smtp_serve_one w s = Done (s', Inr ()) \<Longrightarrow> smtp_reach w s'"
| others: "smtp_reach w s \<Longrightarrow> smtp_reach w (s\<lparr>z_mst := m, z_files := fs\<rparr>)"

lemma serve_one_sequence: "within keeps_sequence (smtp_serve_one w)"
proof (rule withinI)
  fix s s' r assume e: "smtp_serve_one w s = Done (s', r)"
  obtain q inp where c: "mdir_cmd_read (cnx_syntax (z_cnx (z_env s))) (z_in (z_env s)) = (q, inp)" by fastforce
  let ?s = "s\<lparr>z_env := (z_env s)\<lparr>z_in := inp\<rparr>\<rparr>"
  have k: "keeps_sequence s ?s" by (simp add: keeps_sequence_def smtp_ok_def)
  show "keeps_sequence s s'"
  proof (cases q)
    case (Done cmd)
    with e c have "smtp_exec w cmd ?s = Done (s', r)" by (simp add: smtp_serve_one_def)
    with k show ?thesis using withinD [OF within_smtp_exec(1)] seq.trans by blast
  qed (use e c k in \<open>auto simp: smtp_serve_one_def\<close>)
qed

lemma smtp_reach_ok: "smtp_reach w s \<Longrightarrow> smtp_ok (z_env s)"
proof (induction rule: smtp_reach.induct)
  case (serves s s')
  then show ?case using withinD [OF serve_one_sequence] by (auto simp: keeps_sequence_def)
qed (auto simp: smtp_ok_def smtp_env_ctor_def Let_def)

lemma data_sequence_facts:
  assumes "smtp_reach w s"
  shows "forward_path (z_env s) = Some fwd \<Longrightarrow>
      \<exists>cl from mp. domain (z_env s) = Some cl \<and> reverse_path (z_env s) = Some from \<and> mailbox (z_env s) = Some mp \<and>
        (exec_data w cmd s = Crash \<longrightarrow> msg_tree_read (z_in (z_env s)) = Some Crash \<or>
           (\<exists>h. mdir_patch_request mp MDIR_ADD h (z_mst s) = Crash))"
    and "forward_path (z_env s) = None \<Longrightarrow>
      \<exists>s' r. exec_data w cmd s = Done (s', r) \<and> z_mst s' = z_mst s \<and> z_files s' = z_files s"
proof -
  obtain c r where "smtp_answer BAD_SEQUENCE ''What recipient, again ?'' s = Done (s\<lparr>z_env := (z_env s)\<lparr>z_cnx := c\<rparr>\<rparr>, r)"
    using short_answer [of "''What recipient, again ?''" BAD_SEQUENCE s] by auto
  then show "\<exists>s' r. exec_data w cmd s = Done (s', r) \<and> z_mst s' = z_mst s \<and> z_files s' = z_files s"
    if "forward_path (z_env s) = None"
    using that by (auto simp: exec_data_def)
  show "\<exists>cl from mp. domain (z_env s) = Some cl \<and> reverse_path (z_env s) = Some from \<and> mailbox (z_env s) = Some mp \<and>
        (exec_data w cmd s = Crash \<longrightarrow> msg_tree_read (z_in (z_env s)) = Some Crash \<or>
           (\<exists>h. mdir_patch_request mp MDIR_ADD h (z_mst s) = Crash))"
    if f: "forward_path (z_env s) = Some fwd"
  proof -
    from f smtp_reach_ok [OF assms] obtain cl fr mp
      where e: "domain (z_env s) = Some cl" "reverse_path (z_env s) = Some fr" "mailbox (z_env s) = Some mp"
      by (auto simp: smtp_ok_def)
    moreover have "msg_tree_read (z_in (z_env s)) = Some Crash \<or> (\<exists>h. mdir_patch_request mp MDIR_ADD h (z_mst s) = Crash)"
      if "exec_data w cmd s = Crash"
      using exec_data_crash [OF _ that] f process_mail_crash [of "s\<lparr>z_env := (z_env s)\<lparr>z_cnx := c\<rparr>\<rparr>" fr mp w for c] e by auto
    ultimately show ?thesis by blast
  qed
qed

text \<open>C11. The commands of a mail come in sequence. In every state that the server may meet, a
  recipient is known only with a sender, a client that presented itself and a mailbox that was
  found, so that DATA never uses a missing address: it crashes only when the parser of the mail or
  the submission to the mailbox does. Without a recipient DATA changes neither folders nor files.\<close>

theorem data_in_sequence:
  assumes "smtp_reach w s"
  shows "(\<forall>fwd. forward_path (z_env s) = Some fwd \<longrightarrow>
      (\<exists>cl from mp. domain (z_env s) = Some cl \<and> reverse_path (z_env s) = Some from \<and> mailbox (z_env s) = Some mp \<and>
        (exec_data w cmd s = Crash \<longrightarrow> msg_tree_read (z_in (z_env s)) = Some Crash \<or>
           (\<exists>h. mdir_patch_request mp MDIR_ADD h (z_mst s) = Crash)))) \<and>
    (forward_path (z_env s) = None \<longrightarrow>
      (\<exists>s' r. exec_data w cmd s = Done (s', r) \<and> z_mst s' = z_mst s \<and> z_files s' = z_files s))"
  using data_sequence_facts [OF assms] by blast


section \<open>Lines of commands\<close>

lemma smtp_defs: "defs smtp_syntax = rev smtp_services"
  by (simp add: smtp_syntax_def smtp_services_def mdir_syntax_register_def mdir_syntax_ctor_def)

lemma tolower_letters:
  "tolower CHR ''a'' = CHR ''a''" "tolower CHR ''c'' = CHR ''c''" "tolower CHR ''d'' = CHR ''d''"
  "tolower CHR ''e'' = CHR ''e''" "tolower CHR ''f'' = CHR ''f''" "tolower CHR ''h'' = CHR ''h''"
  "tolower CHR ''i'' = CHR ''i''" "tolower CHR ''l'' = CHR ''l''" "tolower CHR ''m'' = CHR ''m''"
  "tolower CHR ''n'' = CHR ''n''" "tolower CHR ''o'' = CHR ''o''" "tolower CHR ''p'' = CHR ''p''"
  "tolower CHR ''q'' = CHR ''q''" "tolower CHR ''r'' = CHR ''r''" "tolower CHR ''s'' = CHR ''s''"
  "tolower CHR ''t'' = CHR ''t''" "tolower CHR ''u'' = CHR ''u''" "tolower CHR ''v'' = CHR ''v''"
  "tolower CHR ''x'' = CHR ''x''" "tolower CHR ''y'' = CHR ''y''"
  by code_simp+

lemmas smtp_find = find_def_def smtp_defs smtp_services_def smtp_service_def same_keyword_def strcasecmp_eq_def
  tolower_letters

lemma find_smtp:
  "find_def (defs smtp_syntax) 0 ''rcpt'' = Some (smtp_service ''rcpt'' ''exec_rcpt'' 1 UINT_MAX 1)"
  "find_def (defs smtp_syntax) 0 ''mail'' = Some (smtp_service ''mail'' ''exec_mail'' 1 UINT_MAX 1)"
  "find_def (defs smtp_syntax) 0 ''helo'' = Some (smtp_service ''helo'' ''exec_helo'' 1 1 1)"
  "find_def (defs smtp_syntax) 0 ''noop'' = None"
  by (simp_all add: smtp_find)

lemma serve_line:
  assumes "cnx_syntax (z_cnx (z_env s)) = smtp_syntax" "z_in (z_env s) = map Got (join (kw # ws) @ [NL]) @ rest"
    "list_all word_ok (kw # ws)" "\<not> is_seq kw" "length (join (kw # ws)) < MAX_CMD_LINE" "length ws + 1 < CMD_MAX_ARGS"
    "find_def (defs smtp_syntax) 0 kw = Some (smtp_service kw callback amin amax n)"
    "amin \<le> length ws" "length ws \<le> amax"
  shows "smtp_serve_one w s = smtp_exec w \<lparr>c_def = smtp_service kw callback amin amax n, c_seq = 0, c_args = map ArgStr ws\<rparr>
    (s\<lparr>z_env := (z_env s)\<lparr>z_in := rest\<rparr>\<rparr>)"
proof -
  let ?d = "smtp_service kw callback amin amax n"
  have "mdir_cmd_read smtp_syntax (z_in (z_env s)) = (with_args ?d 0 ws, rest)"
    unfolding assms(2) by (rule read_plain_line) (use assms in \<open>auto simp: smtp_service_def\<close>)
  moreover have "with_args ?d 0 ws = Done \<lparr>c_def = ?d, c_seq = 0, c_args = map ArgStr ws\<rparr>"
    using with_args_strings [of ?d ws 0] assms(8,9) by (simp add: smtp_service_def)
  ultimately show ?thesis using assms(1) by (simp add: smtp_serve_one_def)
qed

text \<open>A client that sends NOOP loses its connection: the command has a handler, but the table of
  the commands names \<open>help\<close> twice and \<open>noop\<close> never, so that the line is an unknown keyword, which is an
  error that ends the loop and destroys the connection.\<close>

theorem noop_closes:
  assumes "cnx_syntax (z_cnx (z_env s)) = smtp_syntax" "z_in (z_env s) = map Got (''noop'' @ [NL]) @ rest"
    "\<not> z_quit (z_env s)"
  shows "smtp_loop w (Suc n) s = Some (Done (s\<lparr>z_env := smtp_env_del ((z_env s)\<lparr>z_in := rest\<rparr>)\<rparr>))"
proof -
  have ok: "list_all word_ok [''noop'']" by code_simp
  have "length (join [''noop'']) < MAX_CMD_LINE" by (simp add: MAX_CMD_LINE_def)
  from read_words [OF ok this, of smtp_syntax rest] assms(1,2)
  have r: "mdir_cmd_read (cnx_syntax (z_cnx (z_env s))) (z_in (z_env s)) = (parse_tokens smtp_syntax (''noop'' @ [NL]), rest)"
    by simp
  have t: "tokenize (''noop'' @ [NL]) = (1, [0], ''noop'' @ [NUL])" by code_simp
  have "token_at (''noop'' @ [NUL]) 0 = ''noop''" "is_seq ''noop'' = False" by code_simp+
  with t find_smtp(4) have "parse_tokens smtp_syntax (''noop'' @ [NL]) = Raised (Err ENOENT ''No such keyword'')"
    by (simp add: parse_tokens_def)
  with r assms(3) show ?thesis by (simp add: smtp_serve_one_def)
qed


text \<open>A recipient that follows \<open>RCPT TO:\<close> after a blank is lost. The handler skips blanks before
  the address, but the line was cut into words before and only the first word is looked at: whatever
  the address, the command does what \<open>RCPT TO:\<close> without an address does, which looks for the folder of all the
  mailboxes instead of a mailbox.\<close>

theorem rcpt_blank_lost:
  assumes "cnx_syntax (z_cnx (z_env s)) = smtp_syntax" "reverse_path (z_env s) \<noteq> None"
    "z_in (z_env s) = map Got (join [''rcpt'', ''TO:'', addr] @ [NL]) @ rest" "word_ok addr" "length addr \<le> PATH_MAX"
  shows "smtp_serve_one w s = smtp_serve_one w (s\<lparr>z_env := (z_env s)\<lparr>z_in := map Got (join [''rcpt'', ''TO:''] @ [NL]) @ rest\<rparr>\<rparr>)"
    and "mdir_lookup ''/mailboxes/Incoming/'' (z_mst s) = Done (m, Inr mp) \<Longrightarrow> broken (z_cnx (z_env s)) = None \<Longrightarrow>
      \<exists>s'. smtp_serve_one w s = Done (s', Inr ()) \<and> forward_path (z_env s') = Some [] \<and> mailbox (z_env s') = Some mp"
proof -
  let ?d = "smtp_service ''rcpt'' ''exec_rcpt'' 1 UINT_MAX 1"
  let ?cmd = "\<lambda>ws. \<lparr>c_def = ?d, c_seq = 0, c_args = map ArgStr ws\<rparr>"
  let ?s = "s\<lparr>z_env := (z_env s)\<lparr>z_in := map Got (join [''rcpt'', ''TO:''] @ [NL]) @ rest\<rparr>\<rparr>"
  let ?t = "s\<lparr>z_env := (z_env s)\<lparr>z_in := rest\<rparr>\<rparr>"
  have ok: "word_ok ''rcpt''" "word_ok ''TO:''" "\<not> is_seq ''rcpt''" by code_simp+
  have e: "smtp_exec w (?cmd (''TO:'' # ws)) = exec_rcpt (?cmd [''TO:''])" for ws
    by (simp add: smtp_exec_def smtp_service_def exec_rcpt_def arg_str_def fun_eq_iff)
  have 1: "smtp_serve_one w s = smtp_exec w (?cmd [''TO:'', addr]) ?t"
    by (rule serve_line) (use assms ok in \<open>auto simp: find_smtp MAX_CMD_LINE_def PATH_MAX_def CMD_MAX_ARGS_def UINT_MAX_def\<close>)
  have 2: "smtp_serve_one w ?s = smtp_exec w (?cmd [''TO:'']) (?s\<lparr>z_env := (z_env ?s)\<lparr>z_in := rest\<rparr>\<rparr>)"
    by (rule serve_line) (use assms ok in \<open>auto simp: find_smtp MAX_CMD_LINE_def PATH_MAX_def CMD_MAX_ARGS_def UINT_MAX_def\<close>)
  show "smtp_serve_one w s = smtp_serve_one w ?s"
    unfolding 1 2 using e [of "[addr]"] e [of "[]"] by simp
  have 3: "smtp_serve_one w s = exec_rcpt (?cmd [''TO:'']) ?t" unfolding 1 using e [of "[addr]"] by simp
  assume l: "mdir_lookup ''/mailboxes/Incoming/'' (z_mst s) = Done (m, Inr mp)" and b: "broken (z_cnx (z_env s)) = None"
  have "length (dec0 3 (nat REPLY_OK)) = 3" by code_simp
  moreover have "snpath ''/mailboxes/Incoming/'' = ''/mailboxes/Incoming/''" by (simp add: snpath_def PATH_MAX_def)
  moreover have "strncasecmp_pre ''TO:'' ''TO:''" by code_simp
  ultimately show "\<exists>s'. smtp_serve_one w s = Done (s', Inr ()) \<and> forward_path (z_env s') = Some [] \<and> mailbox (z_env s') = Some mp"
    unfolding 3 using assms(2) l b
    by (auto simp: exec_rcpt_def arg_str_def set_forward_path_def set_address_def bnd_def attempt_def upd_z_def on_z_mst_def
        smtp_answer_def answer_gen_def z_write_def cnx_write_def)
qed

lemma mail_stored_facts:
  assumes "reverse_path (z_env s) = Some from" "mailbox (z_env s) = Some mp"
    "msg_tree_read (z_in (z_env s)) = Some (Done (t, rest))"
    "send_all w (length (z_files s)) (mail_files t) = (dn, r)"
    "s' = s\<lparr>z_env := (z_env s)\<lparr>z_in := rest\<rparr>, z_files := z_files s @ dn\<rparr>"
  shows "r = Inl e \<Longrightarrow> process_mail w s = Done (s', Inl e) \<and> z_mst s' = z_mst s"
    and "r = Inr rs \<Longrightarrow> process_mail w s = on_z_mst (mdir_patch_request mp MDIR_ADD (mail_summary w t from rs)) s' \<and>
      dn = map fst (mail_files t) \<and> length rs = length (mail_files t)"
proof -
  have "dn = map fst fs \<and> length rs = length fs" if "send_all w k fs = (dn, Inr rs)" for k fs dn rs
    using that by (induction fs arbitrary: k dn rs) (auto split: sum.splits prod.splits)
  then show "r = Inr rs \<Longrightarrow> process_mail w s = on_z_mst (mdir_patch_request mp MDIR_ADD (mail_summary w t from rs)) s' \<and>
      dn = map fst (mail_files t) \<and> length rs = length (mail_files t)"
    using process_mail_run [OF assms] assms(4) by simp
  show "r = Inl e \<Longrightarrow> process_mail w s = Done (s', Inl e) \<and> z_mst s' = z_mst s"
    using process_mail_run [OF assms] assms(5) by simp
qed

text \<open>C12. A mail that was read is delivered whole or not at all. Its header and its non-empty parts, in the
  order of the tree, are sent to the file server; when all are accepted, one header is submitted to
  the mailbox, with the sender, one resource per file in the same order, the subject and the identifier of the
  mail and the date of reception. When a file is refused, nothing is submitted and the error is returned; the files
  before it stay on the file server.\<close>

theorem mail_stored:
  assumes "reverse_path (z_env s) = Some from" "mailbox (z_env s) = Some mp"
    "msg_tree_read (z_in (z_env s)) = Some (Done (t, rest))"
    "send_all w (length (z_files s)) (mail_files t) = (dn, r)"
    "s' = s\<lparr>z_env := (z_env s)\<lparr>z_in := rest\<rparr>, z_files := z_files s @ dn\<rparr>"
  shows "case r of
      Inl e \<Rightarrow> process_mail w s = Done (s', Inl e) \<and> z_mst s' = z_mst s
    | Inr rs \<Rightarrow> process_mail w s = on_z_mst (mdir_patch_request mp MDIR_ADD (mail_summary w t from rs)) s' \<and>
        dn = map fst (mail_files t) \<and> length rs = length (mail_files t)"
  using mail_stored_facts [OF assms] by (simp split: sum.split)

lemma serve_one_reads:
  assumes "smtp_serve_one w s = Done (s', Inr u)"
  shows "length (z_in (z_env s')) < length (z_in (z_env s))"
proof -
  obtain q inp where c: "mdir_cmd_read (cnx_syntax (z_cnx (z_env s))) (z_in (z_env s)) = (q, inp)" by fastforce
  with assms obtain cmd where q: "q = Done cmd" by (cases q) (auto simp: smtp_serve_one_def)
  let ?s = "s\<lparr>z_env := (z_env s)\<lparr>z_in := inp\<rparr>\<rparr>"
  have "smtp_exec w cmd ?s = Done (s', Inr u)" using assms c q by (simp add: smtp_serve_one_def)
  from withinD [OF within_smtp_exec(2) this] have "length (z_in (z_env s')) \<le> length inp" by (simp add: reads_less_def)
  with mdir_cmd_read_consumes [of _ _ cmd inp] c q show ?thesis by fastforce
qed

text \<open>Serving a client of the SMTP server ends, whatever the client sends: every command that is
  executed without error consumes input, so that the loop needs no more turns than there are bytes to read and one.\<close>

theorem smtp_serve_ends:
  assumes "length (z_in (z_env s)) < n"
  shows "\<exists>r. smtp_serve_cnx w n s = Some r"
proof -
  have loop: "\<exists>r. smtp_loop w n s = Some r" if "length (z_in (z_env s)) < n" for n s
    using that
  proof (induction n arbitrary: s)
    case (Suc n)
    show ?case
    proof (cases "smtp_serve_one w s")
      case (Done x)
      obtain s' q where x: "x = (s', q)" by (cases x)
      show ?thesis
      proof (cases q)
        case (Inr u)
        with Done x serve_one_reads Suc.prems have "length (z_in (z_env s')) < n" by fastforce
        with Suc.IH Done x Inr show ?thesis by auto
      qed (use Done x in auto)
    qed auto
  qed simp
  show ?thesis
    using assms loop by (auto simp: smtp_serve_cnx_def z_write_def cnx_write_def split: option.splits)
qed


section \<open>A session\<close>

definition w_sample :: smtp_world where
  "w_sample = \<lparr>send = (\<lambda>k vb. if k < 3 then Inr (''ref'' @ dec_nat k) else Fail 0 ''full''), my_hostname = ''here'', tzone = 0, clock = 0\<rparr>"

definition st_mail :: mst where
  "st_mail = st_sample\<lparr>m_fs := fs_empty\<lparr>ents := [([''m''], Dir), ([''m'', ''1''], Dir), ([''m'', ''root''], Dir),
     ([''m'', ''root'', ''mailboxes''], Dir), ([''m'', ''root'', ''mailboxes'', ''Incoming''], Lnk ''/m/1''),
     ([''m'', ''1'', ''bob''], Lnk ''/m/1'')]\<rparr>\<rparr>"

definition cmd_data :: mdir_cmd where
  "cmd_data = \<lparr>c_def = smtp_service ''data'' ''exec_data'' 0 0 0, c_seq = 0, c_args = []\<rparr>"

definition smtp_sample :: "input \<Rightarrow> smtp_st" where
  "smtp_sample inp = \<lparr>z_env = smtp_env_ctor w_sample inp, z_mst = st_mail, z_files = []\<rparr>"

lemma bob_found: "\<exists>m. mdir_lookup (snpath ''/mailboxes/Incoming/bob'') st_mail = Done (m, Inr 0)"
proof -
  have "(case mdir_lookup (snpath ''/mailboxes/Incoming/bob'') st_mail of Done (m, Inr mp) \<Rightarrow> mp = 0 | _ \<Rightarrow> False)"
    by code_simp
  moreover obtain r where "mdir_lookup (snpath ''/mailboxes/Incoming/bob'') st_mail = r" by simp
  ultimately show ?thesis by (cases r) (auto split: sum.splits prod.splits)
qed

text \<open>A connection that the client keeps open.\<close>

definition z_ready :: "smtp_st \<Rightarrow> bool" where
  "z_ready s \<longleftrightarrow> cnx_syntax (z_cnx (z_env s)) = smtp_syntax \<and> broken (z_cnx (z_env s)) = None"

lemma answer_ready:
  assumes "z_ready s" "length tx < 90"
  obtains c where "smtp_answer REPLY_OK tx s = Done (s\<lparr>z_env := (z_env s)\<lparr>z_cnx := c\<rparr>\<rparr>, Inr ())"
    "z_ready (s\<lparr>z_env := (z_env s)\<lparr>z_cnx := c\<rparr>\<rparr>)"
proof -
  have "length (dec0 3 (nat REPLY_OK)) = 3" by code_simp
  with assms that show thesis
    by (auto simp: smtp_answer_def answer_gen_def z_write_def cnx_write_def z_ready_def)
qed

lemma helo_step:
  assumes "z_ready s" "z_in (z_env s) = map Got (join [''helo'', d] @ [NL]) @ rest" "word_ok d" "length d < PATH_MAX"
    "length (my_hostname w) < 90"
  obtains s' where "smtp_serve_one w s = Done (s', Inr ())" "z_ready s'" "z_mst s' = z_mst s" "z_in (z_env s') = rest"
    "domain (z_env s') = Some d"
proof -
  let ?t = "s\<lparr>z_env := set_domain d ((z_env s)\<lparr>z_in := rest\<rparr>)\<rparr>"
  have ok: "word_ok ''helo''" "\<not> is_seq ''helo''" by code_simp+
  have t: "z_ready ?t" using assms(1) by (simp add: z_ready_def set_domain_def reset_state_def)
  let ?cmd = "\<lparr>c_def = smtp_service ''helo'' ''exec_helo'' 1 1 1, c_seq = 0, c_args = map ArgStr [d]\<rparr>"
  have "smtp_serve_one w s = smtp_exec w ?cmd (s\<lparr>z_env := (z_env s)\<lparr>z_in := rest\<rparr>\<rparr>)"
    by (rule serve_line [OF _ assms(2)])
      (use assms(1,3,4) ok  in \<open>simp_all add: z_ready_def find_smtp MAX_CMD_LINE_def CMD_MAX_ARGS_def UINT_MAX_def\<close>)
  also have "\<dots> = smtp_answer REPLY_OK (my_hostname w) ?t"
    by (simp add: smtp_exec_def smtp_service_def arg_str_def bnd_def upd_z_def exec_helo_def)
  finally have e: "smtp_serve_one w s = smtp_answer REPLY_OK (my_hostname w) ?t" .
  obtain c where "smtp_answer REPLY_OK (my_hostname w) ?t = Done (?t\<lparr>z_env := (z_env ?t)\<lparr>z_cnx := c\<rparr>\<rparr>, Inr ())"
      "z_ready (?t\<lparr>z_env := (z_env ?t)\<lparr>z_cnx := c\<rparr>\<rparr>)"
    by (rule answer_ready [OF t, of "my_hostname w"]) (use assms in simp_all)
  from that [OF e [unfolded this(1)] this(2)] show thesis by (simp add: set_domain_def reset_state_def)
qed

lemma mail_step:
  assumes "z_ready s" "z_in (z_env s) = map Got (join [''mail'', ''FROM:'' @ a] @ [NL]) @ rest" "word_ok a" "length a < PATH_MAX"
    "domain (z_env s) \<noteq> None"
  obtains s' where "smtp_serve_one w s = Done (s', Inr ())" "z_ready s'" "z_mst s' = z_mst s" "z_in (z_env s') = rest"
    "reverse_path (z_env s') = Some (set_address a)"
proof -
  let ?t = "s\<lparr>z_env := set_reverse_path a ((z_env s)\<lparr>z_in := rest\<rparr>)\<rparr>"
  have ok: "word_ok ''mail''" "\<not> is_seq ''mail''" by code_simp+
  have w: "word_ok (''FROM:'' @ a)" using assms(3) by (auto simp: word_ok_def is_delimiter_def)
  have t: "z_ready ?t" using assms(1) by (simp add: z_ready_def set_reverse_path_def)
  let ?cmd = "\<lparr>c_def = smtp_service ''mail'' ''exec_mail'' 1 UINT_MAX 1, c_seq = 0, c_args = map ArgStr [''FROM:'' @ a]\<rparr>"
  have "smtp_serve_one w s = smtp_exec w ?cmd (s\<lparr>z_env := (z_env s)\<lparr>z_in := rest\<rparr>\<rparr>)"
    by (rule serve_line [OF _ assms(2)])
      (use assms(1,3,4) ok w in \<open>simp_all add: z_ready_def find_smtp MAX_CMD_LINE_def CMD_MAX_ARGS_def UINT_MAX_def\<close>)
  also have "\<dots> = smtp_answer REPLY_OK (''Ok'') ?t"
    using assms(5) by (auto simp: smtp_exec_def smtp_service_def arg_str_def bnd_def upd_z_def exec_mail_def strncasecmp_pre_def Let_def)
  finally have e: "smtp_serve_one w s = smtp_answer REPLY_OK (''Ok'') ?t" .
  obtain c where "smtp_answer REPLY_OK (''Ok'') ?t = Done (?t\<lparr>z_env := (z_env ?t)\<lparr>z_cnx := c\<rparr>\<rparr>, Inr ())"
      "z_ready (?t\<lparr>z_env := (z_env ?t)\<lparr>z_cnx := c\<rparr>\<rparr>)"
    by (rule answer_ready [OF t, of "''Ok''"]) (use assms in simp_all)
  from that [OF e [unfolded this(1)] this(2)] show thesis by (simp add: set_reverse_path_def)
qed

lemma rcpt_step:
  assumes "z_ready s" "z_in (z_env s) = map Got (join [''rcpt'', ''TO:'' @ a] @ [NL]) @ rest" "word_ok a" "length a < PATH_MAX"
    "reverse_path (z_env s) \<noteq> None"
    "mdir_lookup (snpath (''/mailboxes/Incoming/'' @ set_address a)) (z_mst s) = Done (m, Inr mp)"
  obtains s' where "smtp_serve_one w s = Done (s', Inr ())" "z_ready s'" "z_in (z_env s') = rest"
    "forward_path (z_env s') = Some (set_address a)" "mailbox (z_env s') = Some mp"
proof -
  let ?t = "s\<lparr>z_mst := m, z_env := (z_env s)\<lparr>z_in := rest, forward_path := Some (set_address a), mailbox := Some mp\<rparr>\<rparr>"
  have ok: "word_ok ''rcpt''" "\<not> is_seq ''rcpt''" by code_simp+
  have w: "word_ok (''TO:'' @ a)" using assms(3) by (auto simp: word_ok_def is_delimiter_def)
  have sp: "dropWhile (\<lambda>c. c = SP) a = a" using assms(3) by (cases a) (auto simp: word_ok_def is_delimiter_def)
  have t: "z_ready ?t" using assms(1) by (simp add: z_ready_def)
  let ?cmd = "\<lparr>c_def = smtp_service ''rcpt'' ''exec_rcpt'' 1 UINT_MAX 1, c_seq = 0, c_args = map ArgStr [''TO:'' @ a]\<rparr>"
  have "smtp_serve_one w s = smtp_exec w ?cmd (s\<lparr>z_env := (z_env s)\<lparr>z_in := rest\<rparr>\<rparr>)"
    by (rule serve_line [OF _ assms(2)])
      (use assms(1,3,4) ok w in \<open>simp_all add: z_ready_def find_smtp MAX_CMD_LINE_def CMD_MAX_ARGS_def UINT_MAX_def\<close>)
  also have "\<dots> = smtp_answer REPLY_OK (''Ok'') ?t"
    using assms(5,6) sp
    by (auto simp: smtp_exec_def smtp_service_def arg_str_def bnd_def upd_z_def exec_rcpt_def strncasecmp_pre_def Let_def
        attempt_def set_forward_path_def on_z_mst_def)
  finally have e: "smtp_serve_one w s = smtp_answer REPLY_OK (''Ok'') ?t" .
  obtain c where "smtp_answer REPLY_OK (''Ok'') ?t = Done (?t\<lparr>z_env := (z_env ?t)\<lparr>z_cnx := c\<rparr>\<rparr>, Inr ())"
      "z_ready (?t\<lparr>z_env := (z_env ?t)\<lparr>z_cnx := c\<rparr>\<rparr>)"
    by (rule answer_ready [OF t, of "''Ok''"]) (use assms in simp_all)
  from that [OF e [unfolded this(1)] this(2)] show thesis by (simp)
qed


lemma session_reach:
  obtains s where "smtp_reach w_sample s" "forward_path (z_env s) = Some ''bob''" "z_in (z_env s) = rest" "z_ready s"
proof -
  let ?in3 = "map Got (join [''rcpt'', ''TO:'' @ ''<bob>''] @ [NL]) @ rest"
  let ?in2 = "map Got (join [''mail'', ''FROM:'' @ ''<al>''] @ [NL]) @ ?in3"
  let ?in1 = "map Got (join [''helo'', ''al''] @ [NL]) @ ?in2"
  let ?s0 = "smtp_sample ?in1"
  have ok: "word_ok ''<bob>''" "word_ok ''<al>''" "word_ok ''al''" "set_address ''<bob>'' = ''bob''" by code_simp+
  have 0: "smtp_reach w_sample ?s0" "z_ready ?s0" "z_in (z_env ?s0) = ?in1" "z_mst ?s0 = st_mail"
    by (auto intro!: smtp_reach.begins
        simp: smtp_sample_def z_ready_def smtp_env_ctor_def Let_def mdir_cnx_ctor_inbound_def cnx_ctor_common_def)
  have "length (my_hostname w_sample) < 90" by (simp add: w_sample_def)
  then obtain s1 where 1: "smtp_serve_one w_sample ?s0 = Done (s1, Inr ())" "z_ready s1" "z_mst s1 = st_mail" "z_in (z_env s1) = ?in2"
      "domain (z_env s1) = Some ''al''"
    using helo_step [OF 0(2,3) ok(3)] 0(4) by (auto simp: PATH_MAX_def)
  obtain s2 where 2: "smtp_serve_one w_sample s1 = Done (s2, Inr ())" "z_ready s2" "z_mst s2 = st_mail" "z_in (z_env s2) = ?in3"
      "reverse_path (z_env s2) \<noteq> None"
    by (rule mail_step [OF 1(2,4) ok(2), of w_sample]) (use 1(3,5) in \<open>auto simp: PATH_MAX_def\<close>)
  obtain m where m: "mdir_lookup (snpath (''/mailboxes/Incoming/'' @ set_address ''<bob>'')) (z_mst s2) = Done (m, Inr 0)"
    using bob_found 2(3) ok(4) by auto
  obtain s3 where "smtp_serve_one w_sample s2 = Done (s3, Inr ())" "z_ready s3" "z_in (z_env s3) = rest"
      "forward_path (z_env s3) = Some ''bob''"
    by (rule rcpt_step [OF 2(2,4) ok(1) _ 2(5) m, of w_sample]) (use ok(4) in \<open>auto simp: PATH_MAX_def\<close>)
  with that 0(1) 1(1) 2(1) show thesis by (blast intro: smtp_reach.serves)
qed

theorem data_in_sequence_witness:
  "\<exists>s cl from mp. smtp_reach w_sample s \<and> forward_path (z_env s) = Some ''bob'' \<and> domain (z_env s) = Some cl \<and>
     reverse_path (z_env s) = Some from \<and> mailbox (z_env s) = Some mp \<and>
     (\<exists>s' r. exec_data w_sample cmd_data (smtp_sample []) = Done (s', r) \<and> z_mst s' = z_mst (smtp_sample []))"
proof -
  obtain s where s: "smtp_reach w_sample s" "forward_path (z_env s) = Some ''bob''" using session_reach by metis
  have "smtp_reach w_sample (smtp_sample [])" by (auto intro!: smtp_reach.begins simp: smtp_sample_def)
  moreover have "forward_path (z_env (smtp_sample [])) = None" by (simp add: smtp_sample_def smtp_env_ctor_def Let_def)
  ultimately show ?thesis using data_in_sequence [OF s(1)] data_in_sequence [of w_sample "smtp_sample []" cmd_data] s by meson
qed


theorem noop_closes_witness:
  "smtp_loop w_sample 1 (smtp_sample (map Got (''noop'' @ [NL]))) =
     Some (Done ((smtp_sample [])\<lparr>z_env := smtp_env_del (z_env (smtp_sample []))\<rparr>))"
  using noop_closes [of "smtp_sample (map Got (''noop'' @ [NL]))" "[]" w_sample 0]
  by (simp add: smtp_sample_def smtp_env_ctor_def Let_def mdir_cnx_ctor_inbound_def cnx_ctor_common_def)

theorem smtp_serve_ends_witness:
  "\<exists>r. smtp_serve_cnx w_sample 7 (smtp_sample (map Got (''helo a'' @ [])))  = Some r"
  by (rule smtp_serve_ends) (simp add: smtp_sample_def smtp_env_ctor_def Let_def)

definition ready_sample :: "input \<Rightarrow> smtp_st" where
  "ready_sample inp = (smtp_sample inp)\<lparr>z_env := (z_env (smtp_sample inp))\<lparr>domain := Some ''al'', reverse_path := Some ''al'',
     forward_path := Some ''bob'', mailbox := Some 0\<rparr>\<rparr>"

lemma incoming_found: "\<exists>m. mdir_lookup ''/mailboxes/Incoming/'' st_mail = Done (m, Inr 0)"
proof -
  have "(case mdir_lookup ''/mailboxes/Incoming/'' st_mail of Done (m, Inr mp) \<Rightarrow> mp = 0 | _ \<Rightarrow> False)"
    by code_simp
  moreover obtain r where "mdir_lookup ''/mailboxes/Incoming/'' st_mail = r" by simp
  ultimately show ?thesis by (cases r) (auto split: sum.splits prod.splits)
qed

theorem rcpt_blank_lost_witness:
  "\<exists>s'. smtp_serve_one w_sample (ready_sample (map Got (join [''rcpt'', ''TO:'', ''<carol>''] @ [NL]) @ [])) = Done (s', Inr ()) \<and>
     forward_path (z_env s') = Some [] \<and> mailbox (z_env s') = Some 0"
proof -
  have w: "word_ok ''<carol>''" by code_simp
  obtain m where m: "mdir_lookup ''/mailboxes/Incoming/'' st_mail = Done (m, Inr 0)" using incoming_found by blast
  note rs = ready_sample_def smtp_sample_def smtp_env_ctor_def Let_def mdir_cnx_ctor_inbound_def cnx_ctor_common_def
  show ?thesis
    by (rule rcpt_blank_lost(2) [OF _ _ _ w _, where m = m and rest = "[]"]) (use m in \<open>simp_all add: rs PATH_MAX_def\<close>)
qed

definition mail_text :: string where
  "mail_text = ''subject: s'' @ [NL, NL] @ ''hi'' @ [NL] @ ''.'' @ [NL]"

definition mail_tree :: msg_tree where
  "mail_tree = CT_FILE \<lparr>h_fields = [\<lparr>hf_name = ''subject'', hf_value = ''s''\<rparr>], h_count = 1\<rparr> (''hi'' @ [NL])
     (''name='' @ [DQ] @ ''noname'' @ [DQ])"

theorem mail_stored_witness:
  "process_mail w_sample (ready_sample (map Got mail_text)) =
     on_z_mst (mdir_patch_request 0 MDIR_ADD (mail_summary w_sample mail_tree ''al''
         [''ref0; type=text/plain'', ''ref1; name='' @ [DQ] @ ''noname'' @ [DQ]]))
       ((ready_sample [])\<lparr>z_files := [''subject: s'' @ [NL, NL], ''hi'' @ [NL]]\<rparr>) \<and>
   process_mail w_sample ((ready_sample (map Got mail_text))\<lparr>z_files := [[], []]\<rparr>) =
     Done ((ready_sample [])\<lparr>z_files := [[], [], ''subject: s'' @ [NL, NL]]\<rparr>, Inl (Err 0 ''full''))"
proof -
  have e: "reverse_path (z_env (ready_sample i)) = Some ''al''" "mailbox (z_env (ready_sample i)) = Some 0"
    "z_in (z_env (ready_sample i)) = i" "z_files (ready_sample i) = []" for i
    by (simp_all add: ready_sample_def smtp_sample_def smtp_env_ctor_def Let_def)
  have u: "(ready_sample i)\<lparr>z_env := (z_env (ready_sample i))\<lparr>z_in := []\<rparr>, z_files := fs\<rparr> = (ready_sample [])\<lparr>z_files := fs\<rparr>" for i fs
    by (simp add: ready_sample_def smtp_sample_def smtp_env_ctor_def Let_def)
  have t: "msg_tree_read (map Got mail_text) = Some (Done (mail_tree, []))" by code_simp
  have d: "send_all w_sample 0 (mail_files mail_tree) = ([''subject: s'' @ [NL, NL], ''hi'' @ [NL]],
      Inr [''ref0; type=text/plain'', ''ref1; name='' @ [DQ] @ ''noname'' @ [DQ]])"
    "send_all w_sample (Suc (Suc 0)) (mail_files mail_tree) = ([''subject: s'' @ [NL, NL]], Inl (Err 0 ''full''))"
    by code_simp+
  have "process_mail w_sample (ready_sample (map Got mail_text)) = on_z_mst (mdir_patch_request 0 MDIR_ADD (mail_summary w_sample mail_tree ''al''
         [''ref0; type=text/plain'', ''ref1; name='' @ [DQ] @ ''noname'' @ [DQ]]))
       ((ready_sample [])\<lparr>z_files := [''subject: s'' @ [NL, NL], ''hi'' @ [NL]]\<rparr>)"
    using mail_stored [of "ready_sample (map Got mail_text)" "''al''" 0 mail_tree "[]" w_sample, OF _ _ _ _ refl] e t d(1) u
    by simp
  moreover have "process_mail w_sample ((ready_sample (map Got mail_text))\<lparr>z_files := [[], []]\<rparr>) =
     Done ((ready_sample [])\<lparr>z_files := [[], [], ''subject: s'' @ [NL, NL]]\<rparr>, Inl (Err 0 ''full''))"
    using mail_stored [of "(ready_sample (map Got mail_text))\<lparr>z_files := [[], []]\<rparr>" "''al''" 0 mail_tree "[]" w_sample, OF _ _ _ _ refl]
      e t d(2) u
    by simp
  ultimately show ?thesis by simp
qed

end
