(* ===== verification/Stribution.thy ===== *)
theory Stribution
  imports Mdir_Log
begin

text \<open>
  The distribution of messages, after \<open>stribution/stribution.c\<close>, \<open>stribution/stribution.h\<close> and
  \<open>stribution/main.c\<close>: tests on the fields of a header, the actions of the tests that hold, the
  configuration that a folder keeps in a hidden file, the treatment of a new message. The parser of the configuration, which yacc
  and lex generate, is the argument \<open>strib_parse\<close>, and the matcher of regular expressions of the C library the argument
  \<open>regexec\<close>, from the expression and the text.
\<close>

section \<open>Tests and actions\<close>

datatype strib_op = OP_ALWAYS | OP_SET | OP_UNSET | OP_GT | OP_GE | OP_LT | OP_LE | OP_EQ | OP_RE

datatype strib_value = TYPE_STRING string | TYPE_NUMBER int | TYPE_DEREF string

record strib_condition =
  cond_op :: strib_op
  field_name :: string
  cond_value :: strib_value

datatype action_type = ACTION_DELETE | ACTION_COPY | ACTION_MOVE

datatype strib_dest = DEST_STRING string | DEST_DEREF string

record strib_action =
  act_type :: action_type
  act_dest :: strib_dest

record strib_test =
  condition :: strib_condition
  action :: strib_action

fun op2str :: "strib_op \<Rightarrow> string" where
  "op2str OP_ALWAYS = ''always''"
| "op2str OP_SET = ''set''"
| "op2str OP_UNSET = ''unset''"
| "op2str OP_GT = ''>''"
| "op2str OP_GE = ''>=''"
| "op2str OP_LT = ''<''"
| "op2str OP_LE = ''<=''"
| "op2str OP_EQ = ''=''"
| "op2str OP_RE = ''=~''"

fun action2str :: "action_type \<Rightarrow> string" where
  "action2str ACTION_DELETE = ''delete''"
| "action2str ACTION_COPY = ''copyto''"
| "action2str ACTION_MOVE = ''moveto''"

definition is_constant :: "strib_op \<Rightarrow> bool" where
  "is_constant c \<longleftrightarrow> c = OP_ALWAYS"

definition is_unary :: "strib_op \<Rightarrow> bool" where
  "is_unary c \<longleftrightarrow> c = OP_SET \<or> c = OP_UNSET"

definition is_binary :: "strib_op \<Rightarrow> bool" where
  "is_binary c \<longleftrightarrow> c = OP_GT \<or> c = OP_GE \<or> c = OP_LT \<or> c = OP_LE \<or> c = OP_EQ \<or> c = OP_RE"

definition has_dest :: "action_type \<Rightarrow> bool" where
  "has_dest t \<longleftrightarrow> t \<noteq> ACTION_DELETE"

definition test_dump :: "strib_test \<Rightarrow> string" where
  "test_dump t =
     (let c = condition t in
      if is_constant (cond_op c) then op2str (cond_op c)
      else field_name c @ '' '' @ op2str (cond_op c) @
        (if is_unary (cond_op c) then []
         else case cond_value c of
           TYPE_STRING s \<Rightarrow> '' '' @ [DQ] @ s @ [DQ] | TYPE_NUMBER n \<Rightarrow> '' '' @ dec_int n | TYPE_DEREF n \<Rightarrow> '' ! '' @ n)) @
     '' : '' @ action2str (act_type (action t)) @
     (if has_dest (act_type (action t)) then
        case act_dest (action t) of DEST_STRING s \<Rightarrow> '' '' @ [DQ] @ s @ [DQ] | DEST_DEREF n \<Rightarrow> '' ! '' @ n
      else []) @ [NL]"

definition strib_dump :: "strib_test list \<Rightarrow> string" where
  "strib_dump ts = ''Configuration :'' @ [NL] @ concat (map test_dump ts)"

section \<open>Evaluation\<close>

text \<open>The sign of \<open>strcmp\<close>: the first difference decides, as unsigned characters, the NUL at the end being the least.\<close>

fun strcmp :: "string \<Rightarrow> string \<Rightarrow> int" where
  "strcmp [] [] = 0"
| "strcmp [] (b # bs) = - 1"
| "strcmp (a # as) [] = 1"
| "strcmp (a # as) (b # bs) =
     (if a = b then strcmp as bs else if (of_char a :: nat) < of_char b then - 1 else 1)"

text \<open>The other operators fail an assertion.\<close>

fun binary_op_num :: "strib_op \<Rightarrow> int \<Rightarrow> int \<Rightarrow> bool outcome" where
  "binary_op_num OP_GT a b = Done (a > b)"
| "binary_op_num OP_GE a b = Done (a \<ge> b)"
| "binary_op_num OP_LT a b = Done (a < b)"
| "binary_op_num OP_LE a b = Done (a \<le> b)"
| "binary_op_num OP_EQ a b = Done (a = b)"
| "binary_op_num OP_RE a b = Done False"
| "binary_op_num _ a b = Crash"

fun binary_op_str :: "strib_op \<Rightarrow> string \<Rightarrow> string \<Rightarrow> bool outcome" where
  "binary_op_str OP_GT a b = Done (strcmp a b > 0)"
| "binary_op_str OP_GE a b = Done (strcmp a b \<ge> 0)"
| "binary_op_str OP_LT a b = Done (strcmp a b < 0)"
| "binary_op_str OP_LE a b = Done (strcmp a b \<le> 0)"
| "binary_op_str OP_EQ a b = Done (strcmp a b = 0)"
| "binary_op_str _ a b = Crash"

definition str2num :: "string \<Rightarrow> int option" where
  "str2num s = (case strtoll0 s of (n, rest) \<Rightarrow> if rest = [] then Some n else None)"

definition header_search :: "header \<Rightarrow> string \<Rightarrow> string option" where
  "header_search h nm = field_value h nm"

definition field_is_set :: "string \<Rightarrow> header \<Rightarrow> bool" where
  "field_is_set nm h \<longleftrightarrow> header_search h nm \<noteq> None"

text \<open>
  A regular expression is compiled from a string only: without it, matching reads a structure that was never filled. The
  value to compare with is a null pointer when it is the value of a field that the header has not.
\<close>

definition condition_eval :: "(string \<Rightarrow> string \<Rightarrow> bool) \<Rightarrow> strib_condition \<Rightarrow> header \<Rightarrow> bool outcome" where
  "condition_eval regexec cond h =
     (case cond_op cond of
        OP_ALWAYS \<Rightarrow> Done True
      | OP_SET \<Rightarrow> Done (field_is_set (field_name cond) h)
      | OP_UNSET \<Rightarrow> Done (\<not> field_is_set (field_name cond) h)
      | c \<Rightarrow>
          (case header_search h (field_name cond) of
             None \<Rightarrow> Done False
           | Some v \<Rightarrow>
               (case cond_value cond of
                  TYPE_NUMBER n \<Rightarrow>
                    (case str2num v of None \<Rightarrow> Done False | Some f \<Rightarrow> binary_op_num c f n)
                | TYPE_STRING s \<Rightarrow> if c = OP_RE then Done (regexec s v) else binary_op_str c v s
                | TYPE_DEREF nm \<Rightarrow>
                    if c = OP_RE then Crash
                    else (case header_search h nm of None \<Rightarrow> Crash | Some s \<Rightarrow> binary_op_str c v s))))"

text \<open>The callback is called with the action of each test that holds.\<close>

fun strib_eval ::
  "(string \<Rightarrow> string \<Rightarrow> bool) \<Rightarrow> (strib_action \<Rightarrow> 's \<Rightarrow> 's outcome) \<Rightarrow> strib_test list \<Rightarrow> header \<Rightarrow> 's \<Rightarrow> 's outcome" where
  "strib_eval regexec cb [] h s = Done s"
| "strib_eval regexec cb (t # ts) h s = (case condition_eval regexec (condition t) h of
     Done True \<Rightarrow> obind (cb (action t) s) (strib_eval regexec cb ts h)
   | Done False \<Rightarrow> strib_eval regexec cb ts h s
   | Raised e \<Rightarrow> Raised e
   | Crash \<Rightarrow> Crash)"

definition strib_new :: "(header \<Rightarrow> strib_test list res) \<Rightarrow> header \<Rightarrow> strib_test list res" where
  "strib_new strib_parse h = strib_parse h"

section \<open>The folder and its hidden file\<close>

definition STRIB_SECRET_FILE :: string where "STRIB_SECRET_FILE = ''.stribution''"
definition STRIB_LAST_CONF_VERSION :: string where "STRIB_LAST_CONF_VERSION = ''strib-last-conf-version''"
definition STRIB_LAST_DONE_VERSION :: string where "STRIB_LAST_DONE_VERSION = ''strib-last-done-version''"
definition SC_STRIB_TYPE :: string where "SC_STRIB_TYPE = ''stribution''"

text \<open>The folder itself is designated by its place in the store of folders.\<close>

record strib_mdir =
  sm_mdir :: nat
  sm_conf :: header
  last_conf_version :: mdir_version
  last_done_version :: mdir_version
  sm_stribution :: "strib_test list option"

definition version_field :: "header \<Rightarrow> string \<Rightarrow> mdir_version res" where
  "version_field h nm = (case field_value h nm of None \<Rightarrow> Inr 0 | Some v \<Rightarrow> mdir_str2version v)"

text \<open>
  \<open>! error_code () == ENOENT\<close> compares a truth value with 2 and never holds: a file that cannot be read, for
  whatever reason, counts as missing.
\<close>

definition smdir_alloc :: "fs \<Rightarrow> nat \<Rightarrow> string \<Rightarrow> strib_mdir outcome" where
  "smdir_alloc fs mp path =
     obind (case header_from_file fs (snpath (path @ ''/'' @ STRIB_SECRET_FILE)) of
              Done h \<Rightarrow> Done h | Raised e \<Rightarrow> Done header_new | Crash \<Rightarrow> Crash) (\<lambda>conf.
       case version_field conf STRIB_LAST_CONF_VERSION of
         Inl e \<Rightarrow> Raised e
       | Inr cv \<Rightarrow> (case version_field conf STRIB_LAST_DONE_VERSION of
            Inl e \<Rightarrow> Raised e
          | Inr dv \<Rightarrow> Done \<lparr>sm_mdir = mp, sm_conf = conf, last_conf_version = cv, last_done_version = dv,
              sm_stribution = None\<rparr>))"

lemma find_from_bound: "find_from nm i hfs = Some k \<Longrightarrow> i \<le> k \<and> k < i + length hfs"
proof (induction hfs arbitrary: i)
  case (Cons hf hfs)
  have "find_from nm (Suc i) hfs = Some k \<longrightarrow> i \<le> k \<and> k < Suc (i + length hfs)" using Cons.IH [of "Suc i"] by auto
  with Cons.prems show ?case by (auto split: if_splits)
qed simp

function remove_all_field :: "header \<Rightarrow> string \<Rightarrow> header" where
  "remove_all_field h nm = (case header_find h (Some nm) None of
     None \<Rightarrow> h | Some i \<Rightarrow> remove_all_field (header_field_del i h) nm)"
  by pat_completeness auto
termination
proof (relation "measure (\<lambda>(h, nm). length (h_fields h))", goal_cases)
  case (2 h nm i)
  then have "i < length (h_fields h)" by (auto simp: header_find_def dest: find_from_bound)
  then show ?case by (simp add: header_field_del_def)
qed simp

declare remove_all_field.simps [simp del]

definition replace_header_field :: "header \<Rightarrow> string \<Rightarrow> string \<Rightarrow> header" where
  "replace_header_field h nm v = header_field_new (remove_all_field h nm) nm v"

text \<open>The configuration as it is saved, with the versions.\<close>

definition saved_conf :: "strib_mdir \<Rightarrow> header" where
  "saved_conf sm = replace_header_field
     (replace_header_field (sm_conf sm) STRIB_LAST_CONF_VERSION (mdir_version2str (last_conf_version sm)))
     STRIB_LAST_DONE_VERSION (mdir_version2str (last_done_version sm))"

definition smdir_free :: "fs \<Rightarrow> string \<Rightarrow> strib_mdir \<Rightarrow> fs" where
  "smdir_free fs path sm = fst (header_to_file fs (saved_conf sm) (snpath (path @ ''/'' @ STRIB_SECRET_FILE)))"

section \<open>Actions\<close>

record action_param =
  ap_mdir :: nat
  ap_version :: mdir_version
  ap_object :: header
  ap_subject :: header

definition do_delete :: "action_param \<Rightarrow> (mst, unit) act" where
  "do_delete p = mdir_del_request (ap_mdir p) (ap_version p)"

definition create_folder :: "nat \<Rightarrow> string \<Rightarrow> (mst, unit) act" where
  "create_folder parent relname = mdir_patch_request parent MDIR_ADD
     (header_field_new (header_field_new header_new SC_TYPE_FIELD SC_DIR_TYPE) SC_NAME_FIELD relname)"

definition do_copy_string :: "action_param \<Rightarrow> string \<Rightarrow> (mst, unit) act" where
  "do_copy_string p relname st =
     (let absname = snpath (mdir_name st (mdir_at st (ap_mdir p)) @ ''/'' @ relname) in
      bnd (attempt (mdir_lookup absname)) (\<lambda>r.
      bnd (case r of
             Inr destdir \<Rightarrow> ret destdir
           | Inl e \<Rightarrow> bnd (create_folder (ap_mdir p) relname) (\<lambda>_. mdir_lookup absname))
        (\<lambda>destdir. mdir_patch_request destdir MDIR_ADD (ap_object p))) st)"

definition do_copy_deref :: "action_param \<Rightarrow> string \<Rightarrow> (mst, unit) act" where
  "do_copy_deref p nm = (case field_value (ap_subject p) nm of
     None \<Rightarrow> failure 0 ''Should use subfolder name from message field %s which is unset!''
   | Some v \<Rightarrow> do_copy_string p v)"

definition do_copy :: "action_param \<Rightarrow> strib_action \<Rightarrow> (mst, unit) act" where
  "do_copy p a = (case act_dest a of DEST_STRING s \<Rightarrow> do_copy_string p s | DEST_DEREF nm \<Rightarrow> do_copy_deref p nm)"

definition action_cb :: "action_param \<Rightarrow> strib_action \<Rightarrow> (mst, unit) act" where
  "action_cb p a = (case act_type a of
     ACTION_DELETE \<Rightarrow> do_delete p
   | ACTION_COPY \<Rightarrow> do_copy p a
   | ACTION_MOVE \<Rightarrow> bnd (do_copy p a) (\<lambda>_. do_delete p))"

section \<open>Messages\<close>

text \<open>
  What an action that fails leaves to the tests that follow it, which are evaluated while its error is pending, is not
  represented: the error ends the evaluation.
\<close>

definition process_message ::
  "(string \<Rightarrow> string \<Rightarrow> bool) \<Rightarrow> strib_mdir \<Rightarrow> header \<Rightarrow> header \<Rightarrow> mdir_version \<Rightarrow> mst \<Rightarrow> mst outcome" where
  "process_message regexec sm subject object v st = (case sm_stribution sm of
     None \<Rightarrow> Done st
   | Some ts \<Rightarrow> strib_eval regexec (\<lambda>a st.
        case action_cb \<lparr>ap_mdir = sm_mdir sm, ap_version = v, ap_object = object, ap_subject = subject\<rparr> a st of
          Done (st, Inr _) \<Rightarrow> Done st | Done (st, Inl e) \<Rightarrow> Raised e | Raised e \<Rightarrow> Raised e | Crash \<Rightarrow> Crash) ts subject st)"

text \<open>
  A mark is treated as the message it marks, found by its version, possibly a mark itself: \<open>None\<close> when the recursion
  does not end within the given number of calls. \<open>same\<close> tells whether the subject is the message itself. The target that was
  deleted is a null pointer, that is dereferenced.
\<close>

fun process_put_rec ::
  "nat \<Rightarrow> (string \<Rightarrow> string \<Rightarrow> bool) \<Rightarrow> (header \<Rightarrow> strib_test list res) \<Rightarrow> bool \<Rightarrow> header \<Rightarrow> header \<Rightarrow> mdir_version \<Rightarrow>
   strib_mdir \<times> mst \<Rightarrow> (strib_mdir \<times> mst) outcome option" where
  "process_put_rec 0 regexec strib_parse same subject object v (sm, st) = None"
| "process_put_rec (Suc n) regexec strib_parse same subject object v (sm, st) =
     (let ty = field_value subject SC_TYPE_FIELD in
      if ty = Some SC_DIR_TYPE then Some (Done (sm, st))
      else if ty = Some SC_STRIB_TYPE then
        (if \<not> same then Some (Done (sm, st))
         else case strib_new strib_parse subject of
           Inl e \<Rightarrow> (case mdir_mark_error (sm_mdir sm) v ''Cannot parse strib config'' st of
              Done (st, Inr _) \<Rightarrow> Some (Done (sm, st)) | Done (st, Inl e) \<Rightarrow> Some (Raised e)
            | Raised e \<Rightarrow> Some (Raised e) | Crash \<Rightarrow> Some Crash)
         | Inr ts \<Rightarrow> Some (Done (sm\<lparr>last_conf_version := v, sm_conf := subject, sm_stribution := Some ts\<rparr>, st)))
      else if ty = Some SC_MARK_TYPE then
        (case mdir_get_targeted_header (m_fs st) (jnls (mdir_at st (sm_mdir sm))) subject of
           Done (_, Some e) \<Rightarrow> Some (Raised e)
         | Done (Some alt, None) \<Rightarrow> process_put_rec n regexec strib_parse False alt object v (sm, st)
         | Done (None, None) \<Rightarrow> Some Crash
         | Raised e \<Rightarrow> Some (Raised e)
         | Crash \<Rightarrow> Some Crash)
      else Some (obind (process_message regexec sm subject object v st) (\<lambda>st. Done (sm, st))))"

definition process_put ::
  "nat \<Rightarrow> (string \<Rightarrow> string \<Rightarrow> bool) \<Rightarrow> (header \<Rightarrow> strib_test list res) \<Rightarrow> header \<Rightarrow> mdir_version \<Rightarrow>
   strib_mdir \<times> mst \<Rightarrow> (strib_mdir \<times> mst) outcome option" where
  "process_put n regexec strib_parse h v p = (case p of (sm, st) \<Rightarrow>
     if v < 0 then Some (Done (sm, st))
     else process_put_rec n regexec strib_parse True h h v (sm\<lparr>last_done_version := v\<rparr>, st))"

section \<open>What a test means\<close>

text \<open>The order of strings is the lexicographic order of the codes of their characters.\<close>

definition codes :: "string \<Rightarrow> nat list" where
  "codes s = map of_char s"

definition str_less :: "string \<Rightarrow> string \<Rightarrow> bool" where
  "str_less a b = ord_class.lexordp (codes a) (codes b)"

lemma strcmp_sign: "strcmp a b = (if a = b then 0 else if str_less a b then - 1 else 1)"
proof (induction a b rule: strcmp.induct)
  case (4 a as b bs)
  then show ?case by (auto simp: str_less_def codes_def)
qed (auto simp: str_less_def codes_def)

text \<open>The comparison that an operator names, in an order given by its strict part.\<close>

fun compares :: "strib_op \<Rightarrow> ('a \<Rightarrow> 'a \<Rightarrow> bool) \<Rightarrow> 'a \<Rightarrow> 'a \<Rightarrow> bool" where
  "compares OP_GT ls a b = ls b a"
| "compares OP_GE ls a b = (ls b a \<or> a = b)"
| "compares OP_LT ls a b = ls a b"
| "compares OP_LE ls a b = (ls a b \<or> a = b)"
| "compares OP_EQ ls a b = (a = b)"
| "compares _ ls a b = False"

definition cond_holds :: "(string \<Rightarrow> string \<Rightarrow> bool) \<Rightarrow> strib_condition \<Rightarrow> header \<Rightarrow> bool" where
  "cond_holds regexec c h \<longleftrightarrow>
     cond_op c = OP_ALWAYS \<or>
     cond_op c = OP_SET \<and> field_value h (field_name c) \<noteq> None \<or>
     cond_op c = OP_UNSET \<and> field_value h (field_name c) = None \<or>
     is_binary (cond_op c) \<and> (\<exists>v. field_value h (field_name c) = Some v \<and> (case cond_value c of
        TYPE_NUMBER n \<Rightarrow> \<exists>f. strtoll0 v = (f, []) \<and> compares (cond_op c) (<) f n
      | TYPE_STRING s \<Rightarrow> if cond_op c = OP_RE then regexec s v else compares (cond_op c) str_less v s
      | TYPE_DEREF nm \<Rightarrow> \<exists>s. field_value h nm = Some s \<and> compares (cond_op c) str_less v s))"

text \<open>The tests that compare a field that is set with one that is not.\<close>

definition lacks_value :: "strib_condition \<Rightarrow> header \<Rightarrow> bool" where
  "lacks_value c h \<longleftrightarrow> is_binary (cond_op c) \<and> field_value h (field_name c) \<noteq> None \<and>
     (\<exists>nm. cond_value c = TYPE_DEREF nm \<and> field_value h nm = None)"

definition parsed_test :: "strib_condition \<Rightarrow> bool" where
  "parsed_test c \<longleftrightarrow> \<not> (cond_op c = OP_RE \<and> (\<exists>nm. cond_value c = TYPE_DEREF nm))"

lemma str_less_asym: "str_less a b \<Longrightarrow> \<not> str_less b a"
  unfolding str_less_def by (metis lexordp_antisym lexordp_irreflexive less_asym)

lemma condition_eval_holds:
  assumes "parsed_test c"
  shows "condition_eval regexec c h = (if lacks_value c h then Crash else Done (cond_holds regexec c h))"
proof -
  have total: "a \<noteq> b \<Longrightarrow> \<not> str_less a b \<Longrightarrow> str_less b a" for a b
    unfolding str_less_def codes_def
    by (metis (no_types, lifting) lexordp_linear inj_map_eq_map inj_of_char)
  have irr: "\<not> str_less a a" for a using str_less_asym by blast
  have num: "str2num v = Some f \<longleftrightarrow> strtoll0 v = (f, [])" "str2num v = None \<longleftrightarrow> snd (strtoll0 v) \<noteq> []" for v f
    by (auto simp: str2num_def split: prod.split)
  show ?thesis
  proof (cases "is_binary (cond_op c)")
    case False
    then show ?thesis
      by (cases "cond_op c") (auto simp: condition_eval_def cond_holds_def lacks_value_def is_binary_def field_is_set_def header_search_def)
  next
    case True
    have sc: "(strcmp a b < 0) = str_less a b" "(0 < strcmp a b) = str_less b a" "(strcmp a b = 0) = (a = b)"
        "(strcmp a b \<le> 0) = (str_less a b \<or> a = b)" "(0 \<le> strcmp a b) = (str_less b a \<or> a = b)" for a b
      using total [of a b] irr [of a] str_less_asym [of a b] by (auto simp: strcmp_sign)
    show ?thesis
    proof (cases "field_value h (field_name c)")
      case None
      with True show ?thesis
        by (auto simp: condition_eval_def cond_holds_def lacks_value_def is_binary_def header_search_def split: strib_op.split)
    next
      case (Some v)
      have op_num: "binary_op_num (cond_op c) f n = Done (compares (cond_op c) (<) f n)" for f n
        using True by (cases "cond_op c") (auto simp: is_binary_def)
      have op_str: "cond_op c \<noteq> OP_RE \<Longrightarrow> binary_op_str (cond_op c) a b = Done (compares (cond_op c) str_less a b)" for a b
        using True by (cases "cond_op c") (auto simp: is_binary_def sc)
      have e: "condition_eval regexec c h = (case cond_value c of
          TYPE_NUMBER n \<Rightarrow> (case str2num v of None \<Rightarrow> Done False | Some f \<Rightarrow> binary_op_num (cond_op c) f n)
        | TYPE_STRING s \<Rightarrow> if cond_op c = OP_RE then Done (regexec s v) else binary_op_str (cond_op c) v s
        | TYPE_DEREF nm \<Rightarrow> if cond_op c = OP_RE then Crash
            else (case header_search h nm of None \<Rightarrow> Crash | Some s \<Rightarrow> binary_op_str (cond_op c) v s))"
        using True Some by (cases "cond_op c") (auto simp: condition_eval_def is_binary_def header_search_def split: strib_value.split option.split)
      show ?thesis
        unfolding e using True Some assms op_num op_str
        by (cases "cond_value c")
          (auto simp: cond_holds_def lacks_value_def parsed_test_def header_search_def num is_binary_def split: option.splits)
    qed
  qed
qed


section \<open>Properties\<close>

lemma strib_eval_facts:
  assumes "list_all (\<lambda>t. parsed_test (condition t)) ts"
  shows "list_all (\<lambda>t. \<not> lacks_value (condition t) h) ts \<Longrightarrow>
      strib_eval regexec cb ts h s =
        foldl (\<lambda>r t. obind r (cb (action t))) (Done s) (filter (\<lambda>t. cond_holds regexec (condition t) h) ts)"
    and "t \<in> set ts \<Longrightarrow> lacks_value (condition t) h \<Longrightarrow> (\<And>a s. \<exists>s'. cb a s = Done s') \<Longrightarrow>
      strib_eval regexec cb ts h s = Crash"
proof -
  have err: "foldl (\<lambda>r t. obind r (cb (action t))) (Raised e) us = Raised e"
      "foldl (\<lambda>r t. obind r (cb (action t))) Crash us = Crash" for e us
    by (induction us) auto
  show "strib_eval regexec cb ts h s =
      foldl (\<lambda>r t. obind r (cb (action t))) (Done s) (filter (\<lambda>t. cond_holds regexec (condition t) h) ts)"
    if "list_all (\<lambda>t. \<not> lacks_value (condition t) h) ts"
    using assms that
  proof (induction ts arbitrary: s)
    case (Cons t ts)
    have "condition_eval regexec (condition t) h = Done (cond_holds regexec (condition t) h)"
      using Cons.prems by (simp add: condition_eval_holds)
    with Cons show ?case by (cases "cond_holds regexec (condition t) h"; cases "cb (action t) s") (auto simp: err)
  qed simp
  show "strib_eval regexec cb ts h s = Crash"
    if "t \<in> set ts" "lacks_value (condition t) h" and cb: "\<And>a s. \<exists>s'. cb a s = Done s'"
    using assms that(1,2)
  proof (induction ts arbitrary: s)
    case (Cons u ts)
    have u: "condition_eval regexec (condition u) h =
        (if lacks_value (condition u) h then Crash else Done (cond_holds regexec (condition u) h))"
      using Cons.prems by (simp add: condition_eval_holds)
    show ?case
    proof (cases "lacks_value (condition u) h")
      case False
      with Cons.prems have "t \<in> set ts" by auto
      then have "strib_eval regexec cb ts h s = Crash" for s using Cons by simp
      moreover obtain s' where "cb (action u) s = Done s'" using cb by blast
      ultimately show ?thesis using u by (auto split: bool.split)
    qed (use u in simp)
  qed simp
qed


definition test_sample :: strib_test where
  "test_sample = \<lparr>condition = \<lparr>cond_op = OP_GE, field_name = ''n'', cond_value = TYPE_NUMBER 3\<rparr>,
     action = \<lparr>act_type = ACTION_DELETE, act_dest = DEST_STRING []\<rparr>\<rparr>"

definition deref_sample :: strib_test where
  "deref_sample = \<lparr>condition = \<lparr>cond_op = OP_EQ, field_name = ''n'', cond_value = TYPE_DEREF ''m''\<rparr>,
     action = \<lparr>act_type = ACTION_DELETE, act_dest = DEST_STRING []\<rparr>\<rparr>"



section \<open>The hidden file\<close>

lemma remove_all_fields: "h_fields (remove_all_field h nm) = filter (\<lambda>hf. \<not> name_matches (Some nm) hf) (h_fields h)"
proof (induction h nm rule: remove_all_field.induct)
  case (1 h nm)
  show ?case
  proof (cases "header_find h (Some nm) None")
    case None
    then have "\<forall>hf \<in> set (h_fields h). \<not> name_matches (Some nm) hf" by (simp add: header_find_def find_from_None)
    with None show ?thesis by (simp add: remove_all_field.simps [of h])
  next
    case (Some i)
    then have i: "i < length (h_fields h)" "name_matches (Some nm) (h_fields h ! i)"
      by (simp_all add: header_find_def find_from_Some)
    have "filter P xs = filter P (take i xs @ drop (Suc i) xs)" if "i < length xs" "\<not> P (xs ! i)" for P and xs :: "header_field list"
      by (subst id_take_nth_drop [OF that(1)]) (simp add: that(2))
    with i have "filter (\<lambda>hf. \<not> name_matches (Some nm) hf) (h_fields h) =
        filter (\<lambda>hf. \<not> name_matches (Some nm) hf) (h_fields (header_field_del i h))"
      by (simp add: header_field_del_def)
    with 1 [OF Some] Some show ?thesis by (simp add: remove_all_field.simps [of h])
  qed
qed

lemma name_matches_new: "name_matches (Some nm) (header_field_ctor nm v)"
  by (simp add: name_matches_def header_field_ctor_def str_tolower_def strcasecmp_eq_def)

lemma replaced_value: "field_value (replace_header_field h nm v) nm = Some v"
  using name_matches_new [of nm v]
  by (simp add: field_value_hd fields_named_def replace_header_field_def header_field_new_def remove_all_fields header_field_ctor_def)

lemma replaced_other:
  assumes "\<not> strcasecmp_eq nm nm'"
  shows "field_value (replace_header_field h nm v) nm' = field_value h nm'"
proof -
  have n: "\<not> name_matches (Some nm') (header_field_ctor nm v)"
    using assms by (simp add: name_matches_def header_field_ctor_def str_tolower_def strcasecmp_eq_def comp_def)
  have "name_matches (Some nm') hf \<Longrightarrow> \<not> name_matches (Some nm) hf" for hf
    using assms by (auto simp: name_matches_def strcasecmp_eq_def)
  then have "filter (name_matches (Some nm')) (filter (\<lambda>hf. \<not> name_matches (Some nm) hf) hfs) = filter (name_matches (Some nm')) hfs" for hfs
    by (induction hfs) auto
  with n show ?thesis
    by (simp add: field_value_hd fields_named_def replace_header_field_def header_field_new_def remove_all_fields)
qed

lemma saved_versions:
  "field_value (saved_conf sm) STRIB_LAST_CONF_VERSION = Some (mdir_version2str (last_conf_version sm))"
  "field_value (saved_conf sm) STRIB_LAST_DONE_VERSION = Some (mdir_version2str (last_done_version sm))"
proof -
  have "\<not> strcasecmp_eq STRIB_LAST_DONE_VERSION STRIB_LAST_CONF_VERSION" by code_simp
  then show "field_value (saved_conf sm) STRIB_LAST_CONF_VERSION = Some (mdir_version2str (last_conf_version sm))"
    by (simp add: saved_conf_def replaced_other replaced_value)
  show "field_value (saved_conf sm) STRIB_LAST_DONE_VERSION = Some (mdir_version2str (last_done_version sm))"
    by (simp add: saved_conf_def replaced_value)
qed


text \<open>What a folder remembers of its distribution is saved when the folder is released and found again: the configuration,
  its version and the version of the last message that was treated. But the tests themselves are not made again from the
  configuration: after a restart every message is counted as treated while no action is done, until a new configuration comes.\<close>

theorem strib_restart:
  assumes "readable (saved_conf sm)" "fn = snpath (path @ ''/'' @ STRIB_SECRET_FILE)"
    "Mkdir_for_file fs fn = (fs1, None)" "sys_open True False False fs1 fn = (fs2, Inr i)"
    "- (2 ^ 63) \<le> last_conf_version sm" "last_conf_version sm < 2 ^ 63"
    "- (2 ^ 63) \<le> last_done_version sm" "last_done_version sm < 2 ^ 63"
  shows "\<exists>sm'. smdir_alloc (smdir_free fs path sm) mp path = Done sm' \<and> h_fields (sm_conf sm') = h_fields (saved_conf sm) \<and>
    last_conf_version sm' = last_conf_version sm \<and> last_done_version sm' = last_done_version sm \<and>
    (0 \<le> v \<and> field_value h SC_TYPE_FIELD \<notin> {Some SC_DIR_TYPE, Some SC_STRIB_TYPE, Some SC_MARK_TYPE} \<longrightarrow>
       process_put (Suc n) regexec strib_parse h v (sm', st) = Some (Done (sm'\<lparr>last_done_version := v\<rparr>, st)))"
proof -
  obtain fs' where f: "header_to_file fs (saved_conf sm) fn = (fs', None)"
    "header_from_file fs' fn = Done \<lparr>h_fields = h_fields (saved_conf sm), h_count = 1\<rparr>"
    using header_file_roundtrip [OF assms(1,3,4)] by blast
  let ?h = "\<lparr>h_fields = h_fields (saved_conf sm), h_count = 1\<rparr>"
  have "field_value ?h nm = field_value (saved_conf sm) nm" for nm by (simp add: field_value_def header_find_def)
  then have "version_field ?h STRIB_LAST_CONF_VERSION = Inr (last_conf_version sm)"
    "version_field ?h STRIB_LAST_DONE_VERSION = Inr (last_done_version sm)"
    using assms(5-8) sscanf_dec_int [of "last_conf_version sm" "[]"] sscanf_dec_int [of "last_done_version sm" "[]"]
    by (simp_all add: version_field_def saved_versions mdir_str2version_def mdir_version2str_def)
  moreover have "smdir_free fs path sm = fs'" using f(1) assms(2) by (simp add: smdir_free_def)
  ultimately show ?thesis
    using f(2) assms(2) by (auto simp: smdir_alloc_def process_put_def process_message_def Let_def)
qed

section \<open>Marks\<close>

lemma targeted_by_read:
  assumes "header_target h = Inr t" "mdir_read fs js t = Done (r, Some MDIR_ADD, None)"
  shows "mdir_get_targeted_header fs js h = Done (r, None)"
  using assms by (simp add: mdir_get_targeted_header_def)

lemma process_put_rec_returns:
  assumes "\<forall>t h. mdir_read (m_fs st) (jnls (mdir_at st (sm_mdir sm))) t = Done (Some h, Some MDIR_ADD, None) \<longrightarrow>
      1 \<le> t \<and> (\<forall>t'. header_target h = Inr t' \<longrightarrow> t' < t)"
    "0 < n" "\<forall>t. header_target h = Inr t \<longrightarrow> nat t + 1 < n"
  shows "\<exists>r. process_put_rec n regexec strib_parse same h object v (sm, st) = Some r"
  using assms(2,3)
proof (induction n arbitrary: same h)
  case (Suc n)
  let ?js = "jnls (mdir_at st (sm_mdir sm))"
  have alt: "\<exists>r. process_put_rec n regexec strib_parse False alt object v (sm, st) = Some r"
    if "mdir_get_targeted_header (m_fs st) ?js h = Done (Some alt, None)" for alt
  proof -
    from that obtain t where t: "header_target h = Inr t" "mdir_read (m_fs st) ?js t = Done (Some alt, Some MDIR_ADD, None)"
      by (auto simp: mdir_get_targeted_header_def split: sum.splits outcome.splits if_splits option.splits)
    with assms(1) have "1 \<le> t" "\<forall>t'. header_target alt = Inr t' \<longrightarrow> t' < t" by blast+
    moreover have "nat t < n" using Suc.prems(2) t(1) by auto
    ultimately show ?thesis by (intro Suc.IH) auto
  qed
  show ?case
    by (auto simp: Let_def alt split: sum.split outcome.split option.split)
qed simp

lemma mark_chain_facts:
  assumes "js = jnls (mdir_at st (sm_mdir sm))" "header_has_type h SC_MARK_TYPE" "header_target h = Inr t"
  shows "(\<forall>t h. mdir_read (m_fs st) js t = Done (Some h, Some MDIR_ADD, None) \<longrightarrow> 1 \<le> t \<and> (\<forall>t'. header_target h = Inr t' \<longrightarrow> t' < t)) \<Longrightarrow>
      nat t + 1 < n \<Longrightarrow> \<exists>r. process_put_rec n regexec strib_parse same h object v (sm, st) = Some r"
    and "mdir_read (m_fs st) js t = Done (Some h, Some MDIR_ADD, None) \<Longrightarrow>
      process_put_rec n regexec strib_parse same h object v (sm, st) = None"
    and "mdir_read (m_fs st) js t = Done (None, Some MDIR_ADD, None) \<Longrightarrow>
      process_put_rec (Suc n) regexec strib_parse same h object v (sm, st) = Some Crash"
proof -
  have ty: "field_value h SC_TYPE_FIELD = Some SC_MARK_TYPE" using assms(2) by (simp add: header_has_type_def)
  have ne: "SC_MARK_TYPE \<noteq> SC_DIR_TYPE" "SC_MARK_TYPE \<noteq> SC_STRIB_TYPE"
    by (simp_all add: SC_MARK_TYPE_def SC_DIR_TYPE_def SC_STRIB_TYPE_def)
  show "process_put_rec (Suc n) regexec strib_parse same h object v (sm, st) = Some Crash"
    if "mdir_read (m_fs st) js t = Done (None, Some MDIR_ADD, None)"
    using targeted_by_read [OF assms(3) that] assms(1) ty ne by (simp add: Let_def)
  show "process_put_rec n regexec strib_parse same h object v (sm, st) = None"
    if "mdir_read (m_fs st) js t = Done (Some h, Some MDIR_ADD, None)"
  proof (induction n arbitrary: same)
    case (Suc n)
    with targeted_by_read [OF assms(3) that] assms(1) ty ne show ?case by (simp add: Let_def)
  qed simp
  show "\<exists>r. process_put_rec n regexec strib_parse same h object v (sm, st) = Some r"
    if "\<forall>t h. mdir_read (m_fs st) js t = Done (Some h, Some MDIR_ADD, None) \<longrightarrow>
        1 \<le> t \<and> (\<forall>t'. header_target h = Inr t' \<longrightarrow> t' < t)" "nat t + 1 < n"
    by (rule process_put_rec_returns) (use assms that in auto)
qed



definition sm_sample :: strib_mdir where
  "sm_sample = \<lparr>sm_mdir = 0, sm_conf = header_field_new header_new ''strib-stanza'' ''always : delete'', last_conf_version = 3,
     last_done_version = 12, sm_stribution = Some [test_sample]\<rparr>"

theorem strib_restart_witness:
  "\<exists>sm'. smdir_alloc (smdir_free \<lparr>ents = [([''m''], Dir), ([''m'', ''.stribution''], Reg 0)], idata = (\<lambda>_. []), next_ino = 1,
      pwrite_appends = False\<rparr> ''/m'' sm_sample) 0 ''/m'' = Done sm' \<and>
    last_done_version sm' = 12 \<and> process_put 1 (\<lambda>_ _. False) (\<lambda>_. Inr []) h_sample 13 (sm', st_sample) = Some (Done (sm'\<lparr>last_done_version := 13\<rparr>, st_sample))"
proof -
  let ?fs = "\<lparr>ents = [([''m''], Dir), ([''m'', ''.stribution''], Reg 0)], idata = (\<lambda>_. []), next_ino = 1, pwrite_appends = False\<rparr>"
  have r: "readable (saved_conf sm_sample)" by code_simp
  have n: "''/m/.stribution'' = snpath (''/m'' @ ''/'' @ STRIB_SECRET_FILE)"
    by (simp add: snpath_def PATH_MAX_def STRIB_SECRET_FILE_def)
  have m: "Mkdir_for_file ?fs ''/m/.stribution'' = (?fs, None)"
    by (simp add: Mkdir_for_file_def dir_of_file_def Mkdir_def snpath_def PATH_MAX_def Mkdir_single_def
        sys_mkdir_def resolve_def comps_def node_at_def MAXSYMLINKS_def EEXIST_def)
  have o: "sys_open True False False ?fs ''/m/.stribution'' = (?fs, Inr 0)"
    by (simp add: sys_open_def resolve_def comps_def node_at_def MAXSYMLINKS_def)
  have t: "field_value h_sample SC_TYPE_FIELD = None" by code_simp
  from strib_restart [OF r n m o, of 0 13 h_sample 0 "\<lambda>_ _. False" "\<lambda>_. Inr []" st_sample] t
  show ?thesis by (fastforce simp: sm_sample_def)
qed

definition st_log :: "fs \<Rightarrow> jnl \<Rightarrow> mst" where
  "st_log fs j = st_sample\<lparr>m_fs := fs, m_store := (\<lambda>_. \<lparr>mpath = ''/m/1'', jnls = [j], permissions = None\<rparr>)\<rparr>"

lemma one_entry_log:
  assumes "jfits [] en"
  obtains fs j where "\<And>t. mdir_read (m_fs (st_log fs j)) (jnls (mdir_at (st_log fs j) 0)) t =
    (if t = 5 then jview en else Done (None, None, Some (Err 0 ''No such version'')))"
proof -
  let ?j = "jnl_sample\<lparr>nb_patches := Suc (nb_patches jnl_sample)\<rparr>"
  from jput_rep [OF jnl_sample_rep assms] obtain fs where "jnl_rep fs ?j [en] [0]" by auto
  from jnl_read_rep [OF this, of 0] have "jnl_read fs ?j 0 = jview en" by (simp add: jview_def)
  then show thesis
    by (intro that [of fs ?j])
      (auto simp: mdir_read_def jnl_get_by_version_def st_log_def st_sample_def jnl_sample_def jview_def)
qed

definition mark_sample :: header where
  "mark_sample = \<lparr>h_fields = [\<lparr>hf_name = SC_TYPE_FIELD, hf_value = SC_MARK_TYPE\<rparr>, \<lparr>hf_name = SC_TARGET_FIELD, hf_value = ''5''\<rparr>], h_count = 1\<rparr>"


end
