(* ===== verification/Channel.thy ===== *)
theory Channel
  imports Cnx Fs
begin

text \<open>
  The transfer of files, after \<open>lib/channel.c\<close>, \<open>lib/stream.c\<close>, \<open>include/scambio/channel.h\<close> and \<open>lib/stream.h\<close>. A
  file is a stream with readers (the transfers that send it) and at most one writer (the
  transfer that receives it). A sender cuts what it writes into chunks that it remembers for a while, a receiver keeps the
  fragments it got, asks again for the parts that are missing for too long and thanks when it has everything.
  Connections, transfers and streams are designated by their addresses in a store. The clock (in microseconds) is
  an argument. Threads are represented by the function each of their turns executes; the wait of a sender for the answer
  at the end of a file is not represented.
\<close>

section \<open>Data\<close>

definition kw_write :: string where "kw_write = ''write''"
definition kw_read :: string where "kw_read = ''read''"
definition kw_copy :: string where "kw_copy = ''copy''"
definition kw_skip :: string where "kw_skip = ''skip''"
definition kw_miss :: string where "kw_miss = ''miss''"
definition kw_thx :: string where "kw_thx = ''thx''"

definition RETRANSM_TIMEOUT :: nat where "RETRANSM_TIMEOUT = 2000000"
definition OUT_FRAGS_TIMEOUT :: nat where "OUT_FRAGS_TIMEOUT = 1000000"
definition CHUNK_SIZE :: nat where "CHUNK_SIZE = 1400"
definition STREAM_READ_BLOCK :: nat where "STREAM_READ_BLOCK = 10000"

text \<open>The contents of the box of a fragment, none for a skip and for what is received or missed.\<close>

record fragment =
  fr_ts :: nat
  fr_box :: "string option"
  fr_start :: int
  fr_end :: int
  fr_eof :: bool

record chn_tx =
  tx_cnx :: nat
  tx_id :: int
  tx_status :: int
  tx_sender :: bool
  end_offset :: int
  tx_stream :: "nat option"
  out_frags :: "fragment list"
  in_frags :: "fragment list"
  tx_ts :: nat

text \<open>\<open>st_fd\<close> is the inode of the file, if the stream has one.\<close>

record stream =
  st_readers :: "nat list"
  has_writer :: bool
  st_count :: int
  st_fd :: "nat option"
  st_path :: string

record chn_cnx =
  cc_cnx :: mdir_cnx
  cc_in :: input
  cc_txs :: "nat list"
  cc_status :: int

record chn_st =
  ch_cnx :: "nat \<Rightarrow> chn_cnx"
  ch_tx :: "nat \<Rightarrow> chn_tx"
  ch_streams :: "nat list"
  ch_stream :: "nat \<Rightarrow> stream"
  ch_next :: nat
  ch_fs :: fs
  chn_files_root :: string

definition upd_tx :: "nat \<Rightarrow> (chn_tx \<Rightarrow> chn_tx) \<Rightarrow> chn_st \<Rightarrow> chn_st" where
  "upd_tx a f s = s\<lparr>ch_tx := (ch_tx s)(a := f (ch_tx s a))\<rparr>"

definition upd_stream :: "nat \<Rightarrow> (stream \<Rightarrow> stream) \<Rightarrow> chn_st \<Rightarrow> chn_st" where
  "upd_stream a f s = s\<lparr>ch_stream := (ch_stream s)(a := f (ch_stream s a))\<rparr>"

definition upd_ccnx :: "nat \<Rightarrow> (chn_cnx \<Rightarrow> chn_cnx) \<Rightarrow> chn_st \<Rightarrow> chn_st" where
  "upd_ccnx a f s = s\<lparr>ch_cnx := (ch_cnx s)(a := f (ch_cnx s a))\<rparr>"

definition modify :: "('s \<Rightarrow> 's) \<Rightarrow> ('s, unit) act" where
  "modify f s = Done (f s, Inr ())"

definition on_ccnx :: "nat \<Rightarrow> (mdir_cnx, 'a) act \<Rightarrow> (chn_st, 'a) act" where
  "on_ccnx a m s = (case m (cc_cnx (ch_cnx s a)) of
     Done (c, r) \<Rightarrow> Done (upd_ccnx a (\<lambda>cc. cc\<lparr>cc_cnx := c\<rparr>) s, r) | Raised e \<Rightarrow> Raised e | Crash \<Rightarrow> Crash)"

section \<open>Fragments\<close>

definition fragment_size :: "fragment \<Rightarrow> int" where
  "fragment_size f = fr_end f - fr_start f"

definition out_frag_ctor :: "chn_tx \<Rightarrow> nat \<Rightarrow> int \<Rightarrow> string option \<Rightarrow> bool \<Rightarrow> fragment \<times> chn_tx" where
  "out_frag_ctor tx ts sz box eof =
     (let f = \<lparr>fr_ts = ts, fr_box = box, fr_start = end_offset tx, fr_end = end_offset tx + sz, fr_eof = eof\<rparr>
      in (f, tx\<lparr>end_offset := end_offset tx + sz, out_frags := out_frags tx @ [f]\<rparr>))"

fun insert_by_offset :: "fragment list \<Rightarrow> fragment \<Rightarrow> fragment list" where
  "insert_by_offset [] f = [f]"
| "insert_by_offset (ff # q) f = (if fr_start f < fr_start ff then f # ff # q else ff # insert_by_offset q f)"

definition in_frag_ctor :: "chn_tx \<Rightarrow> nat \<Rightarrow> int \<Rightarrow> int \<Rightarrow> bool \<Rightarrow> chn_tx" where
  "in_frag_ctor tx ts offset sz eof = tx\<lparr>in_frags := insert_by_offset (in_frags tx)
     \<lparr>fr_ts = ts, fr_box = None, fr_start = offset, fr_end = offset + sz, fr_eof = eof\<rparr>\<rparr>"

section \<open>Sending\<close>

text \<open>The offset is printed as an \<open>unsigned\<close>.\<close>

definition chunk_params :: "int \<Rightarrow> int \<Rightarrow> nat \<Rightarrow> bool \<Rightarrow> string" where
  "chunk_params i offset sz eof = dec_int i @ [SP] @ dec_int (offset mod 2 ^ 32) @ [SP] @ dec_nat sz @ (if eof then '' *'' else [])"

definition chunk_len :: "fragment \<Rightarrow> int \<Rightarrow> nat" where
  "chunk_len f offset = min CHUNK_SIZE (nat (fr_end f - offset))"

text \<open>An offset before the start of the fragment reads before the box.\<close>

definition send_chunk :: "nat \<Rightarrow> int \<Rightarrow> fragment \<Rightarrow> int \<Rightarrow> (mdir_cnx, nat) act" where
  "send_chunk now i f offset =
     (let sz = chunk_len f offset;
          eof = (fr_eof f \<and> nat (fr_end f - offset) \<le> CHUNK_SIZE)
      in bnd (mdir_cnx_query (int now) (if fr_box f \<noteq> None then kw_copy else kw_skip) None None [chunk_params i offset sz eof]) (\<lambda>_.
         case fr_box f of
           None \<Rightarrow> ret sz
         | Some d \<Rightarrow>
             if offset < fr_start f then (\<lambda>_. Crash)
             else bnd (cnx_write (take sz (drop (nat (offset - fr_start f)) d))) (\<lambda>_. ret sz)))"

lemma send_chunk_len: "send_chunk now i f offset c = Done (c', Inr sz) \<Longrightarrow> sz = chunk_len f offset"
  by (auto simp: send_chunk_def bnd_def Let_def split: outcome.splits sum.splits option.splits if_splits)

function send_all_chunks :: "nat \<Rightarrow> int \<Rightarrow> fragment \<Rightarrow> int \<Rightarrow> (mdir_cnx, unit) act" where
  "send_all_chunks now i f offset c = (case send_chunk now i f offset c of
     Done (c', Inr sz) \<Rightarrow>
       if offset + int sz < fr_end f then send_all_chunks now i f (offset + int sz) c' else Done (c', Inr ())
   | Done (c', Inl e) \<Rightarrow> Done (c', Inl e)
   | Raised e \<Rightarrow> Raised e
   | Crash \<Rightarrow> Crash)"
  by pat_completeness auto
termination
proof (relation "measure (\<lambda>(now, i, f, offset, c). nat (fr_end f - offset))", goal_cases)
  case (2 now i f offset c x c' y sz)
  then have "sz = chunk_len f offset" using send_chunk_len [of now i f offset c c' sz] by simp
  with 2 show ?case by (auto simp: chunk_len_def CHUNK_SIZE_def min_def split: if_splits)
qed simp

declare send_all_chunks.simps [simp del]

definition overlaps :: "fragment \<Rightarrow> fragment \<Rightarrow> bool" where
  "overlaps miss f \<longleftrightarrow> \<not> (fr_end miss \<le> fr_start f \<or> fr_start miss \<ge> fr_end f)"

text \<open>
  The loop that sends again what is missed, with a bound on its turns: when no fragment overlaps the first miss, nothing
  changes and the loop goes on.
\<close>

fun retransmit_missed :: "nat \<Rightarrow> nat \<Rightarrow> int \<Rightarrow> fragment list \<Rightarrow> fragment list \<Rightarrow> mdir_cnx \<Rightarrow>
    (mdir_cnx \<times> fragment list \<times> err option) outcome option" where
  "retransmit_missed 0 now i outs misses c = None"
| "retransmit_missed (Suc n) now i outs misses c = (case misses of
     [] \<Rightarrow> Some (Done (c, [], None))
   | miss # ms \<Rightarrow> (case find (overlaps miss) outs of
        None \<Rightarrow> retransmit_missed n now i outs misses c
      | Some f \<Rightarrow> (case send_chunk now i f (fr_start miss) c of
           Done (c', Inl e) \<Rightarrow> Some (Done (c', misses, Some e))
         | Done (c', Inr sz) \<Rightarrow>
             if fragment_size miss \<le> int sz then retransmit_missed n now i outs ms c'
             else retransmit_missed n now i outs (miss\<lparr>fr_start := fr_start miss + int sz\<rparr> # ms) c'
         | Raised e \<Rightarrow> Some (Raised e)
         | Crash \<Rightarrow> Some Crash)))"

fun timeout_fragments :: "fragment list \<Rightarrow> nat \<Rightarrow> nat \<Rightarrow> fragment list" where
  "timeout_fragments [] now timeout = []"
| "timeout_fragments (f # q) now timeout = (if fr_ts f + timeout > now then f # q else timeout_fragments q now timeout)"

text \<open>
  \<open>chn_tx_write\<close> up to the wait for the answer at the end of the file. Nothing puts a miss among the fragments of a
  sender, because \<open>serve_miss\<close> does nothing yet: one turn of the retransmission is allowed for each byte missed and one more, and a
  retransmission that takes more never ends, which counts as a crash.
\<close>

definition misses_size :: "fragment list \<Rightarrow> nat" where
  "misses_size ms = sum_list (map (\<lambda>m. Suc (nat (fragment_size m))) ms)"

definition chn_tx_write :: "nat \<Rightarrow> nat \<Rightarrow> int \<Rightarrow> string option \<Rightarrow> bool \<Rightarrow> (chn_st, unit) act" where
  "chn_tx_write now a sz box eof s =
     (let tx = ch_tx s a in
      if \<not> tx_sender tx then Crash
      else case out_frag_ctor tx now sz box eof of (f, tx') \<Rightarrow>
        let s = upd_tx a (\<lambda>_. tx') s in
        case retransmit_missed (Suc (misses_size (in_frags tx'))) now (tx_id tx') (out_frags tx') (in_frags tx') (cc_cnx (ch_cnx s (tx_cnx tx'))) of
          None \<Rightarrow> Crash
        | Some (Raised e) \<Rightarrow> Raised e
        | Some Crash \<Rightarrow> Crash
        | Some (Done (c, ms, r)) \<Rightarrow>
            let s = upd_tx a (\<lambda>tx. tx\<lparr>in_frags := ms\<rparr>) (upd_ccnx (tx_cnx tx') (\<lambda>cc. cc\<lparr>cc_cnx := c\<rparr>) s) in
            (case r of
               Some e \<Rightarrow> Done (s, Inl e)
             | None \<Rightarrow>
                 bnd (on_ccnx (tx_cnx tx') (send_all_chunks now (tx_id tx') f (fr_start f))) (\<lambda>_.
                 modify (upd_tx a (\<lambda>tx. tx\<lparr>out_frags := timeout_fragments (out_frags tx) now OUT_FRAGS_TIMEOUT\<rparr>))) s))"


section \<open>Streams\<close>

definition stream_path :: "chn_st \<Rightarrow> string \<Rightarrow> string" where
  "stream_path s nm = snpath (chn_files_root s @ ''/'' @ nm)"

text \<open>The file of a stream is opened, and created when there is none.\<close>

definition open_stream :: "string \<Rightarrow> (chn_st, nat) act" where
  "open_stream path s = (case sys_open False False False (ch_fs s) path of
     (fs, Inr i) \<Rightarrow> Done (s\<lparr>ch_fs := fs\<rparr>, Inr i)
   | (fs, Inl e) \<Rightarrow>
       if e \<noteq> ENOENT then Done (s\<lparr>ch_fs := fs\<rparr>, Inl (Err e ''open(%s)''))
       else case Mkdir_for_file fs path of
         (fs, Some e) \<Rightarrow> Done (s\<lparr>ch_fs := fs\<rparr>, Inl e)
       | (fs, None) \<Rightarrow> (case sys_open True False False fs path of
            (fs, Inr i) \<Rightarrow> Done (s\<lparr>ch_fs := fs\<rparr>, Inr i)
          | (fs, Inl e) \<Rightarrow> Done (s\<lparr>ch_fs := fs\<rparr>, Inl (Err e ''open(%s)''))))"

definition stream_new :: "string \<Rightarrow> bool \<Rightarrow> (chn_st, nat) act" where
  "stream_new nm rt s =
     bnd (if rt then ret None else bnd (open_stream (stream_path s nm)) (\<lambda>i. ret (Some i))) (\<lambda>fd s.
       let a = ch_next s in
       Done (s\<lparr>ch_next := Suc a, ch_streams := a # ch_streams s,
         ch_stream := (ch_stream s)(a := \<lparr>st_readers = [], has_writer = False, st_count = 1, st_fd = fd, st_path = stream_path s nm\<rparr>)\<rparr>,
         Inr a)) s"

definition stream_ref :: "nat \<Rightarrow> chn_st \<Rightarrow> chn_st" where
  "stream_ref a = upd_stream a (\<lambda>st. st\<lparr>st_count := st_count st + 1\<rparr>)"

definition stream_dtor :: "nat \<Rightarrow> (chn_st, unit) act" where
  "stream_dtor a s =
     (if st_readers (ch_stream s a) \<noteq> [] \<or> has_writer (ch_stream s a) \<or> 0 < st_count (ch_stream s a) then Crash
      else Done ((upd_stream a (\<lambda>st. st\<lparr>st_fd := None\<rparr>) s)\<lparr>ch_streams := remove1 a (ch_streams s)\<rparr>, Inr ()))"

definition stream_unref :: "nat \<Rightarrow> (chn_st, unit) act" where
  "stream_unref a s =
     (let s = upd_stream a (\<lambda>st. st\<lparr>st_count := st_count st - 1\<rparr>) s in
      if st_count (ch_stream s a) \<le> 0 then stream_dtor a s else Done (s, Inr ()))"

definition stream_lookup :: "string \<Rightarrow> bool \<Rightarrow> (chn_st, nat) act" where
  "stream_lookup nm rt s =
     (if CHR ''.'' \<in> set nm then Done (s, Inl (Err 0 ''Resource not allowed to use .''))
      else case find (\<lambda>a. drop (length (chn_files_root s) + 1) (st_path (ch_stream s a)) = nm) (ch_streams s) of
        Some a \<Rightarrow> Done (stream_ref a s, Inr a)
      | None \<Rightarrow> stream_new nm rt s)"

text \<open>Writing to the file of a stream: the data at their offset, and at the end of the data the file is cut.\<close>

definition truncate_to :: "string \<Rightarrow> nat \<Rightarrow> string" where
  "truncate_to f n = take n f @ replicate (n - length f) NUL"

definition write_file :: "nat \<Rightarrow> int \<Rightarrow> string \<Rightarrow> bool \<Rightarrow> (chn_st, unit) act" where
  "write_file i offset d eof s =
     (if offset < 0 \<and> d \<noteq> [] then Done (s, Inl (Err EINVAL ''Cannot write''))
      else case WriteTo [] (idata (ch_fs s) i) (nat offset) d of
        (f, Some e) \<Rightarrow> Done (s\<lparr>ch_fs := set_data (ch_fs s) i f\<rparr>, Inl e)
      | (f, None) \<Rightarrow>
          if \<not> eof then Done (s\<lparr>ch_fs := set_data (ch_fs s) i f\<rparr>, Inr ())
          else if offset + int (length d) < 0 then Done (s, Inl (Err EINVAL ''truncate stream''))
          else Done (s\<lparr>ch_fs := set_data (ch_fs s) i (truncate_to f (nat offset + length d))\<rparr>, Inr ()))"

text \<open>After an error, which stays pending, \<open>chn_tx_write\<close> returns at once for the readers that follow.\<close>

fun relay :: "nat \<Rightarrow> nat list \<Rightarrow> string \<Rightarrow> bool \<Rightarrow> (chn_st, unit) act" where
  "relay now [] d eof = ret ()"
| "relay now (a # as) d eof = bnd (chn_tx_write now a (int (length d)) (Some d) eof) (\<lambda>_. relay now as d eof)"

definition stream_write :: "nat \<Rightarrow> nat \<Rightarrow> int \<Rightarrow> string \<Rightarrow> bool \<Rightarrow> (chn_st, unit) act" where
  "stream_write now a offset d eof s =
     (if \<not> has_writer (ch_stream s a) then Crash
      else bnd (case st_fd (ch_stream s a) of None \<Rightarrow> ret () | Some i \<Rightarrow> write_file i offset d eof) (\<lambda>_ s.
        relay now (st_readers (ch_stream s a)) d eof s) s)"

definition stream_add_writer :: "nat \<Rightarrow> (chn_st, unit) act" where
  "stream_add_writer a s =
     (if has_writer (ch_stream s a) then Done (s, Inl (Err 0 ''a stream cannot have more than one writer''))
      else Done (stream_ref a (upd_stream a (\<lambda>st. st\<lparr>has_writer := True\<rparr>) s), Inr ()))"

definition stream_remove_writer :: "nat \<Rightarrow> (chn_st, unit) act" where
  "stream_remove_writer a s =
     (if \<not> has_writer (ch_stream s a) then Crash
      else stream_unref a (upd_stream a (\<lambda>st. st\<lparr>has_writer := False\<rparr>) s))"

definition stream_add_reader :: "nat \<Rightarrow> nat \<Rightarrow> chn_st \<Rightarrow> chn_st" where
  "stream_add_reader a tx s = stream_ref a (upd_stream a (\<lambda>st. st\<lparr>st_readers := tx # st_readers st\<rparr>) s)"

definition stream_remove_reader :: "nat \<Rightarrow> nat \<Rightarrow> (chn_st, unit) act" where
  "stream_remove_reader a tx s = stream_unref a (upd_stream a (\<lambda>st. st\<lparr>st_readers := remove1 tx (st_readers st)\<rparr>) s)"

text \<open>What the thread of a stream does for one of its readers: the next block of the file.\<close>

definition stream_push_one :: "nat \<Rightarrow> nat \<Rightarrow> nat \<Rightarrow> (chn_st, unit) act" where
  "stream_push_one now a tx s = (case st_fd (ch_stream s a) of
     None \<Rightarrow> Crash
   | Some i \<Rightarrow>
       let f = idata (ch_fs s) i; off = end_offset (ch_tx s tx); tot = int (length f);
           eof = (int STREAM_READ_BLOCK + off \<ge> tot);
           sz = (if eof then tot - off else int STREAM_READ_BLOCK)
       in if sz < 0 then Crash
          else case ReadFrom [] f (nat off) (nat sz) of
            Inl e \<Rightarrow> Done (s, Inl e)
          | Inr d \<Rightarrow> chn_tx_write now tx sz (Some d) eof s)"

section \<open>Transfers\<close>

definition chn_tx_new :: "nat \<Rightarrow> nat \<Rightarrow> bool \<Rightarrow> int \<Rightarrow> nat option \<Rightarrow> (chn_st, nat) act" where
  "chn_tx_new now cnx sender i so s =
     (let a = ch_next s;
          tx = \<lparr>tx_cnx = cnx, tx_id = i, tx_status = 0, tx_sender = sender, end_offset = 0, tx_stream = so,
                out_frags = [], in_frags = [], tx_ts = now\<rparr>;
          s = s\<lparr>ch_next := Suc a, ch_tx := (ch_tx s)(a := tx)\<rparr>
      in bnd (case so of
                None \<Rightarrow> ret ()
              | Some st \<Rightarrow> if sender then modify (stream_add_reader st a) else stream_add_writer st) (\<lambda>_ s.
           Done (upd_ccnx cnx (\<lambda>cc. cc\<lparr>cc_txs := a # cc_txs cc\<rparr>) s, Inr a)) s)"

definition chn_tx_release_stream :: "nat \<Rightarrow> (chn_st, unit) act" where
  "chn_tx_release_stream a s = (case tx_stream (ch_tx s a) of
     None \<Rightarrow> Done (s, Inr ())
   | Some st \<Rightarrow>
       bnd (if tx_sender (ch_tx s a) then stream_remove_reader st a else stream_remove_writer st) (\<lambda>_.
         modify (upd_tx a (\<lambda>tx. tx\<lparr>tx_stream := None\<rparr>))) s)"

definition chn_tx_dtor :: "nat \<Rightarrow> (chn_st, unit) act" where
  "chn_tx_dtor a s =
     chn_tx_release_stream a (upd_tx a (\<lambda>tx. tx\<lparr>in_frags := [], out_frags := []\<rparr>)
       (upd_ccnx (tx_cnx (ch_tx s a)) (\<lambda>cc. cc\<lparr>cc_txs := remove1 a (cc_txs cc)\<rparr>) s))"

definition chn_tx_set_status :: "nat \<Rightarrow> int \<Rightarrow> (chn_st, unit) act" where
  "chn_tx_set_status a status s =
     (if tx_status (ch_tx s a) \<noteq> 0 \<or> status = 0 then Crash
      else chn_tx_release_stream a (upd_tx a (\<lambda>tx. tx\<lparr>tx_status := status\<rparr>) s))"

definition find_wtx :: "chn_st \<Rightarrow> nat \<Rightarrow> int \<Rightarrow> nat option" where
  "find_wtx s cnx i = find (\<lambda>a. tx_sender (ch_tx s a) \<and> tx_id (ch_tx s a) = i) (cc_txs (ch_cnx s cnx))"

definition find_rtx :: "chn_st \<Rightarrow> nat \<Rightarrow> int \<Rightarrow> nat option" where
  "find_rtx s cnx i = find (\<lambda>a. \<not> tx_sender (ch_tx s a) \<and> tx_id (ch_tx s a) = i) (cc_txs (ch_cnx s cnx))"

section \<open>Fragments received\<close>

definition was_long_ago :: "nat \<Rightarrow> nat \<Rightarrow> bool" where
  "was_long_ago ts now \<longleftrightarrow> ts + RETRANSM_TIMEOUT < now"

text \<open>
  The loop over the fragments: those kept so far with the last one first, the end of the last one, the parts to ask
  for. The sending of a request fails when the connection is broken, and ends the loop: the last component tells whether it did.
\<close>

fun check_loop :: "bool \<Rightarrow> nat \<Rightarrow> fragment list \<Rightarrow> int \<Rightarrow> (int \<times> int) list \<Rightarrow> fragment list \<Rightarrow>
    fragment list \<times> (int \<times> int) list \<times> bool" where
  "check_loop ok now kept last_end asks [] = (kept, asks, False)"
| "check_loop ok now kept last_end asks (f # fs) =
     (if fr_start f > last_end \<and> was_long_ago (fr_ts f) now then
        (if ok then check_loop ok now (f\<lparr>fr_ts := now\<rparr> # kept) (fr_end f) (asks @ [(last_end, fr_start f - last_end)]) fs
         else (rev fs @ f # kept, asks, True))
      else case kept of
        [] \<Rightarrow> check_loop ok now [f] (fr_end f) asks fs
      | last_frag # ks \<Rightarrow>
          (let lf = (if fr_end f \<ge> fr_end last_frag then last_frag\<lparr>fr_end := fr_end f, fr_eof := fr_eof f\<rparr> else last_frag)
           in check_loop ok now (lf # ks) (fr_end lf) asks fs))"

text \<open>The fragments, the time of the transfer, the parts to ask for, whether a request failed.\<close>

definition check_frags :: "bool \<Rightarrow> nat \<Rightarrow> nat \<Rightarrow> fragment list \<Rightarrow> fragment list \<times> nat \<times> (int \<times> int) list \<times> bool" where
  "check_frags ok now ts fs = (case check_loop ok now [] 0 [] fs of
     (kept, asks, True) \<Rightarrow> (rev kept, ts, asks, True)
   | (last_frag # ks, asks, False) \<Rightarrow>
       if \<not> fr_eof last_frag \<and> was_long_ago (fr_ts last_frag) now then
         (if ok then (rev (last_frag\<lparr>fr_ts := now\<rparr> # ks), ts, asks @ [(fr_end last_frag, 1)], False)
          else (rev (last_frag # ks), ts, asks, True))
       else (rev (last_frag # ks), ts, asks, False)
   | ([], asks, False) \<Rightarrow>
       if was_long_ago ts now then (if ok then ([], now, asks @ [(0, 1)], False) else ([], ts, asks, True))
       else ([], ts, asks, False))"

definition ask_retransmit :: "int \<Rightarrow> int \<times> int \<Rightarrow> string" where
  "ask_retransmit i ask = kw_miss @ [SP] @ dec_int i @ [SP] @ dec_int (fst ask mod 2 ^ 32) @ [SP] @ dec_int (snd ask) @ [NL]"

definition check_in_frags :: "nat \<Rightarrow> nat \<Rightarrow> (chn_st, unit) act" where
  "check_in_frags now a s =
     (let tx = ch_tx s a; cnx = tx_cnx tx; c = cc_cnx (ch_cnx s cnx) in
      case check_frags (broken c = None) now (tx_ts tx) (in_frags tx) of (fs, ts, asks, failed) \<Rightarrow>
        let s = upd_tx a (\<lambda>tx. tx\<lparr>in_frags := fs, tx_ts := ts\<rparr>)
                  (upd_ccnx cnx (\<lambda>cc. cc\<lparr>cc_cnx := c\<lparr>sock_out := sock_out c @ concat (map (ask_retransmit (tx_id tx)) asks)\<rparr>\<rparr>) s)
        in if failed then Done (s, Inl (Err (the (broken c)) ''Cannot write'')) else Done (s, Inr ()))"

text \<open>One turn of the thread that checks a receiver.\<close>

definition tx_checker :: "nat \<Rightarrow> nat \<Rightarrow> (chn_st, unit) act" where
  "tx_checker now a s = (if cc_status (ch_cnx s (tx_cnx (ch_tx s a))) = 0 then check_in_frags now a s else Done (s, Inr ()))"


section \<open>Commands\<close>

definition arg_int :: "mdir_cmd \<Rightarrow> nat \<Rightarrow> int" where
  "arg_int cmd k = (if k < length (c_args cmd) then case c_args cmd ! k of ArgInt i \<Rightarrow> i | ArgStr _ \<Rightarrow> 0 else 0)"

definition arg_string :: "mdir_cmd \<Rightarrow> nat \<Rightarrow> string" where
  "arg_string cmd k = (if k < length (c_args cmd) then case c_args cmd ! k of ArgStr t \<Rightarrow> t | ArgInt _ \<Rightarrow> [] else [])"

definition chn_answer :: "nat \<Rightarrow> mdir_cmd \<Rightarrow> int \<Rightarrow> string \<Rightarrow> (chn_st, unit) act" where
  "chn_answer cnx cmd status compl = on_ccnx cnx (mdir_cnx_answer cmd status compl)"

text \<open>Reading a number of bytes from the connection: what was read, or the error and what is left.\<close>

fun read_bytes :: "nat \<Rightarrow> input \<Rightarrow> string \<Rightarrow> string res \<times> input" where
  "read_bytes 0 inp acc = (Inr acc, inp)"
| "read_bytes (Suc n) [] acc = (Fail 0 ''EOF'', [])"
| "read_bytes (Suc n) (Got c # inp) acc = read_bytes n inp (acc @ [c])"
| "read_bytes (Suc n) (RdErr e # inp) acc =
     (if retryable e then read_bytes (Suc n) inp acc else (Fail e ''Cannot pth_read'', inp))"

definition take_data :: "nat \<Rightarrow> nat \<Rightarrow> (chn_st, string) act" where
  "take_data cnx n s = (case read_bytes n (cc_in (ch_cnx s cnx)) [] of
     (r, inp) \<Rightarrow> Done (upd_ccnx cnx (\<lambda>cc. cc\<lparr>cc_in := inp\<rparr>) s, r))"

text \<open>The receiver thanks once what it has is one fragment from the start to the end of the file.\<close>

definition thank :: "nat \<Rightarrow> nat \<Rightarrow> nat \<Rightarrow> (chn_st, unit) act" where
  "thank now cnx a s = (case in_frags (ch_tx s a) of
     [f] \<Rightarrow> if fr_eof f \<and> fr_start f = 0
           then on_ccnx cnx (mdir_cnx_query (int now) kw_thx None (Some a) [dec_int (tx_id (ch_tx s a))]) s
           else Done (s, Inr ())
   | [] \<Rightarrow> Crash
   | _ \<Rightarrow> Done (s, Inr ()))"

text \<open>A negative size is a huge \<open>size_t\<close>, that cannot be allocated. A transfer that is over has no stream.\<close>

definition serve_copy :: "nat \<Rightarrow> nat \<Rightarrow> mdir_cmd \<Rightarrow> (chn_st, unit) act" where
  "serve_copy now cnx cmd s =
     (let i = arg_int cmd 0; offset = arg_int cmd 1; sz = arg_int cmd 2; eof = (length (c_args cmd) = 4) in
      case find_rtx s cnx i of
        None \<Rightarrow> chn_answer cnx cmd 500 ''No such receiving tx id'' s
      | Some a \<Rightarrow>
          if sz < 0 then chn_answer cnx cmd 501 ''Cannot malloc(data)'' s
          else bnd (attempt (take_data cnx (nat sz))) (\<lambda>r. case r of
            Inl e \<Rightarrow> chn_answer cnx cmd 501 ''Cannot read data''
          | Inr d \<Rightarrow>
              bnd (attempt (\<lambda>s. case tx_stream (ch_tx s a) of None \<Rightarrow> Crash | Some st \<Rightarrow> stream_write now st offset d eof s)) (\<lambda>r. case r of
                Inl e \<Rightarrow> bnd (attempt (chn_answer cnx cmd 501 (err_what e))) (\<lambda>_. chn_tx_set_status a 501)
              | Inr _ \<Rightarrow>
                  bnd (chn_answer cnx cmd 200 ''OK'') (\<lambda>_.
                  bnd (modify (upd_tx a (\<lambda>tx. in_frag_ctor tx now offset sz eof))) (\<lambda>_.
                  bnd (check_in_frags now a) (\<lambda>_.
                    thank now cnx a))))) s)"

definition serve_skip :: "mdir_cmd \<Rightarrow> (chn_st, unit) act" where
  "serve_skip cmd = ret ()"

definition serve_miss :: "mdir_cmd \<Rightarrow> (chn_st, unit) act" where
  "serve_miss cmd = ret ()"

definition serve_thx :: "nat \<Rightarrow> mdir_cmd \<Rightarrow> (chn_st, unit) act" where
  "serve_thx cnx cmd s = (case find_wtx s cnx (arg_int cmd 0) of
     None \<Rightarrow> chn_answer cnx cmd 500 ''No such sending tx id'' s
   | Some a \<Rightarrow> bnd (chn_tx_set_status a 200) (\<lambda>_. chn_answer cnx cmd 200 ''Ok'') s)"

definition finalize_thx :: "nat \<Rightarrow> nat \<Rightarrow> mdir_cmd \<Rightarrow> (chn_st, unit) act" where
  "finalize_thx now cnx cmd = bnd (on_ccnx cnx (mdir_cnx_query_retrieve (int now) cmd)) (\<lambda>a. chn_tx_set_status a (arg_int cmd 0))"

text \<open>A command without number has the number 0, not -1; the reference that \<open>stream_lookup\<close> takes is kept.\<close>

definition serve_read_write :: "nat \<Rightarrow> nat \<Rightarrow> mdir_cmd \<Rightarrow> bool \<Rightarrow> (chn_st, unit) act" where
  "serve_read_write now cnx cmd reader =
     (if c_seq cmd = - 1 then chn_answer cnx cmd 500 ''Missing seqnum''
      else bnd (attempt (stream_lookup (arg_string cmd 0) (1 < length (c_args cmd)))) (\<lambda>r. case r of
        Inl e \<Rightarrow> chn_answer cnx cmd 500 ''Cannot lookup this name''
      | Inr st \<Rightarrow> bnd (attempt (chn_tx_new now cnx reader (c_seq cmd) (Some st))) (\<lambda>r. case r of
          Inl e \<Rightarrow> chn_answer cnx cmd 500 ''Cannot start transfert''
        | Inr _ \<Rightarrow> chn_answer cnx cmd 200 ''Ok'')))"

definition serve_write :: "nat \<Rightarrow> nat \<Rightarrow> mdir_cmd \<Rightarrow> (chn_st, unit) act" where
  "serve_write now cnx cmd = serve_read_write now cnx cmd False"

definition serve_read :: "nat \<Rightarrow> nat \<Rightarrow> mdir_cmd \<Rightarrow> (chn_st, unit) act" where
  "serve_read now cnx cmd = serve_read_write now cnx cmd True"

definition serve_quit :: "nat \<Rightarrow> mdir_cmd \<Rightarrow> (chn_st, unit) act" where
  "serve_quit cnx cmd = bnd (modify (upd_ccnx cnx (\<lambda>cc. cc\<lparr>cc_status := 200\<rparr>))) (\<lambda>_. chn_answer cnx cmd 200 ''Ok'')"

definition serve_auth :: "nat \<Rightarrow> mdir_cmd \<Rightarrow> (chn_st, unit) act" where
  "serve_auth cnx cmd = chn_answer cnx cmd 200 ''Ok''"

definition chn_cnx_all_tx_done :: "chn_st \<Rightarrow> nat \<Rightarrow> bool" where
  "chn_cnx_all_tx_done s cnx \<longleftrightarrow> cc_status (ch_cnx s cnx) \<noteq> 0 \<or>
     list_all (\<lambda>a. tx_status (ch_tx s a) \<noteq> 0) (cc_txs (ch_cnx s cnx))"

section \<open>The protocol\<close>

definition chn_def :: "string \<Rightarrow> string \<Rightarrow> nat \<Rightarrow> nat \<Rightarrow> mdir_cmd_arg_type list \<Rightarrow> mdir_cmd_def" where
  "chn_def kw callback amin amax types = \<lparr>keyword = kw, cb = callback, nb_arg_min = amin, nb_arg_max = amax,
     arg_types = types, negseq = False\<rparr>"

definition def_common :: "mdir_cmd_def list" where
  "def_common = [
     chn_def kw_copy ''serve_copy'' 3 4 [CMD_INTEGER, CMD_INTEGER, CMD_INTEGER],
     chn_def kw_skip ''serve_skip'' 3 4 [CMD_INTEGER, CMD_INTEGER],
     chn_def kw_miss ''serve_miss'' 3 3 [CMD_INTEGER, CMD_INTEGER],
     chn_def kw_thx ''serve_thx'' 1 1 [CMD_INTEGER],
     MDIR_CNX_ANSW_REGISTER kw_thx ''finalize_thx'']"

definition def_server :: "mdir_cmd_def list" where
  "def_server = [
     chn_def kw_write ''serve_write'' 1 2 [CMD_STRING, CMD_STRING],
     chn_def kw_read ''serve_read'' 1 1 [CMD_STRING],
     chn_def kw_quit ''serve_quit'' 0 0 [],
     chn_def kw_auth ''serve_auth'' 1 1 [CMD_STRING]]"

definition def_client :: "mdir_cmd_def list" where
  "def_client = [MDIR_CNX_ANSW_REGISTER kw_write ''finalize_txstart'', MDIR_CNX_ANSW_REGISTER kw_read ''finalize_txstart'']"

definition chn_syntax :: "bool \<Rightarrow> mdir_syntax" where
  "chn_syntax server = fold (\<lambda>d sy. mdir_syntax_register sy d) (def_common @ (if server then def_server else def_client))
     (mdir_syntax_ctor True)"

definition chn_exec :: "nat \<Rightarrow> nat \<Rightarrow> mdir_cmd \<Rightarrow> (chn_st, unit) act" where
  "chn_exec now cnx cmd =
     (let f = cb (c_def cmd) in
      if f = ''serve_copy'' then serve_copy now cnx cmd
      else if f = ''serve_skip'' then serve_skip cmd
      else if f = ''serve_miss'' then serve_miss cmd
      else if f = ''serve_thx'' then serve_thx cnx cmd
      else if f = ''finalize_thx'' then finalize_thx now cnx cmd
      else if f = ''serve_write'' then serve_write now cnx cmd
      else if f = ''serve_read'' then serve_read now cnx cmd
      else if f = ''serve_quit'' then serve_quit cnx cmd
      else if f = ''serve_auth'' then serve_auth cnx cmd
      else ret ())"

text \<open>A turn of the reader of a connection of the server: an error becomes the status of the connection.\<close>

definition reader_turn :: "nat \<Rightarrow> nat \<Rightarrow> (chn_st, unit) act" where
  "reader_turn now cnx s =
     (case mdir_cmd_read (cnx_syntax (cc_cnx (ch_cnx s cnx))) (cc_in (ch_cnx s cnx)) of (r, inp) \<Rightarrow>
        let s = upd_ccnx cnx (\<lambda>cc. cc\<lparr>cc_in := inp\<rparr>) s in
        case (case r of Done cmd \<Rightarrow> chn_exec now cnx cmd s | Raised e \<Rightarrow> Done (s, Inl e) | Crash \<Rightarrow> Crash) of
          Done (s, Inr _) \<Rightarrow> Done (s, Inr ())
        | Done (s, Inl e) \<Rightarrow> Done (upd_ccnx cnx (\<lambda>cc. cc\<lparr>cc_status := 500 + err_code e\<rparr>) s, Inr ())
        | Raised e \<Rightarrow> Raised e
        | Crash \<Rightarrow> Crash)"


section \<open>Chunks\<close>

text \<open>The chunks that data are cut into: offset, contents, end of file.\<close>

function chunks :: "int \<Rightarrow> string \<Rightarrow> bool \<Rightarrow> (int \<times> string \<times> bool) list" where
  "chunks offset d eof = (if length d \<le> CHUNK_SIZE then [(offset, d, eof)]
     else (offset, take CHUNK_SIZE d, False) # chunks (offset + int CHUNK_SIZE) (drop CHUNK_SIZE d) eof)"
  by pat_completeness auto
termination
  by (relation "measure (\<lambda>(offset, d, eof). length d)") (auto simp: CHUNK_SIZE_def)

declare chunks.simps [simp del]

definition chunk_text :: "int \<Rightarrow> int \<times> string \<times> bool \<Rightarrow> string" where
  "chunk_text i ch = (case ch of (offset, d, eof) \<Rightarrow> kw_copy @ [SP] @ chunk_params i offset (length d) eof @ [NL] @ d)"

definition usable :: "mdir_cnx \<Rightarrow> bool" where
  "usable c \<longleftrightarrow> connected c \<and> authed c \<and> broken c = None"

lemma kw_copy_ne [simp]: "kw_copy \<noteq> kw_auth" "kw_skip \<noteq> kw_auth" "kw_thx \<noteq> kw_auth"
  by (simp_all add: kw_copy_def kw_skip_def kw_thx_def kw_auth_def)

lemma send_chunk_ok:
  assumes "usable c" "fr_box f = Some d" "fr_end f = fr_start f + int (length d)" "fr_start f \<le> offset" "offset \<le> fr_end f"
    "r = drop (nat (offset - fr_start f)) d"
  obtains c' where "send_chunk now i f offset c = Done (c', Inr (min CHUNK_SIZE (length r)))" "usable c'"
    "sock_out c' = sock_out c @ chunk_text i (offset, take CHUNK_SIZE r, fr_eof f \<and> length r \<le> CHUNK_SIZE)"
    "cnx_syntax c' = cnx_syntax c" "sent_queries c' = sent_queries c"
proof -
  have len: "length r = nat (fr_end f - offset)" using assms(3-6) by auto
  then have cl: "chunk_len f offset = min CHUNK_SIZE (length r)" by (simp add: chunk_len_def)
  have tk: "take (min CHUNK_SIZE (length d - k)) (drop k d) = take CHUNK_SIZE (drop k d)" for k by (simp add: min_def)
  let ?c1 = "c\<lparr>next_seq_no := next_seq_no c + 1\<rparr>"
  let ?t = "kw_copy @ SP # chunk_params i offset (min CHUNK_SIZE (length r)) (fr_eof f \<and> length r \<le> CHUNK_SIZE) @ [NL]"
  have q: "mdir_cnx_query (int now) kw_copy None None [chunk_params i offset (min CHUNK_SIZE (length r)) (fr_eof f \<and> length r \<le> CHUNK_SIZE)] c =
      Done (?c1\<lparr>sock_out := sock_out c @ ?t\<rparr>, Inr ())"
    using assms(1) by (simp add: mdir_cnx_query_def usable_def bnd_def cnx_write_def query_text_def Let_def)
  show thesis
    by (rule that [of "?c1\<lparr>sock_out := sock_out c @ ?t @ take CHUNK_SIZE r\<rparr>"])
      (use assms(1,2,4,6) q in \<open>auto simp: send_chunk_def cl Let_def bnd_def len [symmetric] cnx_write_def usable_def tk chunk_text_def min.commute\<close>)
qed

lemma send_all_chunks_ok:
  assumes "usable c" "fr_box f = Some d" "fr_end f = fr_start f + int (length d)" "fr_start f \<le> offset" "offset \<le> fr_end f"
  shows "\<exists>c'. send_all_chunks now i f offset c = Done (c', Inr ()) \<and> usable c' \<and> cnx_syntax c' = cnx_syntax c \<and>
    sent_queries c' = sent_queries c \<and>
    sock_out c' = sock_out c @ concat (map (chunk_text i) (chunks offset (drop (nat (offset - fr_start f)) d) (fr_eof f)))"
  using assms
proof (induction "nat (fr_end f - offset)" arbitrary: offset c rule: less_induct)
  case less
  let ?r = "drop (nat (offset - fr_start f)) d"
  have len: "length ?r = nat (fr_end f - offset)" using less.prems by auto
  obtain c1 where c1: "send_chunk now i f offset c = Done (c1, Inr (min CHUNK_SIZE (length ?r)))" "usable c1"
    "sock_out c1 = sock_out c @ chunk_text i (offset, take CHUNK_SIZE ?r, fr_eof f \<and> length ?r \<le> CHUNK_SIZE)"
    "cnx_syntax c1 = cnx_syntax c" "sent_queries c1 = sent_queries c"
    using send_chunk_ok [OF less.prems refl] by metis
  show ?case
  proof (cases "length ?r \<le> CHUNK_SIZE")
    case True
    with c1 len less.prems(5) show ?thesis
      by (auto simp: send_all_chunks.simps [of now i f offset c] chunks.simps [of offset ?r])
  next
    case False
    then have lt: "offset + int CHUNK_SIZE < fr_end f" using len by auto
    have n: "nat (fr_end f - (offset + int CHUNK_SIZE)) < nat (fr_end f - offset)" using lt by (simp add: CHUNK_SIZE_def)
    have "nat (offset + int CHUNK_SIZE - fr_start f) = CHUNK_SIZE + nat (offset - fr_start f)" using less.prems(4) by arith
    then have d: "drop (nat (offset + int CHUNK_SIZE - fr_start f)) d = drop CHUNK_SIZE ?r" by simp
    from less.hyps [OF n c1(2) less.prems(2,3)] less.prems(4) lt obtain c2 where
      "send_all_chunks now i f (offset + int CHUNK_SIZE) c1 = Done (c2, Inr ())" "usable c2" "cnx_syntax c2 = cnx_syntax c1"
      "sent_queries c2 = sent_queries c1"
      "sock_out c2 = sock_out c1 @ concat (map (chunk_text i) (chunks (offset + int CHUNK_SIZE) (drop CHUNK_SIZE ?r) (fr_eof f)))"
      by (auto simp: d)
    with c1 False lt show ?thesis
      by (auto simp: send_all_chunks.simps [of now i f offset c] chunks.simps [of offset ?r] min_def)
  qed
qed


section \<open>Reading chunks\<close>

definition def_copy :: mdir_cmd_def where
  "def_copy = chn_def kw_copy ''serve_copy'' 3 4 [CMD_INTEGER, CMD_INTEGER, CMD_INTEGER]"

definition copy_cmd :: "int \<Rightarrow> int \<Rightarrow> nat \<Rightarrow> bool \<Rightarrow> mdir_cmd" where
  "copy_cmd i offset n eof = \<lparr>c_def = def_copy, c_seq = 0,
     c_args = [ArgInt i, ArgInt offset, ArgInt (int n)] @ (if eof then [ArgStr ''*''] else [])\<rparr>"

lemma find_copy: "find_def (defs (chn_syntax server)) 0 kw_copy = Some def_copy"
proof -
  have k: "\<not> same_keyword kw_skip kw_copy" "\<not> same_keyword kw_miss kw_copy" "\<not> same_keyword kw_thx kw_copy"
    "\<not> same_keyword kw_write kw_copy" "\<not> same_keyword kw_read kw_copy" "\<not> same_keyword kw_quit kw_copy"
    "\<not> same_keyword kw_auth kw_copy" "same_keyword kw_copy kw_copy" by code_simp+
  show ?thesis
    using k by (simp add: find_def_def chn_syntax_def def_common_def def_server_def def_client_def chn_def_def
        MDIR_CNX_ANSW_REGISTER_def mdir_syntax_register_def mdir_syntax_ctor_def def_copy_def)
qed

lemma read_chunk:
  assumes "0 \<le> i" "i < 2 ^ 63" "0 \<le> offset" "offset < 2 ^ 32" "n < 2 ^ 31"
  shows "mdir_cmd_read (chn_syntax server) (map Got (kw_copy @ [SP] @ chunk_params i offset n eof @ [NL]) @ rest) =
    (Done (copy_cmd i offset n eof), rest)"
proof -
  let ?ws = "[dec_int i, dec_int offset, dec_int (int n)] @ (if eof then [''*''] else [])"
  have ok: "list_all word_ok (kw_copy # ?ws)"
    using word_ok_dec_int by (auto simp: kw_copy_def word_ok_def is_delimiter_def)
  have seq: "\<not> is_seq kw_copy" by code_simp
  have t: "kw_copy @ [SP] @ chunk_params i offset n eof = join (kw_copy # ?ws)"
    using assms(3,4) by (simp add: chunk_params_def dec_int_def)
  have l: "length (dec_int i) \<le> 19" "length (dec_int offset) \<le> 19" "length (dec_int (int n)) \<le> 19"
    using length_dec_nat [of 19 "nat i"] length_dec_nat [of 19 "nat offset"] length_dec_nat [of 19 n] assms
    by (auto simp: dec_int_def)
  have v: "strtoll0 (dec_int i) = (i, [])" "strtoll0 (dec_int offset) = (offset, [])" "strtoll0 (dec_int (int n)) = (int n, [])"
    using assms by (auto intro: strtoll0_dec_int)
  have "mdir_cmd_read (chn_syntax server) (map Got (join (kw_copy # ?ws) @ [NL]) @ rest) = (with_args def_copy 0 ?ws, rest)"
    by (rule read_plain_line [OF ok _ seq _ find_copy])
      (use l in \<open>auto simp: MAX_CMD_LINE_def PATH_MAX_def CMD_MAX_ARGS_def def_copy_def chn_def_def kw_copy_def\<close>)
  moreover have "with_args def_copy 0 ?ws = Done (copy_cmd i offset n eof)"
    using v by (auto simp: with_args_def args_of_def def_copy_def chn_def_def transcode_def copy_cmd_def)
  ultimately show ?thesis using t by (metis append.assoc)
qed


section \<open>Receiving\<close>

lemma upd_simps [simp]:
  "ch_cnx (upd_tx a f s) = ch_cnx s" "ch_stream (upd_tx a f s) = ch_stream s" "ch_fs (upd_tx a f s) = ch_fs s"
  "ch_tx (upd_tx a f s) b = (if b = a then f (ch_tx s a) else ch_tx s b)"
  "ch_tx (upd_ccnx k g s) = ch_tx s" "ch_stream (upd_ccnx k g s) = ch_stream s" "ch_fs (upd_ccnx k g s) = ch_fs s"
  "ch_cnx (upd_ccnx k g s) m = (if m = k then g (ch_cnx s k) else ch_cnx s m)"
  by (simp_all add: upd_tx_def upd_ccnx_def)

text \<open>A transfer that receives a file into an inode, on a connection that works, and that nobody else reads.\<close>

definition receiving :: "chn_st \<Rightarrow> nat \<Rightarrow> nat \<Rightarrow> nat \<Rightarrow> int \<Rightarrow> bool" where
  "receiving s cnx a i ident \<longleftrightarrow> find_rtx s cnx ident = Some a \<and> tx_cnx (ch_tx s a) = cnx \<and>
     (\<exists>st. tx_stream (ch_tx s a) = Some st \<and> has_writer (ch_stream s st) \<and> st_readers (ch_stream s st) = [] \<and>
        st_fd (ch_stream s st) = Some i) \<and>
     usable (cc_cnx (ch_cnx s cnx)) \<and> (\<exists>server. cnx_syntax (cc_cnx (ch_cnx s cnx)) = chn_syntax server)"

text \<open>What is kept of a state by the reception: all but the file, the fragments and what was read and sent.\<close>

definition tx_frame :: "nat \<Rightarrow> nat \<Rightarrow> chn_st \<Rightarrow> chn_st \<Rightarrow> bool" where
  "tx_frame cnx a s s' \<longleftrightarrow> ch_stream s' = ch_stream s \<and>
     (\<exists>fs ts. ch_tx s' = (ch_tx s)(a := (ch_tx s a)\<lparr>in_frags := fs, tx_ts := ts\<rparr>)) \<and>
     (\<forall>k. cc_txs (ch_cnx s' k) = cc_txs (ch_cnx s k)) \<and>
     usable (cc_cnx (ch_cnx s' cnx)) \<and> cnx_syntax (cc_cnx (ch_cnx s' cnx)) = cnx_syntax (cc_cnx (ch_cnx s cnx))"

lemma receiving_frame:
  assumes "receiving s cnx a i ident" "tx_frame cnx a s s'"
  shows "receiving s' cnx a i ident"
proof -
  obtain fs ts where t: "ch_tx s' = (ch_tx s)(a := (ch_tx s a)\<lparr>in_frags := fs, tx_ts := ts\<rparr>)"
    using assms(2) by (auto simp: tx_frame_def)
  have "(\<lambda>b. \<not> tx_sender (ch_tx s' b) \<and> tx_id (ch_tx s' b) = ident) = (\<lambda>b. \<not> tx_sender (ch_tx s b) \<and> tx_id (ch_tx s b) = ident)"
    by (auto simp: t)
  then have "find_rtx s' cnx ident = find_rtx s cnx ident"
    using assms(2) by (simp add: find_rtx_def tx_frame_def)
  with assms t show ?thesis by (auto simp: receiving_def tx_frame_def)
qed

lemma read_bytes_got: "length d = n \<Longrightarrow> read_bytes n (map Got d @ rest) acc = (Inr (acc @ d), rest)"
proof (induction d arbitrary: n acc)
  case (Cons c d)
  then show ?case by (cases n) auto
qed auto

definition written :: "string \<Rightarrow> nat \<Rightarrow> string \<Rightarrow> bool \<Rightarrow> string" where
  "written f offset d eof = (let g = (if d = [] then f else pwrite_bytes f offset d) in
     if eof then truncate_to g (offset + length d) else g)"

lemma write_file_ok: "0 \<le> offset \<Longrightarrow> write_file i offset d eof s =
    Done (s\<lparr>ch_fs := set_data (ch_fs s) i (written (idata (ch_fs s) i) (nat offset) d eof)\<rparr>, Inr ())"
  by (auto simp: write_file_def WriteTo_def written_def Let_def)

definition new_frag :: "nat \<Rightarrow> int \<Rightarrow> nat \<Rightarrow> bool \<Rightarrow> fragment" where
  "new_frag now offset n eof = \<lparr>fr_ts = now, fr_box = None, fr_start = offset, fr_end = offset + int n, fr_eof = eof\<rparr>"

definition complete :: "fragment list \<Rightarrow> bool" where
  "complete fs \<longleftrightarrow> (\<exists>f. fs = [f] \<and> fr_eof f \<and> fr_start f = 0)"

lemma no_answer: "usable c \<Longrightarrow> cnx_syntax c = chn_syntax server \<Longrightarrow> mdir_cnx_answer (copy_cmd i offset n eof) st tx c = Done (c, Inr ())"
proof -
  have "no_answer_if_no_seqnum (chn_syntax server)"
    by (simp add: chn_syntax_def def_common_def def_server_def def_client_def mdir_syntax_register_def mdir_syntax_ctor_def)
  then show "usable c \<Longrightarrow> cnx_syntax c = chn_syntax server \<Longrightarrow> mdir_cnx_answer (copy_cmd i offset n eof) st tx c = Done (c, Inr ())"
    by (simp add: mdir_cnx_answer_def answer_text_def copy_cmd_def usable_def)
qed

lemma on_ccnx_same: "m (cc_cnx (ch_cnx s k)) = Done (cc_cnx (ch_cnx s k), r) \<Longrightarrow> on_ccnx k m s = Done (s, r)"
  by (simp add: on_ccnx_def upd_ccnx_def)

lemma serve_copy_ok:
  assumes "receiving s cnx a i ident" "cc_in (ch_cnx s cnx) = map Got d @ rest" "0 \<le> offset"
    "check_frags True now (tx_ts (ch_tx s a)) (insert_by_offset (in_frags (ch_tx s a)) (new_frag now offset (length d) eof)) =
       (fs, ts, asks, False)" "fs \<noteq> []"
  obtains s' where "serve_copy now cnx (copy_cmd ident offset (length d) eof) s = Done (s', Inr ())" "tx_frame cnx a s s'"
    "cc_in (ch_cnx s' cnx) = rest" "in_frags (ch_tx s' a) = fs" "cc_status (ch_cnx s' cnx) = cc_status (ch_cnx s cnx)"
    "idata (ch_fs s') i = written (idata (ch_fs s) i) (nat offset) d eof"
    "map sq_addr (sent_queries (cc_cnx (ch_cnx s' cnx))) =
       (if complete fs then [a] else []) @ map sq_addr (sent_queries (cc_cnx (ch_cnx s cnx)))"
proof -
  obtain st server where r: "find_rtx s cnx ident = Some a" "tx_cnx (ch_tx s a) = cnx" "tx_stream (ch_tx s a) = Some st"
    "has_writer (ch_stream s st)" "st_readers (ch_stream s st) = []" "st_fd (ch_stream s st) = Some i"
    "usable (cc_cnx (ch_cnx s cnx))" "cnx_syntax (cc_cnx (ch_cnx s cnx)) = chn_syntax server"
    using assms(1) by (auto simp: receiving_def)
  let ?s1 = "(upd_ccnx cnx (\<lambda>cc. cc\<lparr>cc_in := rest\<rparr>) s)"
  let ?s2 = "?s1\<lparr>ch_fs := set_data (ch_fs s) i (written (idata (ch_fs s) i) (nat offset) d eof)\<rparr>"
  let ?s3 = "upd_tx a (\<lambda>tx. in_frag_ctor tx now offset (int (length d)) eof) ?s2"
  let ?c = "cc_cnx (ch_cnx s cnx)"
  let ?c4 = "?c\<lparr>sock_out := sock_out ?c @ concat (map (ask_retransmit (tx_id (ch_tx s a))) asks)\<rparr>"
  let ?s4 = "upd_tx a (\<lambda>tx. tx\<lparr>in_frags := fs, tx_ts := ts\<rparr>) (upd_ccnx cnx (\<lambda>cc. cc\<lparr>cc_cnx := ?c4\<rparr>) ?s3)"
  have args: "arg_int (copy_cmd ident offset (length d) eof) 0 = ident" "arg_int (copy_cmd ident offset (length d) eof) 1 = offset"
    "arg_int (copy_cmd ident offset (length d) eof) 2 = int (length d)" "(length (c_args (copy_cmd ident offset (length d) eof)) = 4) = eof"
    by (simp_all add: arg_int_def copy_cmd_def)
  have t: "take_data cnx (length d) s = Done (?s1, Inr d)"
    by (simp add: take_data_def assms(2) read_bytes_got)
  have w: "stream_write now st offset d eof ?s1 = Done (?s2, Inr ())"
    using r assms(3) by (simp add: stream_write_def write_file_ok bnd_def)
  have an: "chn_answer cnx (copy_cmd ident offset (length d) eof) 200 ''OK'' ?s2 = Done (?s2, Inr ())"
    unfolding chn_answer_def by (rule on_ccnx_same) (simp add: no_answer [OF r(7,8)])
  have ck: "check_in_frags now a ?s3 = Done (?s4, Inr ())"
    using assms(4) r(2,7) by (simp add: check_in_frags_def in_frag_ctor_def new_frag_def usable_def Let_def)
  have fin: "serve_copy now cnx (copy_cmd ident offset (length d) eof) s = thank now cnx a ?s4"
    unfolding serve_copy_def args Let_def r(1)
    by (simp add: bnd_def attempt_def t r(3) w an modify_def ck)
  have c4: "usable ?c4" using r(7) by (simp add: usable_def)
  have u4: "in_frags (ch_tx ?s4 a) = fs" "cc_cnx (ch_cnx ?s4 cnx) = ?c4" by simp_all
  show thesis
  proof (cases "complete fs")
    case True
    then obtain f where f: "fs = [f]" "fr_eof f" "fr_start f = 0" by (auto simp: complete_def)
    let ?q = "mdir_cnx_query (int now) kw_thx None (Some a) [dec_int (tx_id (ch_tx s a))]"
    have q: "?q ?c4 = Done (?c4\<lparr>next_seq_no := next_seq_no ?c4 + 1,
       sock_out := sock_out ?c4 @ query_text (Some (next_seq_no ?c4)) kw_thx [dec_int (tx_id (ch_tx s a))] None,
       sent_queries := \<lparr>sq_addr = a, sq_seq = next_seq_no ?c4, sq_creation = int now\<rparr> # sent_queries ?c4\<rparr>, Inr ())"
      using c4 by (intro mdir_cnx_query_ok) (auto simp: usable_def)
    let ?c5 = "?c4\<lparr>next_seq_no := next_seq_no ?c4 + 1,
       sock_out := sock_out ?c4 @ query_text (Some (next_seq_no ?c4)) kw_thx [dec_int (tx_id (ch_tx s a))] None,
       sent_queries := \<lparr>sq_addr = a, sq_seq = next_seq_no ?c4, sq_creation = int now\<rparr> # sent_queries ?c4\<rparr>"
    have "thank now cnx a ?s4 = Done (upd_ccnx cnx (\<lambda>cc. cc\<lparr>cc_cnx := ?c5\<rparr>) ?s4, Inr ())"
      using f q by (simp add: thank_def on_ccnx_def in_frag_ctor_def)
    then show thesis
      using True c4
      by (intro that [of "upd_ccnx cnx (\<lambda>cc. cc\<lparr>cc_cnx := ?c5\<rparr>) ?s4"])
        (auto simp: fin tx_frame_def usable_def in_frag_ctor_def fun_eq_iff)
  next
    case False
    then have "thank now cnx a ?s4 = Done (?s4, Inr ())"
      using assms(5) by (auto simp: thank_def complete_def split: list.split)
    then show thesis
      using False c4
      by (intro that [of ?s4]) (auto simp: fin tx_frame_def usable_def in_frag_ctor_def fun_eq_iff)
  qed
qed


text \<open>The fragments of a receiver that has the first bytes of a file, without a hole and without the end.\<close>

definition prefix_frags :: "fragment list \<Rightarrow> nat \<Rightarrow> bool" where
  "prefix_frags fs n \<longleftrightarrow> fs = [] \<and> n = 0 \<or> (\<exists>f. fs = [f] \<and> fr_start f = 0 \<and> fr_end f = int n \<and> \<not> fr_eof f)"

lemma check_contiguous:
  assumes "prefix_frags fs m"
  obtains g ts' asks where "check_frags True now ts (insert_by_offset fs (new_frag now (int m) n eof)) = ([g], ts', asks, False)"
    "fr_start g = 0" "fr_end g = int (m + n)" "fr_eof g = eof"
proof -
  consider "fs = []" "m = 0" | f where "fs = [f]" "fr_start f = 0" "fr_end f = int m" "\<not> fr_eof f"
    using assms by (auto simp: prefix_frags_def)
  then show thesis
  proof cases
    case 1
    have "\<not> was_long_ago now now" by (simp add: was_long_ago_def RETRANSM_TIMEOUT_def)
    with 1 show thesis
      by (intro that [of "new_frag now 0 n eof" ts "[]"]) (auto simp: check_frags_def new_frag_def)
  next
    case (2 f)
    let ?g = "f\<lparr>fr_end := int (m + n), fr_eof := eof\<rparr>"
    have l: "check_loop True now [] 0 [] (insert_by_offset fs (new_frag now (int m) n eof)) = ([?g], [], False)"
      using 2 by (simp add: new_frag_def)
    show thesis
    proof (cases "\<not> eof \<and> was_long_ago (fr_ts f) now")
      case True
      with l 2 show thesis by (intro that [of "?g\<lparr>fr_ts := now\<rparr>"]) (auto simp: check_frags_def)
    next
      case False
      with l 2 show thesis by (intro that [of ?g]) (auto simp: check_frags_def)
    qed
  qed
qed

definition got :: "chn_st \<Rightarrow> nat \<Rightarrow> nat \<Rightarrow> nat \<Rightarrow> int \<Rightarrow> string \<Rightarrow> bool" where
  "got s cnx a i ident data \<longleftrightarrow> receiving s cnx a i ident \<and> prefix_frags (in_frags (ch_tx s a)) (length data) \<and>
     length data \<le> length (idata (ch_fs s) i) \<and> take (length data) (idata (ch_fs s) i) = data"

text \<open>The receiver has the whole file and has sent its thanks, once more than before.\<close>

definition thanked :: "chn_st \<Rightarrow> chn_st \<Rightarrow> nat \<Rightarrow> nat \<Rightarrow> bool" where
  "thanked s s' cnx a \<longleftrightarrow> map sq_addr (sent_queries (cc_cnx (ch_cnx s' cnx))) = a # map sq_addr (sent_queries (cc_cnx (ch_cnx s cnx)))"

definition silent :: "chn_st \<Rightarrow> chn_st \<Rightarrow> nat \<Rightarrow> bool" where
  "silent s s' cnx \<longleftrightarrow> map sq_addr (sent_queries (cc_cnx (ch_cnx s' cnx))) = map sq_addr (sent_queries (cc_cnx (ch_cnx s cnx)))"

lemma written_prefix:
  assumes "length data \<le> length f" "take (length data) f = data"
  shows "take (length (data @ d)) (written f (length data) d eof) = data @ d"
    "length (data @ d) \<le> length (written f (length data) d eof)"
    "eof \<Longrightarrow> written f (length data) d eof = data @ d"
  using assms by (auto simp: written_def pwrite_bytes_def truncate_to_def Let_def)

lemma chunk_turn:
  assumes "got s cnx a i ident data" "cc_in (ch_cnx s cnx) = map Got (chunk_text ident (int (length data), d, eof)) @ rest"
    "0 \<le> ident" "ident < 2 ^ 63" "length data + length d < 2 ^ 31"
  obtains s' where "reader_turn now cnx s = Done (s', Inr ())" "cc_in (ch_cnx s' cnx) = rest"
    "cc_status (ch_cnx s' cnx) = cc_status (ch_cnx s cnx)"
    "eof \<Longrightarrow> idata (ch_fs s') i = data @ d \<and> thanked s s' cnx a"
    "\<not> eof \<Longrightarrow> got s' cnx a i ident (data @ d) \<and> silent s s' cnx"
proof -
  have g: "receiving s cnx a i ident" "prefix_frags (in_frags (ch_tx s a)) (length data)"
    "length data \<le> length (idata (ch_fs s) i)" "take (length data) (idata (ch_fs s) i) = data"
    using assms(1) by (auto simp: got_def)
  then obtain server where sy: "cnx_syntax (cc_cnx (ch_cnx s cnx)) = chn_syntax server" by (auto simp: receiving_def)
  let ?s = "upd_ccnx cnx (\<lambda>cc. cc\<lparr>cc_in := map Got d @ rest\<rparr>) s"
  have "tx_frame cnx a s ?s"
    using g(1) by (auto simp: tx_frame_def receiving_def fun_eq_iff intro!: exI [of _ "in_frags (ch_tx s a)"] exI [of _ "tx_ts (ch_tx s a)"])
  then have r: "receiving ?s cnx a i ident" using g(1) receiving_frame by blast
  have rd: "mdir_cmd_read (cnx_syntax (cc_cnx (ch_cnx s cnx))) (cc_in (ch_cnx s cnx)) =
      (Done (copy_cmd ident (int (length data)) (length d) eof), map Got d @ rest)"
    using read_chunk [of ident "int (length data)" "length d" server eof "map Got d @ rest"] assms(2-5)
    by (simp add: sy chunk_text_def)
  obtain h ts asks where h: "check_frags True now (tx_ts (ch_tx ?s a))
      (insert_by_offset (in_frags (ch_tx ?s a)) (new_frag now (int (length data)) (length d) eof)) = ([h], ts, asks, False)"
    "fr_start h = 0" "fr_end h = int (length data + length d)" "fr_eof h = eof"
    by (rule check_contiguous [of "in_frags (ch_tx ?s a)" "length data" now "tx_ts (ch_tx ?s a)" "length d" eof]) (use g(2) in auto)
  obtain s' where s': "serve_copy now cnx (copy_cmd ident (int (length data)) (length d) eof) ?s = Done (s', Inr ())" "tx_frame cnx a ?s s'"
    "cc_in (ch_cnx s' cnx) = rest" "in_frags (ch_tx s' a) = [h]" "cc_status (ch_cnx s' cnx) = cc_status (ch_cnx ?s cnx)"
    "idata (ch_fs s') i = written (idata (ch_fs ?s) i) (nat (int (length data))) d eof"
    "map sq_addr (sent_queries (cc_cnx (ch_cnx s' cnx))) =
       (if complete [h] then [a] else []) @ map sq_addr (sent_queries (cc_cnx (ch_cnx ?s cnx)))"
    by (rule serve_copy_ok [OF r _ _ h(1)]) auto
  have ex: "chn_exec now cnx (copy_cmd ident (int (length data)) (length d) eof) = serve_copy now cnx (copy_cmd ident (int (length data)) (length d) eof)"
    by (simp add: chn_exec_def copy_cmd_def def_copy_def chn_def_def)
  have "reader_turn now cnx s = Done (s', Inr ())"
    using rd s'(1) ex by (simp add: reader_turn_def Let_def)
  moreover have "receiving s' cnx a i ident" using receiving_frame [OF r s'(2)] .
  ultimately show thesis
    using s' h written_prefix [OF g(3,4), where d = d and eof = eof]
    by (intro that [of s']) (auto simp: got_def thanked_def silent_def complete_def prefix_frags_def)
qed

text \<open>Turns of the reader at given times.\<close>

fun reader_turns :: "nat list \<Rightarrow> nat \<Rightarrow> (chn_st, unit) act" where
  "reader_turns [] cnx = ret ()"
| "reader_turns (now # nows) cnx = bnd (reader_turn now cnx) (\<lambda>_. reader_turns nows cnx)"

lemma chunks_turns:
  assumes "got s cnx a i ident data"
    "cc_in (ch_cnx s cnx) = map Got (concat (map (chunk_text ident) (chunks (int (length data)) d eof))) @ rest"
    "0 \<le> ident" "ident < 2 ^ 63" "length data + length d < 2 ^ 31" "length nows = length (chunks (int (length data)) d eof)"
  shows "\<exists>s'. reader_turns nows cnx s = Done (s', Inr ()) \<and> cc_in (ch_cnx s' cnx) = rest \<and>
    (if eof then idata (ch_fs s') i = data @ d \<and> thanked s s' cnx a else got s' cnx a i ident (data @ d) \<and> silent s s' cnx)"
  using assms
proof (induction "length d" arbitrary: s data d nows rule: less_induct)
  case less
  show ?case
  proof (cases "length d \<le> CHUNK_SIZE")
    case True
    then obtain now where n: "nows = [now]" using less.prems(6) by (auto simp: chunks.simps [of _ d] length_Suc_conv)
    from True less.prems(2) have inp: "cc_in (ch_cnx s cnx) = map Got (chunk_text ident (int (length data), d, eof)) @ rest"
      by (simp add: chunks.simps [of _ d])
    from chunk_turn [OF less.prems(1) inp less.prems(3-5), of now] show ?thesis
      by (auto simp: n bnd_ret)
  next
    case False
    let ?d = "take CHUNK_SIZE d" and ?e = "drop CHUNK_SIZE d"
    have len: "int (length data) + int CHUNK_SIZE = int (length (data @ ?d))" using False by simp
    obtain now ns where n: "nows = now # ns" "length ns = length (chunks (int (length (data @ ?d))) ?e eof)"
      using less.prems(6) False by (auto simp: chunks.simps [of _ d] len length_Suc_conv simp del: length_append)
    let ?rest = "map Got (concat (map (chunk_text ident) (chunks (int (length (data @ ?d))) ?e eof))) @ rest"
    have inp: "cc_in (ch_cnx s cnx) = map Got (chunk_text ident (int (length data), ?d, False)) @ ?rest"
      using less.prems(2) False by (simp add: chunks.simps [of _ d] len del: length_append)
    have l5: "length data + length ?d < 2 ^ 31" "length (data @ ?d) + length ?e < 2 ^ 31" using less.prems(5) False by auto
    obtain s1 where s1: "reader_turn now cnx s = Done (s1, Inr ())" "cc_in (ch_cnx s1 cnx) = ?rest"
      "got s1 cnx a i ident (data @ ?d)" "silent s s1 cnx"
      by (rule chunk_turn [OF less.prems(1) inp less.prems(3,4) l5(1), of now]) auto
    have sm: "length ?e < length d" using False by (simp add: CHUNK_SIZE_def)
    from less.hyps [OF sm s1(3,2) less.prems(3,4) l5(2) n(2)] s1(1,4) show ?thesis
      by (auto simp: n thanked_def silent_def)
  qed
qed


section \<open>What ends a transfer\<close>

text \<open>The transfers and their connections, but for the stream that a transfer uses.\<close>

definition same_txs :: "chn_st \<Rightarrow> chn_st \<Rightarrow> bool" where
  "same_txs s s' \<longleftrightarrow> (\<forall>k. cc_txs (ch_cnx s' k) = cc_txs (ch_cnx s k)) \<and>
     (\<forall>b. tx_sender (ch_tx s' b) = tx_sender (ch_tx s b) \<and> tx_id (ch_tx s' b) = tx_id (ch_tx s b) \<and> tx_status (ch_tx s' b) = tx_status (ch_tx s b))"

interpretation txs: state_order same_txs
  by unfold_locales (auto simp: same_txs_def)

lemma within_on_ccnx: "within same_txs (on_ccnx k m)"
  by (rule withinI) (auto simp: on_ccnx_def same_txs_def split: outcome.splits)

lemma within_unref: "within same_txs (stream_unref st)"
  by (rule withinI) (auto simp: stream_unref_def stream_dtor_def same_txs_def upd_stream_def Let_def split: if_splits)

lemma within_release: "within same_txs (chn_tx_release_stream a)"
proof -
  have u: "within same_txs (\<lambda>s. stream_unref st (upd_stream st f s))" for st f
  proof (rule withinI)
    fix s s' r assume "stream_unref st (upd_stream st f s) = Done (s', r)"
    from withinD [OF within_unref this] show "same_txs s s'" by (simp add: same_txs_def upd_stream_def)
  qed
  have "within same_txs (stream_remove_reader st b)" for st b
    unfolding stream_remove_reader_def by (rule u)
  moreover have "within same_txs (stream_remove_writer st)" for st
    unfolding stream_remove_writer_def by (intro within_if within_Crash u)
  moreover have "within same_txs (modify (upd_tx a (\<lambda>tx. tx\<lparr>tx_stream := None\<rparr>)))"
    by (rule withinI) (auto simp: modify_def same_txs_def)
  ultimately have "within same_txs (bnd (if c then stream_remove_reader st a else stream_remove_writer st) (\<lambda>_.
      modify (upd_tx a (\<lambda>tx. tx\<lparr>tx_stream := None\<rparr>))))" for st c
    by (intro txs.within_bnd) auto
  then show ?thesis
    by (auto simp: within_def chn_tx_release_stream_def txs.refl split: option.splits)
qed

lemma released: "chn_tx_release_stream a s = Done (s', Inr u) \<Longrightarrow> tx_stream (ch_tx s' a) = None"
  by (auto simp: chn_tx_release_stream_def bnd_def modify_def split: option.splits outcome.splits sum.splits)

lemma set_status_ends:
  assumes "chn_tx_set_status a status s = Done (s', r)"
  shows "tx_status (ch_tx s' a) \<noteq> 0" "\<And>k i. find_wtx s' k i = find_wtx s k i" "\<And>k i. find_rtx s' k i = find_rtx s k i"
proof -
  have c: "status \<noteq> 0" "chn_tx_release_stream a (upd_tx a (\<lambda>tx. tx\<lparr>tx_status := status\<rparr>) s) = Done (s', r)"
    using assms by (auto simp: chn_tx_set_status_def split: if_splits)
  from withinD [OF within_release c(2)] have t: "same_txs (upd_tx a (\<lambda>tx. tx\<lparr>tx_status := status\<rparr>) s) s'" .
  with c(1) show "tx_status (ch_tx s' a) \<noteq> 0" by (simp add: same_txs_def)
  from t have "tx_sender (ch_tx s' b) = tx_sender (ch_tx s b)" "tx_id (ch_tx s' b) = tx_id (ch_tx s b)"
    "cc_txs (ch_cnx s' k) = cc_txs (ch_cnx s k)" for b k
    by (auto simp: same_txs_def)
  then show "find_wtx s' k i = find_wtx s k i" "find_rtx s' k i = find_rtx s k i" for k i
    by (simp_all add: find_wtx_def find_rtx_def)
qed

section \<open>Properties\<close>

text \<open>C9. What a sender writes is what the receiver has. Sending a box of data cuts it into chunks that a receiver,
  which has everything that precedes, reads as as many commands: afterwards it has the data too, in one fragment without a hole, and
  when the box ends the file, its file is exactly the data sent and it has sent its thanks, once.\<close>

theorem write_transferred:
  assumes "usable c" "fr_box f = Some d" "fr_start f = int (length data)" "fr_end f = int (length data + length d)"
    "0 \<le> ident" "ident < 2 ^ 63" "length data + length d < 2 ^ 31"
  shows "\<exists>c' w n. send_all_chunks now ident f (fr_start f) c = Done (c', Inr ()) \<and> sock_out c' = sock_out c @ w \<and>
    (\<forall>s cnx a i nows rest. got s cnx a i ident data \<and> cc_in (ch_cnx s cnx) = map Got w @ rest \<and> length nows = n \<longrightarrow>
       (\<exists>s'. reader_turns nows cnx s = Done (s', Inr ()) \<and> cc_in (ch_cnx s' cnx) = rest \<and>
          (if fr_eof f then idata (ch_fs s') i = data @ d \<and> thanked s s' cnx a
           else got s' cnx a i ident (data @ d) \<and> silent s s' cnx)))"
proof -
  let ?cs = "chunks (int (length data)) d (fr_eof f)"
  obtain c' where "send_all_chunks now ident f (fr_start f) c = Done (c', Inr ())"
    "sock_out c' = sock_out c @ concat (map (chunk_text ident) ?cs)"
    using send_all_chunks_ok [OF assms(1,2), of "fr_start f" now ident] assms(3,4) by auto
  then show ?thesis
    using chunks_turns [of _ _ _ _ ident data d "fr_eof f"] assms(5-7)
    by (intro exI [of _ c'] exI [of _ "concat (map (chunk_text ident) ?cs)"] exI [of _ "length ?cs"]) blast
qed

text \<open>C39. A hole in a file is forgotten. A receiver that has the first bytes of a file gets the last chunk but not the ones
  between: the fragment that just came is merged with the one before whatever lies between them, because it did not come long ago,
  the file is taken for complete and the sender is thanked, while the bytes of the hole are those that the file
  had before, or zero.\<close>

theorem hole_forgotten:
  assumes "got s cnx a i ident data" "data \<noteq> []" "length data < b"
    "cc_in (ch_cnx s cnx) = map Got (chunk_text ident (int b, d, True)) @ rest"
    "0 \<le> ident" "ident < 2 ^ 63" "b + length d < 2 ^ 31"
  shows "\<exists>s'. reader_turn now cnx s = Done (s', Inr ()) \<and> thanked s s' cnx a \<and>
    idata (ch_fs s') i = take b (idata (ch_fs s) i) @ replicate (b - length (idata (ch_fs s) i)) NUL @ d"
proof -
  have g: "receiving s cnx a i ident" using assms(1) by (auto simp: got_def)
  obtain f where f: "in_frags (ch_tx s a) = [f]" "fr_start f = 0" "fr_end f = int (length data)"
    using assms(1,2) by (auto simp: got_def prefix_frags_def)
  obtain server where sy: "cnx_syntax (cc_cnx (ch_cnx s cnx)) = chn_syntax server" using g by (auto simp: receiving_def)
  let ?s = "upd_ccnx cnx (\<lambda>cc. cc\<lparr>cc_in := map Got d @ rest\<rparr>) s"
  have "tx_frame cnx a s ?s"
    using g by (auto simp: tx_frame_def receiving_def fun_eq_iff intro!: exI [of _ "in_frags (ch_tx s a)"] exI [of _ "tx_ts (ch_tx s a)"])
  then have r: "receiving ?s cnx a i ident" using g receiving_frame by blast
  have rd: "mdir_cmd_read (cnx_syntax (cc_cnx (ch_cnx s cnx))) (cc_in (ch_cnx s cnx)) =
      (Done (copy_cmd ident (int b) (length d) True), map Got d @ rest)"
    using read_chunk [of ident "int b" "length d" server True "map Got d @ rest"] assms(4-7)
    by (simp add: sy chunk_text_def)
  let ?h = "f\<lparr>fr_end := int (b + length d), fr_eof := True\<rparr>"
  have "\<not> was_long_ago now now" by (simp add: was_long_ago_def)
  then have h: "check_frags True now (tx_ts (ch_tx ?s a)) (insert_by_offset (in_frags (ch_tx ?s a)) (new_frag now (int b) (length d) True)) =
      ([?h], tx_ts (ch_tx ?s a), [], False)"
    using f assms(3) by (simp add: check_frags_def new_frag_def)
  obtain s' where s': "serve_copy now cnx (copy_cmd ident (int b) (length d) True) ?s = Done (s', Inr ())"
    "idata (ch_fs s') i = written (idata (ch_fs ?s) i) (nat (int b)) d True"
    "map sq_addr (sent_queries (cc_cnx (ch_cnx s' cnx))) =
       (if complete [?h] then [a] else []) @ map sq_addr (sent_queries (cc_cnx (ch_cnx ?s cnx)))"
    by (rule serve_copy_ok [OF r _ _ h]) auto
  have "chn_exec now cnx (copy_cmd ident (int b) (length d) True) = serve_copy now cnx (copy_cmd ident (int b) (length d) True)"
    by (simp add: chn_exec_def copy_cmd_def def_copy_def chn_def_def)
  then have "reader_turn now cnx s = Done (s', Inr ())" using rd s'(1) by (simp add: reader_turn_def Let_def)
  moreover have "written F b d True = take b F @ replicate (b - length F) NUL @ d" for F
    by (auto simp: written_def pwrite_bytes_def truncate_to_def Let_def)
  ultimately show ?thesis using s'(2,3) f(2) by (auto simp: thanked_def complete_def)
qed

lemma ended_transfer_facts:
  shows "find_wtx s cnx (arg_int cmd 0) = Some a \<Longrightarrow> serve_thx cnx cmd s = Done (s', r) \<Longrightarrow> serve_thx cnx cmd s' = Crash"
    and "find_rtx s cnx ident = Some a \<Longrightarrow> chn_tx_set_status a status s = Done (s', Inr ()) \<Longrightarrow>
      cc_in (ch_cnx s' cnx) = map Got d @ rest \<Longrightarrow> serve_copy now cnx (copy_cmd ident offset (length d) eof) s' = Crash"
proof -
  assume f: "find_wtx s cnx (arg_int cmd 0) = Some a" and t: "serve_thx cnx cmd s = Done (s', r)"
  from t f obtain s1 q where s1: "chn_tx_set_status a 200 s = Done (s1, q)"
    and n: "(q = r \<and> s1 = s') \<or> on_ccnx cnx (mdir_cnx_answer cmd 200 ''Ok'') s1 = Done (s', r)"
    by (cases "chn_tx_set_status a 200 s") (auto simp: serve_thx_def bnd_def chn_answer_def split: outcome.splits sum.splits)
  have s2: "same_txs s1 s'" using n txs.refl withinD [OF within_on_ccnx] by blast
  note e = set_status_ends [OF s1]
  from s2 have "find_wtx s' cnx (arg_int cmd 0) = find_wtx s1 cnx (arg_int cmd 0)" "tx_status (ch_tx s' a) = tx_status (ch_tx s1 a)"
    by (auto simp: same_txs_def find_wtx_def)
  with e f show "serve_thx cnx cmd s' = Crash" by (simp add: serve_thx_def chn_tx_set_status_def bnd_def)
next
  assume f: "find_rtx s cnx ident = Some a" and t: "chn_tx_set_status a status s = Done (s', Inr ())"
    and i: "cc_in (ch_cnx s' cnx) = map Got d @ rest"
  have "find_rtx s' cnx ident = Some a" using set_status_ends [OF t] f by simp
  moreover have "tx_stream (ch_tx s' a) = None"
    using t released by (auto simp: chn_tx_set_status_def split: if_splits)
  ultimately show "serve_copy now cnx (copy_cmd ident offset (length d) eof) s' = Crash"
    using i by (simp add: serve_copy_def arg_int_def copy_cmd_def take_data_def read_bytes_got bnd_def attempt_def)
qed

text \<open>C40. A client that thanks twice stops the file server. The first \<open>thx\<close> ends the transfer but leaves it among those of the
  connection, so that the second one finds it again and sets its status a second time, which an assertion forbids. Likewise
  data sent for a transfer that is over are written to a stream that it has no more.\<close>

theorem ended_transfer_crashes:
  shows "(find_wtx s cnx (arg_int cmd 0) = Some a \<and> serve_thx cnx cmd s = Done (s', r) \<longrightarrow> serve_thx cnx cmd s' = Crash) \<and>
    (find_rtx s cnx ident = Some a \<and> chn_tx_set_status a status s = Done (s', Inr ()) \<and>
      cc_in (ch_cnx s' cnx) = map Got d @ rest \<longrightarrow> serve_copy now cnx (copy_cmd ident offset (length d) eof) s' = Crash)"
  using ended_transfer_facts by blast


section \<open>Concrete transfers\<close>

definition ch_sample :: "bool \<Rightarrow> input \<Rightarrow> fragment list \<Rightarrow> string \<Rightarrow> chn_st" where
  "ch_sample sender inp frs file = \<lparr>
     ch_cnx = (\<lambda>_. \<lparr>cc_cnx = mdir_cnx_ctor_inbound (chn_syntax True), cc_in = inp, cc_txs = [1], cc_status = 0\<rparr>),
     ch_tx = (\<lambda>_. \<lparr>tx_cnx = 0, tx_id = 5, tx_status = 0, tx_sender = sender, end_offset = 0, tx_stream = Some 2, out_frags = [],
       in_frags = frs, tx_ts = 0\<rparr>),
     ch_streams = [2],
     ch_stream = (\<lambda>_. \<lparr>st_readers = (if sender then [1] else []), has_writer = \<not> sender, st_count = 2, st_fd = Some 7, st_path = ''/f/r''\<rparr>),
     ch_next = 3, ch_fs = \<lparr>ents = [], idata = (\<lambda>_. file), next_ino = 8, pwrite_appends = False\<rparr>, chn_files_root = ''/f''\<rparr>"

lemma usable_sample: "usable (mdir_cnx_ctor_inbound sy)"
  by (simp add: usable_def mdir_cnx_ctor_inbound_def cnx_ctor_common_def)

lemma receiving_sample: "receiving (ch_sample False inp frs file) 0 1 7 5"
  using usable_sample
  by (auto simp: receiving_def ch_sample_def find_rtx_def mdir_cnx_ctor_inbound_def cnx_ctor_common_def)

definition frag_sample :: fragment where
  "frag_sample = \<lparr>fr_ts = 0, fr_box = Some ''hello'', fr_start = 0, fr_end = 5, fr_eof = True\<rparr>"

theorem write_transferred_witness:
  "\<exists>c' w n s'. send_all_chunks 0 5 frag_sample 0 (mdir_cnx_ctor_inbound (chn_syntax False)) = Done (c', Inr ()) \<and> sock_out c' = w \<and>
     reader_turns (replicate n 0) 0 (ch_sample False (map Got w) [] ''older file'') = Done (s', Inr ()) \<and>
     idata (ch_fs s') 7 = ''hello'' \<and> thanked (ch_sample False (map Got w) [] ''older file'') s' 0 1"
proof -
  let ?c = "mdir_cnx_ctor_inbound (chn_syntax False)"
  have e: "sock_out ?c = []" by (simp add: mdir_cnx_ctor_inbound_def cnx_ctor_common_def)
  have f: "fr_box frag_sample = Some ''hello''" "fr_start frag_sample = int (length [])" "fr_end frag_sample = int (length [] + length ''hello'')"
    by (simp_all add: frag_sample_def)
  have b: "0 \<le> (5 :: int)" "(5 :: int) < 2 ^ 63" "length ([] :: char list) + length ''hello'' < 2 ^ 31" by simp_all
  obtain c' w n where t: "send_all_chunks 0 5 frag_sample (fr_start frag_sample) ?c = Done (c', Inr ())" "sock_out c' = sock_out ?c @ w"
    "\<forall>s cnx a i nows rest. got s cnx a i 5 [] \<and> cc_in (ch_cnx s cnx) = map Got w @ rest \<and> length nows = n \<longrightarrow>
       (\<exists>s'. reader_turns nows cnx s = Done (s', Inr ()) \<and> cc_in (ch_cnx s' cnx) = rest \<and>
          (if fr_eof frag_sample then idata (ch_fs s') i = [] @ ''hello'' \<and> thanked s s' cnx a
           else got s' cnx a i 5 ([] @ ''hello'') \<and> silent s s' cnx))"
    using write_transferred [OF usable_sample [of "chn_syntax False"] f b, of 0] by blast
  have g: "got (ch_sample False (map Got w) [] ''older file'') 0 1 7 5 []"
    using receiving_sample by (simp add: got_def prefix_frags_def ch_sample_def)
  have i: "cc_in (ch_cnx (ch_sample False (map Got w) [] ''older file'') 0) = map Got w @ []" by (simp add: ch_sample_def)
  obtain s' where "reader_turns (replicate n 0) 0 (ch_sample False (map Got w) [] ''older file'') = Done (s', Inr ())"
      "idata (ch_fs s') 7 = ''hello'' \<and> thanked (ch_sample False (map Got w) [] ''older file'') s' 0 1"
    using mp [OF t(3) [THEN spec, THEN spec, THEN spec, THEN spec, THEN spec, THEN spec] conjI [OF g conjI [OF i length_replicate [of n 0]]]]
    by (auto simp: frag_sample_def)
  moreover have "fr_start frag_sample = 0" "sock_out c' = w" using t(2) e by (simp_all add: frag_sample_def)
  ultimately show ?thesis using t(1) by metis
qed

theorem hole_forgotten_witness:
  "let s = ch_sample False (map Got (chunk_text 5 (4, ''z'', True))) [\<lparr>fr_ts = 0, fr_box = None, fr_start = 0, fr_end = 2, fr_eof = False\<rparr>] ''ab''
   in \<exists>s'. reader_turn 9 0 s = Done (s', Inr ()) \<and> thanked s s' 0 1 \<and> idata (ch_fs s') 7 = [CHR ''a'', CHR ''b'', NUL, NUL, CHR ''z'']"
proof -
  let ?s = "ch_sample False (map Got (chunk_text 5 (4, ''z'', True))) [\<lparr>fr_ts = 0, fr_box = None, fr_start = 0, fr_end = 2, fr_eof = False\<rparr>] ''ab''"
  have g: "got ?s 0 1 7 5 ''ab''"
    using receiving_sample by (simp add: got_def prefix_frags_def ch_sample_def)
  have i: "cc_in (ch_cnx ?s 0) = map Got (chunk_text 5 (int 4, ''z'', True)) @ []" "idata (ch_fs ?s) 7 = ''ab''"
    by (simp_all add: ch_sample_def)
  have b: "''ab'' \<noteq> []" "length ''ab'' < 4" "0 \<le> (5 :: int)" "(5 :: int) < 2 ^ 63" "4 + length ''z'' < 2 ^ 31" by simp_all
  have r: "take 4 ''ab'' @ replicate (4 - length ''ab'') NUL @ ''z'' = [CHR ''a'', CHR ''b'', NUL, NUL, CHR ''z'']"
    by (simp add: numeral_2_eq_2)
  show ?thesis unfolding Let_def using hole_forgotten [OF g b(1,2) i(1) b(3-5), of 9] unfolding i(2) r .
qed

definition cmd_thx :: mdir_cmd where
  "cmd_thx = \<lparr>c_def = chn_def kw_thx ''serve_thx'' 1 1 [CMD_INTEGER], c_seq = 3, c_args = [ArgInt 5]\<rparr>"

theorem ended_transfer_crashes_witness:
  "(\<exists>s'. serve_thx 0 cmd_thx (ch_sample True [] [] ''f'') = Done (s', Inr ()) \<and> serve_thx 0 cmd_thx s' = Crash) \<and>
   (\<exists>s'. chn_tx_set_status 1 200 (ch_sample False (map Got ''x'') [] ''f'') = Done (s', Inr ()) \<and>
      serve_copy 0 0 (copy_cmd 5 0 1 False) s' = Crash)"
proof -
  note ev = chn_tx_set_status_def chn_tx_release_stream_def stream_remove_reader_def stream_remove_writer_def stream_unref_def
    upd_stream_def bnd_def modify_def Let_def
  have f: "find_wtx (ch_sample True [] [] ''f'') 0 (arg_int cmd_thx 0) = Some 1" "find_rtx (ch_sample False (map Got ''x'') [] ''f'') 0 5 = Some 1"
    by (simp_all add: find_wtx_def find_rtx_def ch_sample_def arg_int_def cmd_thx_def)
  obtain s1 where s1: "serve_thx 0 cmd_thx (ch_sample True [] [] ''f'') = Done (s1, Inr ())"
    using f(1) by (auto simp: serve_thx_def ev ch_sample_def chn_answer_def on_ccnx_def mdir_cnx_answer_def answer_text_def cmd_thx_def
        chn_def_def kw_thx_def mdir_cnx_ctor_inbound_def cnx_ctor_common_def cnx_write_def dec_int_def dec_nat.simps upd_tx_def)
  obtain s2 where s2: "chn_tx_set_status 1 200 (ch_sample False (map Got ''x'') [] ''f'') = Done (s2, Inr ())"
      "cc_in (ch_cnx s2 0) = map Got ''x'' @ []"
    by (auto simp: ev ch_sample_def upd_tx_def)
  show ?thesis
    using ended_transfer_crashes [THEN conjunct1, THEN mp, OF conjI [OF f(1) s1]] s1
      ended_transfer_crashes [THEN conjunct2, THEN mp, OF conjI [OF f(2) conjI [OF s2]], of 0 0 False] s2(1) by auto
qed

end
