(* ===== verification/Msgs.thy ===== *)
theory Msgs
  imports Mdir_Log
begin

text \<open>
  The messages of a folder in memory, after \<open>lib/mdirc.c\<close>, \<open>lib/msg.c\<close>, \<open>include/scambio/msg.h\<close> and
  \<open>include/scambio/mdirc.h\<close>. A message holds a list of the marks that other messages put on it; both are
  counted references. Messages are allocated in a heap: an address that was freed has no message, and reading it is
  a crash.
\<close>

section \<open>Data\<close>

record sc_msg =
  sg_header :: header
  sg_version :: mdir_version
  sg_status :: int
  sg_marks :: "nat list"
  sg_marked :: "nat option"
  sg_count :: int

text \<open>The part of \<open>struct mdirc\<close> that comes after the folder itself, with the heap its messages are allocated from.\<close>

record msgs_dir =
  md_cursor :: mdir_cursor
  nb_msgs :: "32 word"
  md_msgs :: "nat list"
  heap :: "nat \<Rightarrow> sc_msg option"
  heap_next :: nat

definition mdirc_ctor :: msgs_dir where
  "mdirc_ctor = \<lparr>md_cursor = mdir_cursor_ctor, nb_msgs = 0, md_msgs = [], heap = (\<lambda>_. None), heap_next = 0\<rparr>"

definition upd_msg :: "nat \<Rightarrow> (sc_msg \<Rightarrow> sc_msg) \<Rightarrow> (msgs_dir, unit) act" where
  "upd_msg a f s = (case heap s a of None \<Rightarrow> Crash | Some m \<Rightarrow> Done (s\<lparr>heap := (heap s)(a \<mapsto> f m)\<rparr>, Inr ()))"

section \<open>Messages\<close>

definition sc_msg_new :: "header \<Rightarrow> mdir_version \<Rightarrow> int \<Rightarrow> nat option \<Rightarrow> (msgs_dir, nat) act" where
  "sc_msg_new h v status marked s =
     (let a = heap_next s;
          m = \<lparr>sg_header = h, sg_version = v, sg_status = status, sg_marks = [], sg_marked = marked, sg_count = 1\<rparr>;
          s = s\<lparr>heap := (heap s)(a \<mapsto> m), heap_next := Suc a\<rparr>
      in bnd (case marked of None \<Rightarrow> ret () | Some b \<Rightarrow> upd_msg b (\<lambda>m. m\<lparr>sg_marks := a # sg_marks m\<rparr>)) (\<lambda>_. ret a) s)"

definition sc_msg_ref :: "nat \<Rightarrow> (msgs_dir, unit) act" where
  "sc_msg_ref a = upd_msg a (\<lambda>m. m\<lparr>sg_count := sg_count m + 1\<rparr>)"

definition free_msg :: "nat \<Rightarrow> (msgs_dir, unit) act" where
  "free_msg a s = Done (s\<lparr>heap := (heap s)(a := None)\<rparr>, Inr ())"

text \<open>
  The deletion of a message cascades to its marks, and theirs. The bound on the depth counts the calls; running
  out of it is a crash.
\<close>

fun unref_bounded :: "nat \<Rightarrow> nat \<Rightarrow> (msgs_dir, unit) act"
  and sc_msg_dtor :: "nat \<Rightarrow> nat \<Rightarrow> (msgs_dir, unit) act" where
  "unref_bounded 0 a s = Crash"
| "unref_bounded (Suc n) a s = (case heap s a of
     None \<Rightarrow> Crash
   | Some m \<Rightarrow>
       bnd (upd_msg a (\<lambda>m. m\<lparr>sg_count := sg_count m - 1\<rparr>)) (\<lambda>_.
         if sg_count m - 1 \<le> 0 then bnd (sc_msg_dtor n a) (\<lambda>_. free_msg a) else ret ()) s)"
| "sc_msg_dtor 0 a s = Crash"
| "sc_msg_dtor (Suc n) a s = (case heap s a of
     None \<Rightarrow> Crash
   | Some m \<Rightarrow>
       if 0 < sg_count m then Crash
       else case sg_marks m of
         mark # ms \<Rightarrow>
           bnd (upd_msg a (\<lambda>m. m\<lparr>sg_marks := ms\<rparr>)) (\<lambda>_.
           bnd (upd_msg mark (\<lambda>m. m\<lparr>sg_marked := None\<rparr>)) (\<lambda>_.
           bnd (unref_bounded n mark) (\<lambda>_.
             sc_msg_dtor n a))) s
       | [] \<Rightarrow> (case sg_marked m of
           None \<Rightarrow> ret ()
         | Some b \<Rightarrow>
             bnd (upd_msg b (\<lambda>m. m\<lparr>sg_marks := remove1 a (sg_marks m)\<rparr>)) (\<lambda>_.
               upd_msg a (\<lambda>m. m\<lparr>sg_marked := None\<rparr>))) s)"

text \<open>No more calls nest than there were messages allocated, with the four of a mark that has no mark.\<close>

definition sc_msg_unref :: "nat \<Rightarrow> (msgs_dir, unit) act" where
  "sc_msg_unref a s = unref_bounded (heap_next s + 4) a s"

section \<open>Iteration over the fields of a message and of its marks\<close>

record sc_msg_cursor =
  cu_msg :: nat
  cu_mark :: "nat option"
  cu_hf :: "nat option"

definition sc_msg_cursor_ctor :: "nat \<Rightarrow> (msgs_dir, sc_msg_cursor) act" where
  "sc_msg_cursor_ctor a = bnd (sc_msg_ref a) (\<lambda>_. ret \<lparr>cu_msg = a, cu_mark = None, cu_hf = None\<rparr>)"

definition sc_msg_cursor_dtor :: "sc_msg_cursor \<Rightarrow> (msgs_dir, unit) act" where
  "sc_msg_cursor_dtor c = bnd (sc_msg_unref (cu_msg c)) (\<lambda>_.
     case cu_mark c of None \<Rightarrow> ret () | Some k \<Rightarrow> sc_msg_unref k)"

text \<open>The marks that follow one in the list; a mark that is no more in the list has a successor that may be freed.\<close>

definition marks_after :: "nat \<Rightarrow> nat list \<Rightarrow> nat list option" where
  "marks_after k ms = (case dropWhile (\<lambda>a. a \<noteq> k) ms of [] \<Rightarrow> None | _ # ks \<Rightarrow> Some ks)"

text \<open>The search in a message, then in those that follow: \<open>sc_msg_cursor_next\<close> calls itself for each.\<close>

fun cursor_search :: "string option \<Rightarrow> sc_msg_cursor \<Rightarrow> nat \<Rightarrow> nat list \<Rightarrow> (msgs_dir, sc_msg_cursor) act" where
  "cursor_search nm c a next_msgs s = (case heap s a of
     None \<Rightarrow> Crash
   | Some m \<Rightarrow> (case (if sg_status m = 0 then header_find (sg_header m) nm (cu_hf c) else None) of
        Some i \<Rightarrow> Done (s, Inr (c\<lparr>cu_hf := Some i\<rparr>))
      | None \<Rightarrow>
          bnd (case cu_mark c of None \<Rightarrow> ret () | Some k \<Rightarrow> sc_msg_unref k) (\<lambda>_.
            case next_msgs of
              [] \<Rightarrow> ret (c\<lparr>cu_mark := None, cu_hf := None\<rparr>)
            | b # bs \<Rightarrow> bnd (sc_msg_ref b) (\<lambda>_. cursor_search nm (c\<lparr>cu_mark := Some b, cu_hf := None\<rparr>) b bs)) s))"

definition sc_msg_cursor_next :: "string option \<Rightarrow> sc_msg_cursor \<Rightarrow> (msgs_dir, sc_msg_cursor) act" where
  "sc_msg_cursor_next nm c s = (case heap s (cu_msg c) of
     None \<Rightarrow> Crash
   | Some m \<Rightarrow> (case cu_mark c of
        None \<Rightarrow> cursor_search nm c (cu_msg c) (sg_marks m) s
      | Some k \<Rightarrow> (case marks_after k (sg_marks m) of None \<Rightarrow> Crash | Some ks \<Rightarrow> cursor_search nm c k ks s)))"

section \<open>Refreshing the messages of a folder\<close>

fun find_msg_by_version :: "(nat \<Rightarrow> sc_msg option) \<Rightarrow> nat list \<Rightarrow> mdir_version \<Rightarrow> nat option outcome" where
  "find_msg_by_version hp [] v = Done None"
| "find_msg_by_version hp (a # as) v = (case hp a of
     None \<Rightarrow> Crash
   | Some m \<Rightarrow> if sg_version m = v then Done (Some a) else find_msg_by_version hp as v)"

definition rem_msg :: "mdir_version \<Rightarrow> msgs_dir \<Rightarrow> msgs_dir outcome" where
  "rem_msg v s = obind (find_msg_by_version (heap s) (md_msgs s) v) (\<lambda>r. case r of
     None \<Rightarrow> Done s
   | Some a \<Rightarrow> obind (sc_msg_unref a (s\<lparr>md_msgs := remove1 a (md_msgs s), nb_msgs := nb_msgs s - 1\<rparr>)) (\<lambda>(s, _). Done s))"

definition add_msg :: "header \<Rightarrow> mdir_version \<Rightarrow> msgs_dir \<Rightarrow> msgs_dir outcome" where
  "add_msg h v s =
     (if header_is_directory h then Done s
      else if header_has_type h SC_MARK_TYPE then
        (case header_target h of
           Inl e \<Rightarrow> Done s
         | Inr t \<Rightarrow> obind (find_msg_by_version (heap s) (md_msgs s) t) (\<lambda>r. case r of
              None \<Rightarrow> Done s
            | Some b \<Rightarrow> obind (sc_msg_new h v 0 (Some b) s) (\<lambda>(s, _). Done s)))
      else obind (sc_msg_new h v 0 None s) (\<lambda>(s, r). case r of
        Inl e \<Rightarrow> Done s
      | Inr a \<Rightarrow> Done (s\<lparr>md_msgs := md_msgs s @ [a], nb_msgs := nb_msgs s + 1\<rparr>)))"

text \<open>The status is a \<open>long\<close> kept in an \<open>int\<close>.\<close>

definition err_status :: "header \<Rightarrow> int" where
  "err_status h = (case field_value h SC_STATUS_FIELD of
     None \<Rightarrow> - 1 | Some t \<Rightarrow> sint (word_of_int (fst (strtoll0 t)) :: 32 word))"

definition err_msg :: "header \<Rightarrow> mdir_version \<Rightarrow> msgs_dir \<Rightarrow> msgs_dir outcome" where
  "err_msg h v s = obind (find_msg_by_version (heap s) (md_msgs s) v) (\<lambda>r. case r of
     None \<Rightarrow> Done s
   | Some a \<Rightarrow> obind (upd_msg a (\<lambda>m. m\<lparr>sg_status := err_status h\<rparr>) s) (\<lambda>(s, _). Done s))"

fun msg_call :: "listed \<Rightarrow> msgs_dir \<Rightarrow> msgs_dir outcome" where
  "msg_call (PutCb h v) s = add_msg h v s"
| "msg_call (RemCb v) s = rem_msg v s"
| "msg_call (ErrCb h v) s = err_msg h v s"

fun msg_calls :: "listed list \<Rightarrow> msgs_dir \<Rightarrow> msgs_dir outcome" where
  "msg_calls [] s = Done s"
| "msg_calls (l # ls) s = obind (msg_call l s) (msg_calls ls)"

record mdirc_st =
  u_mst :: mst
  u_dir :: nat
  u_msgs :: msgs_dir

text \<open>The calls of a listing change nothing that the listing reads, and are made after it.\<close>

definition mdirc_update :: "(mdirc_st, unit) act" where
  "mdirc_update u = (case mdir_patch_list (u_dir u) (md_cursor (u_msgs u)) False True True True (u_mst u) of
     Crash \<Rightarrow> Crash
   | Raised e \<Rightarrow> Raised e
   | Done (st, Inl e) \<Rightarrow> Done (u\<lparr>u_mst := st\<rparr>, Inl e)
   | Done (st, Inr (cursor, calls, e)) \<Rightarrow>
       obind (msg_calls calls ((u_msgs u)\<lparr>md_cursor := cursor\<rparr>)) (\<lambda>s.
         Done (u\<lparr>u_mst := st, u_msgs := s\<rparr>, case e of None \<Rightarrow> Inr () | Some e \<Rightarrow> Inl e)))"

text \<open>A mark that cannot be requested leaves its error, which ends the refresh that follows at once.\<close>

definition mark_header :: "mdir_version \<Rightarrow> string \<Rightarrow> string \<Rightarrow> header" where
  "mark_header v fld val = header_field_new (header_field_new (header_field_new header_new SC_TYPE_FIELD SC_MARK_TYPE)
     SC_TARGET_FIELD (mdir_version2str v)) fld val"

definition sc_msg_mark :: "nat \<Rightarrow> string \<Rightarrow> string \<Rightarrow> (mdirc_st, unit) act" where
  "sc_msg_mark a fld val u = (case heap (u_msgs u) a of
     None \<Rightarrow> Crash
   | Some m \<Rightarrow> (case mdir_patch_request (u_dir u) MDIR_ADD (mark_header (sg_version m) fld val) (u_mst u) of
        Crash \<Rightarrow> Crash
      | Raised e \<Rightarrow> Raised e
      | Done (st, Inl e) \<Rightarrow> Done (u\<lparr>u_mst := st\<rparr>, Inl e)
      | Done (st, Inr _) \<Rightarrow> mdirc_update (u\<lparr>u_mst := st\<rparr>)))"

text \<open>Deleting the messages of a folder, when it is freed.\<close>

fun unref_all :: "nat list \<Rightarrow> msgs_dir \<Rightarrow> msgs_dir outcome" where
  "unref_all [] s = Done s"
| "unref_all (a # as) s = obind (sc_msg_unref a (s\<lparr>md_msgs := as\<rparr>)) (\<lambda>(s, _). unref_all as s)"

definition mdirc_dtor :: "msgs_dir \<Rightarrow> msgs_dir outcome" where
  "mdirc_dtor s = obind (unref_all (md_msgs s) s) (\<lambda>s. Done (s\<lparr>nb_msgs := 0\<rparr>))"

section \<open>Deleting a message\<close>

text \<open>A mark that nothing else refers to.\<close>

definition lone_mark :: "(nat \<Rightarrow> sc_msg option) \<Rightarrow> nat \<Rightarrow> bool" where
  "lone_mark hp k \<longleftrightarrow> (\<exists>m. hp k = Some m \<and> sg_marks m = [] \<and> sg_count m = 1)"

lemma lone_mark_cong: "hp k = hp' k \<Longrightarrow> lone_mark hp k = lone_mark hp' k"
  by (simp add: lone_mark_def)

definition freed :: "nat set \<Rightarrow> msgs_dir \<Rightarrow> msgs_dir" where
  "freed A s = s\<lparr>heap := (\<lambda>b. if b \<in> A then None else heap s b)\<rparr>"

lemma freed_simps [simp]:
  "heap (freed A s) = (\<lambda>b. if b \<in> A then None else heap s b)" "md_msgs (freed A s) = md_msgs s"
  "nb_msgs (freed A s) = nb_msgs s" "heap_next (freed A s) = heap_next s"
  by (simp_all add: freed_def)

lemma unref_mark:
  assumes "heap s k = Some m" "sg_marks m = []" "sg_marked m = None" "sg_count m = 1" "2 \<le> n"
  shows "unref_bounded n k s = Done (freed {k} s, Inr ())"
proof -
  obtain n' where "n = Suc (Suc n')" using assms(5) by (metis Suc_le_D numeral_2_eq_2 Suc_le_mono)
  then show ?thesis using assms
    by (auto simp: bnd_def upd_msg_def free_msg_def freed_def intro!: msgs_dir.fold_congs(4))
qed

lemma dtor_run:
  assumes "heap s a = Some m" "sg_count m \<le> 0" "sg_marked m = None" "sg_marks m = ks" "distinct ks" "a \<notin> set ks"
    "\<forall>k \<in> set ks. lone_mark (heap s) k" "length ks + 3 \<le> n"
  shows "sc_msg_dtor n a s = Done ((freed (set ks) s)\<lparr>heap := (heap (freed (set ks) s))(a \<mapsto> m\<lparr>sg_marks := []\<rparr>)\<rparr>, Inr ())"
  using assms
proof (induction ks arbitrary: s m n)
  case Nil
  then obtain n' where "n = Suc n'" by (cases n) auto
  with Nil show ?case by (auto simp: freed_def fun_upd_idem)
next
  case (Cons k ks)
  then obtain n' where n: "n = Suc n'" by (cases n) auto
  obtain mk where k: "heap s k = Some mk" "sg_marks mk = []" "sg_count mk = 1" "k \<noteq> a"
    using Cons.prems by (auto simp: lone_mark_def)
  let ?s = "s\<lparr>heap := (heap s)(a \<mapsto> m\<lparr>sg_marks := ks\<rparr>, k \<mapsto> mk\<lparr>sg_marked := None\<rparr>)\<rparr>"
  have u: "unref_bounded n' k ?s = Done (freed {k} ?s, Inr ())"
    by (rule unref_mark [where m = "mk\<lparr>sg_marked := None\<rparr>"]) (use k Cons.prems(8) n in auto)
  have "sc_msg_dtor n' a (freed {k} ?s) = Done ((freed (set ks) (freed {k} ?s))\<lparr>heap := (heap (freed (set ks) (freed {k} ?s)))(a \<mapsto> m\<lparr>sg_marks := []\<rparr>)\<rparr>, Inr ())"
  proof -
    have "\<forall>x \<in> set ks. lone_mark (heap (freed {k} ?s)) x" using Cons.prems by (auto simp: lone_mark_def)
    then show ?thesis using Cons.IH [of "freed {k} ?s" "m\<lparr>sg_marks := ks\<rparr>" n'] Cons.prems k n by (simp add: fun_upd_def cong: if_cong)
  qed
  moreover have "sc_msg_dtor n a s = bnd (unref_bounded n' k) (\<lambda>_. sc_msg_dtor n' a) ?s"
    using Cons.prems k n by (simp add: bnd_def upd_msg_def)
  ultimately show ?case using u k by (auto simp: bnd_def freed_def fun_eq_iff)
qed

lemma unref_last:
  assumes "heap s a = Some m" "sg_count m = 1" "sg_marked m = None" "distinct (sg_marks m)" "a \<notin> set (sg_marks m)"
    "\<forall>k \<in> set (sg_marks m). lone_mark (heap s) k" "\<forall>b. heap s b \<noteq> None \<longrightarrow> b < heap_next s"
  shows "sc_msg_unref a s = Done (freed (insert a (set (sg_marks m))) s, Inr ())"
proof -
  have "set (sg_marks m) \<subseteq> {..< heap_next s}" using assms(6,7) by (auto simp: lone_mark_def)
  from card_mono [OF _ this] have l: "length (sg_marks m) \<le> heap_next s" using distinct_card [OF assms(4)] by simp
  let ?m = "m\<lparr>sg_count := 0\<rparr>" and ?n = "heap_next s + 3"
  let ?s = "s\<lparr>heap := (heap s)(a \<mapsto> ?m)\<rparr>"
  have "sc_msg_dtor ?n a ?s = Done ((freed (set (sg_marks m)) ?s)\<lparr>heap := (heap (freed (set (sg_marks m)) ?s))(a \<mapsto> ?m\<lparr>sg_marks := []\<rparr>)\<rparr>, Inr ())"
    by (rule dtor_run) (use assms l in \<open>auto simp: lone_mark_def\<close>)
  moreover have "sc_msg_unref a s = bnd (sc_msg_dtor ?n a) (\<lambda>_. free_msg a) ?s"
    using assms(1,2) by (simp add: sc_msg_unref_def numeral_3_eq_3 numeral_eq_Suc bnd_def upd_msg_def)
  ultimately show ?thesis by (auto simp: bnd_def freed_def free_msg_def fun_eq_iff)
qed

section \<open>The list of messages\<close>

definition owns :: "(nat \<Rightarrow> sc_msg option) \<Rightarrow> nat set \<Rightarrow> nat \<Rightarrow> sc_msg \<Rightarrow> bool" where
  "owns hp M a m \<longleftrightarrow> hp a = Some m \<and> sg_marked m = None \<and> sg_count m = 1 \<and> distinct (sg_marks m) \<and>
     (\<forall>k \<in> set (sg_marks m). lone_mark hp k \<and> k \<notin> M \<and> sg_marked (the (hp k)) = Some a)"

definition msgs_ok :: "msgs_dir \<Rightarrow> bool" where
  "msgs_ok s \<longleftrightarrow> distinct (md_msgs s) \<and> nb_msgs s = of_nat (length (md_msgs s)) \<and> (\<forall>b. heap s b \<noteq> None \<longrightarrow> b < heap_next s) \<and>
     (\<forall>a \<in> set (md_msgs s). \<exists>m. owns (heap s) (set (md_msgs s)) a m) \<and>
     (\<forall>b. heap s b \<noteq> None \<longrightarrow> b \<in> set (md_msgs s) \<or> (\<exists>a \<in> set (md_msgs s). b \<in> set (sg_marks (the (heap s a)))))"

lemma owns_cong:
  assumes "owns hp M a m" "hp' a = hp a" "\<forall>k \<in> set (sg_marks m). hp' k = hp k \<and> k \<notin> M'"
  shows "owns hp' M' a m"
proof -
  have "lone_mark hp' k = lone_mark hp k" if "k \<in> set (sg_marks m)" for k
    using assms(3) that by (intro lone_mark_cong) blast
  with assms show ?thesis by (simp add: owns_def)
qed

text \<open>What the user of a folder sees: the version, the header and the status of every message, with the marks put on it.\<close>

type_synonym msg_view = "mdir_version \<times> header \<times> int \<times> (mdir_version \<times> header) list"

definition mark_view :: "msgs_dir \<Rightarrow> nat \<Rightarrow> mdir_version \<times> header" where
  "mark_view s k = (sg_version (the (heap s k)), sg_header (the (heap s k)))"

definition msg_view :: "msgs_dir \<Rightarrow> nat \<Rightarrow> msg_view" where
  "msg_view s a = (let m = the (heap s a) in (sg_version m, sg_header m, sg_status m, map (mark_view s) (sg_marks m)))"

definition msgs_view :: "msgs_dir \<Rightarrow> msg_view list" where
  "msgs_view s = map (msg_view s) (md_msgs s)"

lemma msg_view_cong:
  assumes "heap s' a = heap s a" "\<forall>k \<in> set (sg_marks (the (heap s a))). heap s' k = heap s k"
  shows "msg_view s' a = msg_view s a"
  using assms by (simp add: msg_view_def mark_view_def Let_def)

fun on_first :: "('a \<Rightarrow> bool) \<Rightarrow> ('a \<Rightarrow> 'a) \<Rightarrow> 'a list \<Rightarrow> 'a list" where
  "on_first P u [] = []"
| "on_first P u (x # xs) = (if P x then u x # xs else x # on_first P u xs)"

fun remove_first :: "('a \<Rightarrow> bool) \<Rightarrow> 'a list \<Rightarrow> 'a list" where
  "remove_first P [] = []"
| "remove_first P (x # xs) = (if P x then xs else x # remove_first P xs)"

text \<open>The same changes, on what is seen.\<close>

fun view_call :: "listed \<Rightarrow> msg_view list \<Rightarrow> msg_view list" where
  "view_call (PutCb h v) xs =
     (if header_is_directory h then xs
      else if header_has_type h SC_MARK_TYPE then
        (case header_target h of
           Inl e \<Rightarrow> xs
         | Inr t \<Rightarrow> on_first (\<lambda>x. fst x = t) (\<lambda>(w, g, st, ms). (w, g, st, (v, h) # ms)) xs)
      else xs @ [(v, h, 0, [])])"
| "view_call (RemCb v) xs = remove_first (\<lambda>x. fst x = v) xs"
| "view_call (ErrCb h v) xs = on_first (\<lambda>x. fst x = v) (\<lambda>(w, g, st, ms). (w, g, err_status h, ms)) xs"

lemma find_holds: "find P as = Some b \<Longrightarrow> P b \<and> b \<in> set as"
  by (auto simp: find_Some_iff)

lemma on_first_map:
  assumes "find (\<lambda>a. P (f a)) as = Some b" "distinct as" "\<forall>a \<in> set as. a \<noteq> b \<longrightarrow> g a = f a" "g b = u (f b)"
  shows "map g as = on_first P u (map f as)"
  using assms by (induction as) (auto split: if_splits dest: find_holds)

lemma on_first_none: "find (\<lambda>a. P (f a)) as = None \<Longrightarrow> on_first P u (map f as) = map f as"
  by (induction as) (auto split: if_splits)

lemma remove_first_map: "find (\<lambda>a. P (f a)) as = Some b \<Longrightarrow> map f (remove1 b as) = remove_first P (map f as)"
  by (induction as) (auto split: if_splits dest: find_holds)

lemma remove_first_none: "find (\<lambda>a. P (f a)) as = None \<Longrightarrow> remove_first P (map f as) = map f as"
  by (induction as) (auto split: if_splits)

lemma find_msg:
  "\<forall>a \<in> set as. hp a \<noteq> None \<Longrightarrow> find_msg_by_version hp as v = Done (find (\<lambda>a. sg_version (the (hp a)) = v) as)"
  by (induction as) auto

lemma find_view:
  assumes "msgs_ok s"
  shows "find_msg_by_version (heap s) (md_msgs s) v = Done (find (\<lambda>a. fst (msg_view s a) = v) (md_msgs s))"
proof -
  have "\<forall>a \<in> set (md_msgs s). heap s a \<noteq> None" using assms unfolding msgs_ok_def owns_def by blast
  from find_msg [OF this] show ?thesis by (simp add: msg_view_def Let_def)
qed

lemma ok_msg:
  assumes "msgs_ok s" "a \<in> set (md_msgs s)"
  obtains m where "owns (heap s) (set (md_msgs s)) a m" "heap s a = Some m" "a \<notin> set (sg_marks m)"
    "\<forall>k \<in> set (sg_marks m). heap s k \<noteq> None \<and> k \<notin> set (md_msgs s) \<and> sg_marked (the (heap s k)) = Some a"
proof -
  from assms obtain m where "owns (heap s) (set (md_msgs s)) a m" unfolding msgs_ok_def by blast
  with assms(2) show thesis by (intro that [of m]) (auto simp: owns_def lone_mark_def)
qed

lemma owns_mark: "owns hp M a m \<Longrightarrow> k \<in> set (sg_marks m) \<Longrightarrow> hp k \<noteq> None \<and> k \<notin> M \<and> sg_marked (the (hp k)) = Some a"
  by (auto simp: owns_def lone_mark_def)

lemma ok_owns: "msgs_ok s \<Longrightarrow> a \<in> set (md_msgs s) \<Longrightarrow> owns (heap s) (set (md_msgs s)) a (the (heap s a)) \<and> heap s a \<noteq> None"
  unfolding msgs_ok_def owns_def by fastforce

lemma msgs_okI:
  assumes "msgs_ok s" "distinct (md_msgs t)" "nb_msgs t = of_nat (length (md_msgs t))" "\<And>b. heap t b \<noteq> None \<Longrightarrow> b < heap_next t"
    "\<And>a. a \<in> set (md_msgs t) \<Longrightarrow> \<exists>m. owns (heap t) (set (md_msgs t)) a m"
    "\<And>b. heap t b \<noteq> None \<Longrightarrow> b \<in> set (md_msgs t) \<or> (\<exists>a \<in> set (md_msgs t). b \<in> set (sg_marks (the (heap t a))))"
  shows "msgs_ok t"
  unfolding msgs_ok_def using assms(2-6) by blast

lemma ok_reach:
  assumes "msgs_ok s" "heap s b \<noteq> None"
  obtains "b \<in> set (md_msgs s)" | c where "c \<in> set (md_msgs s)" "b \<in> set (sg_marks (the (heap s c)))"
  using assms unfolding msgs_ok_def by blast

lemma heap_bound: "msgs_ok s \<Longrightarrow> heap s b \<noteq> None \<Longrightarrow> b < heap_next s"
  by (simp add: msgs_ok_def)

lemma rem_msg_view:
  assumes "msgs_ok s"
  shows "\<exists>s'. rem_msg v s = Done s' \<and> msgs_ok s' \<and> msgs_view s' = remove_first (\<lambda>x. fst x = v) (msgs_view s)"
proof (cases "find (\<lambda>a. fst (msg_view s a) = v) (md_msgs s)")
  case None
  then show ?thesis using assms find_view [OF assms, of v] remove_first_none [of "\<lambda>x. fst x = v" "msg_view s" "md_msgs s"]
    by (simp add: rem_msg_def msgs_view_def)
next
  case (Some a)
  from find_holds [OF this] have a: "a \<in> set (md_msgs s)" by simp
  obtain m where m: "owns (heap s) (set (md_msgs s)) a m" "heap s a = Some m" "a \<notin> set (sg_marks m)"
    "\<forall>k \<in> set (sg_marks m). heap s k \<noteq> None \<and> k \<notin> set (md_msgs s) \<and> sg_marked (the (heap s k)) = Some a"
    by (rule ok_msg [OF assms a])
  define D where "D = insert a (set (sg_marks m))"
  define t where "t = freed D (s\<lparr>md_msgs := remove1 a (md_msgs s), nb_msgs := nb_msgs s - 1\<rparr>)"
  have t: "md_msgs t = remove1 a (md_msgs s)" "nb_msgs t = nb_msgs s - 1" "heap_next t = heap_next s" "heap t = (\<lambda>b. if b \<in> D then None else heap s b)"
    by (simp_all add: t_def fun_eq_iff)
  have "sc_msg_unref a (s\<lparr>md_msgs := remove1 a (md_msgs s), nb_msgs := nb_msgs s - 1\<rparr>) = Done (t, Inr ())"
    unfolding t_def D_def by (rule unref_last) (use m heap_bound [OF assms] in \<open>auto simp: owns_def\<close>)
  then have r: "rem_msg v s = Done t"
    using find_view [OF assms, of v] Some by (simp add: rem_msg_def)
  have ms: "b \<in> set (md_msgs t) \<longleftrightarrow> b \<in> set (md_msgs s) \<and> b \<noteq> a" for b using assms t by (simp add: msgs_ok_def)
  have out: "b \<notin> D \<and> (\<forall>k \<in> set (sg_marks (the (heap s b))). k \<notin> D)" if b: "b \<in> set (md_msgs t)" for b
  proof -
    from b ms have "b \<in> set (md_msgs s)" by blast
    then obtain mb where "heap s b = Some mb" "\<forall>k \<in> set (sg_marks mb). heap s k \<noteq> None \<and> k \<notin> set (md_msgs s) \<and> sg_marked (the (heap s k)) = Some b"
      by (rule ok_msg [OF assms])
    moreover have "k \<notin> set (sg_marks m)" if "k \<in> set (sg_marks mb)" for k
      using that m(4) calculation b ms by (metis option.inject)
    ultimately show ?thesis using b ms a m(4) by (auto simp: D_def)
  qed
  have "msgs_ok t"
  proof (rule msgs_okI [OF assms])
    show "distinct (md_msgs t)" using assms t by (simp add: msgs_ok_def)
    have "0 < length (md_msgs s)" using a by (cases "md_msgs s") auto
    then show "nb_msgs t = of_nat (length (md_msgs t))"
      using assms a t by (simp add: msgs_ok_def length_remove1 of_nat_diff Suc_le_eq)
  next
    fix b assume "heap t b \<noteq> None"
    then have b: "heap s b \<noteq> None" "b \<notin> D" using t(4) by (auto split: if_splits)
    then show "b < heap_next t" using heap_bound [OF assms] t by simp
    show "b \<in> set (md_msgs t) \<or> (\<exists>c \<in> set (md_msgs t). b \<in> set (sg_marks (the (heap t c))))"
    proof (rule ok_reach [OF assms b(1)])
      fix c assume c: "c \<in> set (md_msgs s)" "b \<in> set (sg_marks (the (heap s c)))"
      with b m(2) have "c \<in> set (md_msgs t)" by (auto simp: ms D_def)
      with c out [OF this] show ?thesis by (auto simp: t(4))
    qed (use b in \<open>auto simp: ms D_def\<close>)
  next
    fix b assume b: "b \<in> set (md_msgs t)"
    then have "b \<in> set (md_msgs s)" using ms by blast
    then obtain mb where mb: "owns (heap s) (set (md_msgs s)) b mb" "heap s b = Some mb"
      "\<forall>k \<in> set (sg_marks mb). heap s k \<noteq> None \<and> k \<notin> set (md_msgs s) \<and> sg_marked (the (heap s k)) = Some b"
      by (rule ok_msg [OF assms])
    have "owns (heap t) (set (md_msgs t)) b mb"
      by (rule owns_cong [OF mb(1)]) (use out [OF b] mb(2,3) ms in \<open>auto simp: t(4)\<close>)
    then show "\<exists>m. owns (heap t) (set (md_msgs t)) b m" ..
  qed
  moreover have "msgs_view t = map (msg_view s) (remove1 a (md_msgs s))"
    unfolding msgs_view_def t(1)
    by (rule map_cong [OF refl], rule msg_view_cong) (use out in \<open>auto simp: t\<close>)
  ultimately show ?thesis
    using r remove_first_map [of "\<lambda>x. fst x = v" "msg_view s" "md_msgs s", OF Some] by (auto simp: msgs_view_def)
qed

lemma add_top_view:
  assumes "msgs_ok s"
  shows "\<exists>s' a. sc_msg_new h v 0 None s = Done (s', Inr a) \<and> (let t = s'\<lparr>md_msgs := md_msgs s' @ [a], nb_msgs := nb_msgs s' + 1\<rparr>
     in msgs_ok t \<and> msgs_view t = msgs_view s @ [(v, h, 0, [])])"
proof -
  define a where "a = heap_next s"
  define m where "m = \<lparr>sg_header = h, sg_version = v, sg_status = 0, sg_marks = [], sg_marked = None, sg_count = 1\<rparr>"
  define t where "t = s\<lparr>heap := (heap s)(a \<mapsto> m), heap_next := Suc a, md_msgs := md_msgs s @ [a], nb_msgs := nb_msgs s + 1\<rparr>"
  have t: "md_msgs t = md_msgs s @ [a]" "nb_msgs t = nb_msgs s + 1" "heap_next t = Suc a" "heap t = (heap s)(a \<mapsto> m)" by (simp_all add: t_def)
  have fresh: "heap s a = None" using heap_bound [OF assms, of a] by (cases "heap s a") (simp_all add: a_def)
  then have new: "a \<notin> set (md_msgs s)" using ok_owns [OF assms, of a] by blast
  have own: "owns (heap t) (set (md_msgs t)) b mb \<and> msg_view t b = msg_view s b" if b: "b \<in> set (md_msgs s)" "heap s b = Some mb" for b mb
  proof -
    have mb: "owns (heap s) (set (md_msgs s)) b mb" using ok_owns [OF assms b(1)] b(2) by simp
    note mb = mb owns_mark [OF mb]
    have k: "\<forall>k \<in> set (sg_marks mb). k \<noteq> a" "b \<noteq> a" using mb(2) fresh b new by blast+
    show ?thesis
      by (rule conjI, rule owns_cong [OF mb(1)], use k mb(2) in \<open>auto simp: t\<close>, rule msg_view_cong) (use k b in \<open>auto simp: t\<close>)
  qed
  have "msgs_ok t"
  proof (rule msgs_okI [OF assms])
    show "distinct (md_msgs t)" "nb_msgs t = of_nat (length (md_msgs t))" using assms new by (simp_all add: t msgs_ok_def)
  next
    fix b assume "heap t b \<noteq> None"
    then have b: "b = a \<or> heap s b \<noteq> None" by (auto simp: t split: if_splits)
    then show "b < heap_next t" using heap_bound [OF assms, of b] by (auto simp: t a_def)
    show "b \<in> set (md_msgs t) \<or> (\<exists>c \<in> set (md_msgs t). b \<in> set (sg_marks (the (heap t c))))"
    proof (cases "b = a")
      case False
      with b have "heap s b \<noteq> None" by blast
      then show ?thesis by (rule ok_reach [OF assms]) (use new in \<open>auto simp: t\<close>)
    qed (simp add: t)
  next
    fix b assume "b \<in> set (md_msgs t)"
    then show "\<exists>m. owns (heap t) (set (md_msgs t)) b m"
    proof (cases "b = a")
      case True
      then have "owns (heap t) (set (md_msgs t)) b m" by (simp add: owns_def t m_def)
      then show ?thesis ..
    next
      case False
      with \<open>b \<in> set (md_msgs t)\<close> have b: "b \<in> set (md_msgs s)" by (simp add: t)
      from ok_owns [OF assms this] own [OF b] show ?thesis by blast
    qed
  qed
  moreover have "msgs_view t = msgs_view s @ [(v, h, 0, [])]"
  proof -
    have "map (msg_view t) (md_msgs s) = map (msg_view s) (md_msgs s)"
      by (rule map_cong [OF refl]) (use own ok_owns [OF assms] in fastforce)
    then show ?thesis by (simp add: msgs_view_def t) (simp add: msg_view_def t m_def)
  qed
  moreover have "sc_msg_new h v 0 None s = Done (s\<lparr>heap := (heap s)(a \<mapsto> m), heap_next := Suc a\<rparr>, Inr a)"
    by (simp add: sc_msg_new_def bnd_def Let_def a_def m_def)
  ultimately show ?thesis by (simp add: Let_def t_def)
qed

lemma add_mark_view:
  assumes "msgs_ok s" "find (\<lambda>a. fst (msg_view s a) = w) (md_msgs s) = Some b"
  shows "\<exists>t. sc_msg_new h v 0 (Some b) s = Done (t, Inr (heap_next s)) \<and> msgs_ok t \<and>
    msgs_view t = on_first (\<lambda>x. fst x = w) (\<lambda>(w, g, st, ms). (w, g, st, (v, h) # ms)) (msgs_view s)"
proof -
  have b: "b \<in> set (md_msgs s)" using find_holds [OF assms(2)] by simp
  obtain mb where mb: "owns (heap s) (set (md_msgs s)) b mb" "heap s b = Some mb" "b \<notin> set (sg_marks mb)"
    "\<forall>k \<in> set (sg_marks mb). heap s k \<noteq> None \<and> k \<notin> set (md_msgs s) \<and> sg_marked (the (heap s k)) = Some b"
    by (rule ok_msg [OF assms(1) b])
  define a where "a = heap_next s"
  define m where "m = \<lparr>sg_header = h, sg_version = v, sg_status = 0, sg_marks = [], sg_marked = Some b, sg_count = 1\<rparr>"
  define t where "t = s\<lparr>heap := (heap s)(a \<mapsto> m, b \<mapsto> mb\<lparr>sg_marks := a # sg_marks mb\<rparr>), heap_next := Suc a\<rparr>"
  have t: "md_msgs t = md_msgs s" "nb_msgs t = nb_msgs s" "heap_next t = Suc a"
    "heap t = (heap s)(a \<mapsto> m, b \<mapsto> mb\<lparr>sg_marks := a # sg_marks mb\<rparr>)" by (simp_all add: t_def)
  have fresh: "heap s a = None" using heap_bound [OF assms(1), of a] by (cases "heap s a") (simp_all add: a_def)
  with mb(2) have ab: "a \<noteq> b" by auto
  from fresh have new: "a \<notin> set (md_msgs s)" using ok_owns [OF assms(1), of a] by blast
  have fm: "a \<notin> set (sg_marks mb)" using mb(4) fresh by auto
  have keep: "\<forall>k \<in> set (sg_marks mb). heap t k = heap s k" using fm mb(3) by (auto simp: t)
  then have lm: "\<forall>k \<in> set (sg_marks mb). lone_mark (heap t) k"
    using mb(1) lone_mark_cong [of "heap t" _ "heap s"] unfolding owns_def by blast
  have "owns (heap t) (set (md_msgs t)) b (mb\<lparr>sg_marks := a # sg_marks mb\<rparr>)"
    using mb(1) lm keep fm new ab by (auto simp: owns_def t(1,4)) (auto simp: lone_mark_def m_def)
  moreover have own: "owns (heap t) (set (md_msgs t)) c mc \<and> msg_view t c = msg_view s c"
    if c: "c \<in> set (md_msgs s)" "c \<noteq> b" "heap s c = Some mc" for c mc
  proof -
    have mc: "owns (heap s) (set (md_msgs s)) c mc" using ok_owns [OF assms(1) c(1)] c(3) by simp
    note mc = mc owns_mark [OF mc]
    have k: "\<forall>k \<in> set (sg_marks mc). k \<noteq> a \<and> k \<noteq> b" "c \<noteq> a" using mc(2) fresh c new b by blast+
    show ?thesis
      by (rule conjI, rule owns_cong [OF mc(1)], use k mc(2) c in \<open>auto simp: t\<close>, rule msg_view_cong) (use k c in \<open>auto simp: t\<close>)
  qed
  ultimately have owned: "\<exists>m. owns (heap t) (set (md_msgs t)) c m" if "c \<in> set (md_msgs t)" for c
    using that ok_owns [OF assms(1), of c] by (cases "c = b") (auto simp: t(1))
  have "msgs_ok t"
  proof (rule msgs_okI [OF assms(1)])
    show "distinct (md_msgs t)" "nb_msgs t = of_nat (length (md_msgs t))" using assms(1) by (simp_all add: t msgs_ok_def)
  next
    fix c assume "heap t c \<noteq> None"
    then have c: "c = a \<or> heap s c \<noteq> None" using mb(2) by (auto simp: t split: if_splits)
    then show "c < heap_next t" using heap_bound [OF assms(1), of c] by (auto simp: t a_def)
    show "c \<in> set (md_msgs t) \<or> (\<exists>d \<in> set (md_msgs t). c \<in> set (sg_marks (the (heap t d))))"
    proof (cases "c = a")
      case False
      with c have "heap s c \<noteq> None" by blast
      then show ?thesis by (rule ok_reach [OF assms(1)]) (use new mb(2) in \<open>auto simp: t\<close>)
    qed (use b in \<open>auto simp: t\<close>)
  qed (fact owned)
  moreover have "msgs_view t = on_first (\<lambda>x. fst x = w) (\<lambda>(w, g, st, ms). (w, g, st, (v, h) # ms)) (msgs_view s)"
    unfolding msgs_view_def t(1)
  proof (rule on_first_map [of "\<lambda>x. fst x = w" "msg_view s", OF assms(2)])
    show "distinct (md_msgs s)" using assms(1) by (simp add: msgs_ok_def)
    show "\<forall>c \<in> set (md_msgs s). c \<noteq> b \<longrightarrow> msg_view t c = msg_view s c" using own ok_owns [OF assms(1)] by fastforce
    have "map (mark_view t) (sg_marks mb) = map (mark_view s) (sg_marks mb)" using keep by (simp add: mark_view_def)
    then show "msg_view t b = (case msg_view s b of (w, g, st, ms) \<Rightarrow> (w, g, st, (v, h) # ms))"
      using mb(2) ab by (simp add: msg_view_def t(4)) (simp add: mark_view_def t(4) m_def)
  qed
  moreover have "sc_msg_new h v 0 (Some b) s = Done (t, Inr a)"
    using ab mb(2) by (simp add: sc_msg_new_def bnd_def Let_def a_def m_def t_def upd_msg_def)
  ultimately show ?thesis by (simp add: a_def)
qed

lemma err_msg_view:
  assumes "msgs_ok s"
  shows "\<exists>t. err_msg h v s = Done t \<and> msgs_ok t \<and>
    msgs_view t = on_first (\<lambda>x. fst x = v) (\<lambda>(w, g, st, ms). (w, g, err_status h, ms)) (msgs_view s)"
proof (cases "find (\<lambda>a. fst (msg_view s a) = v) (md_msgs s)")
  case None
  then show ?thesis using assms find_view [OF assms, of v] on_first_none [of "\<lambda>x. fst x = v" "msg_view s" "md_msgs s"]
    by (simp add: err_msg_def msgs_view_def)
next
  case (Some b)
  then have b: "b \<in> set (md_msgs s)" using find_holds by fast
  then obtain mb where mb: "owns (heap s) (set (md_msgs s)) b mb" "heap s b = Some mb" using ok_owns [OF assms b] by auto
  define t where "t = s\<lparr>heap := (heap s)(b \<mapsto> mb\<lparr>sg_status := err_status h\<rparr>)\<rparr>"
  have t: "md_msgs t = md_msgs s" "nb_msgs t = nb_msgs s" "heap_next t = heap_next s" "heap t = (heap s)(b \<mapsto> mb\<lparr>sg_status := err_status h\<rparr>)"
    by (simp_all add: t_def)
  have marks: "k \<noteq> b" if "owns (heap s) (set (md_msgs s)) c mc" "k \<in> set (sg_marks mc)" for c mc k
    using owns_mark [OF that] b by blast
  have "owns (heap t) (set (md_msgs t)) b (mb\<lparr>sg_status := err_status h\<rparr>)"
  proof -
    have "lone_mark (heap t) k = lone_mark (heap s) k \<and> heap t k = heap s k" if "k \<in> set (sg_marks mb)" for k
      using marks [OF mb(1) that] lone_mark_cong [of "heap t" k "heap s"] by (simp add: t)
    with mb(1) show ?thesis by (simp add: owns_def t(1)) (simp add: t(4))
  qed
  moreover have own: "owns (heap t) (set (md_msgs t)) c mc \<and> msg_view t c = msg_view s c" if c: "c \<in> set (md_msgs s)" "c \<noteq> b" "heap s c = Some mc" for c mc
  proof -
    have mc: "owns (heap s) (set (md_msgs s)) c mc" using ok_owns [OF assms c(1)] c(3) by simp
    note k = marks [OF mc] owns_mark [OF mc]
    show ?thesis
      by (rule conjI, rule owns_cong [OF mc], use k c in \<open>auto simp: t\<close>, rule msg_view_cong) (use k c in \<open>auto simp: t\<close>)
  qed
  ultimately have owned: "\<exists>m. owns (heap t) (set (md_msgs t)) c m" if "c \<in> set (md_msgs t)" for c
    using that ok_owns [OF assms, of c] by (cases "c = b") (auto simp: t(1))
  have "msgs_ok t"
  proof (rule msgs_okI [OF assms])
    show "distinct (md_msgs t)" "nb_msgs t = of_nat (length (md_msgs t))" using assms by (simp_all add: t msgs_ok_def)
  next
    fix c assume "heap t c \<noteq> None"
    then have c: "heap s c \<noteq> None" using mb(2) by (auto simp: t split: if_splits)
    then show "c < heap_next t" using heap_bound [OF assms, of c] by (simp add: t)
    have "sg_marks (the (heap t d)) = sg_marks (the (heap s d))" for d using mb(2) by (simp add: t)
    with c show "c \<in> set (md_msgs t) \<or> (\<exists>d \<in> set (md_msgs t). c \<in> set (sg_marks (the (heap t d))))"
      by (metis ok_reach [OF assms] t(1))
  qed (fact owned)
  moreover have "msgs_view t = on_first (\<lambda>x. fst x = v) (\<lambda>(w, g, st, ms). (w, g, err_status h, ms)) (msgs_view s)"
    unfolding msgs_view_def t(1)
  proof (rule on_first_map [of "\<lambda>x. fst x = v" "msg_view s", OF Some])
    show "distinct (md_msgs s)" using assms by (simp add: msgs_ok_def)
    show "\<forall>c \<in> set (md_msgs s). c \<noteq> b \<longrightarrow> msg_view t c = msg_view s c" using own ok_owns [OF assms] by fastforce
    have "map (mark_view t) (sg_marks mb) = map (mark_view s) (sg_marks mb)" using marks [OF mb(1)] by (auto simp: mark_view_def t)
    then show "msg_view t b = (case msg_view s b of (w, g, st, ms) \<Rightarrow> (w, g, err_status h, ms))"
      using mb(2) by (simp add: msg_view_def t(4))
  qed
  moreover have "err_msg h v s = Done t" using find_view [OF assms, of v] Some mb(2) by (simp add: err_msg_def upd_msg_def t_def)
  ultimately show ?thesis by blast
qed

lemma msg_call_view:
  assumes "msgs_ok s"
  shows "\<exists>t. msg_call l s = Done t \<and> msgs_ok t \<and> msgs_view t = view_call l (msgs_view s)"
proof (cases l)
  case (PutCb h v)
  consider "header_is_directory h" | "\<not> header_is_directory h" "header_has_type h SC_MARK_TYPE" | "\<not> header_is_directory h" "\<not> header_has_type h SC_MARK_TYPE"
    by blast
  then show ?thesis
  proof cases
    case 2
    show ?thesis
    proof (cases "header_target h")
      case (Inr w)
      show ?thesis
      proof (cases "find (\<lambda>a. fst (msg_view s a) = w) (md_msgs s)")
        case None
        then show ?thesis using 2 Inr PutCb assms find_view [OF assms, of w] on_first_none [of "\<lambda>x. fst x = w" "msg_view s" "md_msgs s"]
          by (simp add: add_msg_def msgs_view_def)
      next
        case (Some b)
        from add_mark_view [OF assms Some, of h v] obtain t where "sc_msg_new h v 0 (Some b) s = Done (t, Inr (heap_next s))" "msgs_ok t"
          "msgs_view t = on_first (\<lambda>x. fst x = w) (\<lambda>(w, g, st, ms). (w, g, st, (v, h) # ms)) (msgs_view s)" by blast
        then show ?thesis using 2 Inr PutCb find_view [OF assms, of w] Some by (simp add: add_msg_def)
      qed
    qed (use 2 PutCb assms in \<open>simp add: add_msg_def\<close>)
  next
    case 3
    from add_top_view [OF assms, of h v] show ?thesis using 3 PutCb by (auto simp: add_msg_def Let_def)
  qed (use PutCb assms in \<open>simp add: add_msg_def\<close>)
next
  case (RemCb v)
  then show ?thesis using rem_msg_view [OF assms, of v] by simp
next
  case (ErrCb h v)
  then show ?thesis using err_msg_view [OF assms, of h v] by simp
qed

lemma msg_calls_view:
  "msgs_ok s \<Longrightarrow> \<exists>t. msg_calls ls s = Done t \<and> msgs_ok t \<and> msgs_view t = fold view_call ls (msgs_view s)"
proof (induction ls arbitrary: s)
  case (Cons l ls)
  obtain t where "msg_call l s = Done t" "msgs_ok t" "msgs_view t = view_call l (msgs_view s)"
    using msg_call_view [OF Cons.prems, of l] by blast
  with Cons.IH [of t] show ?case by simp
qed simp

lemma ctor_ok: "msgs_ok mdirc_ctor" "msgs_view mdirc_ctor = []"
  by (simp_all add: msgs_ok_def mdirc_ctor_def msgs_view_def)

section \<open>The fields of a message\<close>

text \<open>The values that a search in a header gives, from a field on.\<close>

definition values_from :: "string option \<Rightarrow> header \<Rightarrow> nat option \<Rightarrow> string list" where
  "values_from nm h prev = map hf_value (filter (name_matches nm) (drop (case prev of None \<Rightarrow> 0 | Some p \<Rightarrow> Suc p) (h_fields h)))"

lemma header_find_values:
  "case header_find h nm prev of
     None \<Rightarrow> values_from nm h prev = []
   | Some i \<Rightarrow> values_from nm h prev = hf_value (h_fields h ! i) # values_from nm h (Some i)"
proof -
  define n where "n = (case prev of None \<Rightarrow> 0 | Some p \<Rightarrow> Suc p)"
  have f: "header_find h nm prev = find_from nm n (drop n (h_fields h))" by (simp add: header_find_def n_def Let_def)
  show ?thesis
  proof (cases "header_find h nm prev")
    case None
    then have "values_from nm h prev = []" using f by (simp add: find_from_None values_from_def n_def [symmetric] filter_empty_conv)
    with None show ?thesis by simp
  next
    case (Some i)
    let ?d = "drop n (h_fields h)"
    from Some f have i: "n \<le> i" "i - n < length ?d" "name_matches nm (?d ! (i - n))" "\<forall>k < i - n. \<not> name_matches nm (?d ! k)"
      by (auto simp: find_from_Some)
    have "filter (name_matches nm) (take (i - n) ?d) = []" using i(2,4) by (auto simp: filter_empty_conv in_set_conv_nth)
    moreover have "?d = take (i - n) ?d @ (?d ! (i - n)) # drop (Suc (i - n)) ?d" using i(2) by (rule id_take_nth_drop)
    ultimately have "filter (name_matches nm) ?d = (?d ! (i - n)) # filter (name_matches nm) (drop (Suc (i - n)) ?d)"
      using i(3) by (metis append_Nil filter.simps(2) filter_append)
    moreover have "?d ! (i - n) = h_fields h ! i" "drop (Suc (i - n)) ?d = drop (Suc i) (h_fields h)" using i by simp_all
    ultimately show ?thesis using Some by (simp add: values_from_def n_def [symmetric])
  qed
qed

text \<open>A message that is not in error counts, with all its fields of a name.\<close>

definition valid_values :: "string option \<Rightarrow> sc_msg \<Rightarrow> nat option \<Rightarrow> string list" where
  "valid_values nm m prev = (if sg_status m = 0 then values_from nm (sg_header m) prev else [])"

text \<open>The state while a cursor holds a message and possibly one of its marks.\<close>

definition held :: "nat \<Rightarrow> nat option \<Rightarrow> msgs_dir \<Rightarrow> msgs_dir" where
  "held a ko s = s\<lparr>heap := (\<lambda>b. map_option (\<lambda>m. m\<lparr>sg_count := sg_count m + (if b = a \<or> ko = Some b then 1 else 0)\<rparr>) (heap s b))\<rparr>"

lemma held_simps [simp]:
  "heap (held a ko s) b = map_option (\<lambda>m. m\<lparr>sg_count := sg_count m + (if b = a \<or> ko = Some b then 1 else 0)\<rparr>) (heap s b)"
  "heap_next (held a ko s) = heap_next s"
  by (simp_all add: held_def)

lemma held_update: "(held a ko s)\<lparr>heap := f\<rparr> = s\<lparr>heap := f\<rparr>"
  by (simp add: held_def)

lemma ref_held:
  assumes "heap s k = Some m" "k \<noteq> a"
  shows "sc_msg_ref k (held a None s) = Done (held a (Some k) s, Inr ())"
  using assms by (auto simp: sc_msg_ref_def upd_msg_def held_update) (auto simp: held_def fun_eq_iff)

lemma unref_held:
  assumes "heap s k = Some m" "k \<noteq> a" "sg_count m = 1"
  shows "sc_msg_unref k (held a (Some k) s) = Done (held a None s, Inr ())"
  using assms by (auto simp: sc_msg_unref_def numeral_eq_Suc upd_msg_def bnd_def held_update) (auto simp: held_def fun_eq_iff)

lemma ref_message:
  assumes "heap s a = Some m"
  shows "sc_msg_ref a s = Done (held a None s, Inr ())"
proof -
  have "(heap s)(a \<mapsto> m\<lparr>sg_count := sg_count m + 1\<rparr>) = heap (held a None s)"
    using assms by (auto simp: fun_eq_iff map_option.identity option.map_ident_strong)
  then show ?thesis using assms by (simp add: sc_msg_ref_def upd_msg_def) (simp add: held_def)
qed

lemma unref_message:
  assumes "heap s a = Some m" "sg_count m = 1"
  shows "sc_msg_unref a (held a None s) = Done (s, Inr ())"
proof -
  have "(heap (held a None s))(a \<mapsto> m\<lparr>sg_count := 1\<rparr>) = heap s"
    using assms by (auto simp: fun_eq_iff map_option.identity option.map_ident_strong)
  moreover have "sc_msg_unref a (held a None s) = Done ((held a None s)\<lparr>heap := (heap (held a None s))(a \<mapsto> m\<lparr>sg_count := 1\<rparr>)\<rparr>, Inr ())"
    using assms by (simp add: sc_msg_unref_def numeral_eq_Suc upd_msg_def bnd_def)
  ultimately show ?thesis by (simp add: held_update)
qed

text \<open>A message with its marks, as the cursor needs them.\<close>

definition msg_readable :: "msgs_dir \<Rightarrow> nat \<Rightarrow> sc_msg \<Rightarrow> bool" where
  "msg_readable s a m \<longleftrightarrow> heap s a = Some m \<and> sg_count m = 1 \<and> distinct (sg_marks m) \<and> (\<forall>k \<in> set (sg_marks m). k \<noteq> a \<and> lone_mark (heap s) k)"

definition values_at :: "string option \<Rightarrow> msgs_dir \<Rightarrow> nat \<Rightarrow> nat option \<Rightarrow> string list" where
  "values_at nm s b prev = valid_values nm (the (heap s b)) prev"

definition values_of :: "string option \<Rightarrow> msgs_dir \<Rightarrow> nat list \<Rightarrow> string list" where
  "values_of nm s ks = concat (map (\<lambda>k. values_at nm s k None) ks)"

text \<open>The message a cursor is in, the marks it has still to visit, the values it has still to give, the value it gives.\<close>

definition cu_place :: "sc_msg_cursor \<Rightarrow> nat" where
  "cu_place c = (case cu_mark c of None \<Rightarrow> cu_msg c | Some k \<Rightarrow> k)"

definition cu_rest :: "sc_msg \<Rightarrow> sc_msg_cursor \<Rightarrow> nat list option" where
  "cu_rest m c = (case cu_mark c of None \<Rightarrow> Some (sg_marks m) | Some k \<Rightarrow> marks_after k (sg_marks m))"

definition cu_value :: "msgs_dir \<Rightarrow> sc_msg_cursor \<Rightarrow> string option" where
  "cu_value s c = map_option (\<lambda>i. hf_value (h_fields (sg_header (the (heap s (cu_place c)))) ! i)) (cu_hf c)"

lemma marks_after_app: "k \<notin> set ps \<Longrightarrow> marks_after k (ps @ k # ks) = Some ks"
  by (induction ps) (auto simp: marks_after_def)

declare cursor_search.simps [simp del]

lemma found_in:
  assumes "heap s b = Some mb"
  shows "case (if sg_status mb = 0 then header_find (sg_header mb) nm prev else None) of
     None \<Rightarrow> values_at nm s b prev = []
   | Some i \<Rightarrow> values_at nm s b prev = hf_value (h_fields (sg_header mb) ! i) # values_at nm s b (Some i)"
  using header_find_values [where h = "sg_header mb" and nm = nm and prev = prev] assms
  by (auto simp: values_at_def valid_values_def split: option.splits)

lemma search_here:
  assumes "heap s b = Some mb" "values_at nm s b (cu_hf c) = v # vs"
  shows "\<exists>i. cursor_search nm c b ks (held a ko s) = Done (held a ko s, Inr (c\<lparr>cu_hf := Some i\<rparr>)) \<and>
    hf_value (h_fields (sg_header mb) ! i) = v \<and> values_at nm s b (Some i) = vs"
  using found_in [OF assms(1), of nm "cu_hf c"] assms by (auto simp: cursor_search.simps split: option.splits if_splits)

lemma search_on:
  assumes "msg_readable s a m" "cu_msg c = a" "heap s b = Some mb" "values_at nm s b (cu_hf c) = []"
    "cu_mark c = None \<or> (\<exists>k \<in> set (sg_marks m). cu_mark c = Some k)" "set ks \<subseteq> set (sg_marks m)"
  shows "cursor_search nm c b ks (held a (cu_mark c) s) = (case ks of
     [] \<Rightarrow> Done (held a None s, Inr \<lparr>cu_msg = a, cu_mark = None, cu_hf = None\<rparr>)
   | k # ks \<Rightarrow> cursor_search nm (c\<lparr>cu_mark := Some k, cu_hf := None\<rparr>) k ks (held a (Some k) s))"
proof -
  have no: "(if sg_status mb = 0 then header_find (sg_header mb) nm (cu_hf c) else None) = None"
    using found_in [OF assms(3), of nm "cu_hf c"] assms(4) by (cases "header_find (sg_header mb) nm (cu_hf c)") (auto split: if_splits)
  have u: "(case cu_mark c of None \<Rightarrow> ret () | Some k \<Rightarrow> sc_msg_unref k) (held a (cu_mark c) s) = Done (held a None s, Inr ())"
  proof (cases "cu_mark c")
    case (Some k)
    with assms(1,5) obtain mk where "heap s k = Some mk" "k \<noteq> a" "sg_count mk = 1" by (auto simp: msg_readable_def lone_mark_def)
    from unref_held [OF this] Some show ?thesis by simp
  qed simp
  have c: "c\<lparr>cu_mark := None, cu_hf := None\<rparr> = \<lparr>cu_msg = a, cu_mark = None, cu_hf = None\<rparr>" using assms(2) by simp
  have r: "sc_msg_ref k (held a None s) = Done (held a (Some k) s, Inr ())" if "k \<in> set ks" for k
  proof -
    from assms(1,6) that obtain mk where "heap s k = Some mk" "k \<noteq> a" by (auto simp: msg_readable_def lone_mark_def)
    then show ?thesis by (rule ref_held)
  qed
  show ?thesis using no u c r assms(3) by (cases ks) (simp_all add: cursor_search.simps [of nm c] bnd_def split: if_splits)
qed

lemma search_values:
  assumes "msg_readable s a m" "cu_msg c = a" "cu_rest m c = Some ks" "cu_mark c = None \<or> (\<exists>k \<in> set (sg_marks m). cu_mark c = Some k)"
    "sg_marks m = ps @ ks"
  shows "\<exists>c'. cursor_search nm c (cu_place c) ks (held a (cu_mark c) s) = Done (held a (cu_mark c') s, Inr c') \<and> cu_msg c' = a \<and>
    (case values_at nm s (cu_place c) (cu_hf c) @ values_of nm s ks of
       [] \<Rightarrow> c' = \<lparr>cu_msg = a, cu_mark = None, cu_hf = None\<rparr>
     | v # vs \<Rightarrow> cu_value s c' = Some v \<and> (cu_mark c' = None \<or> (\<exists>k \<in> set (sg_marks m). cu_mark c' = Some k)) \<and>
         (\<exists>ks' ps. cu_rest m c' = Some ks' \<and> sg_marks m = ps @ ks' \<and> vs = values_at nm s (cu_place c') (cu_hf c') @ values_of nm s ks'))"
  using assms(2-5)
proof (induction ks arbitrary: c ps)
  case Nil
  obtain mb where mb: "heap s (cu_place c) = Some mb"
    using assms(1) Nil.prems(1,3) by (auto simp: msg_readable_def lone_mark_def cu_place_def)
  show ?case
  proof (cases "values_at nm s (cu_place c) (cu_hf c)")
    case Nil': Nil
    show ?thesis using search_on [OF assms(1) Nil.prems(1) mb Nil' Nil.prems(3), of "[]"] Nil' by (simp add: values_of_def)
  next
    case (Cons v vs)
    from search_here [OF mb Cons, of "[]" a "cu_mark c"] obtain i
      where i: "cursor_search nm c (cu_place c) [] (held a (cu_mark c) s) = Done (held a (cu_mark c) s, Inr (c\<lparr>cu_hf := Some i\<rparr>))"
        "hf_value (h_fields (sg_header mb) ! i) = v" "values_at nm s (cu_place c) (Some i) = vs" by blast
    show ?thesis
      by (rule exI [of _ "c\<lparr>cu_hf := Some i\<rparr>"])
        (use i Nil.prems Cons mb in \<open>auto simp: cu_value_def cu_place_def cu_rest_def split: option.splits\<close>)
  qed
next
  case (Cons k ks)
  obtain mb where mb: "heap s (cu_place c) = Some mb"
    using assms(1) Cons.prems(1,3) by (auto simp: msg_readable_def lone_mark_def cu_place_def)
  show ?case
  proof (cases "values_at nm s (cu_place c) (cu_hf c)")
    case Nil
    let ?c = "c\<lparr>cu_mark := Some k, cu_hf := None\<rparr>"
    have d: "distinct (sg_marks m)" using assms(1) by (simp add: msg_readable_def)
    have "cu_rest m ?c = Some ks" using Cons.prems(4) d marks_after_app [of k ps ks] by (simp add: cu_rest_def)
    then have "\<exists>c'. cursor_search nm ?c (cu_place ?c) ks (held a (cu_mark ?c) s) = Done (held a (cu_mark c') s, Inr c') \<and> cu_msg c' = a \<and>
      (case values_at nm s (cu_place ?c) (cu_hf ?c) @ values_of nm s ks of
         [] \<Rightarrow> c' = \<lparr>cu_msg = a, cu_mark = None, cu_hf = None\<rparr>
       | v # vs \<Rightarrow> cu_value s c' = Some v \<and> (cu_mark c' = None \<or> (\<exists>k \<in> set (sg_marks m). cu_mark c' = Some k)) \<and>
           (\<exists>ks' ps. cu_rest m c' = Some ks' \<and> sg_marks m = ps @ ks' \<and> vs = values_at nm s (cu_place c') (cu_hf c') @ values_of nm s ks'))"
      by (intro Cons.IH [of ?c "ps @ [k]"]) (use Cons.prems in auto)
    moreover have "values_at nm s (cu_place ?c) (cu_hf ?c) @ values_of nm s ks = values_at nm s (cu_place c) (cu_hf c) @ values_of nm s (k # ks)"
      using Nil by (simp add: values_of_def cu_place_def)
    moreover have "cursor_search nm c (cu_place c) (k # ks) (held a (cu_mark c) s) = cursor_search nm ?c (cu_place ?c) ks (held a (cu_mark ?c) s)"
      using search_on [OF assms(1) Cons.prems(1) mb Nil Cons.prems(3), of "k # ks"] Cons.prems(4) by (auto simp: cu_place_def)
    ultimately show ?thesis by (simp only:)
  next
    case (Cons v vs)
    from search_here [OF mb Cons, of "k # ks" a "cu_mark c"] obtain i
      where i: "cursor_search nm c (cu_place c) (k # ks) (held a (cu_mark c) s) = Done (held a (cu_mark c) s, Inr (c\<lparr>cu_hf := Some i\<rparr>))"
        "hf_value (h_fields (sg_header mb) ! i) = v" "values_at nm s (cu_place c) (Some i) = vs" by blast
    show ?thesis
      by (rule exI [of _ "c\<lparr>cu_hf := Some i\<rparr>"])
        (use i Cons.prems Cons mb in \<open>auto simp: cu_value_def cu_place_def cu_rest_def split: option.splits\<close>)
  qed
qed

text \<open>What a user of the cursor does: take the values one after the other, then release the cursor.\<close>

fun cursor_run :: "nat \<Rightarrow> string option \<Rightarrow> sc_msg_cursor \<Rightarrow> (msgs_dir, string list) act" where
  "cursor_run 0 nm c s = Crash"
| "cursor_run (Suc n) nm c s = bnd (sc_msg_cursor_next nm c) (\<lambda>c s. case cu_value s c of
     None \<Rightarrow> bnd (sc_msg_cursor_dtor c) (\<lambda>_. ret []) s
   | Some v \<Rightarrow> bnd (cursor_run n nm c) (\<lambda>vs. ret (v # vs)) s) s"

lemma cursor_next_search:
  assumes "msg_readable s a m" "cu_msg c = a" "cu_rest m c = Some ks"
  shows "sc_msg_cursor_next nm c (held a ko s) = cursor_search nm c (cu_place c) ks (held a ko s)"
  using assms by (auto simp: sc_msg_cursor_next_def msg_readable_def cu_rest_def cu_place_def split: option.splits)

lemma cursor_run_values:
  assumes "msg_readable s a m"
  shows "cu_msg c = a \<Longrightarrow> cu_rest m c = Some ks \<Longrightarrow> cu_mark c = None \<or> (\<exists>k \<in> set (sg_marks m). cu_mark c = Some k) \<Longrightarrow>
    sg_marks m = ps @ ks \<Longrightarrow> vs = values_at nm s (cu_place c) (cu_hf c) @ values_of nm s ks \<Longrightarrow> length vs < n \<Longrightarrow>
    cursor_run n nm c (held a (cu_mark c) s) = Done (s, Inr vs)"
proof (induction n arbitrary: c ks ps vs)
  case (Suc n)
  obtain c' where c': "sc_msg_cursor_next nm c (held a (cu_mark c) s) = Done (held a (cu_mark c') s, Inr c')" "cu_msg c' = a"
    "case vs of
       [] \<Rightarrow> c' = \<lparr>cu_msg = a, cu_mark = None, cu_hf = None\<rparr>
     | v # vs \<Rightarrow> cu_value s c' = Some v \<and> (cu_mark c' = None \<or> (\<exists>k \<in> set (sg_marks m). cu_mark c' = Some k)) \<and>
         (\<exists>ks' ps. cu_rest m c' = Some ks' \<and> sg_marks m = ps @ ks' \<and> vs = values_at nm s (cu_place c') (cu_hf c') @ values_of nm s ks')"
    using search_values [OF assms Suc.prems(1-4), of nm] cursor_next_search [OF assms Suc.prems(1,2), of nm] Suc.prems(5) by auto
  have a: "heap s a = Some m" "sg_count m = 1" using assms by (simp_all add: msg_readable_def)
  show ?case
  proof (cases vs)
    case Nil
    then have "c' = \<lparr>cu_msg = a, cu_mark = None, cu_hf = None\<rparr>" using c'(3) by simp
    then show ?thesis using c'(1) Nil unref_message [OF a] by (simp add: bnd_def cu_value_def sc_msg_cursor_dtor_def)
  next
    case (Cons v ws)
    with c'(3) obtain ks' ps' where k: "cu_value s c' = Some v" "cu_mark c' = None \<or> (\<exists>k \<in> set (sg_marks m). cu_mark c' = Some k)"
      "cu_rest m c' = Some ks'" "sg_marks m = ps' @ ks'" "ws = values_at nm s (cu_place c') (cu_hf c') @ values_of nm s ks'"
      by auto
    have "cursor_run n nm c' (held a (cu_mark c') s) = Done (s, Inr ws)"
      by (rule Suc.IH [OF c'(2) k(3,2,4,5)]) (use Suc.prems(6) Cons in simp)
    moreover have "heap s (cu_place c') \<noteq> None" using a(1) c'(2) k(2) assms by (auto simp: cu_place_def msg_readable_def lone_mark_def)
    then have "cu_value (held a (cu_mark c') s) c' = cu_value s c'" by (auto simp: cu_value_def)
    ultimately show ?thesis using c'(1) k(1) Cons by (simp add: bnd_def)
  qed
qed simp

section \<open>Properties\<close>

text \<open>C28. The messages of a folder follow its patches. Whatever a listing of the folder reports, refreshing the messages ends
  without reading a freed message; the list keeps its invariant (every message counted once, its marks refer back to it, nothing
  else allocated, the number of messages right); and what the user sees afterwards is what he saw before changed by the
  calls of the listing one after the other: a message is appended, a mark is put on its target, a removal takes the message and its
  marks away, an error sets the status.\<close>

theorem messages_follow:
  assumes "msgs_ok (u_msgs u)"
    "mdir_patch_list (u_dir u) (md_cursor (u_msgs u)) False True True True (u_mst u) = Done (st, Inr (cursor, calls, e))"
  shows "\<exists>s. mdirc_update u = Done (u\<lparr>u_mst := st, u_msgs := s\<rparr>, case e of None \<Rightarrow> Inr () | Some e \<Rightarrow> Inl e) \<and>
    msgs_ok s \<and> msgs_view s = fold view_call calls (msgs_view (u_msgs u))"
proof -
  let ?s = "(u_msgs u)\<lparr>md_cursor := cursor\<rparr>"
  have "msgs_ok ?s" "msgs_view ?s = msgs_view (u_msgs u)"
    using assms(1) by (simp_all add: msgs_ok_def msgs_view_def msg_view_def mark_view_def cong: map_cong)
  with msg_calls_view [of ?s calls] assms(2) show ?thesis by (auto simp: mdirc_update_def)
qed

text \<open>C29. Iterating over a message gives the values of the fields of a name in its header and then in its marks, the last mark first,
  each value once and in the order of the headers, without those whose status tells an error; the references that the
  cursor takes on the way are all given back.\<close>

theorem cursor_values:
  assumes "msgs_ok s" "a \<in> set (md_msgs s)" "heap s a = Some m" "length (values_of nm s (a # sg_marks m)) < n"
  shows "bnd (sc_msg_cursor_ctor a) (cursor_run n nm) s = Done (s, Inr (values_of nm s (a # sg_marks m)))"
proof -
  have o: "owns (heap s) (set (md_msgs s)) a m" using ok_owns [OF assms(1,2)] assms(3) by simp
  then have r: "msg_readable s a m" using assms(2) by (auto simp: msg_readable_def owns_def)
  let ?c = "\<lparr>cu_msg = a, cu_mark = None, cu_hf = None\<rparr>"
  have "cursor_run n nm ?c (held a (cu_mark ?c) s) = Done (s, Inr (values_of nm s (a # sg_marks m)))"
    by (rule cursor_run_values [OF r, of ?c "sg_marks m" "[]"]) (use assms(4) in \<open>simp_all add: cu_rest_def cu_place_def values_of_def\<close>)
  then show ?thesis using ref_message [OF assms(3)] by (simp add: sc_msg_cursor_ctor_def bnd_def)
qed

definition note_sample :: header where
  "note_sample = header_field_new (header_field_new header_new SC_TYPE_FIELD ''note'') SC_HAVE_READ_FIELD ''al''"

text \<open>A folder with one transient message.\<close>

definition folder_sample :: mdirc_st where
  "folder_sample = \<lparr>u_mst = st_sample\<lparr>m_fs := fs_empty\<lparr>
       ents := [([''m''], Dir), ([''m'', ''1''], Dir), ([''m'', ''1'', ''.tmp''], Dir), ([''m'', ''1'', ''.tmp'', ''+5''], Reg 0)],
       idata := (\<lambda>_. header_dump note_sample)\<rparr>\<rparr>,
     u_dir = 0, u_msgs = mdirc_ctor\<rparr>"

theorem messages_follow_witness:
  "\<exists>st s. mdirc_update folder_sample = Done (folder_sample\<lparr>u_mst := st, u_msgs := s\<rparr>, Inr ()) \<and> msgs_ok s \<and>
     msgs_view s = [(- 5, note_sample, 0, [])]"
proof -
  let ?l = "mdir_patch_list (u_dir folder_sample) (md_cursor (u_msgs folder_sample)) False True True True (u_mst folder_sample)"
  have "case ?l of Done (st, Inr (cursor, calls, e)) \<Rightarrow> calls = [PutCb note_sample (- 5)] \<and> e = None | _ \<Rightarrow> False"
    by code_simp
  then obtain st cursor where l: "?l = Done (st, Inr (cursor, [PutCb note_sample (- 5)], None))"
    by (cases ?l) (auto split: sum.split_asm prod.split_asm)
  have u: "msgs_ok (u_msgs folder_sample)" "msgs_view (u_msgs folder_sample) = []" using ctor_ok by (simp_all add: folder_sample_def)
  have "view_call (PutCb note_sample (- 5)) [] = [(- 5, note_sample, 0, [])]" by code_simp
  with messages_follow [OF u(1) l] u(2) show ?thesis by auto
qed

theorem cursor_values_witness:
  "\<exists>t. msg_calls [PutCb note_sample 1, PutCb (mark_header 1 SC_HAVE_READ_FIELD ''bob'') 2] mdirc_ctor = Done t \<and>
     bnd (sc_msg_cursor_ctor 0) (cursor_run 5 (Some SC_HAVE_READ_FIELD)) t = Done (t, Inr [''al'', ''bob''])"
proof -
  let ?c = "[PutCb note_sample 1, PutCb (mark_header 1 SC_HAVE_READ_FIELD ''bob'') 2]"
  obtain t where t: "msg_calls ?c mdirc_ctor = Done t" "msgs_ok t" using msg_calls_view [OF ctor_ok(1), of ?c] by blast
  have "case msg_calls ?c mdirc_ctor of
      Done t \<Rightarrow> md_msgs t = [0] \<and> heap t 0 \<noteq> None \<and>
        values_of (Some SC_HAVE_READ_FIELD) t (0 # sg_marks (the (heap t 0))) = [''al'', ''bob''] | _ \<Rightarrow> False"
    by code_simp
  with t obtain m where m: "md_msgs t = [0]" "heap t 0 = Some m" "values_of (Some SC_HAVE_READ_FIELD) t (0 # sg_marks m) = [''al'', ''bob'']"
    by auto
  from cursor_values [OF t(2) _ m(2), of "Some SC_HAVE_READ_FIELD" 5] m t(1) show ?thesis by simp
qed

end
