(* ===== verification/Sendmail.thy ===== *)
theory Sendmail
  imports Smtpd Msgs
begin

text \<open>
  The mail forwarder, after \<open>sendmail/forwarder.c\<close>, \<open>sendmail/crawler.c\<close> and \<open>sendmail/sendmail.h\<close>. The crawler makes a
  \<^emph>\<open>forward\<close> of every mail of the folder of mails to send and asks for the files it is made of; the forwarder sends to the SMTP relay
  those whose files have come and puts them in the list of those delivered; the acker moves the mails of that list to the
  folder of sent mails. Forwards are designated by addresses of a heap. What \<open>Connect\<close> answers, what \<open>chn_get_file\<close> answers for a resource (the name of
  the local file, and the transfer if there is one), the status of the transfers and the clock are arguments.
\<close>

section \<open>Data\<close>

definition SC_TO_FIELD :: string where "SC_TO_FIELD = ''sc-to''"
definition SC_STOP_FIELD :: string where "SC_STOP_FIELD = ''sc-stop''"

definition CNX_IDLE_TIMEOUT :: int where "CNX_IDLE_TIMEOUT = 15"
definition MAX_SMTP_LINE :: nat where "MAX_SMTP_LINE = 512"
definition CRLF :: string where "CRLF = [CR, NL]"

record part =
  pt_filename :: string
  pt_name :: "string option"
  pt_type :: "string option"
  pt_tx :: "nat option"

datatype forwards = Waiting | Delivered

record forward =
  fw_header :: header
  fw_parts :: "part list"
  fw_list :: "forwards option"
  nb_parts :: "32 word"
  fw_status :: int
  fw_version :: mdir_version
  submited :: int

text \<open>The connection to the relay: what it will answer, what was written, the error that writing gives.\<close>

record relay_cnx =
  rc_in :: input
  rc_out :: string
  rc_err :: "int option"

record fwd_st =
  f_heap :: "nat \<Rightarrow> forward option"
  f_next :: nat
  waiting_forwards :: "nat list"
  delivered_forwards :: "nat list"
  sock_fd :: "relay_cnx option"
  sock_last_used :: int
  f_mst :: mst
  to_send :: nat
  sent_dir :: nat
  to_send_cursor :: mdir_cursor

definition on_f_mst :: "(mst, 'a) act \<Rightarrow> (fwd_st, 'a) act" where
  "on_f_mst f s = (case f (f_mst s) of
     Done (m, r) \<Rightarrow> Done (s\<lparr>f_mst := m\<rparr>, r) | Raised e \<Rightarrow> Raised e | Crash \<Rightarrow> Crash)"

definition upd_forward :: "nat \<Rightarrow> (forward \<Rightarrow> forward) \<Rightarrow> fwd_st \<Rightarrow> fwd_st" where
  "upd_forward a f s = s\<lparr>f_heap := (f_heap s)(a := map_option f (f_heap s a))\<rparr>"

section \<open>Lines to the relay and its answers\<close>

definition rc_write :: "string \<Rightarrow> (relay_cnx, unit) act" where
  "rc_write t k = (case rc_err k of
     Some e \<Rightarrow> Done (k, Inl (Err e ''Cannot write'')) | None \<Rightarrow> Done (k\<lparr>rc_out := rc_out k @ t\<rparr>, Inr ()))"

text \<open>
  The arguments are given to \<open>snprintf\<close> as formats, without arguments of their own: a conversion reads arguments
  that do not exist.
\<close>

fun as_format :: "string \<Rightarrow> string outcome" where
  "as_format [] = Done []"
| "as_format (c # cs) =
     (if c \<noteq> CHR ''%'' then obind (as_format cs) (\<lambda>t. Done (c # t))
      else case cs of
        d # ds \<Rightarrow> if d = CHR ''%'' then obind (as_format ds) (\<lambda>t. Done (CHR ''%'' # t)) else Crash
      | [] \<Rightarrow> Crash)"

fun format_strs :: "string \<Rightarrow> string list \<Rightarrow> string outcome" where
  "format_strs cmd [] = Done cmd"
| "format_strs cmd (arg # args) =
     (if length cmd < MAX_SMTP_LINE then obind (as_format arg) (\<lambda>t. format_strs (cmd @ t) args) else Done cmd)"

definition send_smtp_strs :: "string list \<Rightarrow> (relay_cnx, unit) act" where
  "send_smtp_strs args k = obind (format_strs [] args) (\<lambda>cmd.
     let cmd = (if length cmd < MAX_SMTP_LINE then cmd @ CRLF else cmd) in
     if MAX_SMTP_LINE \<le> length cmd then failure 0 ''Command too long'' k else rc_write cmd k)"

definition strtoul_int :: "string \<Rightarrow> int \<times> string" where
  "strtoul_int s = (case strtoull10 s of (v, rest) \<Rightarrow> (sint (word_of_int v :: 32 word), rest))"

text \<open>The lines of an answer, up to one whose status is not followed by a dash.\<close>

function status_lines :: "string \<Rightarrow> input \<Rightarrow> int res \<times> input" where
  "status_lines vb inp = (case read_line vb (MAX_SMTP_LINE * 2) inp of
     (vb', Some e, inp') \<Rightarrow> (Inl e, inp')
   | (vb', None, inp') \<Rightarrow> (case strtoul_int (cstr (drop (length vb) vb')) of (s, rest) \<Rightarrow>
        if take 1 rest = ''-'' then status_lines vb' inp'
        else if take 1 rest \<noteq> [SP] then (Fail 0 ''Cannot get status from SMTP answer'', inp')
        else (Inr s, inp')))"
  by pat_completeness auto
termination
proof (relation "measure (\<lambda>(vb, inp). length inp)", goal_cases)
  case (2 vb inp vb' q e inp')
  then have "read_line vb (MAX_SMTP_LINE * 2) inp = (vb', None, inp')" by simp
  then show ?case using line_loop_consumes [of vb False "length vb" "MAX_SMTP_LINE * 2" inp vb' inp']
    by (simp add: read_line_def MAX_SMTP_LINE_def)
qed simp

declare status_lines.simps [simp del]

definition read_smtp_status :: "(relay_cnx, int) act" where
  "read_smtp_status k = (case status_lines [] (rc_in k) of (r, inp) \<Rightarrow> Done (k\<lparr>rc_in := inp\<rparr>, r))"

definition smtp_cmd :: "string list \<Rightarrow> (relay_cnx, int) act" where
  "smtp_cmd args = bnd (send_smtp_strs args) (\<lambda>_. read_smtp_status)"

section \<open>The connection\<close>

definition on_sock :: "(relay_cnx, 'a) act \<Rightarrow> (fwd_st, 'a) act" where
  "on_sock f s = (case sock_fd s of
     None \<Rightarrow> Crash
   | Some k \<Rightarrow> (case f k of
        Done (k, r) \<Rightarrow> Done (s\<lparr>sock_fd := Some k\<rparr>, r) | Raised e \<Rightarrow> Raised e | Crash \<Rightarrow> Crash))"

definition close_sock :: "(fwd_st, unit) act" where
  "close_sock s = Done (s\<lparr>sock_fd := None\<rparr>, Inr ())"

definition may_open_connection :: "relay_cnx res \<Rightarrow> string \<Rightarrow> int \<Rightarrow> (fwd_st, unit) act" where
  "may_open_connection connect host now s = (case sock_fd s of
     Some k \<Rightarrow> Done (s, Inr ())
   | None \<Rightarrow> (case connect of
        Inl e \<Rightarrow> Done (s, Inl e)
      | Inr k \<Rightarrow>
          bnd (attempt (on_sock read_smtp_status)) (\<lambda>r.
            if r \<noteq> Inr 220 then bnd close_sock (\<lambda>_. failure 0 ''Welcome message is not welcoming (status %d)'')
            else bnd (attempt (on_sock (smtp_cmd [''HELO '', host]))) (\<lambda>r.
              if r \<noteq> Inr 250 then bnd close_sock (\<lambda>_. failure 0 ''Cannot HELO to SMTP relay : status %d'')
              else (\<lambda>s. Done (s\<lparr>sock_last_used := now\<rparr>, Inr ())))) (s\<lparr>sock_fd := Some k\<rparr>)))"

text \<open>The delay is an \<open>unsigned\<close>.\<close>

definition may_close_connection :: "int \<Rightarrow> (fwd_st, unit) act" where
  "may_close_connection now s = (case sock_fd s of
     None \<Rightarrow> Done (s, Inr ())
   | Some k \<Rightarrow>
       if (now - sock_last_used s) mod 2 ^ 32 > CNX_IDLE_TIMEOUT
       then bnd (attempt (on_sock (smtp_cmd [''QUIT'']))) (\<lambda>_. close_sock) s
       else Done (s, Inr ()))"

section \<open>Sending a mail\<close>

definition b64_table :: string where
  "b64_table = ''ABCDEFGHIJKLMNOPQRSTUVWXYZabcdefghijklmnopqrstuvwxyz0123456789+/''"

text \<open>Three bytes at most as four characters; the bytes that are missing are read as 0.\<close>

definition b64_group :: "string \<Rightarrow> string" where
  "b64_group bs =
     (let inbuf = map of_char bs @ replicate (3 - length bs) 0 :: nat list in
      [b64_table ! (inbuf ! 0 div 4),
       b64_table ! (inbuf ! 0 mod 4 * 16 + inbuf ! 1 div 16),
       if 1 < length bs then b64_table ! (inbuf ! 1 mod 16 * 4 + inbuf ! 2 div 64) else CHR ''='',
       if length bs = 3 then b64_table ! (inbuf ! 2 mod 64) else CHR ''=''])"

definition send_group :: "nat \<Rightarrow> string \<Rightarrow> (relay_cnx, nat) act" where
  "send_group width bs =
     (if 76 \<le> width + 4
      then bnd (rc_write CRLF) (\<lambda>_. bnd (rc_write (b64_group bs)) (\<lambda>_. ret 0))
      else bnd (rc_write (b64_group bs)) (\<lambda>_. ret (width + 4)))"

text \<open>The file is read three bytes at a time; a read that gives less is the last one.\<close>

fun send_file_loop :: "nat \<Rightarrow> input \<Rightarrow> (relay_cnx, unit) act" where
  "send_file_loop width [] = ret ()"
| "send_file_loop width (RdErr e # inp) = failure e ''read(%s)''"
| "send_file_loop width (Got a # Got b # Got c # inp) =
     bnd (send_group width [a, b, c]) (\<lambda>width. send_file_loop width inp)"
| "send_file_loop width (Got a # Got b # inp) = bnd (send_group width [a, b]) (\<lambda>_. ret ())"
| "send_file_loop width (Got a # inp) = bnd (send_group width [a]) (\<lambda>_. ret ())"

definition send_file :: "fs \<Rightarrow> string \<Rightarrow> (relay_cnx, unit) act" where
  "send_file fs filename = (case open_input fs filename of
     Inl e \<Rightarrow> failure e ''open(%s)'' | Inr inp \<Rightarrow> send_file_loop 0 inp)"

definition send_part :: "fs \<Rightarrow> part \<Rightarrow> (relay_cnx, unit) act" where
  "send_part fs p =
     bnd (send_smtp_strs [''Content-Transfer-Encoding: base64'']) (\<lambda>_.
     bnd (case pt_type p of
            None \<Rightarrow> ret ()
          | Some t \<Rightarrow> bnd (send_smtp_strs [''Content-Type: '', t, '';'']) (\<lambda>_.
              case pt_name p of
                None \<Rightarrow> ret ()
              | Some n \<Rightarrow> send_smtp_strs [TAB # ''name='' @ [DQ], n, [DQ]])) (\<lambda>_.
     bnd (send_smtp_strs [[]]) (\<lambda>_.
       send_file fs (pt_filename p))))"

definition mail_boundary :: string where "mail_boundary = ''Do-Noy-Cross-Criminal-Scene''"

text \<open>An error in a part ends the loop over the parts only: the line after it is written before the error is seen.\<close>

fun send_parts :: "fs \<Rightarrow> part list \<Rightarrow> (relay_cnx, unit) act" where
  "send_parts fs [] = send_smtp_strs [[]]"
| "send_parts fs (p # ps) =
     bnd (send_smtp_strs [[]]) (\<lambda>_.
     bnd (send_smtp_strs [''--'', mail_boundary]) (\<lambda>_.
     bnd (attempt (send_part fs p)) (\<lambda>r. case r of
       Inr _ \<Rightarrow> send_parts fs ps
     | Inl e \<Rightarrow> bnd (attempt (send_smtp_strs [[]])) (\<lambda>_ k. Done (k, Inl e)))))"

text \<open>The recipients given to the relay: the status of the first one it refuses, if any.\<close>

fun send_rcpts :: "string list \<Rightarrow> (relay_cnx, int option) act" where
  "send_rcpts [] = ret None"
| "send_rcpts (t # ts) = bnd (smtp_cmd [''RCPT TO:<'', t, ''>'']) (\<lambda>status.
     if status < 250 \<or> 252 < status then ret (Some status) else send_rcpts ts)"

fun send_tos :: "bool \<Rightarrow> string list \<Rightarrow> (relay_cnx, unit) act" where
  "send_tos first [] = ret ()"
| "send_tos first (t # ts) = bnd (send_smtp_strs [if first then ''To: '' else '' , '', t]) (\<lambda>_. send_tos False ts)"

text \<open>A missing field is a null pointer.\<close>

definition with_field :: "header \<Rightarrow> string \<Rightarrow> (string \<Rightarrow> ('s, 'a) act) \<Rightarrow> ('s, 'a) act" where
  "with_field h nm f = (case field_value h nm of None \<Rightarrow> (\<lambda>_. Crash) | Some v \<Rightarrow> f v)"

definition send_mail :: "fs \<Rightarrow> string \<Rightarrow> forward \<Rightarrow> (relay_cnx, unit) act" where
  "send_mail fs host fw =
     (let h = fw_header fw in
      with_field h SC_FROM_FIELD (\<lambda>from.
      bnd (send_smtp_strs [''From: '', from]) (\<lambda>_.
      bnd (send_tos True (fields_named h SC_TO_FIELD)) (\<lambda>_.
      with_field h SC_DESCR_FIELD (\<lambda>descr.
      bnd (send_smtp_strs [''Subject: '', descr]) (\<lambda>_.
      bnd (send_smtp_strs [''Message-Id: <'', mdir_version2str (fw_version fw), ''@'', host, ''>'']) (\<lambda>_.
      bnd (case field_value h SC_EXTID_FIELD of None \<Rightarrow> ret () | Some i \<Rightarrow> send_smtp_strs [''In-Reply-To: '', i]) (\<lambda>_.
      bnd (send_smtp_strs [''Mime-Version: 1.0'']) (\<lambda>_.
      bnd (send_smtp_strs [''Content-Type: multipart/mixed; boundary='', mail_boundary]) (\<lambda>_.
      bnd (send_parts fs (fw_parts fw)) (\<lambda>_.
        send_smtp_strs [''--'', mail_boundary, ''--''])))))))))))"

definition send_forward :: "fs \<Rightarrow> string \<Rightarrow> forward \<Rightarrow> (relay_cnx, int) act" where
  "send_forward fs host fw =
     with_field (fw_header fw) SC_FROM_FIELD (\<lambda>from.
     bnd (smtp_cmd [''MAIL FROM:<'', from, ''>'']) (\<lambda>status.
       if status \<noteq> 250 then ret status
       else bnd (send_rcpts (fields_named (fw_header fw) SC_TO_FIELD)) (\<lambda>refused. case refused of
         Some status \<Rightarrow> ret status
       | None \<Rightarrow> bnd (smtp_cmd [''DATA'']) (\<lambda>status.
           if status \<noteq> 354 then ret status
           else bnd (send_mail fs host fw) (\<lambda>_. smtp_cmd [''.''])))))"

section \<open>Lists of forwards\<close>

definition forward_list :: "forwards \<Rightarrow> fwd_st \<Rightarrow> nat list" where
  "forward_list l s = (case l of Waiting \<Rightarrow> waiting_forwards s | Delivered \<Rightarrow> delivered_forwards s)"

definition on_list :: "forwards \<Rightarrow> (nat list \<Rightarrow> nat list) \<Rightarrow> fwd_st \<Rightarrow> fwd_st" where
  "on_list l f s = (case l of
     Waiting \<Rightarrow> s\<lparr>waiting_forwards := f (waiting_forwards s)\<rparr>
   | Delivered \<Rightarrow> s\<lparr>delivered_forwards := f (delivered_forwards s)\<rparr>)"

definition unlink :: "nat \<Rightarrow> forward \<Rightarrow> fwd_st \<Rightarrow> fwd_st" where
  "unlink a fw s = (case fw_list fw of None \<Rightarrow> s | Some l \<Rightarrow> on_list l (remove1 a) s)"

definition list_move_to :: "forwards \<Rightarrow> nat \<Rightarrow> (fwd_st, unit) act" where
  "list_move_to l a s = (case f_heap s a of
     None \<Rightarrow> Crash
   | Some fw \<Rightarrow> Done (upd_forward a (\<lambda>fw. fw\<lparr>fw_list := Some l\<rparr>) (on_list l (\<lambda>as. as @ [a]) (unlink a fw s)), Inr ()))"

section \<open>The forwarder\<close>

text \<open>Whether nothing is left to wait for; and the status of the first transfer that failed, if that is why.\<close>

fun transfers_done :: "(nat \<Rightarrow> int) \<Rightarrow> part list \<Rightarrow> bool \<times> int option" where
  "transfers_done tx_status [] = (True, None)"
| "transfers_done tx_status (p # ps) = (case pt_tx p of
     None \<Rightarrow> transfers_done tx_status ps
   | Some tx \<Rightarrow>
       if tx_status tx = 0 then (False, None)
       else if tx_status tx \<noteq> 200 then (True, Some (tx_status tx))
       else transfers_done tx_status ps)"

record relay_world =
  w_connect :: "relay_cnx res"
  w_host :: string
  w_now :: int
  w_tx_status :: "nat \<Rightarrow> int"

text \<open>
  The loop over the waiting forwards, whose successor is read before each is considered. An error of the connection ends the
  thread; an error while sending is dropped and ends the loop.
\<close>

fun forward_all :: "relay_world \<Rightarrow> nat list \<Rightarrow> (fwd_st, unit) act" where
  "forward_all w [] s = Done (s, Inr ())"
| "forward_all w (a # as) s = (case f_heap s a of
     None \<Rightarrow> Crash
   | Some fw \<Rightarrow> (case transfers_done (w_tx_status w) (fw_parts fw) of
        (False, _) \<Rightarrow> forward_all w as s
      | (True, failed) \<Rightarrow>
          let s = (case failed of None \<Rightarrow> s | Some st \<Rightarrow> upd_forward a (\<lambda>fw. fw\<lparr>fw_status := st\<rparr>) s);
              status = (case failed of None \<Rightarrow> fw_status fw | Some st \<Rightarrow> st);
              deliver = bnd (list_move_to Delivered a) (\<lambda>_ s. forward_all w as (s\<lparr>sock_last_used := w_now w\<rparr>))
          in if status = 0 then
               bnd (may_open_connection (w_connect w) (w_host w) (w_now w)) (\<lambda>_ s.
               bnd (attempt (on_sock (send_forward (m_fs (f_mst s)) (w_host w) fw))) (\<lambda>r. case r of
                 Inl e \<Rightarrow> ret ()
               | Inr st \<Rightarrow> bnd (\<lambda>s. Done (upd_forward a (\<lambda>fw. fw\<lparr>fw_status := st\<rparr>) s, Inr ())) (\<lambda>_. deliver)) s) s
             else deliver s))"

text \<open>One turn of the thread; it ends when an error is left.\<close>

definition forwarder :: "relay_world \<Rightarrow> (fwd_st, unit) act" where
  "forwarder w s = bnd (forward_all w (waiting_forwards s)) (\<lambda>_. may_close_connection (w_now w)) s"

section \<open>Construction of forwards\<close>

definition part_ctor :: "(string \<Rightarrow> (string \<times> nat option) res) \<Rightarrow> string \<Rightarrow> part res" where
  "part_ctor get_file rsc = (case get_file (parameter_suppress rsc) of
     Inl e \<Rightarrow> Inl e
   | Inr (filename, tx) \<Rightarrow> Inr \<lparr>pt_filename = filename, pt_name = parameter_extract rsc ''name'',
       pt_type = parameter_extract rsc ''type'', pt_tx = tx\<rparr>)"

fun add_parts :: "(string \<Rightarrow> (string \<times> nat option) res) \<Rightarrow> string list \<Rightarrow> forward \<Rightarrow> forward \<times> err option" where
  "add_parts get_file [] fw = (fw, None)"
| "add_parts get_file (r # rs) fw = (case part_ctor get_file r of
     Inl e \<Rightarrow> (fw, Some e)
   | Inr p \<Rightarrow> add_parts get_file rs (fw\<lparr>fw_parts := fw_parts fw @ [p], nb_parts := nb_parts fw + 1\<rparr>))"

definition forward_ctor :: "(string \<Rightarrow> (string \<times> nat option) res) \<Rightarrow> mdir_version \<Rightarrow> header \<Rightarrow> forward \<times> err option" where
  "forward_ctor get_file v h = add_parts get_file (fields_named h SC_RESOURCE_FIELD)
     \<lparr>fw_header = header_ref h, fw_parts = [], fw_list = None, nb_parts = 0, fw_status = 0, fw_version = v, submited = 0\<rparr>"

text \<open>The parts are deleted one after the other and must then count 0.\<close>

definition forward_dtor :: "nat \<Rightarrow> forward \<Rightarrow> (fwd_st, unit) act" where
  "forward_dtor a fw s =
     (if nb_parts fw \<noteq> of_nat (length (fw_parts fw)) then Crash
      else Done (unlink a fw s, Inr ()))"

definition forward_new :: "(string \<Rightarrow> (string \<times> nat option) res) \<Rightarrow> mdir_version \<Rightarrow> header \<Rightarrow> (fwd_st, nat) act" where
  "forward_new get_file v h s = (case forward_ctor get_file v h of
     (fw, Some e) \<Rightarrow> bnd (forward_dtor (f_next s) fw) (\<lambda>_ s. Done (s, Inl e)) s
   | (fw, None) \<Rightarrow> Done (s\<lparr>f_heap := (f_heap s)(f_next s \<mapsto> fw), f_next := Suc (f_next s)\<rparr>, Inr (f_next s)))"

definition forward_del :: "nat \<Rightarrow> (fwd_st, unit) act" where
  "forward_del a s = (case f_heap s a of
     None \<Rightarrow> Crash
   | Some fw \<Rightarrow> bnd (forward_dtor a fw) (\<lambda>_ s. Done (s\<lparr>f_heap := (f_heap s)(a := None)\<rparr>, Inr ())) s)"

definition forward_submit :: "int \<Rightarrow> nat \<Rightarrow> (fwd_st, unit) act" where
  "forward_submit now a = bnd (list_move_to Waiting a) (\<lambda>_ s. Done (upd_forward a (\<lambda>fw. fw\<lparr>submited := now\<rparr>) s, Inr ()))"

definition forward_oldest_completed :: "fwd_st \<Rightarrow> nat option" where
  "forward_oldest_completed s = (case delivered_forwards s of [] \<Rightarrow> None | a # _ \<Rightarrow> Some a)"

fun del_all :: "nat list \<Rightarrow> (fwd_st, unit) act" where
  "del_all [] = ret ()"
| "del_all (a # as) = bnd (forward_del a) (\<lambda>_. del_all as)"

definition list_empty :: "forwards \<Rightarrow> (fwd_st, unit) act" where
  "list_empty l s = del_all (forward_list l s) s"

definition forwarder_end :: "(fwd_st, unit) act" where
  "forwarder_end = bnd (list_empty Waiting) (\<lambda>_. bnd (list_empty Delivered) (\<lambda>_. close_sock))"

section \<open>The crawler\<close>

definition crawl_patch :: "(string \<Rightarrow> (string \<times> nat option) res) \<Rightarrow> int \<Rightarrow> header \<Rightarrow> mdir_version \<Rightarrow> (fwd_st, unit) act" where
  "crawl_patch get_file now h v =
     (if v < 0 \<or> \<not> header_has_type h SC_MAIL_TYPE \<or> field_value h SC_FROM_FIELD = None \<or>
         field_value h SC_DESCR_FIELD = None \<or> field_value h SC_TO_FIELD = None
      then ret ()
      else bnd (forward_new get_file v h) (forward_submit now))"

fun crawl_calls :: "(string \<Rightarrow> (string \<times> nat option) res) \<Rightarrow> int \<Rightarrow> listed list \<Rightarrow> (fwd_st, unit) act" where
  "crawl_calls get_file now [] = ret ()"
| "crawl_calls get_file now (PutCb h v # ls) = bnd (crawl_patch get_file now h v) (\<lambda>_. crawl_calls get_file now ls)"
| "crawl_calls get_file now (_ # ls) = crawl_calls get_file now ls"

text \<open>One turn of the thread, which ends on the first error; the calls do not change what the listing reads.\<close>

definition crawler_thread :: "(string \<Rightarrow> (string \<times> nat option) res) \<Rightarrow> int \<Rightarrow> (fwd_st, unit) act" where
  "crawler_thread get_file now s =
     bnd (on_f_mst (mdir_patch_list (to_send s) (to_send_cursor s) False True False False)) (\<lambda>(cursor, calls, e) s.
       bnd (crawl_calls get_file now calls) (\<lambda>_ s. case e of None \<Rightarrow> Done (s, Inr ()) | Some e \<Rightarrow> Done (s, Inl e))
         (s\<lparr>to_send_cursor := cursor\<rparr>)) s"

section \<open>The acker\<close>

definition sentbox_name :: "string \<Rightarrow> string \<Rightarrow> string" where
  "sentbox_name did sender = snpath (did @ ''/'' @ map (\<lambda>c. if c = CHR ''/'' then CHR ''_'' else c) sender)"

definition get_or_create_mdir :: "string \<Rightarrow> string \<Rightarrow> (fwd_st, nat) act" where
  "get_or_create_mdir uname sender s =
     (let did = mdir_id (f_mst s) (mdir_at (f_mst s) (sent_dir s));
          sentbox = sentbox_name did sender
      in if PATH_MAX \<le> length did + 1 then Crash
         else bnd (attempt (on_f_mst (mdir_lookup sentbox))) (\<lambda>r. case r of
           Inr m \<Rightarrow> ret m
         | Inl e \<Rightarrow>
             bnd (on_f_mst (mdir_patch_request (sent_dir s) MDIR_ADD
               (header_field_new (header_field_new header_new SC_TYPE_FIELD SC_DIR_TYPE) SC_NAME_FIELD (drop (length did + 1) sentbox)))) (\<lambda>_.
             bnd (on_f_mst (mdir_lookup sentbox)) (\<lambda>m.
             bnd (on_f_mst (mdir_patch_request m MDIR_ADD
               (header_field_new (header_field_new (header_field_new (header_field_new header_new SC_TYPE_FIELD SC_PERM_TYPE)
                  SC_ALLOW_ADMIN_FIELD sender) SC_ALLOW_WRITE_FIELD uname) SC_DENY_READ_FIELD ''*''))) (\<lambda>_.
               ret m)))) s)"

definition sent_header :: "int \<Rightarrow> int \<Rightarrow> int \<Rightarrow> header \<Rightarrow> header" where
  "sent_header tz now status h = header_field_new (header_field_new h SC_STOP_FIELD (sc_ts2gmfield tz now True))
     SC_STATUS_FIELD (take 7 (dec_int status))"

definition move_fwd :: "string \<Rightarrow> int \<Rightarrow> int \<Rightarrow> forward \<Rightarrow> (fwd_st, unit) act" where
  "move_fwd uname tz now fw s =
     (case mdir_read (m_fs (f_mst s)) (jnls (mdir_at (f_mst s) (to_send s))) (fw_version fw) of
        Crash \<Rightarrow> Crash
      | Raised e \<Rightarrow> Raised e
      | Done (_, _, Some e) \<Rightarrow> Done (s, Inl e)
      | Done (None, _, None) \<Rightarrow> Crash
      | Done (Some h, _, None) \<Rightarrow>
          bnd (on_f_mst (mdir_del_request (to_send s) (fw_version fw))) (\<lambda>_.
            let h = sent_header tz now (fw_status fw) h in
            case field_value h SC_FROM_FIELD of
              None \<Rightarrow> ret ()
            | Some from \<Rightarrow> bnd (get_or_create_mdir uname from) (\<lambda>m. on_f_mst (mdir_patch_request m MDIR_ADD h))) s)"

text \<open>Once an error is pending, \<open>move_fwd\<close> returns at once, but the forwards are still deleted.\<close>

fun ack_all :: "string \<Rightarrow> int \<Rightarrow> int \<Rightarrow> err option \<Rightarrow> nat list \<Rightarrow> (fwd_st, unit) act" where
  "ack_all uname tz now pending [] s = Done (s, case pending of None \<Rightarrow> Inr () | Some e \<Rightarrow> Inl e)"
| "ack_all uname tz now pending (a # as) s = (case f_heap s a of
     None \<Rightarrow> Crash
   | Some fw \<Rightarrow>
       bnd (attempt (case pending of None \<Rightarrow> move_fwd uname tz now fw | Some e \<Rightarrow> (\<lambda>s. Done (s, Inl e)))) (\<lambda>r.
       bnd (forward_del a) (\<lambda>_. ack_all uname tz now (case r of Inr _ \<Rightarrow> None | Inl e \<Rightarrow> Some e) as)) s)"

definition acker_thread :: "string \<Rightarrow> int \<Rightarrow> int \<Rightarrow> (fwd_st, unit) act" where
  "acker_thread uname tz now s = ack_all uname tz now None (delivered_forwards s) s"

section \<open>Base 64 in lines\<close>

lemma b64_table_char: "v < 64 \<Longrightarrow> b64_table ! v = b64_char v"
proof -
  assume v: "v < 64"
  have "map ((!) b64_table) [0..<64] = map b64_char [0..<64]" by code_simp
  then have "\<forall>x \<in> {0..<64}. b64_table ! x = b64_char x" by simp
  with v show ?thesis by simp
qed

lemma b64_group_encode:
  "b64_group [a] = b64_encode [of_char a]"
  "b64_group [a, b] = b64_encode [of_char a, of_char b]"
  "b64_group [a, b, c] @ b64_encode r = b64_encode (of_char a # of_char b # of_char c # r)"
proof -
  have lt: "(of_char x :: nat) div 4 < 64" "(of_char x :: nat) mod 4 * 16 < 64" "(of_char x :: nat) mod 16 * 4 < 64"
    "(of_char x :: nat) mod 64 < 64" for x
    using of_char_less_256 [of x] by (auto simp: less_mult_imp_div_less)
  have lt2: "(of_char x :: nat) mod 4 * 16 + of_char y div 16 < 64" "(of_char x :: nat) mod 16 * 4 + of_char y div 64 < 64" for x y
  proof -
    have "(of_char y :: nat) div 16 < 16" "(of_char y :: nat) div 64 < 4" using of_char_less_256 [of y] by (simp_all add: less_mult_imp_div_less)
    moreover have "(of_char x :: nat) mod 4 < 4" "(of_char x :: nat) mod 16 < 16" by simp_all
    ultimately show "(of_char x :: nat) mod 4 * 16 + of_char y div 16 < 64" "(of_char x :: nat) mod 16 * 4 + of_char y div 64 < 64" by linarith+
  qed
  show "b64_group [a] = b64_encode [of_char a]" "b64_group [a, b] = b64_encode [of_char a, of_char b]"
    "b64_group [a, b, c] @ b64_encode r = b64_encode (of_char a # of_char b # of_char c # r)"
    by (simp_all add: b64_group_def b64_table_char lt lt2 numeral_2_eq_2 numeral_3_eq_3)
qed

text \<open>The lines the contents of a file are sent in, the first one started already.\<close>

fun b64_lines :: "nat \<Rightarrow> string \<Rightarrow> string \<Rightarrow> string list" where
  "b64_lines width line (a # b # c # r) =
     (if 76 \<le> width + 4 then line # b64_lines 0 (b64_group [a, b, c]) r
      else b64_lines (width + 4) (line @ b64_group [a, b, c]) r)"
| "b64_lines width line [] = [line]"
| "b64_lines width line s = (if 76 \<le> width + 4 then [line, b64_group s] else [line @ b64_group s])"

fun crlf_join :: "string list \<Rightarrow> string" where
  "crlf_join [] = []"
| "crlf_join [l] = l"
| "crlf_join (l # ls) = l @ CRLF @ crlf_join ls"

lemma crlf_join_Cons: "ls \<noteq> [] \<Longrightarrow> crlf_join (l # ls) = l @ CRLF @ crlf_join ls"
  by (cases ls) auto

lemma b64_lines_nonempty [simp]: "b64_lines w l s \<noteq> []"
  by (induction w l s rule: b64_lines.induct) auto

lemma rc_write_ok: "rc_err k = None \<Longrightarrow> rc_write t k = Done (k\<lparr>rc_out := rc_out k @ t\<rparr>, Inr ())"
  by (simp add: rc_write_def)

lemma send_group_ok: "rc_err k = None \<Longrightarrow> send_group w g k =
    Done (k\<lparr>rc_out := rc_out k @ (if 76 \<le> w + 4 then CRLF else []) @ b64_group g\<rparr>, Inr (if 76 \<le> w + 4 then 0 else w + 4))"
  by (simp add: send_group_def rc_write_ok)

lemma send_file_lines:
  assumes "rc_err k = None" "rc_out k = pre @ line"
  shows "send_file_loop w (map Got s) k = Done (k\<lparr>rc_out := pre @ crlf_join (b64_lines w line s)\<rparr>, Inr ())"
  using assms
proof (induction w line s arbitrary: k pre rule: b64_lines.induct)
  case (1 w line a b c r)
  show ?case
  proof (cases "76 \<le> w + 4")
    case True
    let ?k = "k\<lparr>rc_out := pre @ line @ CRLF @ b64_group [a, b, c]\<rparr>"
    have "send_file_loop 0 (map Got r) ?k = Done (?k\<lparr>rc_out := (pre @ line @ CRLF) @ crlf_join (b64_lines 0 (b64_group [a, b, c]) r)\<rparr>, Inr ())"
      using True "1.prems" by (intro "1.IH"(1)) simp_all
    with True "1.prems" show ?thesis by (simp add: send_group_ok crlf_join_Cons)
  next
    case False
    let ?k = "k\<lparr>rc_out := pre @ line @ b64_group [a, b, c]\<rparr>"
    have "send_file_loop (w + 4) (map Got r) ?k = Done (?k\<lparr>rc_out := pre @ crlf_join (b64_lines (w + 4) (line @ b64_group [a, b, c]) r)\<rparr>, Inr ())"
      using False "1.prems" by (intro "1.IH"(2)) simp_all
    with False "1.prems" show ?thesis by (simp add: send_group_ok)
  qed
qed (auto simp: send_group_ok)

lemma b64_lines_encode: "concat (b64_lines w line s) = line @ b64_encode (map of_char s)"
  by (induction w line s rule: b64_lines.induct)
    (auto simp: b64_group_encode(1,2) b64_group_encode(3) [symmetric] simp del: b64_encode.simps(2-4))

lemma b64_group_length [simp]: "length (b64_group g) = 4"
  by (simp add: b64_group_def Let_def)

lemma b64_lines_short:
  assumes "4 dvd w" "length line \<le> w + 4" "w \<le> 72" "l \<in> set (b64_lines w line s)"
  shows "length l \<le> 76"
  using assms by (induction w line s rule: b64_lines.induct) (auto split: if_splits)

section \<open>Lines and answers\<close>

definition plain_line :: "string \<Rightarrow> bool" where
  "plain_line l \<longleftrightarrow> CHR ''%'' \<notin> set l \<and> length l + 2 < MAX_SMTP_LINE"

definition crlf :: "string list \<Rightarrow> string" where
  "crlf ls = concat (map (\<lambda>l. l @ CRLF) ls)"

lemma crlf_simps [simp]: "crlf [] = []" "crlf (l # ls) = l @ CRLF @ crlf ls" "crlf (ls @ ms) = crlf ls @ crlf ms"
  by (simp_all add: crlf_def)

definition wrote :: "string list \<Rightarrow> relay_cnx \<Rightarrow> relay_cnx" where
  "wrote ls k = k\<lparr>rc_out := rc_out k @ crlf ls\<rparr>"

lemma wrote_simps [simp]: "wrote [] k = k" "wrote ls (wrote ms k) = wrote (ms @ ls) k" "rc_err (wrote ls k) = rc_err k"
    "rc_in (wrote ls k) = rc_in k" "rc_out (wrote ls k) = rc_out k @ crlf ls" "(wrote ls k)\<lparr>rc_in := i\<rparr> = wrote ls (k\<lparr>rc_in := i\<rparr>)"
  by (simp_all add: wrote_def)

lemma as_format_plain: "CHR ''%'' \<notin> set t \<Longrightarrow> as_format t = Done t"
  by (induction t) auto

lemma format_strs_plain:
  "CHR ''%'' \<notin> set (concat args) \<Longrightarrow> length (cmd @ concat args) < MAX_SMTP_LINE \<Longrightarrow> format_strs cmd args = Done (cmd @ concat args)"
  by (induction args arbitrary: cmd) (auto simp: as_format_plain)

lemma send_strs_ok:
  assumes "plain_line (concat args)" "rc_err k = None"
  shows "send_smtp_strs args k = Done (wrote [concat args] k, Inr ())"
proof -
  have "CHR ''%'' \<notin> set (concat args)" "length (concat args) + 2 < MAX_SMTP_LINE" using assms(1) unfolding plain_line_def by blast+
  then have "format_strs [] args = Done (concat args)" "length (concat args @ CRLF) < MAX_SMTP_LINE" "length (concat args) < MAX_SMTP_LINE"
    using format_strs_plain [of args "[]"] by (simp_all add: CRLF_def)
  then show ?thesis using assms(2) by (simp add: send_smtp_strs_def Let_def rc_write_ok wrote_def)
qed

text \<open>An answer of the relay, on one or several lines.\<close>

fun reply :: "int \<Rightarrow> string list \<Rightarrow> string" where
  "reply st [] = dec0 3 (nat st) @ SP # CRLF"
| "reply st [t] = dec0 3 (nat st) @ SP # t @ CRLF"
| "reply st (t # ts) = dec0 3 (nat st) @ CHR ''-'' # t @ CRLF @ reply st ts"

definition reply_ok :: "int \<Rightarrow> string list \<Rightarrow> bool" where
  "reply_ok st ts \<longleftrightarrow> 100 \<le> st \<and> st \<le> 999 \<and> list_all (\<lambda>t. NL \<notin> set t \<and> CR \<notin> set t \<and> NUL \<notin> set t \<and> length t < MAX_SMTP_LINE) ts"

lemma line_loop_crlf:
  assumes "\<forall>c \<in> set l. c \<noteq> NL \<and> c \<noteq> CR" "length s - p + length l < m" "p \<le> length s"
  shows "line_loop s False p m (map Got (l @ CRLF) @ rest) = (s @ l @ [NL], None, rest)"
  using assms
proof (induction l arbitrary: s)
  case Nil
  then show ?case by (simp add: CRLF_def line_loop.simps [of s False] line_loop.simps [of s True])
next
  case (Cons c l)
  from Cons.prems have "line_loop (s @ [c]) False p m (map Got (l @ CRLF) @ rest) = ((s @ [c]) @ l @ [NL], None, rest)"
    by (intro Cons.IH) auto
  with Cons.prems show ?case by (simp add: line_loop.simps [of s] Let_def)
qed

lemma read_line_crlf:
  assumes "NL \<notin> set l" "CR \<notin> set l" "length l < m"
  shows "read_line s m (map Got (l @ CRLF) @ rest) = (s @ l @ [NL], None, rest)"
  unfolding read_line_def using assms by (intro line_loop_crlf) auto

lemma strtoul_int_dec0:
  assumes "0 \<le> st" "st \<le> 999" "\<not> starts_digit 10 t"
  shows "strtoul_int (dec0 3 (nat st) @ t) = (st, t)"
proof -
  have "\<not> (2::nat) ^ 64 \<le> nat st" using assms by simp
  then have "strtoull10 (dec0 3 (nat st) @ t) = (st, t)"
    using assms by (simp add: strtoull10_def skip_sign_digit read_digits_dec0 wrap64_def)
  moreover have "sint (word_of_int st :: 32 word) = st" using assms by (simp add: sint_sbintrunc' signed_take_bit_int_eq_self)
  ultimately show ?thesis by (simp add: strtoul_int_def)
qed

lemma dec0_chars: "c \<in> set (dec0 w n) \<Longrightarrow> \<exists>d < 10. c = digit_char d"
proof -
  have "CHR ''0'' = digit_char 0" by code_simp
  then have z: "\<exists>d < 10. CHR ''0'' = digit_char d" by (intro exI [of _ 0]) simp
  assume "c \<in> set (dec0 w n)"
  then consider "c = CHR ''0''" | "c \<in> set (dec_nat n)" by (auto simp: dec0_def pad0_def)
  then show ?thesis using z dec_nat_digits [of n] by cases auto
qed

lemma digit_char_not_NUL: "d < 10 \<Longrightarrow> digit_char d \<noteq> NUL"
  by (auto simp flip: of_char_eq_iff [where 'a = nat])

lemma dec0_plain: "NL \<notin> set (dec0 w n)" "CR \<notin> set (dec0 w n)" "NUL \<notin> set (dec0 w n)"
  using dec0_chars [of NL w n] dec0_chars [of CR w n] dec0_chars [of NUL w n] digit_char_neq(4,5) digit_char_not_NUL by metis+

lemma status_line:
  assumes "100 \<le> st" "st \<le> 999" "NL \<notin> set t" "CR \<notin> set t" "NUL \<notin> set t" "length t < MAX_SMTP_LINE" "c = SP \<or> c = CHR ''-''"
  shows "status_lines vb (map Got (dec0 3 (nat st) @ c # t @ CRLF) @ rest) =
    (if c = SP then (Inr st, rest) else status_lines (vb @ dec0 3 (nat st) @ c # t @ [NL]) rest)"
proof -
  let ?l = "dec0 3 (nat st) @ c # t"
  have "length (dec0 3 (nat st)) = 3" using assms(1,2) by (intro length_dec0) auto
  then have r: "read_line vb (MAX_SMTP_LINE * 2) (map Got (?l @ CRLF) @ rest) = (vb @ ?l @ [NL], None, rest)"
    using assms dec0_plain by (intro read_line_crlf) (auto simp: MAX_SMTP_LINE_def)
  have "NUL \<notin> set (?l @ [NL])" using assms dec0_plain by auto
  then have "cstr (drop (length vb) (vb @ ?l @ [NL])) = dec0 3 (nat st) @ c # t @ [NL]" by (simp add: cstr_no_NUL)
  moreover have "\<not> starts_digit 10 (c # t @ [NL])" using assms(7) by (auto simp: starts_digit_def digit_val_def)
  ultimately have "strtoul_int (cstr (drop (length vb) (vb @ ?l @ [NL]))) = (st, c # t @ [NL])"
    using strtoul_int_dec0 [of st "c # t @ [NL]"] assms by simp
  with r assms(7) show ?thesis by (subst status_lines.simps) auto
qed

lemma status_reply:
  assumes "reply_ok st ts"
  shows "status_lines vb (map Got (reply st ts) @ rest) = (Inr st, rest)"
  using assms
proof (induction st ts arbitrary: vb rule: reply.induct)
  case (1 st)
  then show ?case using status_line [of st "[]" SP vb rest] by (simp add: reply_ok_def MAX_SMTP_LINE_def)
next
  case (2 st t)
  then show ?case using status_line [of st t SP vb rest] by (simp add: reply_ok_def)
next
  case (3 st t u us)
  then show ?case using status_line [of st t "CHR ''-''" vb "map Got (reply st (u # us)) @ rest"] by (simp add: reply_ok_def)
qed

lemma smtp_cmd_ok:
  assumes "plain_line (concat args)" "rc_err k = None" "reply_ok st ts" "rc_in k = map Got (reply st ts) @ rest"
  shows "smtp_cmd args k = Done (wrote [concat args] (k\<lparr>rc_in := rest\<rparr>), Inr st)"
  using send_strs_ok [OF assms(1,2)] status_reply [OF assms(3), of "[]" rest] assms(4)
  by (simp add: smtp_cmd_def read_smtp_status_def)

section \<open>The text of a mail\<close>

definition part_header_lines :: "part \<Rightarrow> string list" where
  "part_header_lines p = ''Content-Transfer-Encoding: base64'' # (case pt_type p of
     None \<Rightarrow> []
   | Some t \<Rightarrow> (''Content-Type: '' @ t @ '';'') # (case pt_name p of
        None \<Rightarrow> [] | Some n \<Rightarrow> [TAB # ''name='' @ [DQ] @ n @ [DQ]]))"

definition part_lines :: "(part \<Rightarrow> string) \<Rightarrow> part \<Rightarrow> string list" where
  "part_lines data p = (''--'' @ mail_boundary) # part_header_lines p @ [] # b64_lines 0 [] (data p)"

fun to_lines :: "bool \<Rightarrow> string list \<Rightarrow> string list" where
  "to_lines first [] = []"
| "to_lines first (t # ts) = ((if first then ''To: '' else '' , '') @ t) # to_lines False ts"

definition mail_head :: "string \<Rightarrow> forward \<Rightarrow> string \<Rightarrow> string \<Rightarrow> string list" where
  "mail_head host fw from descr =
     (''From: '' @ from) # to_lines True (fields_named (fw_header fw) SC_TO_FIELD) @
     (''Subject: '' @ descr) # (''Message-Id: <'' @ mdir_version2str (fw_version fw) @ ''@'' @ host @ ''>'') #
     (case field_value (fw_header fw) SC_EXTID_FIELD of None \<Rightarrow> [] | Some i \<Rightarrow> [''In-Reply-To: '' @ i]) @
     [''Mime-Version: 1.0'', ''Content-Type: multipart/mixed; boundary='' @ mail_boundary]"

definition mail_lines :: "string \<Rightarrow> forward \<Rightarrow> string \<Rightarrow> string \<Rightarrow> (part \<Rightarrow> string) \<Rightarrow> string list" where
  "mail_lines host fw from descr data =
     mail_head host fw from descr @ [] # concat (map (part_lines data) (fw_parts fw)) @ [''--'' @ mail_boundary @ ''--'']"

definition part_ok :: "fs \<Rightarrow> (part \<Rightarrow> string) \<Rightarrow> part \<Rightarrow> bool" where
  "part_ok fs data p \<longleftrightarrow> open_input fs (pt_filename p) = Inr (map Got (data p)) \<and> list_all plain_line (part_header_lines p)"

lemma crlf_join_end: "ls \<noteq> [] \<Longrightarrow> crlf_join ls @ CRLF = crlf ls"
proof (induction ls)
  case (Cons l ls)
  then show ?case by (cases "ls = []") (simp_all add: crlf_join_Cons)
qed simp

lemma send_strs_wrote:
  assumes "plain_line (concat args)" "rc_err k = None"
  shows "bnd (send_smtp_strs args) f k = f () (wrote [concat args] k)"
  using send_strs_ok [OF assms] by simp

lemma plain_fixed [simp]:
  "plain_line []" "plain_line (CHR ''-'' # CHR ''-'' # mail_boundary)" "plain_line (CHR ''-'' # CHR ''-'' # mail_boundary @ ''--'')" "plain_line ''.''" "plain_line ''DATA''"
  by (simp_all add: plain_line_def mail_boundary_def MAX_SMTP_LINE_def)

lemma send_part_header:
  assumes "list_all plain_line (part_header_lines p)" "rc_err k = None"
  shows "send_part fs p k = send_file fs (pt_filename p) (wrote (part_header_lines p @ [[]]) k)"
proof -
  let ?h = "part_header_lines p"
  define types where "types = (case pt_type p of None \<Rightarrow> ret ()
      | Some t \<Rightarrow> bnd (send_smtp_strs [''Content-Type: '', t, '';'']) (\<lambda>_. case pt_name p of None \<Rightarrow> ret ()
          | Some n \<Rightarrow> send_smtp_strs [TAB # ''name='' @ [DQ], n, [DQ]]))"
  have "types k = Done (wrote (tl ?h) k, Inr ())" if "rc_err k = None" for k
    using assms(1) that send_strs_ok [of "[''Content-Type: '', the (pt_type p), '';'']" k]
      send_strs_ok [of "[TAB # ''name='' @ [DQ], the (pt_name p), [DQ]]" "wrote [''Content-Type: '' @ the (pt_type p) @ '';''] k"]
    by (auto simp: types_def part_header_lines_def split: option.splits)
  then have t: "bnd types f k = f () (wrote (tl ?h) k)" if "rc_err k = None" for k and f :: "unit \<Rightarrow> (relay_cnx, unit) act"
    using that by simp
  have h: "plain_line (hd ?h)" "?h = [hd ?h] @ tl ?h" "hd ?h = ''Content-Transfer-Encoding: base64''"
    using assms(1) by (simp_all add: part_header_lines_def)
  show ?thesis
    unfolding send_part_def types_def [symmetric] using h assms(2)
    by (subst h(2)) (simp add: send_strs_wrote t)
qed

lemma send_part_ok:
  assumes "part_ok fs data p" "rc_err k = None"
  shows "send_part fs p k = Done (k\<lparr>rc_out := rc_out k @ crlf (part_header_lines p @ [[]]) @ crlf_join (b64_lines 0 [] (data p))\<rparr>, Inr ())"
proof -
  let ?k = "wrote (part_header_lines p @ [[]]) k"
  have p: "open_input fs (pt_filename p) = Inr (map Got (data p))" "list_all plain_line (part_header_lines p)"
    using assms(1) by (simp_all add: part_ok_def)
  have "send_part fs p k = send_file fs (pt_filename p) ?k" by (rule send_part_header [OF p(2) assms(2)])
  also have "\<dots> = Done (?k\<lparr>rc_out := rc_out ?k @ crlf_join (b64_lines 0 [] (data p))\<rparr>, Inr ())"
    unfolding send_file_def p(1) using assms(2) send_file_lines [of ?k "rc_out ?k" "[]" 0 "data p"] by simp
  finally show ?thesis by (simp add: wrote_def)
qed

lemma send_parts_step:
  assumes "part_ok fs data p" "rc_err k = None"
  shows "\<exists>l. send_parts fs (p # ps) k = send_parts fs ps l \<and> rc_err l = None \<and>
    (\<forall>ls. wrote ([] # ls) l = wrote ([] # part_lines data p @ ls) k)"
proof -
  let ?k = "wrote [[], ''--'' @ mail_boundary] k"
  let ?l = "(?k)\<lparr>rc_out := rc_out ?k @ crlf (part_header_lines p @ [[]]) @ crlf_join (b64_lines 0 [] (data p))\<rparr>"
  have "send_part fs p ?k = Done (?l, Inr ())" using assms by (intro send_part_ok) simp_all
  then have a: "attempt (send_part fs p) ?k = Done (?l, Inr (Inr ()))" by (simp add: attempt_def)
  have "send_parts fs (p # ps) k = send_parts fs ps ?l"
    using assms(2) a by (simp add: send_strs_wrote)
  moreover have "wrote ([] # ls) ?l = wrote ([] # part_lines data p @ ls) k" for ls
    by (simp add: wrote_def part_lines_def [of data p] crlf_join_end [symmetric])
  ultimately show ?thesis using assms(2) by (intro exI [of _ ?l]) simp
qed

lemma send_parts_ok:
  assumes "list_all (part_ok fs data) ps" "rc_err k = None"
  shows "send_parts fs ps k = Done (wrote ([] # concat (map (part_lines data) ps)) k, Inr ())"
  using assms
proof (induction ps arbitrary: k)
  case Nil
  then show ?case using send_strs_ok [of "[[]]" k] by simp
next
  case (Cons p ps)
  with send_parts_step [of fs data p k ps] obtain l where "send_parts fs (p # ps) k = send_parts fs ps l" "rc_err l = None"
    "\<And>ls. wrote ([] # ls) l = wrote ([] # part_lines data p @ ls) k" by auto
  with Cons show ?case by simp
qed

text \<open>A part whose file is not there: its header is sent, and two empty lines.\<close>

lemma send_parts_missing:
  assumes "list_all (part_ok fs data) ps" "rc_err k = None" "open_input fs (pt_filename p) = Inl e" "list_all plain_line (part_header_lines p)"
  shows "send_parts fs (ps @ p # qs) k =
    Done (wrote ([] # concat (map (part_lines data) ps) @ (''--'' @ mail_boundary) # part_header_lines p @ [[], []]) k, Inl (Err e ''open(%s)''))"
  using assms(1,2)
proof (induction ps arbitrary: k)
  case Nil
  let ?k = "wrote [[], ''--'' @ mail_boundary] k" and ?l = "wrote ([[], ''--'' @ mail_boundary] @ part_header_lines p @ [[]]) k"
  have "send_part fs p ?k = send_file fs (pt_filename p) ?l"
    using send_part_header [OF assms(4), of ?k fs] Nil by simp
  then have "attempt (send_part fs p) ?k = Done (?l, Inr (Inl (Err e ''open(%s)'')))" by (simp add: attempt_def send_file_def assms(3))
  moreover have "attempt (send_smtp_strs [[]]) ?l = Done (wrote [[]] ?l, Inr (Inr ()))" using Nil send_strs_ok [of "[[]]" ?l] by (simp add: attempt_def)
  ultimately show ?case using Nil by (simp add: send_strs_wrote)
next
  case (Cons q ps)
  with send_parts_step [of fs data q k "ps @ p # qs"] obtain l where "send_parts fs (q # ps @ p # qs) k = send_parts fs (ps @ p # qs) l" "rc_err l = None"
    "\<And>ls. wrote ([] # ls) l = wrote ([] # part_lines data q @ ls) k" by auto
  with Cons show ?case by simp
qed

lemma send_tos_ok:
  "list_all plain_line (to_lines b ts) \<Longrightarrow> rc_err k = None \<Longrightarrow> send_tos b ts k = Done (wrote (to_lines b ts) k, Inr ())"
proof (induction ts arbitrary: b k)
  case (Cons t ts)
  then show ?case using send_strs_ok [of "[if b then ''To: '' else '' , '', t]" k] by simp
qed simp

lemma send_mail_head:
  assumes "field_value (fw_header fw) SC_FROM_FIELD = Some from" "field_value (fw_header fw) SC_DESCR_FIELD = Some descr"
    "list_all plain_line (mail_head host fw from descr)" "rc_err k = None"
  shows "send_mail fs host fw k = bnd (send_parts fs (fw_parts fw)) (\<lambda>_. send_smtp_strs [''--'', mail_boundary, ''--'']) (wrote (mail_head host fw from descr) k)"
proof -
  let ?ext = "case field_value (fw_header fw) SC_EXTID_FIELD of None \<Rightarrow> [] | Some i \<Rightarrow> [''In-Reply-To: '' @ i]"
  let ?e = "case field_value (fw_header fw) SC_EXTID_FIELD of None \<Rightarrow> ret () | Some i \<Rightarrow> send_smtp_strs [''In-Reply-To: '', i]"
  have pl: "plain_line (''From: '' @ from)" "list_all plain_line (to_lines True (fields_named (fw_header fw) SC_TO_FIELD))"
    "plain_line (''Subject: '' @ descr)" "plain_line (''Message-Id: <'' @ mdir_version2str (fw_version fw) @ ''@'' @ host @ ''>'')"
    "list_all plain_line ?ext" "plain_line ''Mime-Version: 1.0''" "plain_line (''Content-Type: multipart/mixed; boundary='' @ mail_boundary)"
    using assms(3) by (simp_all add: mail_head_def)
  have e: "bnd ?e f k = f () (wrote ?ext k)" if "rc_err k = None" for k and f :: "unit \<Rightarrow> (relay_cnx, unit) act"
    using pl(5) that by (auto simp: send_strs_wrote split: option.splits)
  have t: "bnd (send_tos True (fields_named (fw_header fw) SC_TO_FIELD)) f k = f () (wrote (to_lines True (fields_named (fw_header fw) SC_TO_FIELD)) k)"
    if "rc_err k = None" for k and f :: "unit \<Rightarrow> (relay_cnx, unit) act"
    using send_tos_ok [OF pl(2) that] by simp
  show ?thesis
    unfolding send_mail_def Let_def with_field_def assms(1,2)
    using assms(4) pl by (simp add: send_strs_wrote e t mail_head_def)
qed

lemma send_mail_ok:
  assumes "field_value (fw_header fw) SC_FROM_FIELD = Some from" "field_value (fw_header fw) SC_DESCR_FIELD = Some descr"
    "list_all plain_line (mail_head host fw from descr)" "list_all (part_ok fs data) (fw_parts fw)" "rc_err k = None"
  shows "send_mail fs host fw k = Done (wrote (mail_lines host fw from descr data) k, Inr ())"
  using send_mail_head [OF assms(1-3,5), of fs] send_parts_ok [OF assms(4), of "wrote (mail_head host fw from descr) k"] assms(5)
  by (simp add: send_strs_ok mail_lines_def)

section \<open>The dialogue with the relay\<close>

definition replies :: "(int \<times> string list) list \<Rightarrow> input" where
  "replies rs = map Got (concat (map (\<lambda>(st, ts). reply st ts) rs))"

lemma replies_simps [simp]: "replies [] = []" "replies (r # rs) = map Got (reply (fst r) (snd r)) @ replies rs"
  by (simp_all add: replies_def split: prod.split)

definition rcpt_line :: "string \<Rightarrow> string" where
  "rcpt_line t = ''RCPT TO:<'' @ t @ ''>''"

definition rcpt_accepted :: "int \<Rightarrow> bool" where
  "rcpt_accepted st \<longleftrightarrow> 250 \<le> st \<and> st \<le> 252"

text \<open>How many commands are accepted, given the tests their answers must pass.\<close>

definition accepts :: "(int \<Rightarrow> bool) list \<Rightarrow> int list \<Rightarrow> nat" where
  "accepts ts ss = length (takeWhile (\<lambda>(t, s). t s) (zip ts ss))"

lemma accepts_simps [simp]:
  "accepts [] ss = 0" "accepts (t # ts) (s # ss) = (if t s then Suc (accepts ts ss) else 0)"
  by (simp_all add: accepts_def)

lemma accepts_le: "accepts ts ss \<le> length ts"
  using length_takeWhile_le [of "\<lambda>(t, s). t s" "zip ts ss"] by (auto simp: accepts_def)

lemma send_rcpts_ok:
  assumes "list_all plain_line (map rcpt_line ts)" "rc_err k = None" "list_all (\<lambda>(st, us). reply_ok st us) rs"
    "length ts \<le> length rs" "rc_in k = replies rs @ rest" "n = accepts (replicate (length ts) rcpt_accepted) (map fst rs)"
  shows "send_rcpts ts k = (if n < length ts
    then Done (wrote (take (Suc n) (map rcpt_line ts)) (k\<lparr>rc_in := replies (drop (Suc n) rs) @ rest\<rparr>), Inr (Some (fst (rs ! n))))
    else Done (wrote (map rcpt_line ts) (k\<lparr>rc_in := replies (drop (length ts) rs) @ rest\<rparr>), Inr None))"
  using assms
proof (induction ts arbitrary: k rs n)
  case (Cons t ts)
  obtain r rs' where rs: "rs = r # rs'" using Cons.prems(4) by (cases rs) auto
  let ?k = "wrote [rcpt_line t] (k\<lparr>rc_in := replies rs' @ rest\<rparr>)"
  have "smtp_cmd [''RCPT TO:<'', t, ''>''] k = Done (?k, Inr (fst r))"
    using Cons.prems smtp_cmd_ok [of "[''RCPT TO:<'', t, ''>'']" k "fst r" "snd r" "replies rs' @ rest"]
    by (simp add: rs rcpt_line_def split_beta)
  then have c: "send_rcpts (t # ts) k = (if rcpt_accepted (fst r) then send_rcpts ts ?k else Done (?k, Inr (Some (fst r))))"
    by (auto simp: rcpt_accepted_def)
  show ?case
  proof (cases "rcpt_accepted (fst r)")
    case True
    define m where "m = accepts (replicate (length ts) rcpt_accepted) (map fst rs')"
    have n: "n = Suc m" using True Cons.prems(6) by (simp add: rs m_def)
    have "send_rcpts ts ?k = (if m < length ts
      then Done (wrote (take (Suc m) (map rcpt_line ts)) (?k\<lparr>rc_in := replies (drop (Suc m) rs') @ rest\<rparr>), Inr (Some (fst (rs' ! m))))
      else Done (wrote (map rcpt_line ts) (?k\<lparr>rc_in := replies (drop (length ts) rs') @ rest\<rparr>), Inr None))"
      using Cons.prems by (intro Cons.IH) (simp_all add: rs m_def)
    with True c n show ?thesis by (simp add: rs)
  next
    case False
    with c Cons.prems(6) show ?thesis by (simp add: rs)
  qed
qed simp

lemma accepts_rcpts:
  assumes "m \<le> length ss"
  shows "accepts (replicate m t @ us) ss =
    (if accepts (replicate m t) ss < m then accepts (replicate m t) ss else m + accepts us (drop m ss))"
  using assms
proof (induction m arbitrary: ss)
  case (Suc m)
  then obtain s ss' where "ss = s # ss'" by (cases ss) auto
  with Suc show ?case by simp
qed simp

definition forward_cmds :: "string \<Rightarrow> string list \<Rightarrow> string list" where
  "forward_cmds from tos = (''MAIL FROM:<'' @ from @ ''>'') # map rcpt_line tos @ [''DATA'']"

definition forward_tests :: "string list \<Rightarrow> (int \<Rightarrow> bool) list" where
  "forward_tests tos = (\<lambda>st. st = 250) # replicate (length tos) rcpt_accepted @ [\<lambda>st. st = 354]"

lemma send_forward_cmds:
  assumes "field_value (fw_header fw) SC_FROM_FIELD = Some from" and tos: "tos = fields_named (fw_header fw) SC_TO_FIELD"
    and "list_all plain_line (forward_cmds from tos)"
    and "rc_err k = None" "list_all (\<lambda>(st, us). reply_ok st us) rs" "length tos + 2 \<le> length rs" "rc_in k = replies rs @ rest"
    and n: "n = accepts (forward_tests tos) (map fst rs)"
  shows "send_forward fs host fw k = (if n < length tos + 2
    then Done (wrote (take (Suc n) (forward_cmds from tos)) (k\<lparr>rc_in := replies (drop (Suc n) rs) @ rest\<rparr>), Inr (fst (rs ! n)))
    else bnd (send_mail fs host fw) (\<lambda>_. smtp_cmd [''.'']) (wrote (forward_cmds from tos) (k\<lparr>rc_in := replies (drop n rs) @ rest\<rparr>)))"
proof -
  obtain r rs' where rs: "rs = r # rs'" using assms(6) by (cases rs) auto
  have rs': "length tos + 1 \<le> length rs'" "list_all (\<lambda>(st, us). reply_ok st us) rs'" using assms(5,6) rs by simp_all
  have pl: "plain_line (''MAIL FROM:<'' @ from @ ''>'')" "list_all plain_line (map rcpt_line tos)" using assms(3) by (simp_all add: forward_cmds_def)
  let ?k = "wrote [''MAIL FROM:<'' @ from @ ''>''] (k\<lparr>rc_in := replies rs' @ rest\<rparr>)"
  have c1: "smtp_cmd [''MAIL FROM:<'', from, ''>''] k = Done (?k, Inr (fst r))"
    using pl(1) assms(4,5,7) smtp_cmd_ok [of "[''MAIL FROM:<'', from, ''>'']" k "fst r" "snd r" "replies rs' @ rest"]
    by (simp add: rs split_beta)
  define m where "m = accepts (replicate (length tos) rcpt_accepted) (map fst rs')"
  show ?thesis
  proof (cases "fst r = 250")
    case False
    with c1 n show ?thesis by (simp add: send_forward_def with_field_def assms(1) forward_tests_def forward_cmds_def rs)
  next
    case ok: True
    note rc = send_rcpts_ok [OF pl(2), of ?k rs' rest m, folded m_def]
    have sf: "send_forward fs host fw k = bnd (send_rcpts tos) (\<lambda>refused. case refused of
         Some status \<Rightarrow> ret status
       | None \<Rightarrow> bnd (smtp_cmd [''DATA'']) (\<lambda>status.
           if status \<noteq> 354 then ret status else bnd (send_mail fs host fw) (\<lambda>_. smtp_cmd [''.'']))) ?k"
      using c1 ok by (simp add: send_forward_def with_field_def assms(1) tos)
    have nm: "n = Suc (if m < length tos then m else length tos + accepts [\<lambda>st. st = 354] (map fst (drop (length tos) rs')))"
      using ok n rs' by (simp add: forward_tests_def rs accepts_rcpts m_def drop_map)
    show ?thesis
    proof (cases "m < length tos")
      case True
      with rc sf nm rs' assms(4) show ?thesis by (simp add: m_def [symmetric] forward_cmds_def rs)
    next
      case False
      obtain d ds where df: "drop (length tos) rs' = d # ds" using rs'(1) by (cases "drop (length tos) rs'") auto
      have dr: "rs' ! length tos = d" "drop (Suc (length tos)) rs' = ds"
        using df rs'(1) by (simp_all add: Cons_nth_drop_Suc [symmetric])
      have ok2: "reply_ok (fst d) (snd d)" using rs' dr(1) by (auto simp: list_all_length split_beta)
      let ?ls = "(''MAIL FROM:<'' @ from @ ''>'') # map rcpt_line tos"
      let ?k2 = "wrote ?ls (k\<lparr>rc_in := map Got (reply (fst d) (snd d)) @ replies ds @ rest\<rparr>)"
      let ?k3 = "wrote (?ls @ [''DATA'']) (k\<lparr>rc_in := replies ds @ rest\<rparr>)"
      have "send_rcpts tos ?k = Done (?k2, Inr None)" using rc False df rs' assms(4) by (simp add: m_def [symmetric])
      moreover have "smtp_cmd [''DATA''] ?k2 = Done (?k3, Inr (fst d))"
        using smtp_cmd_ok [of "[''DATA'']" ?k2 "fst d" "snd d"] ok2 assms(4) by simp
      ultimately have sd: "send_forward fs host fw k = (if fst d \<noteq> 354 then Done (?k3, Inr (fst d)) else bnd (send_mail fs host fw) (\<lambda>_. smtp_cmd [''.'']) ?k3)"
        using sf by simp
      show ?thesis
      proof (cases "fst d = 354")
        case True
        then have "n = length tos + 2" using nm False df by simp
        then show ?thesis using sd True dr by (simp add: forward_cmds_def rs)
      next
        case no: False
        with nm False df have "n = Suc (length tos)" by simp
        with sd no dr show ?thesis by (simp add: forward_cmds_def rs)
      qed
    qed
  qed
qed

lemma forward_cmds_length [simp]: "length (forward_cmds f tos) = length tos + 2"
  by (simp add: forward_cmds_def)

lemma send_forward_run:
  assumes "field_value (fw_header fw) SC_FROM_FIELD = Some from" "field_value (fw_header fw) SC_DESCR_FIELD = Some descr"
    and tos: "tos = fields_named (fw_header fw) SC_TO_FIELD"
    and "list_all plain_line (forward_cmds from tos)" "list_all plain_line (mail_head host fw from descr)"
    and "list_all (part_ok fs data) (fw_parts fw)"
    and "rc_err k = None" "list_all (\<lambda>(st, us). reply_ok st us) rs" "length rs = length tos + 3" "rc_in k = replies rs @ rest"
    and n: "n = accepts (forward_tests tos) (map fst rs)"
  shows "send_forward fs host fw k = Done (wrote (take (Suc n) (forward_cmds from tos) @
      (if n = length tos + 2 then mail_lines host fw from descr data @ [''.''] else []))
      (k\<lparr>rc_in := replies (drop (Suc n) rs) @ rest\<rparr>), Inr (fst (rs ! n)))"
proof -
  have le: "n \<le> length tos + 2" unfolding n using accepts_le [of "forward_tests tos"] by (simp add: forward_tests_def)
  note sf = send_forward_cmds [OF assms(1,3,4,7,8) _ assms(10) n, of fs host]
  show ?thesis
  proof (cases "n = length tos + 2")
    case True
    obtain f where f: "drop n rs = [f]" "rs ! n = f" "drop (Suc n) rs = []" "f \<in> set rs"
      using assms(9) True Cons_nth_drop_Suc [of n rs] by (metis One_nat_def Suc_eq_plus1 add_Suc_right drop_all le_refl lessI nth_mem numeral_2_eq_2 numeral_3_eq_3)
    then have ok: "reply_ok (fst f) (snd f)" using assms(8) by (auto simp: list_all_iff)
    let ?k = "wrote (forward_cmds from tos) (k\<lparr>rc_in := map Got (reply (fst f) (snd f)) @ rest\<rparr>)"
    have "send_mail fs host fw ?k = Done (wrote (mail_lines host fw from descr data) ?k, Inr ())"
      using assms(7) by (intro send_mail_ok [OF assms(1,2,5,6)]) simp
    moreover have "smtp_cmd [''.''] (wrote (mail_lines host fw from descr data) ?k) = Done (wrote [''.''] (wrote (mail_lines host fw from descr data) (?k\<lparr>rc_in := rest\<rparr>)), Inr (fst f))"
      using smtp_cmd_ok [of "[''.'']" "wrote (mail_lines host fw from descr data) ?k" "fst f" "snd f" rest] ok assms(7) by simp
    ultimately show ?thesis using sf assms(9) True f by simp
  next
    case False
    with le sf assms(9) show ?thesis by simp
  qed
qed

section \<open>Lines read back\<close>

definition nl :: "string list \<Rightarrow> string" where
  "nl ls = concat (map (\<lambda>l. l @ [NL]) ls)"

lemma nl_simps [simp]: "nl [] = []" "nl (l # ls) = l @ NL # nl ls" "nl (ls @ ms) = nl ls @ nl ms"
  by (simp_all add: nl_def)

definition line_ok :: "string \<Rightarrow> bool" where
  "line_ok l \<longleftrightarrow> NL \<notin> set l \<and> CR \<notin> set l \<and> NUL \<notin> set l \<and> length l < MAX_SMTP_LINE \<and> take 1 l \<noteq> ''.''"

lemma read_mail_lines:
  assumes "list_all line_ok ls" "length ls < n"
  shows "read_whole_mail n vb (map Got (crlf (ls @ [''.''])) @ inp) = Some (vb @ nl ls, None, inp)"
  using assms
proof (induction ls arbitrary: n vb)
  case Nil
  then obtain m where n: "n = Suc m" by (cases n) auto
  have "read_line vb MAX_MAILLINE_LENGTH (map Got (''.'' @ CRLF) @ inp) = (vb @ ''.'' @ [NL], None, inp)"
    by (rule read_line_crlf) (simp_all add: MAX_MAILLINE_LENGTH_def)
  moreover have "line_match (cstr (''.'' @ [NL])) ''.''" by (simp add: line_match_def cstr_def)
  ultimately show ?case by (simp add: n)
next
  case (Cons l ls)
  then obtain m where n: "n = Suc m" "length ls < m" by (cases n) auto
  have l: "NL \<notin> set l" "CR \<notin> set l" "NUL \<notin> set (l @ [NL])" "length l < MAX_MAILLINE_LENGTH" "take 1 l \<noteq> ''.''"
    using Cons.prems(1) by (simp_all add: line_ok_def MAX_SMTP_LINE_def MAX_MAILLINE_LENGTH_def)
  have "read_line vb MAX_MAILLINE_LENGTH (map Got (l @ CRLF) @ map Got (crlf (ls @ [''.''])) @ inp) =
      (vb @ l @ [NL], None, map Got (crlf (ls @ [''.''])) @ inp)"
    by (rule read_line_crlf [OF l(1,2,4)])
  moreover have "\<not> line_match (cstr (l @ [NL])) ''.''" using l(3,5) by (cases l) (auto simp: line_match_def cstr_no_NUL)
  ultimately show ?case using Cons.IH [OF _ n(2), of "vb @ l @ [NL]"] Cons.prems(1) by (simp add: n(1))
qed

section \<open>Fields as they come\<close>

definition raw_field :: "string \<times> string \<Rightarrow> string" where
  "raw_field f = fst f @ '': '' @ snd f @ [NL]"

definition folded :: "string \<Rightarrow> bool" where
  "folded v \<longleftrightarrow> (\<forall>i < length v. iseol (v ! i) \<longrightarrow> Suc i < length v \<and> isblank (v ! Suc i))"

definition raw_ok :: "string \<times> string \<Rightarrow> bool" where
  "raw_ok f \<longleftrightarrow> canon (fst f) \<and> CHR '':'' \<notin> set (fst f) \<and> compact (snd f) \<noteq> [] \<and> folded (snd f)"

definition raw_parsed :: "string \<times> string \<Rightarrow> header_field" where
  "raw_parsed f = header_field_ctor (fst f) (compact (snd f))"

lemma parse_field_raw:
  assumes "raw_ok f" "ends_value t"
  shows "parse_field (raw_field f @ t) = Done (length (raw_field f), Some (fst f), Some (compact (snd f)))"
proof -
  obtain n v where f: "f = (n, v)" by (cases f)
  have a: "canon n" "CHR '':'' \<notin> set n" "compact v \<noteq> []" "folded v" using assms(1) by (simp_all add: raw_ok_def f)
  have "\<forall>i < length n. \<not> is_end_of_name (drop i n @ CHR '':'' # SP # v @ NL # t)"
    using a(1,2) by (auto simp: drop_nth_Cons dest: canon_no_eol nth_mem)
  from parse_run [OF this] a(1) have pn: "parse (n @ CHR '':'' # SP # v @ NL # t) is_end_of_name = Done (length n, Some n)"
    by (simp add: canon_def)
  have "\<forall>i < length (SP # v). \<not> is_end_of_value (drop i (SP # v) @ NL # t)"
  proof (intro allI impI)
    fix i assume i: "i < length (SP # v)"
    show "\<not> is_end_of_value (drop i (SP # v) @ NL # t)"
    proof (cases i)
      case (Suc j)
      with i have j: "j < length v" by simp
      show ?thesis
      proof (cases "iseol (v ! j)")
        case True
        with a(4) j have "Suc j < length v" "isblank (v ! Suc j)" by (auto simp: folded_def)
        with j Suc show ?thesis by (simp add: drop_nth_Cons is_end_of_value_def)
      qed (use j Suc in \<open>simp add: drop_nth_Cons is_end_of_value_def\<close>)
    qed (simp add: is_end_of_value_def iseol_def)
  qed
  moreover have "is_end_of_value (NL # t)" using assms(2) by (simp add: is_end_of_value_def iseol_def ends_value_def)
  ultimately have pv: "parse (SP # v @ NL # t) is_end_of_value = Done (Suc (length v), Some (compact v))"
    using parse_run [of "SP # v" is_end_of_value "NL # t"] a(3) by simp
  have "n \<noteq> []" using a(1) by (rule canon_nonempty)
  with pn pv show ?thesis by (simp add: parse_field_def raw_field_def f Let_def)
qed

lemma ends_value_raw: "list_all raw_ok fs \<Longrightarrow> ends_value t \<Longrightarrow> ends_value (concat (map raw_field fs) @ t)"
proof (cases fs)
  case (Cons f fs')
  assume "list_all raw_ok fs"
  with Cons have "canon (fst f)" by (simp add: raw_ok_def)
  then obtain c cs where "fst f = c # cs" "\<not> isspace c" by (metis canon_hd canon_nonempty list.collapse)
  with Cons show ?thesis by (auto simp: ends_value_def raw_field_def dest: isblank_isspace)
qed simp

lemma header_parse_loop_raw:
  assumes "list_all raw_ok fs"
  shows "header_parse_loop h (concat (map raw_field fs) @ NL # r) k =
    Done (k + length (concat (map raw_field fs)), h\<lparr>h_fields := h_fields h @ map raw_parsed fs\<rparr>, None)"
  using assms
proof (induction fs arbitrary: h k)
  case Nil
  then show ?case by (simp add: header_parse_loop.simps [of h "NL # r"] parse_field_NL)
next
  case (Cons f fs)
  let ?t = "concat (map raw_field fs) @ NL # r"
  have p: "parse_field (raw_field f @ ?t) = Done (length (raw_field f), Some (fst f), Some (compact (snd f)))"
    using Cons.prems by (intro parse_field_raw ends_value_raw) (simp_all add: ends_value_def)
  have "raw_field f @ ?t \<noteq> []" "0 < length (raw_field f)" by (simp_all add: raw_field_def)
  then have "header_parse_loop h (raw_field f @ ?t) k =
      header_parse_loop (h\<lparr>h_fields := h_fields h @ [raw_parsed f]\<rparr>) ?t (k + length (raw_field f))"
    using p by (simp add: header_parse_loop.simps [of h "raw_field f @ ?t"] header_field_new_def raw_parsed_def)
  with Cons show ?case by simp
qed

lemma header_parse_raw:
  assumes "list_all raw_ok fs" "NUL \<notin> set (concat (map raw_field fs))"
  shows "header_parse header_new (cstr (concat (map raw_field fs) @ NL # r)) =
    Done (length (concat (map raw_field fs)), Mail.header_of (map raw_parsed fs), None)"
proof -
  have "cstr (concat (map raw_field fs) @ NL # r) = concat (map raw_field fs) @ NL # cstr r"
    using cstr_append [OF assms(2)] by (simp add: cstr_def)
  then show ?thesis using header_parse_loop_raw [OF assms(1), of header_new "cstr r" 0]
    by (simp add: header_parse_def header_new_def Mail.header_of_def)
qed

section \<open>Boundaries\<close>

fun nl_join :: "string list \<Rightarrow> string" where
  "nl_join [] = []"
| "nl_join [l] = l"
| "nl_join (l # ls) = l @ NL # nl_join ls"

lemma nl_join_Cons: "ls \<noteq> [] \<Longrightarrow> nl_join (l # ls) = l @ NL # nl_join ls"
  by (cases ls) auto

lemma nl_join_end: "ls \<noteq> [] \<Longrightarrow> nl_join ls @ [NL] = nl ls"
proof (induction ls)
  case (Cons l ls)
  then show ?case by (cases "ls = []") (simp_all add: nl_join_Cons)
qed simp

lemma nl_join_append: "ms \<noteq> [] \<Longrightarrow> nl_join (ls @ ms) = nl ls @ nl_join ms"
  by (induction ls) (simp_all add: nl_join_Cons)

lemma strstr_skip: "NL \<notin> set l \<Longrightarrow> strstr (NL # b) (l @ t) = map_option ((+) (length l)) (strstr (NL # b) t)"
  by (cases "strstr (NL # b) t"; induction l) auto

lemma clean_join:
  assumes "list_all (\<lambda>l. NL \<notin> set l) ls" "list_all (\<lambda>l. take 1 l \<noteq> ''-'') (tl ls)" "ls \<noteq> []"
  shows "clean (NL # ''--'' @ x) (nl_join ls)"
  using assms
proof (induction ls)
  case (Cons l ls)
  let ?b = "NL # ''--'' @ x"
  show ?case
  proof (cases "ls = []")
    case True
    with Cons.prems show ?thesis by (simp add: clean_def strstr_skip)
  next
    case False
    then obtain m ms where ls: "ls = m # ms" by (cases ls) auto
    have "list_all (\<lambda>l. take 1 l \<noteq> ''-'') (tl ls)" using Cons.prems(2) ls by simp
    then have "clean ?b (nl_join ls)" using Cons.IH Cons.prems(1) False by simp
    then have i: "strstr ?b (nl_join ls @ ?b) = Some (length (nl_join ls))" by (simp add: clean_def)
    have h: "take 1 (nl_join ls @ ?b) \<noteq> ''-''"
    proof (cases m)
      case Nil
      then show ?thesis using ls by (cases ms) auto
    next
      case (Cons c cs)
      with Cons.prems(2) ls have "c \<noteq> CHR ''-''" by simp
      with Cons ls show ?thesis by (cases ms) auto
    qed
    obtain d ds where d: "nl_join ls @ ?b = d # ds" by (cases "nl_join ls @ ?b") auto
    have "d \<noteq> CHR ''-''" using h unfolding d by simp
    then have "take (length ?b) (NL # nl_join ls @ ?b) \<noteq> ?b" unfolding d by auto
    then have "strstr ?b (NL # nl_join ls @ ?b) = Some (Suc (length (nl_join ls)))" using i by simp
    moreover have "NL \<notin> set l" using Cons.prems(1) by simp
    ultimately show ?thesis using False by (simp add: clean_def nl_join_Cons strstr_skip)
  qed
qed simp

section \<open>Characters of base 64\<close>

lemma b64_encode_chars: "\<forall>a \<in> set s. a < 256 \<Longrightarrow> c \<in> set (b64_encode s) \<Longrightarrow> c = CHR ''='' \<or> (\<exists>v < 64. c = b64_char v)"
proof (induction s rule: b64_encode.induct)
  case (2 a)
  have "a mod 4 \<le> 3" "a div 4 < 64" using 2 by (simp_all add: less_mult_imp_div_less)
  then have "a mod 4 * 16 < 64" "a div 4 < 64" by linarith+
  moreover have "c = CHR ''='' \<or> c = b64_char (a div 4) \<or> c = b64_char (a mod 4 * 16)" using 2 by auto
  ultimately show ?case by blast
next
  case (3 a b)
  have "a mod 4 \<le> 3" "b mod 16 \<le> 15" "b div 16 \<le> 15" "a div 4 < 64" using 3 div_le_mono [of b 255 16] by (simp_all add: less_mult_imp_div_less)
  then have "a mod 4 * 16 + b div 16 < 64" "b mod 16 * 4 < 64" "a div 4 < 64" by linarith+
  moreover have "c = CHR ''='' \<or> c = b64_char (a div 4) \<or> c = b64_char (a mod 4 * 16 + b div 16) \<or> c = b64_char (b mod 16 * 4)"
    using 3 by auto
  ultimately show ?case by blast
next
  case (4 a b c' r)
  have "a mod 4 \<le> 3" "b mod 16 \<le> 15" "b div 16 \<le> 15" "c' div 64 \<le> 3" "a div 4 < 64"
    using 4 div_le_mono [of b 255 16] div_le_mono [of c' 255 64] by (simp_all add: less_mult_imp_div_less)
  then have "a mod 4 * 16 + b div 16 < 64" "b mod 16 * 4 + c' div 64 < 64" "a div 4 < 64" "c' mod 64 < 64" by (linarith | simp)+
  moreover have "c = b64_char (a div 4) \<or> c = b64_char (a mod 4 * 16 + b div 16) \<or> c = b64_char (b mod 16 * 4 + c' div 64) \<or>
      c = b64_char (c' mod 64) \<or> c \<in> set (b64_encode r)"
    using 4 by auto
  moreover have "c \<in> set (b64_encode r) \<Longrightarrow> ?case" using 4 by simp
  ultimately show ?case by blast
qed simp

lemma b64_char_safe:
  assumes "c = CHR ''='' \<or> (\<exists>v < 64. c = b64_char v)"
  shows "\<not> ignorable c" "c \<noteq> NL" "c \<noteq> CR" "c \<noteq> NUL" "c \<noteq> CHR ''-''" "c \<noteq> CHR ''.''" "c \<noteq> CHR 0x7B"
proof -
  have n: "(of_char c :: nat) \<in> {61} \<union> {65..90} \<union> {97..122} \<union> {48..57} \<union> {43, 47}"
  proof (cases "c = CHR ''=''")
    case False
    with assms obtain v where "v < 64" "c = b64_char v" by auto
    then show ?thesis by (auto simp: of_char_b64_char)
  qed simp
  then show "c \<noteq> NL" "c \<noteq> CR" "c \<noteq> NUL" "c \<noteq> CHR ''-''" "c \<noteq> CHR ''.''" "c \<noteq> CHR 0x7B" by auto
  show "\<not> ignorable c"
  proof (cases "c = CHR ''=''")
    case False
    with assms obtain v where v: "v < 64" "c = b64_char v" by auto
    then show ?thesis using b64_char_plain [OF v(1)] b64_b64_char [OF v(1)] by (cases "v = 0") (auto simp: ignorable_def)
  qed (simp add: ignorable_def)
qed

section \<open>The parts of a mail received\<close>

lemma b64_lines_chars: "l \<in> set (b64_lines 0 [] s) \<Longrightarrow> c \<in> set l \<Longrightarrow> c = CHR ''='' \<or> (\<exists>v < 64. c = b64_char v)"
proof -
  assume "l \<in> set (b64_lines 0 [] s)" "c \<in> set l"
  then have "c \<in> set (concat (b64_lines 0 [] s))" by auto
  then show ?thesis using b64_encode_chars [of "map of_char s" c] by (auto simp: b64_lines_encode)
qed

lemma b64_lines_ok:
  assumes "l \<in> set (b64_lines 0 [] s)"
  shows "line_ok l" "take 1 l \<noteq> ''-''"
proof -
  have s: "c \<in> set l \<Longrightarrow> c \<noteq> NL \<and> c \<noteq> CR \<and> c \<noteq> NUL \<and> c \<noteq> CHR ''-'' \<and> c \<noteq> CHR ''.''" for c
    using b64_char_safe [OF b64_lines_chars [OF assms]] by blast
  have "length l \<le> 76" using b64_lines_short [of 0 "[]" l s] assms by simp
  then show "line_ok l" "take 1 l \<noteq> ''-''" using s by (cases l; auto simp: line_ok_def MAX_SMTP_LINE_def)+
qed

lemma filter_join:
  assumes "\<And>l c. l \<in> set ls \<Longrightarrow> c \<in> set l \<Longrightarrow> \<not> ignorable c"
  shows "filter (\<lambda>c. \<not> ignorable c) (nl_join ls) = concat ls"
proof -
  have n: "ignorable NL" by (simp add: ignorable_def b64_def)
  have c: "filter (\<lambda>c. \<not> ignorable c) (nl_join ls) = concat (map (filter (\<lambda>c. \<not> ignorable c)) ls)" for ls
    by (induction ls rule: nl_join.induct) (simp_all add: n)
  have "map (filter (\<lambda>c. \<not> ignorable c)) ls = ls" using assms by (intro map_idI) (simp add: filter_id_conv)
  with c show ?thesis by simp
qed

lemma decode_lines: "decode_base64 (nl_join (b64_lines 0 [] s)) = Done s"
proof -
  let ?ls = "b64_lines 0 [] s"
  have c: "l \<in> set ?ls \<Longrightarrow> c \<in> set l \<Longrightarrow> \<not> ignorable c \<and> c \<noteq> CHR 0x7B" for l c
    using b64_char_safe(1,7) [OF b64_lines_chars, of l s c] by simp
  have "set (nl_join ls) \<subseteq> insert NL (\<Union>l \<in> set ls. set l)" for ls by (induction ls rule: nl_join.induct) auto
  with c have "CHR 0x7B \<notin> set (nl_join ?ls)" by fastforce
  from decode_base64_filter [OF _ _ this, of "[]" 0 "[]"]
  have "decode_base64 (nl_join ?ls) = decode_base64_loop [] 0 [] (concat ?ls)"
    using filter_join [of ?ls] c by (simp add: decode_base64_def)
  also have "\<dots> = Done s" using decode_base64_encode [of "map of_char s" "[]"] by (simp add: b64_lines_encode comp_def)
  finally show ?thesis .
qed

text \<open>The fields of a part as they are sent, and what is read.\<close>

definition part_raw :: "part \<Rightarrow> (string \<times> string) list" where
  "part_raw p = (''Content-Transfer-Encoding'', ''base64'') # (case pt_type p of
     None \<Rightarrow> []
   | Some t \<Rightarrow> [(''Content-Type'', t @ '';'' @ (case pt_name p of
        None \<Rightarrow> [] | Some n \<Rightarrow> [NL, TAB] @ ''name='' @ [DQ] @ n @ [DQ]))])"

definition part_header :: "part \<Rightarrow> header" where
  "part_header p = Mail.header_of (map raw_parsed (part_raw p))"

definition part_body :: "(part \<Rightarrow> string) \<Rightarrow> part \<Rightarrow> string" where
  "part_body data p = nl_join (part_header_lines p @ [] # b64_lines 0 [] (data p))"

definition part_tree :: "(part \<Rightarrow> string) \<Rightarrow> part \<Rightarrow> msg_tree" where
  "part_tree data p = CT_FILE (part_header p) (data p) (build_params 128 (part_header p))"

lemma nl_part_raw: "nl (part_header_lines p) = concat (map raw_field (part_raw p))"
  by (auto simp: part_header_lines_def part_raw_def raw_field_def split: option.splits)

lemma part_body_eq: "part_body data p = concat (map raw_field (part_raw p)) @ NL # nl_join (b64_lines 0 [] (data p))"
  by (simp add: part_body_def nl_join_append nl_join_Cons nl_part_raw)

lemma compact_nonspace: "c \<in> set s \<Longrightarrow> \<not> isspace c \<Longrightarrow> compact s \<noteq> []"
proof -
  assume c: "c \<in> set s" "\<not> isspace c"
  then have "c \<in> set (squeeze r s)" for r by (induction s arbitrary: r) auto
  with c(2) show ?thesis by (auto simp: compact_def trim_def)
qed

lemma folded_append:
  assumes "\<forall>c \<in> set s. \<not> iseol c" "folded t"
  shows "folded (s @ t)"
  unfolding folded_def
proof (intro allI impI)
  fix i assume i: "i < length (s @ t)" "iseol ((s @ t) ! i)"
  then have "\<not> i < length s" using assms(1) by (auto simp: nth_append)
  then obtain j where "i = length s + j" using le_Suc_ex not_less by blast
  with i assms(2) show "Suc i < length (s @ t) \<and> isblank ((s @ t) ! Suc i)" by (auto simp: folded_def nth_append)
qed

lemma folded_plain: "\<forall>c \<in> set s. \<not> iseol c \<Longrightarrow> folded s"
  by (auto simp: folded_def)

lemma folded_NL: "isblank b \<Longrightarrow> folded s \<Longrightarrow> folded (NL # b # s)"
  by (auto simp: folded_def less_Suc_eq_0_disj iseol_def isblank_def nth_Cons')

lemma canon_names [simp]:
  "canon ''Content-Transfer-Encoding''" "canon ''Content-Type''" "canon ''From''" "canon ''To''" "canon ''Subject''" "canon ''Message-Id''"
  "canon ''In-Reply-To''" "canon ''Mime-Version''"
  by code_simp+

lemma line_ok_noeol: "line_ok l \<Longrightarrow> c \<in> set l \<Longrightarrow> \<not> iseol c"
  by (auto simp: line_ok_def iseol_def)

lemma part_raw_ok:
  assumes "list_all line_ok (part_header_lines p)"
  shows "list_all raw_ok (part_raw p)"
proof -
  have "compact ''base64'' = ''base64''" by code_simp
  then have 1: "raw_ok (''Content-Transfer-Encoding'', ''base64'')" by (auto simp: raw_ok_def folded_def iseol_def less_Suc_eq)
  show ?thesis
  proof (cases "pt_type p")
    case None
    with 1 show ?thesis by (simp add: part_raw_def)
  next
    case (Some t)
    let ?n = "case pt_name p of None \<Rightarrow> [] | Some n \<Rightarrow> [NL, TAB] @ ''name='' @ [DQ] @ n @ [DQ]"
    have t: "\<forall>c \<in> set t. \<not> iseol c" using assms Some line_ok_noeol [of "''Content-Type: '' @ t @ '';''"]
      by (simp add: part_header_lines_def)
    have "folded ?n"
    proof (cases "pt_name p")
      case None
      then show ?thesis by (simp add: folded_def)
    next
      case n: (Some n)
      have "\<forall>c \<in> set n. \<not> iseol c" using assms Some n line_ok_noeol [of "TAB # ''name='' @ [DQ] @ n @ [DQ]"]
        by (simp add: part_header_lines_def)
      then have "folded (''name='' @ [DQ] @ n @ [DQ])" by (intro folded_plain) (auto simp: iseol_def)
      with n show ?thesis using folded_NL [of TAB] by simp
    qed
    then have "folded (t @ '';'' @ ?n)" using t folded_append [of "t @ '';''" ?n] by (simp add: iseol_def)
    moreover have "compact (t @ '';'' @ ?n) \<noteq> []" by (rule compact_nonspace [of "CHR '';''"]) (simp_all add: isspace_def)
    ultimately show ?thesis using 1 Some by (simp add: part_raw_def raw_ok_def)
  qed
qed

lemma part_encoding: "field_value (part_header p) ''content-transfer-encoding'' = Some ''base64''"
proof -
  have "raw_parsed (''Content-Transfer-Encoding'', ''base64'') = \<lparr>hf_name = ''content-transfer-encoding'', hf_value = ''base64''\<rparr>" by code_simp
  then show ?thesis by (simp add: part_header_def Mail.header_of_def part_raw_def field_value_def header_find_def)
qed

lemma part_parsed:
  assumes "list_all line_ok (part_header_lines p)" "boundary_of (part_header p) = None"
  shows "parse_mail_rec (part_body data p @ r) (length (part_body data p)) = Done (part_tree data p)"
proof -
  let ?f = "concat (map raw_field (part_raw p))" and ?b = "nl_join (b64_lines 0 [] (data p))"
  have "NUL \<notin> set (nl (part_header_lines p))" using assms(1) by (auto simp: nl_def list_all_iff line_ok_def)
  then have n: "NUL \<notin> set ?f" unfolding nl_part_raw .
  have m: "part_body data p @ r = ?f @ NL # ?b @ r" by (simp add: part_body_eq)
  have h: "header_parse header_new (cstr (?f @ NL # ?b @ r)) = Done (length ?f, part_header p, None)"
    unfolding part_header_def by (rule header_parse_raw [OF part_raw_ok [OF assms(1)] n])
  have "decode_in_varbuf ?b (part_header p) = Done (data p)" by (simp add: decode_in_varbuf_def part_encoding decode_lines strcasecmp_eq_def)
  then have "parse_file (part_header p) (?f @ NL # ?b @ r) (length (part_body data p)) (length ?f) = Done (part_tree data p)"
    by (simp add: parse_file_def part_body_eq part_tree_def)
  then show ?thesis unfolding m using h assms(2) by (simp add: parse_mail_rec.simps [of "?f @ NL # ?b @ r"]) (simp add: part_body_eq)
qed

section \<open>The header of a mail received\<close>

fun tos_raw :: "string list \<Rightarrow> string" where
  "tos_raw [] = []"
| "tos_raw [t] = t"
| "tos_raw (t # ts) = t @ NL # '' , '' @ tos_raw ts"

fun tos_value :: "string list \<Rightarrow> string" where
  "tos_value [] = []"
| "tos_value [t] = t"
| "tos_value (t # ts) = t @ '' , '' @ tos_value ts"

definition message_id :: "string \<Rightarrow> forward \<Rightarrow> string" where
  "message_id host fw = ''<'' @ mdir_version2str (fw_version fw) @ ''@'' @ host @ ''>''"

definition mail_fields :: "(string list \<Rightarrow> string) \<Rightarrow> string \<Rightarrow> forward \<Rightarrow> string \<Rightarrow> string \<Rightarrow> (string \<times> string) list" where
  "mail_fields tos host fw from descr =
     [(''From'', from), (''To'', tos (fields_named (fw_header fw) SC_TO_FIELD)), (''Subject'', descr), (''Message-Id'', message_id host fw)] @
     (case field_value (fw_header fw) SC_EXTID_FIELD of None \<Rightarrow> [] | Some i \<Rightarrow> [(''In-Reply-To'', i)]) @
     [(''Mime-Version'', ''1.0''), (''Content-Type'', ''multipart/mixed; boundary='' @ mail_boundary)]"

definition mail_header :: "string \<Rightarrow> forward \<Rightarrow> string \<Rightarrow> string \<Rightarrow> header" where
  "mail_header host fw from descr = Mail.header_of (map (\<lambda>(n, v). header_field_ctor n v) (mail_fields tos_value host fw from descr))"

lemma nl_tos: "ts \<noteq> [] \<Longrightarrow> nl (to_lines False ts) = '' , '' @ tos_raw ts @ [NL]"
  by (induction ts rule: tos_raw.induct) auto

lemma nl_to_lines: "ts \<noteq> [] \<Longrightarrow> nl (to_lines True ts) = raw_field (''To'', tos_raw ts)"
  using nl_tos [of "tl ts"] by (cases ts rule: tos_raw.cases) (auto simp: raw_field_def)

lemma nl_mail_head:
  assumes "fields_named (fw_header fw) SC_TO_FIELD \<noteq> []"
  shows "nl (mail_head host fw from descr) = concat (map raw_field (mail_fields tos_raw host fw from descr))"
  using nl_to_lines [OF assms]
  by (auto simp: mail_head_def mail_fields_def raw_field_def message_id_def split: option.split)

lemma squeeze_append: "squeeze r (s @ t) = squeeze r s @ squeeze (if s = [] then r else isspace (last s)) t"
  by (induction s arbitrary: r) auto

lemma squeeze_length: "length (squeeze r s) \<le> length s"
  by (induction s arbitrary: r) (auto intro: le_SucI)

lemma canon_squeeze:
  assumes "canon s"
  shows "squeeze True s = s" "\<not> isspace (last s)"
proof -
  obtain w where w: "squeeze True s = trim (squeeze True s) @ w" "list_all isspace w" using trim_decomp by blast
  have c: "trim (squeeze True s) = s" "s \<noteq> []" using assms by (simp_all add: canon_def compact_def)
  with w(1) squeeze_length [of True s] have "w = []" by (metis append_Nil2 append_eq_append_conv add_le_same_cancel1 le_zero_eq length_0_conv length_append)
  with w c show q: "squeeze True s = s" by simp
  have "trim s = s" using c(1) q by simp
  then show "\<not> isspace (last s)" using c(2) trim_snoc [of "butlast s" "last s"] trim_decomp [of "butlast s"]
    by (metis append_butlast_last_id append_self_conv length_append_singleton length_append not_add_less1 lessI)
qed

lemma trim_last: "s \<noteq> [] \<Longrightarrow> \<not> isspace (last s) \<Longrightarrow> trim s = s"
  using trim_snoc [of "butlast s" "last s"] by simp

lemma tos_squeeze:
  "list_all canon ts \<Longrightarrow> ts \<noteq> [] \<Longrightarrow> squeeze True (tos_raw ts) = tos_value ts \<and> tos_value ts \<noteq> [] \<and> \<not> isspace (last (tos_value ts))"
proof (induction ts rule: tos_raw.induct)
  case (2 t)
  then show ?case using canon_squeeze [of t] canon_nonempty [of t] by simp
next
  case (3 t u us)
  then show ?case using canon_squeeze [of t] canon_nonempty [of t] by (simp add: squeeze_append isspace_def)
qed simp

lemma compact_tos: "list_all canon ts \<Longrightarrow> ts \<noteq> [] \<Longrightarrow> compact (tos_raw ts) = tos_value ts"
  using tos_squeeze [of ts] by (simp add: compact_def trim_last)

lemma folded_tos: "list_all canon ts \<Longrightarrow> folded (tos_raw ts)"
proof (induction ts rule: tos_raw.induct)
  case 1
  then show ?case by (simp add: folded_def)
next
  case (2 t)
  then show ?case using canon_no_eol [of t] by (auto intro: folded_plain)
next
  case (3 t u us)
  have "folded ('', '' @ tos_raw (u # us))" using 3 by (intro folded_append) (auto simp: iseol_def)
  then have "folded (NL # SP # '', '' @ tos_raw (u # us))" by (intro folded_NL) simp_all
  then have "folded (t @ NL # SP # '', '' @ tos_raw (u # us))" using 3 canon_no_eol [of t] by (intro folded_append) auto
  then show ?case by simp
qed

lemma no_space_canon: "s \<noteq> [] \<Longrightarrow> \<forall>c \<in> set s. \<not> isspace c \<Longrightarrow> canon s"
proof -
  assume s: "s \<noteq> []" "\<forall>c \<in> set s. \<not> isspace c"
  from s(2) have "squeeze r s = s" for r by (induction s arbitrary: r) auto
  with s show ?thesis by (simp add: canon_def compact_def trim_last)
qed

lemma dec_int_no_space: "c \<in> set (dec_int v) \<Longrightarrow> \<not> isspace c"
  using dec_nat_digits digit_char_not_space by (fastforce simp: dec_int_def split: if_splits)

lemma canon_id: "\<forall>c \<in> set host. \<not> isspace c \<Longrightarrow> canon (message_id host fw)"
  by (rule no_space_canon) (auto simp: message_id_def mdir_version2str_def isspace_def dest: dec_int_no_space)

lemma canon_value: "wf_header h \<Longrightarrow> list_all canon (fields_named h nm)"
  by (auto simp: wf_header_def list_all_iff fields_named_def wf_field_def)

lemma canon_field_value: "wf_header h \<Longrightarrow> field_value h nm = Some v \<Longrightarrow> canon v"
  using canon_value [of h nm] by (auto simp: field_value_hd split: list.splits)

lemma raw_ok_canon: "canon n \<Longrightarrow> CHR '':'' \<notin> set n \<Longrightarrow> canon v \<Longrightarrow> raw_ok (n, v) \<and> raw_parsed (n, v) = header_field_ctor n v"
  using canon_no_eol [of v] by (auto simp: raw_ok_def raw_parsed_def canon_def intro: folded_plain)

lemma mail_fields_ok:
  assumes "wf_header (fw_header fw)" "fields_named (fw_header fw) SC_TO_FIELD \<noteq> []" "canon from" "canon descr" "\<forall>c \<in> set host. \<not> isspace c"
  shows "list_all raw_ok (mail_fields tos_raw host fw from descr)"
    "Mail.header_of (map raw_parsed (mail_fields tos_raw host fw from descr)) = mail_header host fw from descr"
proof -
  let ?ts = "fields_named (fw_header fw) SC_TO_FIELD"
  have t: "raw_ok (''To'', tos_raw ?ts) \<and> raw_parsed (''To'', tos_raw ?ts) = header_field_ctor ''To'' (tos_value ?ts)"
    using compact_tos [OF canon_value [OF assms(1)] assms(2)] folded_tos [OF canon_value [OF assms(1)]]
      tos_squeeze [OF canon_value [OF assms(1)] assms(2)] by (simp add: raw_ok_def raw_parsed_def)
  have v: "canon ''1.0''" "canon (''multipart/mixed; boundary='' @ mail_boundary)" by code_simp+
  have e: "canon i" if "field_value (fw_header fw) SC_EXTID_FIELD = Some i" for i using canon_field_value [OF assms(1) that] .
  note r = raw_ok_canon [of "''From''" "from"] raw_ok_canon [of "''Subject''" descr] raw_ok_canon [of "''Message-Id''" "message_id host fw"]
    raw_ok_canon [of "''Mime-Version''" "''1.0''"] raw_ok_canon [of "''Content-Type''" "''multipart/mixed; boundary='' @ mail_boundary"]
    raw_ok_canon [of "''In-Reply-To''"]
  show "list_all raw_ok (mail_fields tos_raw host fw from descr)"
    "Mail.header_of (map raw_parsed (mail_fields tos_raw host fw from descr)) = mail_header host fw from descr"
    using t r v e assms(3,4) canon_id [OF assms(5), of fw]
    by (auto simp: mail_fields_def mail_header_def split: option.split)
qed

lemma mail_header_boundary: "boundary_of (mail_header host fw from descr) = Some (PREFIX @ mail_boundary)"
proof -
  have n: "hf_name (header_field_ctor nm v) = map tolower nm" for nm v by (simp add: header_field_ctor_def str_tolower_def)
  have l: "map tolower ''From'' = ''from''" "map tolower ''To'' = ''to''" "map tolower ''Subject'' = ''subject''"
    "map tolower ''Message-Id'' = ''message-id''" "map tolower ''In-Reply-To'' = ''in-reply-to''" "map tolower ''Mime-Version'' = ''mime-version''"
    "map tolower ''Content-Type'' = ''content-type''" by code_simp+
  have "\<not> strcasecmp_eq ''from'' ''content-type''" "\<not> strcasecmp_eq ''to'' ''content-type''" "\<not> strcasecmp_eq ''subject'' ''content-type''"
    "\<not> strcasecmp_eq ''message-id'' ''content-type''" "\<not> strcasecmp_eq ''in-reply-to'' ''content-type''" "\<not> strcasecmp_eq ''mime-version'' ''content-type''"
    by code_simp+
  then have "fields_named (mail_header host fw from descr) ''content-type'' = [''multipart/mixed; boundary='' @ mail_boundary]"
    by (auto simp: fields_named_def mail_header_def mail_fields_def Mail.header_of_def name_matches_def n l [simplified] header_field_ctor_def str_tolower_def split: option.split)
  then have "field_value (mail_header host fw from descr) ''content-type'' = Some (''multipart/mixed; boundary='' @ mail_boundary)"
    by (simp add: field_value_hd)
  moreover have "strncasecmp_pre ''multipart/'' (''multipart/mixed; boundary='' @ mail_boundary) \<and>
      map_option (\<lambda>b. PREFIX @ take (MAX_BOUNDARY_LENGTH - 1) b) (parameter_extract (''multipart/mixed; boundary='' @ mail_boundary) ''boundary'') = Some (PREFIX @ mail_boundary)"
    by code_simp
  ultimately show ?thesis by (simp only: boundary_of_def option.simps if_True)
qed

section \<open>A mail received\<close>

definition part_sound :: "part \<Rightarrow> bool" where
  "part_sound p \<longleftrightarrow> list_all line_ok (part_header_lines p) \<and> boundary_of (part_header p) = None"

definition mail_prefix :: string where "mail_prefix = PREFIX @ mail_boundary"

lemma prefix_eq: "mail_prefix = NL # ''--'' @ mail_boundary"
  by (simp add: mail_prefix_def PREFIX_def)

lemma part_lines_text: "NL # nl (part_lines data p) = mail_prefix @ NL # part_body data p @ [NL]"
  using nl_join_end [of "part_header_lines p @ [] # b64_lines 0 [] (data p)"]
  by (simp add: part_lines_def prefix_eq part_body_def)

lemma parts_lines_text:
  assumes "ps \<noteq> []"
  shows "NL # nl (concat (map (part_lines data) ps) @ [''--'' @ mail_boundary @ ''--'']) =
    mail_prefix @ NL # parts_text mail_prefix (map (part_body data) ps) []"
  using assms
proof (induction ps)
  case (Cons p ps)
  let ?e = "[''--'' @ mail_boundary @ ''--'']"
  let ?r = "concat (map (part_lines data) ps) @ ?e"
  have "NL # nl (concat (map (part_lines data) (p # ps)) @ ?e) = (NL # nl (part_lines data p)) @ nl ?r" by simp
  also have "\<dots> = mail_prefix @ NL # part_body data p @ NL # nl ?r" unfolding part_lines_text by simp
  also have "NL # nl ?r = mail_prefix @ (if ps = [] then ''--'' @ [NL] @ [] else NL # parts_text mail_prefix (map (part_body data) ps) [])"
    using Cons.IH by (cases "ps = []") (simp_all add: prefix_eq)
  finally show ?case by simp
qed simp

lemma part_body_clean:
  assumes "part_sound p"
  shows "clean mail_prefix (part_body data p)"
  unfolding prefix_eq part_body_def
proof (rule clean_join)
  have h: "list_all line_ok (part_header_lines p)" using assms by (simp add: part_sound_def)
  then show "list_all (\<lambda>l. NL \<notin> set l) (part_header_lines p @ [] # b64_lines 0 [] (data p))"
    using b64_lines_ok(1) by (auto simp: list_all_iff line_ok_def)
  show "list_all (\<lambda>l. take 1 l \<noteq> ''-'') (tl (part_header_lines p @ [] # b64_lines 0 [] (data p)))"
    using b64_lines_ok(2) by (auto simp: list_all_iff part_header_lines_def split: option.splits)
qed simp

lemma part_trees_bodies:
  assumes "list_all part_sound ps"
  shows "part_trees mail_prefix (map (part_body data) ps) [] = map (part_tree data) ps \<and> no_crash mail_prefix (map (part_body data) ps) []"
  using assms
proof (induction ps)
  case (Cons p ps)
  have "parse_mail_rec (part_body data p @ r) (length (part_body data p)) = Done (part_tree data p)" for r
    using part_parsed [of p data r] Cons.prems by (simp add: part_sound_def)
  with Cons show ?case by simp
qed simp

lemma mail_lines_ok:
  assumes "list_all line_ok (mail_head host fw from descr)" "list_all part_sound (fw_parts fw)"
  shows "list_all line_ok (mail_lines host fw from descr data)"
proof -
  have "list_all line_ok (part_lines data p)" if "part_sound p" for p
  proof -
    have "list_all line_ok (part_header_lines p)" "list_all line_ok (b64_lines 0 [] (data p))"
      using that b64_lines_ok(1) by (auto simp: part_sound_def list_all_iff)
    moreover have "line_ok (''--'' @ mail_boundary)" "line_ok []" by code_simp+
    ultimately show ?thesis by (simp add: part_lines_def)
  qed
  with assms(2) have "list_all line_ok (concat (map (part_lines data) (fw_parts fw)))" by (auto simp: list_all_iff)
  moreover have "line_ok (''--'' @ mail_boundary @ ''--'')" "line_ok []" by code_simp+
  ultimately show ?thesis using assms(1) by (simp add: mail_lines_def)
qed

lemma mail_head_dashes:
  assumes "l \<in> set (mail_head host fw from descr)"
  shows "take 1 l \<noteq> ''-''"
proof -
  have "l \<in> set (to_lines b ts) \<Longrightarrow> take 1 l \<noteq> ''-''" for b ts by (induction ts arbitrary: b) (auto split: if_splits)
  with assms show ?thesis by (auto simp: mail_head_def split: option.splits)
qed

lemma mail_parsed:
  assumes "wf_header (fw_header fw)" "fields_named (fw_header fw) SC_TO_FIELD \<noteq> []" "canon from" "canon descr" "\<forall>c \<in> set host. \<not> isspace c"
    and "list_all line_ok (mail_head host fw from descr)" "list_all part_sound (fw_parts fw)" "fw_parts fw \<noteq> []"
    and t: "t = nl (mail_lines host fw from descr data)"
  shows "parse_mail_rec t (length t) = Done (CT_MULTIPART (mail_header host fw from descr) (rev (map (part_tree data) (fw_parts fw))))"
proof -
  let ?b = mail_prefix and ?ps = "map (part_body data) (fw_parts fw)" and ?f = "concat (map raw_field (mail_fields tos_raw host fw from descr))"
  let ?h = "mail_head host fw from descr"
  have b: "?b \<noteq> []" "?ps \<noteq> []" "?b = NL # tl ?b" using assms(8) by (simp_all add: prefix_eq)
  have "t = nl ?h @ NL # nl (concat (map (part_lines data) (fw_parts fw)) @ [''--'' @ mail_boundary @ ''--''])" by (simp add: t mail_lines_def)
  also have "\<dots> = nl ?h @ ?b @ NL # parts_text ?b ?ps []" unfolding parts_lines_text [OF assms(8)] by simp
  finally have t2: "t = nl ?h @ ?b @ NL # parts_text ?b ?ps []" .
  have "list_all line_ok (mail_lines host fw from descr data)" by (rule mail_lines_ok [OF assms(6,7)])
  then have nul: "NUL \<notin> set t" by (auto simp: t nl_def list_all_iff line_ok_def)
  have c: "clean ?b (nl ?h)"
  proof -
    have "l \<in> set (tl (?h @ [[]])) \<Longrightarrow> l \<in> set ?h \<or> l = []" for l
      using list.set_sel(2) [of "?h @ [[]]" l] by auto
    then have "list_all (\<lambda>l. take 1 l \<noteq> ''-'') (tl (?h @ [[]]))"
      using mail_head_dashes [of _ host fw "from" descr] by (fastforce simp: list_all_iff)
    then have "clean (NL # ''--'' @ mail_boundary) (nl_join (?h @ [[]]))"
      using assms(6) by (intro clean_join) (auto simp: list_all_iff line_ok_def)
    then show ?thesis by (simp add: prefix_eq nl_join_append)
  qed
  have "parts_text ?b ?ps [] \<noteq> []" using b(1,2) by (cases ?ps) auto
  then have "parse_multipart ?b True [] t (length t) = parse_multipart ?b False [] (parts_text ?b ?ps []) (length (parts_text ?b ?ps []))"
    using after_first_boundary [OF b(1) c, of "parts_text ?b ?ps []" "[]"] nul by (simp add: t2)
  also have "\<dots> = Done (rev (part_trees ?b ?ps []) @ [])"
  proof (rule parse_parts [OF b(1,2)])
    show "list_all (clean ?b) ?ps" using assms(7) part_body_clean by (auto simp: list_all_iff)
    show "NUL \<notin> set (parts_text ?b ?ps [])" using nul by (simp add: t2)
    show "no_crash ?b ?ps []" using part_trees_bodies [OF assms(7)] by simp
  qed
  finally have m: "parse_multipart ?b True [] t (length t) = Done (rev (map (part_tree data) (fw_parts fw)))"
    using part_trees_bodies [OF assms(7)] by simp
  have f: "nl ?h = ?f" by (rule nl_mail_head [OF assms(2)])
  have "t = ?f @ NL # tl ?b @ NL # parts_text ?b ?ps []" unfolding t2 f using b(3) by (metis append_Cons)
  moreover have "NUL \<notin> set ?f" using nul by (simp add: t2 f)
  ultimately have "header_parse header_new (cstr t) = Done (length ?f, mail_header host fw from descr, None)"
    using header_parse_raw [of "mail_fields tos_raw host fw from descr" "tl ?b @ NL # parts_text ?b ?ps []"] mail_fields_ok [OF assms(1-5)] by simp
  moreover have "length ?f \<le> length t" by (simp add: t2 f)
  ultimately show ?thesis using m mail_header_boundary [of host fw "from" descr]
    by (simp add: parse_mail_rec.simps [of t] mail_prefix_def)
qed

lemma mail_read:
  assumes "list_all line_ok (mail_lines host fw from descr data)"
  shows "msg_tree_read (map Got (crlf (mail_lines host fw from descr data @ [''.''])) @ inp) =
    Some (obind (parse_mail_rec (nl (mail_lines host fw from descr data)) (length (nl (mail_lines host fw from descr data)))) (\<lambda>t. Done (t, inp)))"
proof -
  let ?ls = "mail_lines host fw from descr data"
  let ?in = "map Got (crlf (?ls @ [''.''])) @ inp"
  have "length ls \<le> length (crlf ls)" for ls by (induction ls) (auto simp: CRLF_def)
  from this [of "?ls @ [''.'']"] have "length ?ls < Suc (length ?in)" by (simp del: crlf_simps)
  from read_mail_lines [OF assms this, of "[]" inp] show ?thesis by (simp add: msg_tree_read_def)
qed

section \<open>The lists of forwards\<close>

text \<open>Every forward is in exactly one list, the one it refers to, and counts its parts.\<close>

definition fwd_ok :: "fwd_st \<Rightarrow> bool" where
  "fwd_ok s \<longleftrightarrow> distinct (waiting_forwards s) \<and> distinct (delivered_forwards s) \<and>
     (\<forall>a l. a \<in> set (forward_list l s) \<longleftrightarrow> (\<exists>fw. f_heap s a = Some fw \<and> fw_list fw = Some l)) \<and>
     (\<forall>a fw. f_heap s a = Some fw \<longrightarrow> a < f_next s \<and> fw_list fw \<noteq> None \<and> nb_parts fw = of_nat (length (fw_parts fw)))"

definition keeps_queues :: "fwd_st \<Rightarrow> fwd_st \<Rightarrow> bool" where
  "keeps_queues s s' \<longleftrightarrow> (fwd_ok s \<longrightarrow> fwd_ok s')"

text \<open>The forwards are the same, with the same mails, and none goes back.\<close>

definition conserves :: "fwd_st \<Rightarrow> fwd_st \<Rightarrow> bool" where
  "conserves s s' \<longleftrightarrow> f_next s' = f_next s \<and>
     (\<forall>a. map_option (\<lambda>fw. (fw_header fw, fw_version fw, fw_parts fw)) (f_heap s' a) =
          map_option (\<lambda>fw. (fw_header fw, fw_version fw, fw_parts fw)) (f_heap s a)) \<and>
     (fwd_ok s \<longrightarrow> fwd_ok s' \<and> set (delivered_forwards s) \<subseteq> set (delivered_forwards s'))"

definition same_forwards :: "fwd_st \<Rightarrow> fwd_st \<Rightarrow> bool" where
  "same_forwards s s' \<longleftrightarrow> f_heap s' = f_heap s \<and> f_next s' = f_next s \<and> waiting_forwards s' = waiting_forwards s \<and>
     delivered_forwards s' = delivered_forwards s"

interpretation kq: state_order keeps_queues
  by unfold_locales (auto simp: keeps_queues_def)

interpretation cv: state_order conserves
  by unfold_locales (auto simp: conserves_def)

interpretation sf: state_order same_forwards
  by unfold_locales (auto simp: same_forwards_def)

lemma forward_list_simps [simp]:
  "forward_list Waiting s = waiting_forwards s" "forward_list Delivered s = delivered_forwards s"
  by (simp_all add: forward_list_def)

lemma all_forwards: "(\<forall>l. P l) \<longleftrightarrow> P Waiting \<and> P Delivered"
  by (metis forwards.exhaust)

lemma same_conserves: "same_forwards s s' \<Longrightarrow> conserves s s'"
  by (auto simp: same_forwards_def conserves_def fwd_ok_def all_forwards)

lemma conserves_keeps: "conserves s s' \<Longrightarrow> keeps_queues s s'"
  by (simp add: conserves_def keeps_queues_def)

lemma within_weaken: "within R m \<Longrightarrow> (\<And>s s'. R s s' \<Longrightarrow> R' s s') \<Longrightarrow> within R' m"
  by (auto simp: within_def)

lemma same_parts: "within same_forwards (on_sock f)" "within same_forwards (on_f_mst g)" "within same_forwards close_sock"
  by (auto simp: within_def same_forwards_def on_sock_def on_f_mst_def close_sock_def split: option.splits outcome.splits)

lemma same_open: "within same_forwards (may_open_connection c host now)"
proof (rule withinI)
  fix s s' r assume m: "may_open_connection c host now s = Done (s', r)"
  let ?last = "\<lambda>s. Done (s\<lparr>sock_last_used := now\<rparr>, Inr ())"
  define body where "body = bnd (attempt (on_sock read_smtp_status)) (\<lambda>r.
            if r \<noteq> Inr 220 then bnd close_sock (\<lambda>_. failure 0 ''Welcome message is not welcoming (status %d)'')
            else bnd (attempt (on_sock (smtp_cmd [''HELO '', host]))) (\<lambda>r.
              if r \<noteq> Inr 250 then bnd close_sock (\<lambda>_. failure 0 ''Cannot HELO to SMTP relay : status %d'') else ?last))"
  have "within same_forwards ?last" by (simp add: within_def same_forwards_def)
  then have "within same_forwards body" unfolding body_def by (auto intro!: sf.within_intros same_parts)
  from withinD [OF this] have b: "body (s\<lparr>sock_fd := Some k\<rparr>) = Done (s', r) \<Longrightarrow> same_forwards s s'" for k
    by (fastforce simp: same_forwards_def)
  show "same_forwards s s'"
  proof (cases "sock_fd s")
    case None
    then show ?thesis using m b unfolding may_open_connection_def body_def [symmetric] by (auto simp: sf.refl split: sum.splits)
  qed (use m in \<open>simp add: may_open_connection_def sf.refl\<close>)
qed

lemma same_close: "within same_forwards (may_close_connection now)"
proof (rule withinI)
  fix s s' r assume m: "may_close_connection now s = Done (s', r)"
  have "within same_forwards (bnd (attempt (on_sock (smtp_cmd [''QUIT'']))) (\<lambda>_. close_sock))" by (intro sf.within_intros same_parts)
  with m show "same_forwards s s'" by (auto simp: may_close_connection_def sf.refl dest: withinD split: option.splits if_splits)
qed

lemma upd_forward_conserves:
  assumes "\<And>fw. fw_header (f fw) = fw_header fw \<and> fw_version (f fw) = fw_version fw \<and> fw_parts (f fw) = fw_parts fw \<and>
     fw_list (f fw) = fw_list fw \<and> nb_parts (f fw) = nb_parts fw"
  shows "conserves s (upd_forward a f s)"
proof -
  have h: "f_heap (upd_forward a f s) b = (if b = a then map_option f (f_heap s a) else f_heap s b)" for b
    by (simp add: upd_forward_def)
  have l: "f_next (upd_forward a f s) = f_next s" "waiting_forwards (upd_forward a f s) = waiting_forwards s"
    "delivered_forwards (upd_forward a f s) = delivered_forwards s" by (simp_all add: upd_forward_def)
  have e: "(\<exists>fw. f_heap (upd_forward a f s) b = Some fw \<and> fw_list fw = Some l) \<longleftrightarrow> (\<exists>fw. f_heap s b = Some fw \<and> fw_list fw = Some l)" for b l
    using assms by (auto simp: h)
  have "fwd_ok s \<Longrightarrow> fwd_ok (upd_forward a f s)"
    unfolding fwd_ok_def all_forwards e forward_list_simps l using assms by (auto simp: h split: if_splits)
  then show ?thesis using assms by (auto simp: conserves_def h l option.map_comp comp_def)
qed

lemma move_conserves:
  assumes "list_move_to Delivered a s = Done (s', r)"
  shows "conserves s s'"
proof -
  obtain fw where a: "f_heap s a = Some fw" and s': "s' = upd_forward a (\<lambda>fw. fw\<lparr>fw_list := Some Delivered\<rparr>) (on_list Delivered (\<lambda>as. as @ [a]) (unlink a fw s))"
    using assms by (auto simp: list_move_to_def split: option.splits)
  have q: "f_heap s' = (f_heap s)(a \<mapsto> fw\<lparr>fw_list := Some Delivered\<rparr>)" "f_next s' = f_next s"
    "waiting_forwards s' = (if fw_list fw = Some Waiting then remove1 a (waiting_forwards s) else waiting_forwards s)"
    "delivered_forwards s' = (if fw_list fw = Some Delivered then remove1 a (delivered_forwards s) else delivered_forwards s) @ [a]"
    using a by (auto simp: s' upd_forward_def on_list_def unlink_def split: option.splits forwards.splits)
  have "fwd_ok s' \<and> set (delivered_forwards s) \<subseteq> set (delivered_forwards s')" if ok: "fwd_ok s"
  proof -
    have l: "fw_list fw = Some Waiting \<or> fw_list fw = Some Delivered" using ok a by (auto simp: fwd_ok_def) (metis forwards.exhaust)
    show ?thesis using ok a l by (auto simp: fwd_ok_def all_forwards q split: if_splits)
  qed
  then show ?thesis using a by (auto simp: conserves_def q)
qed

lemma conserves_weaken: "within same_forwards m \<Longrightarrow> within conserves m" "within conserves m \<Longrightarrow> within keeps_queues m"
  using same_conserves conserves_keeps within_weaken by blast+

lemma forward_all_conserves: "within conserves (forward_all w as)"
proof (induction as)
  case Nil
  then show ?case by (simp add: within_def cv.refl)
next
  case (Cons a as)
  define deliver where "deliver = bnd (list_move_to Delivered a) (\<lambda>_ s. forward_all w as (s\<lparr>sock_last_used := w_now w\<rparr>))"
  have "within conserves (\<lambda>s. forward_all w as (s\<lparr>sock_last_used := w_now w\<rparr>))"
  proof (rule withinI)
    fix s s' r assume "forward_all w as (s\<lparr>sock_last_used := w_now w\<rparr>) = Done (s', r)"
    from withinD [OF Cons this] show "conserves s s'"
      by (rule cv.trans [rotated]) (rule same_conserves, simp add: same_forwards_def)
  qed
  then have d: "within conserves deliver" unfolding deliver_def by (intro cv.within_bnd withinI) (auto dest: move_conserves withinD)
  have u: "conserves s (upd_forward a (\<lambda>fw. fw\<lparr>fw_status := st\<rparr>) s)" for st s by (rule upd_forward_conserves) simp
  define trial where "trial fw = bnd (may_open_connection (w_connect w) (w_host w) (w_now w)) (\<lambda>_ s.
       bnd (attempt (on_sock (send_forward (m_fs (f_mst s)) (w_host w) fw))) (\<lambda>r. case r of
         Inl e \<Rightarrow> ret ()
       | Inr st \<Rightarrow> bnd (\<lambda>s. Done (upd_forward a (\<lambda>fw. fw\<lparr>fw_status := st\<rparr>) s, Inr ())) (\<lambda>_. deliver)) s)" for fw
  define cont where "cont r = (case r of Inl e \<Rightarrow> ret ()
     | Inr st \<Rightarrow> bnd (\<lambda>s. Done (upd_forward a (\<lambda>fw. fw\<lparr>fw_status := st\<rparr>) s, Inr ())) (\<lambda>_. deliver))" for r :: "int res"
  have "within conserves (\<lambda>s. Done (upd_forward a (\<lambda>fw. fw\<lparr>fw_status := st\<rparr>) s, Inr ()))" for st
    using u by (simp add: within_def)
  then have c: "within conserves (cont r)" for r
    unfolding cont_def by (intro within_sum cv.within_bnd cv.within_same d)
  have k: "within conserves (bnd (attempt (on_sock (send_forward f (w_host w) fw))) cont)" for f fw
    by (rule cv.within_bnd [OF _ c]) (intro conserves_weaken(1) within_attempt same_parts)
  have "within conserves (\<lambda>s. bnd (attempt (on_sock (send_forward (m_fs (f_mst s)) (w_host w) fw))) cont s)" for fw
    by (rule withinI) (rule withinD [OF k])
  then have t: "within conserves (trial fw)" for fw
    unfolding trial_def cont_def [symmetric] by (rule cv.within_bnd [OF conserves_weaken(1) [OF same_open]])
  show ?case
  proof (rule withinI)
    fix s s' r assume m: "forward_all w (a # as) s = Done (s', r)"
    then obtain fw where fw: "f_heap s a = Some fw" by (auto split: option.splits)
    obtain ready failed where td: "transfers_done (w_tx_status w) (fw_parts fw) = (ready, failed)" by fastforce
    let ?s = "case failed of None \<Rightarrow> s | Some st \<Rightarrow> upd_forward a (\<lambda>fw. fw\<lparr>fw_status := st\<rparr>) s"
    have "conserves s ?s" using u by (auto simp: cv.refl split: option.split)
    moreover have "ready \<Longrightarrow> trial fw ?s = Done (s', r) \<or> deliver ?s = Done (s', r)"
      using m fw td unfolding trial_def deliver_def by (auto simp: Let_def split: if_splits)
    moreover have "\<not> ready \<Longrightarrow> forward_all w as s = Done (s', r)" using m fw td by simp
    ultimately show "conserves s s'" using withinD [OF t] withinD [OF d] withinD [OF Cons] cv.trans by (cases "ready") blast+
  qed
qed

lemma forwarder_conserves: "within conserves (forwarder w)"
proof (rule withinI)
  fix s s' r assume "forwarder w s = Done (s', r)"
  moreover have "within conserves (bnd (forward_all w (waiting_forwards s)) (\<lambda>_. may_close_connection (w_now w)))"
    by (intro cv.within_bnd forward_all_conserves conserves_weaken(1) same_close)
  ultimately show "conserves s s'" by (auto simp: forwarder_def dest: withinD)
qed

lemma add_parts_count:
  "add_parts g rs fw = (fw', e) \<Longrightarrow> nb_parts fw = of_nat (length (fw_parts fw)) \<Longrightarrow>
    nb_parts fw' = of_nat (length (fw_parts fw')) \<and> fw_list fw' = fw_list fw"
  by (induction g rs fw rule: add_parts.induct) (auto split: sum.splits)

lemma crawl_keeps: "within keeps_queues (crawl_patch g now h v)"
proof -
  have "fwd_ok s'" if ok: "fwd_ok s" and m: "bnd (forward_new g v h) (forward_submit now) s = Done (s', r)" for s s' r
  proof -
    obtain fw e where c: "forward_ctor g v h = (fw, e)" by fastforce
    have fw: "nb_parts fw = of_nat (length (fw_parts fw))" "fw_list fw = None"
      using add_parts_count [OF c [unfolded forward_ctor_def]] by simp_all
    show ?thesis
    proof (cases e)
      case (Some x)
      with m c fw ok show ?thesis by (auto simp: bnd_def forward_new_def forward_dtor_def unlink_def)
    next
      case None
      let ?a = "f_next s"
      let ?fw = "fw\<lparr>fw_list := Some Waiting, submited := now\<rparr>"
      have "s' = s\<lparr>f_heap := (f_heap s)(?a \<mapsto> ?fw), f_next := Suc ?a, waiting_forwards := waiting_forwards s @ [?a]\<rparr>"
        using m c fw None by (auto simp: bnd_def forward_new_def forward_submit_def list_move_to_def unlink_def on_list_def upd_forward_def)
      moreover have "?a \<notin> set (waiting_forwards s)" "?a \<notin> set (delivered_forwards s)" using ok by (auto simp: fwd_ok_def all_forwards)
      ultimately show ?thesis using ok fw by (auto simp: fwd_ok_def all_forwards less_Suc_eq)
    qed
  qed
  then show ?thesis by (auto simp: within_def keeps_queues_def crawl_patch_def)
qed

lemma crawl_calls_keeps: "within keeps_queues (crawl_calls g now ls)"
  by (induction g now ls rule: crawl_calls.induct) (auto intro!: kq.within_intros crawl_keeps)

lemma keeps_mst: "within keeps_queues (on_f_mst f)"
  by (intro conserves_weaken same_parts)

lemma crawler_keeps: "within keeps_queues (crawler_thread g now)"
proof (rule withinI)
  fix s s' r assume m: "crawler_thread g now s = Done (s', r)"
  have "within keeps_queues (bnd (on_f_mst (mdir_patch_list (to_send s) (to_send_cursor s) False True False False)) (\<lambda>(cursor, calls, e) s.
       bnd (crawl_calls g now calls) (\<lambda>_ s. case e of None \<Rightarrow> Done (s, Inr ()) | Some e \<Rightarrow> Done (s, Inl e))
         (s\<lparr>to_send_cursor := cursor\<rparr>)))"
  proof (intro kq.within_bnd keeps_mst)
    fix x :: "mdir_cursor \<times> listed list \<times> err option"
    obtain cursor calls e where x: "x = (cursor, calls, e)" by (cases x)
    let ?f = "bnd (crawl_calls g now calls) (\<lambda>_ s. case e of None \<Rightarrow> Done (s, Inr ()) | Some e \<Rightarrow> Done (s, Inl e))"
    have "within keeps_queues ?f" by (cases e) (auto intro!: kq.within_intros crawl_calls_keeps)
    moreover have "keeps_queues s (s\<lparr>to_send_cursor := cursor\<rparr>)" for s by (simp add: keeps_queues_def fwd_ok_def all_forwards)
    ultimately have "?f (s\<lparr>to_send_cursor := cursor\<rparr>) = Done (s', r) \<Longrightarrow> keeps_queues s s'" for s s' r
      by (blast intro: kq.trans dest: withinD)
    then have "within keeps_queues (\<lambda>s. ?f (s\<lparr>to_send_cursor := cursor\<rparr>))" by (rule withinI)
    then show "within keeps_queues (case x of (cursor, calls, e) \<Rightarrow> \<lambda>s.
       bnd (crawl_calls g now calls) (\<lambda>_ s. case e of None \<Rightarrow> Done (s, Inr ()) | Some e \<Rightarrow> Done (s, Inl e)) (s\<lparr>to_send_cursor := cursor\<rparr>))"
      by (simp add: x)
  qed
  with m show "keeps_queues s s'" by (auto simp: crawler_thread_def dest: withinD)
qed

lemma del_keeps: "within keeps_queues (forward_del a)"
proof (intro withinI)
  fix s s' r assume m: "forward_del a s = Done (s', r)"
  show "keeps_queues s s'"
    unfolding keeps_queues_def
  proof
    assume ok: "fwd_ok s"
    obtain fw where fw: "f_heap s a = Some fw" and s': "s' = (unlink a fw s)\<lparr>f_heap := (f_heap s)(a := None)\<rparr>"
      using m by (auto simp: forward_del_def forward_dtor_def bnd_def unlink_def on_list_def split: option.splits if_splits forwards.splits)
    have q: "f_heap s' = (f_heap s)(a := None)" "f_next s' = f_next s"
      "waiting_forwards s' = (if fw_list fw = Some Waiting then remove1 a (waiting_forwards s) else waiting_forwards s)"
      "delivered_forwards s' = (if fw_list fw = Some Delivered then remove1 a (delivered_forwards s) else delivered_forwards s)"
      by (auto simp: s' on_list_def unlink_def split: option.splits forwards.splits)
    have l: "fw_list fw = Some Waiting \<or> fw_list fw = Some Delivered" using ok fw by (auto simp: fwd_ok_def) (metis forwards.exhaust)
    show "fwd_ok s'" using ok fw l by (auto simp: fwd_ok_def all_forwards q split: if_splits)
  qed
qed

lemma get_or_create_keeps: "within keeps_queues (get_or_create_mdir u x)"
proof (rule withinI)
  fix s s' r assume m: "get_or_create_mdir u x s = Done (s', r)"
  define body where "body d h c = bnd (attempt (on_f_mst (mdir_lookup d))) (\<lambda>r. case r of Inr m \<Rightarrow> ret m
     | Inl e \<Rightarrow> bnd (on_f_mst (mdir_patch_request (sent_dir s) MDIR_ADD h)) (\<lambda>_. bnd (on_f_mst (mdir_lookup d)) (\<lambda>m.
         bnd (on_f_mst (mdir_patch_request m MDIR_ADD c)) (\<lambda>_. ret m))))" for d h c
  have "within keeps_queues (body d h c)" for d h c
    unfolding body_def by (intro kq.within_intros keeps_mst within_sum)
  moreover obtain d h c where "body d h c s = Done (s', r)"
    using m unfolding get_or_create_mdir_def Let_def body_def by (auto split: if_splits)
  ultimately show "keeps_queues s s'" by (blast dest: withinD)
qed

lemma move_keeps: "within keeps_queues (move_fwd u tz now fw)"
proof (rule withinI)
  fix s s' r assume m: "move_fwd u tz now fw s = Done (s', r)"
  define body where "body h = bnd (on_f_mst (mdir_del_request (to_send s) (fw_version fw))) (\<lambda>_. case field_value h SC_FROM_FIELD of None \<Rightarrow> ret ()
     | Some from \<Rightarrow> bnd (get_or_create_mdir u from) (\<lambda>m. on_f_mst (mdir_patch_request m MDIR_ADD h)))" for h
  have w: "within keeps_queues (body h)" for h
    unfolding body_def by (intro kq.within_bnd keeps_mst) (auto intro!: kq.within_intros keeps_mst get_or_create_keeps split: option.split)
  consider "s' = s" | h where "body h s = Done (s', r)"
    using m unfolding move_fwd_def body_def Let_def
    by (cases "mdir_read (m_fs (f_mst s)) (jnls (mdir_at (f_mst s) (to_send s))) (fw_version fw)") (auto split: option.splits)
  then show "keeps_queues s s'" by cases (use w in \<open>auto simp: kq.refl dest: withinD\<close>)
qed

lemma ack_keeps: "within keeps_queues (ack_all u tz now p as)"
proof (induction as arbitrary: p)
  case Nil
  then show ?case by (simp add: within_def kq.refl)
next
  case (Cons a as)
  define body where "body fw = bnd (attempt (case p of None \<Rightarrow> move_fwd u tz now fw | Some e \<Rightarrow> (\<lambda>s. Done (s, Inl e)))) (\<lambda>r.
     bnd (forward_del a) (\<lambda>_. ack_all u tz now (case r of Inr _ \<Rightarrow> None | Inl e \<Rightarrow> Some e) as))" for fw
  have "within keeps_queues (body fw)" for fw
    unfolding body_def
    by (intro kq.within_bnd within_attempt del_keeps Cons) (auto intro!: kq.within_intros move_keeps split: option.split)
  moreover have "ack_all u tz now p (a # as) s = Done (s', r) \<Longrightarrow> \<exists>fw. body fw s = Done (s', r)" for s s' r
    unfolding body_def by (auto split: option.splits)
  ultimately show ?case by (blast intro: withinI dest: withinD)
qed

section \<open>The three threads\<close>

text \<open>The crawler may also be interrupted between two mails, while it waits for the file server.\<close>

inductive fwd_reach :: "fwd_st \<Rightarrow> bool" where
  started: "f_heap s = (\<lambda>_. None) \<Longrightarrow> waiting_forwards s = [] \<Longrightarrow> delivered_forwards s = [] \<Longrightarrow> fwd_reach s"
| crawls: "fwd_reach s \<Longrightarrow> crawler_thread g now s = Done (s', r) \<Longrightarrow> fwd_reach s'"
| submits: "fwd_reach s \<Longrightarrow> crawl_patch g now h v s = Done (s', r) \<Longrightarrow> fwd_reach s'"
| forwards: "fwd_reach s \<Longrightarrow> forwarder w s = Done (s', r) \<Longrightarrow> fwd_reach s'"
| acks: "fwd_reach s \<Longrightarrow> acker_thread u tz now s = Done (s', r) \<Longrightarrow> fwd_reach s'"

lemma fwd_reach_ok: "fwd_reach s \<Longrightarrow> fwd_ok s"
proof (induction rule: fwd_reach.induct)
  case (started s)
  then show ?case by (simp add: fwd_ok_def all_forwards)
next
  case (crawls s g now s' r)
  with withinD [OF crawler_keeps crawls.hyps(2)] show ?case by (simp add: keeps_queues_def)
next
  case (submits s g now h v s' r)
  with withinD [OF crawl_keeps submits.hyps(2)] show ?case by (simp add: keeps_queues_def)
next
  case (forwards s w s' r)
  with withinD [OF forwarder_conserves forwards.hyps(2)] show ?case by (simp add: conserves_def)
next
  case (acks s u tz now s' r)
  from acks.hyps(2) have "ack_all u tz now None (delivered_forwards s) s = Done (s', r)" by (simp add: acker_thread_def)
  with acks withinD [OF ack_keeps this] show ?case by (simp add: keeps_queues_def)
qed

section \<open>Properties\<close>

text \<open>C26. The dialogue with the relay, whatever it answers: the commands of the mail are sent one after the other up to the first one that
  is refused, whose status becomes that of the mail; when all are accepted, the mail is sent with its parts, and its status is the answer to
  the final dot. Nothing of the mail is sent unless the sender and every recipient were accepted.\<close>

theorem mail_dialogue:
  assumes "field_value (fw_header fw) SC_FROM_FIELD = Some from" "field_value (fw_header fw) SC_DESCR_FIELD = Some descr"
    and "tos = fields_named (fw_header fw) SC_TO_FIELD"
    and "list_all plain_line (forward_cmds from tos)" "list_all plain_line (mail_head host fw from descr)"
    and "list_all (part_ok fs data) (fw_parts fw)"
    and "rc_err k = None" "list_all (\<lambda>(st, us). reply_ok st us) rs" "length rs = length tos + 3" "rc_in k = replies rs @ rest"
    and "n = accepts (forward_tests tos) (map fst rs)"
  shows "send_forward fs host fw k = Done (wrote (take (Suc n) (forward_cmds from tos) @
      (if n = length tos + 2 then mail_lines host fw from descr data @ [''.''] else []))
      (k\<lparr>rc_in := replies (drop (Suc n) rs) @ rest\<rparr>), Inr (fst (rs ! n)))"
  by (rule send_forward_run [OF assms])


text \<open>C27. Forwards are neither lost nor duplicated, however the turns of the crawler, the forwarder and the acker follow each other and
  whatever errors they meet: every forward there is is in exactly one list, the one it refers to, and counts its parts; a turn of the forwarder leaves
  every forward with its mail and takes none out of the list of those delivered.\<close>

theorem forwards_kept:
  assumes "fwd_reach s"
  shows "fwd_ok s \<and> (\<forall>w s' r. forwarder w s = Done (s', r) \<longrightarrow> conserves s s')"
  using fwd_reach_ok [OF assms] withinD [OF forwarder_conserves] by blast

text \<open>C38. A part whose file is missing stalls the forwarder in the middle of a mail: the relay has accepted the mail and got its beginning, the error
  is dropped, the mail stays in its list and the connection stays open, without the final dot: at the next turn the commands of the mail are
  written into the text of the mail itself.\<close>

theorem missing_file_stalls:
  assumes "waiting_forwards s = a # as" "f_heap s a = Some fw" "fw_status fw = 0" "transfers_done (w_tx_status w) (fw_parts fw) = (True, None)"
    and "sock_fd s = Some k" "(w_now w - sock_last_used s) mod 2 ^ 32 \<le> CNX_IDLE_TIMEOUT"
    and "field_value (fw_header fw) SC_FROM_FIELD = Some from" "field_value (fw_header fw) SC_DESCR_FIELD = Some descr"
    and "tos = fields_named (fw_header fw) SC_TO_FIELD"
    and "list_all plain_line (forward_cmds from tos)" "list_all plain_line (mail_head (w_host w) fw from descr)"
    and "fw_parts fw = ps @ p # qs" "list_all (part_ok (m_fs (f_mst s)) data) ps"
    and "open_input (m_fs (f_mst s)) (pt_filename p) = Inl e" "list_all plain_line (part_header_lines p)"
    and "rc_err k = None" "list_all (\<lambda>(st, us). reply_ok st us) rs" "length rs = length tos + 2" "rc_in k = replies rs @ rest"
    and "accepts (forward_tests tos) (map fst rs) = length tos + 2"
  shows "forwarder w s = Done (s\<lparr>sock_fd := Some (wrote (forward_cmds from tos @ mail_head (w_host w) fw from descr @
      [] # concat (map (part_lines data) ps) @ (''--'' @ mail_boundary) # part_header_lines p @ [[], []]) (k\<lparr>rc_in := rest\<rparr>))\<rparr>, Inr ())"
proof -
  let ?fs = "m_fs (f_mst s)" and ?k = "wrote (forward_cmds from tos) (k\<lparr>rc_in := rest\<rparr>)"
  let ?l = "wrote (mail_head (w_host w) fw from descr @ [] # concat (map (part_lines data) ps) @ (''--'' @ mail_boundary) # part_header_lines p @ [[], []]) ?k"
  have "send_mail ?fs (w_host w) fw ?k = Done (?l, Inl (Err e ''open(%s)''))"
    using send_mail_head [OF assms(7,8,11), of ?k ?fs] assms(16)
      send_parts_missing [OF assms(13) _ assms(14,15), of "wrote (mail_head (w_host w) fw from descr) ?k" qs]
    by (simp add: assms(12))
  then have "send_forward ?fs (w_host w) fw k = Done (?l, Inl (Err e ''open(%s)''))"
    using send_forward_cmds [OF assms(7,9,10,16,17) _ assms(19) refl, of ?fs "w_host w"] assms(18,20) by simp
  then have "attempt (on_sock (send_forward ?fs (w_host w) fw)) s = Done (s\<lparr>sock_fd := Some ?l\<rparr>, Inr (Inl (Err e ''open(%s)'')))"
    using assms(5) by (simp add: attempt_def on_sock_def)
  moreover have "may_open_connection (w_connect w) (w_host w) (w_now w) s = Done (s, Inr ())" using assms(5) by (simp add: may_open_connection_def)
  ultimately have "forward_all w (waiting_forwards s) s = Done (s\<lparr>sock_fd := Some ?l\<rparr>, Inr ())"
    using assms(1-4) by simp
  then show ?thesis using assms(6) by (simp add: forwarder_def may_close_connection_def)
qed

definition mail_sample :: header where
  "mail_sample = Mail.header_of [header_field_ctor SC_TYPE_FIELD SC_MAIL_TYPE, header_field_ctor SC_FROM_FIELD ''al@x'',
     header_field_ctor SC_TO_FIELD ''bob@y'', header_field_ctor SC_DESCR_FIELD ''Hi'']"

definition part_sample :: part where
  "part_sample = \<lparr>pt_filename = ''/f'', pt_name = Some ''f.txt'', pt_type = Some ''text/plain'', pt_tx = None\<rparr>"

definition fwd_sample :: forward where
  "fwd_sample = \<lparr>fw_header = mail_sample, fw_parts = [part_sample], fw_list = Some Waiting, nb_parts = 1, fw_status = 0, fw_version = 3, submited = 0\<rparr>"

definition files_sample :: "string \<Rightarrow> fs" where
  "files_sample f = fs_empty\<lparr>ents := [([f], Reg 0)], idata := (\<lambda>_. ''Hello'')\<rparr>"

definition relay_sample :: "(int \<times> string list) list \<Rightarrow> relay_cnx" where
  "relay_sample rs = \<lparr>rc_in = replies rs, rc_out = [], rc_err = None\<rparr>"

lemma mail_sample_facts:
  "field_value (fw_header fwd_sample) SC_FROM_FIELD = Some ''al@x''" "field_value (fw_header fwd_sample) SC_DESCR_FIELD = Some ''Hi''"
  "[''bob@y''] = fields_named (fw_header fwd_sample) SC_TO_FIELD" "wf_header (fw_header fwd_sample)"
  "list_all plain_line (forward_cmds ''al@x'' [''bob@y''])" "list_all plain_line (mail_head ''h'' fwd_sample ''al@x'' ''Hi'')"
  "list_all line_ok (mail_head ''h'' fwd_sample ''al@x'' ''Hi'')"
  "list_all (part_ok (files_sample ''f'') (\<lambda>_. ''Hello'')) (fw_parts fwd_sample)" "list_all part_sound (fw_parts fwd_sample)"
  "list_all plain_line (part_header_lines part_sample)"
  by code_simp+

theorem mail_dialogue_witness:
  "\<exists>k'. send_forward (files_sample ''f'') ''h'' fwd_sample (relay_sample [(250, [''ok'']), (550, [''no such'', ''user'']), (354, []), (250, [])]) =
     Done (k', Inr 550) \<and> rc_out k' = crlf [''MAIL FROM:<al@x>'', ''RCPT TO:<bob@y>'']"
proof -
  let ?rs = "[(250, [''ok'']), (550, [''no such'', ''user'']), (354, []), (250, [])] :: (int \<times> string list) list"
  have r: "list_all (\<lambda>(st, us). reply_ok st us) ?rs" "accepts (forward_tests [''bob@y'']) (map fst ?rs) = 1"
    "take (Suc 1) (forward_cmds ''al@x'' [''bob@y'']) = [''MAIL FROM:<al@x>'', ''RCPT TO:<bob@y>'']"
    by code_simp+
  show ?thesis
    using mail_dialogue [OF mail_sample_facts(1,2,3,5,6,8), of "relay_sample ?rs" ?rs "[]", OF _ r(1) _ _ refl] r(2,3)
    by (simp add: relay_sample_def)
qed


text \<open>A folder with a mail to send, whose file is there; a relay that cannot be reached.\<close>

definition crawl_start :: "mst \<Rightarrow> fwd_st" where
  "crawl_start st = \<lparr>f_heap = (\<lambda>_. None), f_next = 0, waiting_forwards = [], delivered_forwards = [], sock_fd = None, sock_last_used = 0,
     f_mst = st, to_send = 0, sent_dir = 0, to_send_cursor = mdir_cursor_ctor\<rparr>"

definition no_relay :: relay_world where
  "no_relay = \<lparr>w_connect = Inl (Err 111 ''Cannot connect''), w_host = ''h'', w_now = 5, w_tx_status = (\<lambda>_. 200)\<rparr>"

theorem forwards_kept_witness:
  "\<exists>s s'. fwd_reach s \<and> waiting_forwards s = [0] \<and> fwd_ok s \<and> forwarder no_relay s = Done (s', Inl (Err 111 ''Cannot connect'')) \<and> conserves s s'"
proof -
  let ?s = "crawl_patch (\<lambda>_. Inr (''/f'', None)) 4 mail_sample 3 (crawl_start st_sample)"
  have c: "case ?s of Done (s, _) \<Rightarrow> waiting_forwards s = [0] \<and>
      (case forwarder no_relay s of Done (s', r) \<Rightarrow> r = Inl (Err 111 ''Cannot connect'') | _ \<Rightarrow> False) | _ \<Rightarrow> False"
    by code_simp
  then obtain s r where s: "?s = Done (s, r)" "waiting_forwards s = [0]"
      "case forwarder no_relay s of Done (s', r) \<Rightarrow> r = Inl (Err 111 ''Cannot connect'') | _ \<Rightarrow> False"
    by (cases ?s) auto
  then obtain s' where s': "forwarder no_relay s = Done (s', Inl (Err 111 ''Cannot connect''))" by (cases "forwarder no_relay s") auto
  have "fwd_reach (crawl_start st_sample)" by (rule started) (simp_all add: crawl_start_def)
  then have "fwd_reach s" by (rule submits [OF _ s(1)])
  with forwards_kept [OF this] s(2) s' show ?thesis by blast
qed

theorem missing_file_stalls_witness:
  "\<exists>s k'. waiting_forwards s = [0] \<and> forwarder no_relay s = Done (s\<lparr>sock_fd := Some k'\<rparr>, Inr ()) \<and>
     rc_out k' = crlf ([''MAIL FROM:<al@x>'', ''RCPT TO:<bob@y>'', ''DATA''] @ mail_head ''h'' fwd_sample ''al@x'' ''Hi'' @
       [[], ''--'' @ mail_boundary] @ part_header_lines part_sample @ [[], []])"
proof -
  let ?rs = "[(250, [''ok'']), (250, []), (354, [''go''])] :: (int \<times> string list) list"
  define s where "s = (crawl_start (st_sample\<lparr>m_fs := files_sample ''g''\<rparr>))\<lparr>f_heap := [0 \<mapsto> fwd_sample], f_next := 1, waiting_forwards := [0],
    sock_fd := Some (relay_sample ?rs)\<rparr>"
  have r: "list_all (\<lambda>(st, us). reply_ok st us) ?rs" "accepts (forward_tests [''bob@y'']) (map fst ?rs) = length [''bob@y''] + 2"
    "forward_cmds ''al@x'' [''bob@y''] = [''MAIL FROM:<al@x>'', ''RCPT TO:<bob@y>'', ''DATA'']"
    "open_input (files_sample ''g'') (pt_filename part_sample) = Inl ENOENT" "transfers_done (w_tx_status no_relay) (fw_parts fwd_sample) = (True, None)"
    by code_simp+
  have s: "waiting_forwards s = [0]" "f_heap s 0 = Some fwd_sample" "fw_status fwd_sample = 0" "sock_fd s = Some (relay_sample ?rs)"
    "(w_now no_relay - sock_last_used s) mod 2 ^ 32 \<le> CNX_IDLE_TIMEOUT" "m_fs (f_mst s) = files_sample ''g''" "w_host no_relay = ''h''"
    "fw_parts fwd_sample = [] @ part_sample # []"
    by (simp_all add: s_def crawl_start_def fwd_sample_def no_relay_def CNX_IDLE_TIMEOUT_def)
  have "forwarder no_relay s = Done (s\<lparr>sock_fd := Some (wrote (forward_cmds ''al@x'' [''bob@y''] @ mail_head (w_host no_relay) fwd_sample ''al@x'' ''Hi'' @
      [] # concat (map (part_lines (\<lambda>_. [])) []) @ (''--'' @ mail_boundary) # part_header_lines part_sample @ [[], []]) ((relay_sample ?rs)\<lparr>rc_in := []\<rparr>))\<rparr>, Inr ())"
    by (rule missing_file_stalls [OF s(1-3) r(5) s(4,5) mail_sample_facts(1-3,5) _ s(8) _ _ mail_sample_facts(10) _ r(1) _ _ r(2)])
      (simp_all add: s(6,7) r(4) mail_sample_facts(6) relay_sample_def)
  then obtain k' where "forwarder no_relay s = Done (s\<lparr>sock_fd := Some k'\<rparr>, Inr ())" "rc_out k' = crlf (forward_cmds ''al@x'' [''bob@y''] @
      mail_head ''h'' fwd_sample ''al@x'' ''Hi'' @ [] # (''--'' @ mail_boundary) # part_header_lines part_sample @ [[], []])"
    by (simp add: s(7) relay_sample_def)
  then show ?thesis using s(1) unfolding r(3) by (intro exI [of _ s] exI [of _ k']) simp
qed

end
