(* ===== verification/Filecache.thy ===== *)
theory Filecache
  imports Persist
begin

text \<open>
  The digests of \<open>commons/digest.c\<close> and the cache of files of \<open>lib/channel.c\<close>: looking for a resource in the cache before
  it is fetched, and storing a local file in the cache under a new name, to be sent at once or kept for later in
  the directory \<open>.put\<close>. The arguments of the operations stand for what is outside the program: \<open>sha1\<close>, the twenty bytes of the
  library's hash; \<open>uuid\<close>, the text of the identifier that \<open>libuuid\<close> draws; \<open>fetch\<close> and \<open>send\<close>, what the exchange with the file
  server that answers a \<open>read\<close> or a \<open>write\<close> command does to the files and the error it ends with, \<open>None\<close> in place of
  the function when there is no connection.
\<close>

section \<open>Digests\<close>

definition MAX_DIGEST_STRLEN :: nat where "MAX_DIGEST_STRLEN = 64"

definition tohex :: "nat \<Rightarrow> char" where
  "tohex i = (if i < 10 then char_of (i + 48) else char_of (i - 10 + 65))"

text \<open>The low half of each byte comes first.\<close>

fun stringify :: "string \<Rightarrow> string" where
  "stringify [] = []"
| "stringify (b # bs) = tohex (of_char b mod 16) # tohex (of_char b div 16) # stringify bs"

definition digest :: "(string \<Rightarrow> string) \<Rightarrow> string \<Rightarrow> string" where
  "digest sha1 inp = stringify (sha1 inp)"

text \<open>What \<open>Read\<close> of the whole file gives; a directory can be opened but not read.\<close>

fun read_whole :: "input \<Rightarrow> string res" where
  "read_whole [] = Inr []"
| "read_whole (RdErr e # inp) = Fail e ''Cannot pth_read''"
| "read_whole (Got c # inp) = (case read_whole inp of Inl e \<Rightarrow> Inl e | Inr s \<Rightarrow> Inr (c # s))"

definition digest_file :: "(string \<Rightarrow> string) \<Rightarrow> fs \<Rightarrow> string \<Rightarrow> string res" where
  "digest_file sha1 fs filename = (case open_input fs filename of
     Inl e \<Rightarrow> Fail e ''open(%s)''
   | Inr inp \<Rightarrow> (case read_whole inp of Inl e \<Rightarrow> Inl e | Inr s \<Rightarrow> Inr (digest sha1 s)))"

section \<open>The cache of files\<close>

type_synonym exchange = "string \<Rightarrow> fs \<Rightarrow> fs \<times> err option"

definition cache_path :: "string \<Rightarrow> string \<Rightarrow> string" where
  "cache_path files_root nm = snpath (files_root @ ''/'' @ nm)"

text \<open>
  A file of the cache that can be opened is the one wanted, also when its transfer is not over. What a failed transfer
  left is removed.
\<close>

definition chn_get_file :: "string \<Rightarrow> exchange option \<Rightarrow> string \<Rightarrow> fs \<Rightarrow> fs \<times> string res" where
  "chn_get_file files_root fetch nm fs =
     (let localfile = cache_path files_root nm in
      case open_input fs localfile of
        Inr _ \<Rightarrow> (fs, Inr localfile)
      | Inl e \<Rightarrow>
          if e \<noteq> ENOENT then (fs, Fail e ''Cannot open(%s)'')
          else (case fetch of
             None \<Rightarrow> (fs, Fail 0 ''Cannot fetch and not local'')
           | Some fetch \<Rightarrow> (case fetch nm fs of
                (fs, None) \<Rightarrow> (fs, Inr localfile)
              | (fs, Some e) \<Rightarrow> (case sys_unlink fs localfile of
                   (fs, None) \<Rightarrow> (fs, Inl e)
                 | (fs, Some e) \<Rightarrow> (fs, Fail e ''Failed to download %s, but cannot unlink it'')))))"

text \<open>The two first dashes of an identifier become directories.\<close>

fun dashes_to_dirs :: "nat \<Rightarrow> string \<Rightarrow> string" where
  "dashes_to_dirs n [] = []"
| "dashes_to_dirs 0 s = s"
| "dashes_to_dirs (Suc n) (c # s) =
     (if c = CHR ''-'' then CHR ''/'' # dashes_to_dirs n s else c # dashes_to_dirs (Suc n) s)"

definition chn_resource_name_new :: "string \<Rightarrow> string" where
  "chn_resource_name_new uuid = dashes_to_dirs 2 uuid"

definition chn_putdir :: "string \<Rightarrow> string" where
  "chn_putdir files_root = snpath (files_root @ ''/.put'')"

definition add_resource_to_putdir :: "string \<Rightarrow> persist \<Rightarrow> string \<Rightarrow> fs \<Rightarrow> (fs \<times> err option) outcome" where
  "add_resource_to_putdir files_root putdir_seq ref_path fs =
     obind (persist_read_inc_sequence fs putdir_seq) (\<lambda>(fs, n).
       case sys_symlink fs ref_path (snpath (chn_putdir files_root @ ''/'' @ dec_nat (unat n))) of
         (fs, None) \<Rightarrow> Done (fs, None)
       | (fs, Some e) \<Rightarrow> Done (fs, Some (Err e ''symlink(%s, %s)'')))"

text \<open>\<open>Copy\<close> from a file that was opened to a descriptor.\<close>

definition copy_input :: "input \<Rightarrow> nat \<Rightarrow> fs \<Rightarrow> fs \<times> err option" where
  "copy_input inp fd fs = (case read_whole inp of
     Inl e \<Rightarrow> (fs, Some e)
   | Inr s \<Rightarrow> (case Copy [] (fd_of fs fd False) \<lparr>bytes = s, pos = 0, o_append = False\<rparr> of
        (f, e) \<Rightarrow> (set_data fs fd (bytes f), e)))"

definition store_in_cache :: "string \<Rightarrow> string \<Rightarrow> fs \<Rightarrow> fs \<times> err option" where
  "store_in_cache filename path fs = (case Mkdir_for_file fs path of
     (fs, Some e) \<Rightarrow> (fs, Some e)
   | (fs, None) \<Rightarrow> (case open_input fs filename of
        Inl e \<Rightarrow> (fs, Some (Err e ''open(%s)''))
      | Inr inp \<Rightarrow> (case sys_open True False True fs path of
           (fs, Inl e) \<Rightarrow> (fs, Some (Err e ''creat(%s)''))
         | (fs, Inr fd) \<Rightarrow> copy_input inp fd fs)))"

definition chn_send_file_request ::
    "string \<Rightarrow> persist \<Rightarrow> exchange option \<Rightarrow> string \<Rightarrow> string \<Rightarrow> fs \<Rightarrow> (fs \<times> string res) outcome" where
  "chn_send_file_request files_root putdir_seq send uuid filename fs =
     (let resource = chn_resource_name_new uuid; path = files_root @ ''/'' @ resource in
      case store_in_cache filename path fs of
        (fs, Some e) \<Rightarrow> Done (fs, Inl e)
      | (fs, None) \<Rightarrow> (case send of
          None \<Rightarrow> obind (add_resource_to_putdir files_root putdir_seq path fs) (\<lambda>(fs, e).
            Done (fs, case e of None \<Rightarrow> Inr resource | Some e \<Rightarrow> Inl e))
        | Some send \<Rightarrow> (case send resource fs of
            (fs, None) \<Rightarrow> Done (fs, Inr resource) | (fs, Some e) \<Rightarrow> Done (fs, Inl e))))"

text \<open>
  The files kept for later: each link of the directory is sent, and stays there. The count is that of the
  transfers that started.
\<close>

fun send_names :: "string \<Rightarrow> exchange \<Rightarrow> string list \<Rightarrow> nat \<Rightarrow> fs \<Rightarrow> (fs \<times> nat \<times> err option) outcome" where
  "send_names files_root send [] n fs = Done (fs, n, None)"
| "send_names files_root send (nm # ns) n fs =
     (let path = snpath (chn_putdir files_root @ ''/'' @ nm) in
      if take 1 nm = ''.'' then send_names files_root send ns n fs
      else case sys_lstat_lnk fs path of
        Inl e \<Rightarrow> Done (fs, n, Some (Err e ''lstat(%s)''))
      | Inr False \<Rightarrow> send_names files_root send ns n fs
      | Inr True \<Rightarrow> (case sys_readlink fs path of
           Inl e \<Rightarrow> Crash
         | Inr ref_path \<Rightarrow>
             if PATH_MAX \<le> length ref_path then Crash
             else if length ref_path \<le> length files_root + 1 then send_names files_root send ns n fs
             else (case send (drop (length files_root + 1) ref_path) fs of
                (fs, Some e) \<Rightarrow> Done (fs, n, Some e)
              | (fs, None) \<Rightarrow> send_names files_root send ns (Suc n) fs)))"

definition chn_send_all :: "string \<Rightarrow> exchange \<Rightarrow> fs \<Rightarrow> (fs \<times> nat \<times> err option) outcome" where
  "chn_send_all files_root send fs = (case sys_readdir fs (chn_putdir files_root) of
     Inl e \<Rightarrow> Done (fs, 0, if e = ENOENT then None else Some (Err e ''opendir(%s)''))
   | Inr names \<Rightarrow> send_names files_root send names 0 fs)"

text \<open>The part of \<open>chn_init\<close> that concerns the cache.\<close>

definition chn_init_cache :: "string \<Rightarrow> fs \<Rightarrow> fs \<times> persist res" where
  "chn_init_cache files_root fs = (case Mkdir fs files_root of
     (fs, Some e) \<Rightarrow> (fs, Inl e)
   | (fs, None) \<Rightarrow> persist_ctor_sequence fs (snpath (chn_putdir files_root @ ''/.seq'')) 0)"

section \<open>Digests fit their arrays\<close>

lemma length_stringify [simp]: "length (stringify bs) = 2 * length bs"
  by (induction bs) auto

lemma of_char_tohex: "i < 16 \<Longrightarrow> (of_char (tohex i) :: nat) = (if i < 10 then i + 48 else i + 55)"
  by (simp add: tohex_def)

lemma tohex_inject: "i < 16 \<Longrightarrow> j < 16 \<Longrightarrow> tohex i = tohex j \<Longrightarrow> i = j"
  by (drule arg_cong [where f = "of_char :: char \<Rightarrow> nat"]) (auto simp: of_char_tohex split: if_splits)

lemma of_char_div: "(of_char c :: nat) div 16 < 16"
  using of_char_less_256 [of c] by (simp add: less_mult_imp_div_less)

lemma tohex_visible: "i < 16 \<Longrightarrow> tohex i \<noteq> NUL"
proof
  assume "i < 16" "tohex i = NUL"
  then have "(of_char NUL :: nat) = (if i < 10 then i + 48 else i + 55)" by (metis of_char_tohex)
  then show False by (simp split: if_splits)
qed

lemma stringify_visible: "NUL \<notin> set (stringify bs)"
proof (induction bs)
  case (Cons b bs)
  with tohex_visible [of "of_char b mod 16"] tohex_visible [OF of_char_div [of b]] show ?case by (simp add: eq_commute [of NUL])
qed simp

text \<open>Two digests are the same text only if the hashes are the same.\<close>

lemma stringify_inject: "stringify a = stringify b \<Longrightarrow> a = b"
proof (induction a arbitrary: b)
  case (Cons x a)
  then obtain y b' where b: "b = y # b'" by (cases b) auto
  have "(of_char x :: nat) mod 16 = of_char y mod 16" "(of_char x :: nat) div 16 = of_char y div 16"
    using Cons.prems b tohex_inject [OF of_char_div of_char_div] tohex_inject [of "of_char x mod 16" "of_char y mod 16"] by auto
  then have "(of_char x :: nat) = of_char y" by (metis div_mult_mod_eq)
  then have "x = y" by simp
  with Cons b show ?case by simp
next
  case Nil
  then show ?case by (cases b) auto
qed

end
