(* ===== verification/Merefs.thy ===== *)
theory Merefs
  imports Filecache Mdir_Log Smtpd
begin

text \<open>
  The synchroniser of a directory tree with a folder, after \<open>merefs/\<close>. A remote file is a patch of the folder that gives the
  name, the digest and the resource of a file; the map, kept between the runs in the file \<open>.map\<close>, gives the digests of
  the files when they were last in sync. Each pass compares the digests of a local file, of its remote file and of the
  map. Arguments stand for what is outside the program, with those of \<open>Filecache\<close>: the errors of \<open>link\<close> that depend on
  the devices, what other processes do to the files and to the folder between two passes, and the bytes of the
  allocated structures that no \<open>snprintf\<close> wrote.
\<close>

section \<open>Data\<close>

definition SC_FILE_TYPE :: string where "SC_FILE_TYPE = ''file''"
definition SC_DIGEST_FIELD :: string where "SC_DIGEST_FIELD = ''sc-digest''"
definition EPERM :: int where "EPERM = 1"
definition EXDEV :: int where "EXDEV = 18"
definition EMLINK :: int where "EMLINK = 31"

record sfile =
  fl_name :: string
  fl_digest :: string
  fl_resource :: string
  fl_version :: mdir_version

record merefs =
  me_st :: mst
  me_dir :: nat
  me_cursor :: mdir_cursor
  unmatched_files :: "sfile list"
  matched_files :: "sfile list"
  removed_files :: "sfile list"
  current_map :: "sfile list"
  next_map :: "sfile list"
  me_drawn :: nat

record menv =
  local_path :: string
  files_root :: string
  putdir_seq :: persist
  e_sha1 :: "string \<Rightarrow> string"
  e_uuid :: "nat \<Rightarrow> string"
  e_fetch :: exchange
  e_send :: exchange
  link_errno :: "string \<Rightarrow> string \<Rightarrow> int option"

text \<open>\<open>strlen\<close> of the local path without its trailing slashes.\<close>

definition strip_len :: "string \<Rightarrow> nat" where
  "strip_len s = length (rev (dropWhile (\<lambda>c. c = CHR ''/'') (rev s)))"

abbreviation local_path_len :: "menv \<Rightarrow> nat" where
  "local_path_len env \<equiv> strip_len (local_path env)"

definition on_me_mst :: "(mst, 'a) act \<Rightarrow> (merefs, 'a) act" where
  "on_me_mst f s = (case f (me_st s) of
     Done (st, r) \<Rightarrow> Done (s\<lparr>me_st := st\<rparr>, r) | Raised e \<Rightarrow> Raised e | Crash \<Rightarrow> Crash)"

definition on_files :: "(fs \<Rightarrow> fs \<times> err option) \<Rightarrow> (merefs, unit) act" where
  "on_files f = on_me_mst (do_err f)"

abbreviation me_fs :: "merefs \<Rightarrow> fs" where
  "me_fs s \<equiv> m_fs (me_st s)"

definition upd_me :: "('s \<Rightarrow> 's) \<Rightarrow> ('s, unit) act" where
  "upd_me f s = Done (f s, Inr ())"

section \<open>Lists of files\<close>

definition sanitize :: "string \<Rightarrow> string" where
  "sanitize nm = dropWhile (\<lambda>c. c = CHR ''/'') nm"

definition file_new :: "string \<Rightarrow> string \<Rightarrow> string option \<Rightarrow> mdir_version \<Rightarrow> sfile list \<Rightarrow> sfile list" where
  "file_new nm dig rsc version fls =
     \<lparr>fl_name = take (PATH_MAX - 1) (sanitize nm), fl_digest = take MAX_DIGEST_STRLEN dig,
      fl_resource = take (PATH_MAX - 1) (case rsc of None \<Rightarrow> [] | Some r \<Rightarrow> r), fl_version = version\<rparr> # fls"

definition file_del :: "sfile \<Rightarrow> sfile list \<Rightarrow> sfile list" where
  "file_del f fls = remove1 f fls"

definition file_search :: "sfile list \<Rightarrow> string \<Rightarrow> sfile option" where
  "file_search fls nm = find (\<lambda>f. fl_name f = sanitize nm) fls"

definition file_search_by_version :: "sfile list \<Rightarrow> mdir_version \<Rightarrow> sfile option" where
  "file_search_by_version fls v = find (\<lambda>f. fl_version f = v) fls"

definition file_search_by_digest :: "sfile list \<Rightarrow> string \<Rightarrow> sfile option" where
  "file_search_by_digest fls dig = find (\<lambda>f. fl_digest f = dig) fls"

text \<open>The digest of the first file found by that name is changed in place.\<close>

fun set_digest_of :: "string \<Rightarrow> string \<Rightarrow> sfile list \<Rightarrow> sfile list" where
  "set_digest_of nm dig [] = []"
| "set_digest_of nm dig (f # fls) =
     (if fl_name f = nm then f\<lparr>fl_digest := take MAX_DIGEST_STRLEN dig\<rparr> # fls else f # set_digest_of nm dig fls)"

section \<open>The map\<close>

definition map_fname :: "menv \<Rightarrow> string" where
  "map_fname env = snpath (local_path env @ ''/.map'')"

text \<open>An array that holds no NUL is read beyond its end.\<close>

definition array_string :: "string \<Rightarrow> string outcome" where
  "array_string a = (if NUL \<in> set a then Done (cstr a) else Crash)"

function map_load_loop :: "fdesc \<Rightarrow> sfile list \<Rightarrow> (sfile list \<times> err option) outcome" where
  "map_load_loop f fls = (case Read [] f PATH_MAX of
     Inl e \<Rightarrow> Done (fls, if err_code e = 0 then None else Some e)
   | Inr (path, f1) \<Rightarrow> (case Read [] f1 (MAX_DIGEST_STRLEN + 1) of
        Inl e \<Rightarrow> Done (fls, Some e)
      | Inr (dig, f2) \<Rightarrow> obind (array_string path) (\<lambda>path. obind (array_string dig) (\<lambda>dig.
          map_load_loop f2 (file_new path dig None 0 fls)))))"
  by pat_completeness auto
termination
  by (relation "measure (\<lambda>(f, _). length (bytes f) - pos f)")
    (auto simp: Read_def ReadFrom_def Let_def PATH_MAX_def split: sum.splits if_splits)

declare map_load_loop.simps [simp del]

definition map_load :: "menv \<Rightarrow> (merefs, unit) act" where
  "map_load env s = (case sys_open True False False (me_fs s) (map_fname env) of
     (fs, Inl e) \<Rightarrow> Done (s\<lparr>me_st := set_fs (me_st s) fs\<rparr>, Inl (Err e ''open(%s)''))
   | (fs, Inr i) \<Rightarrow> obind (map_load_loop (fd_of fs i False) []) (\<lambda>(fls, e).
        Done (s\<lparr>me_st := set_fs (me_st s) fs, current_map := fls\<rparr>, case e of None \<Rightarrow> Inr () | Some e \<Rightarrow> Inl e)))"

text \<open>An array of a structure: its string, the final NUL, and bytes that were never written.\<close>

definition array_of :: "nat \<Rightarrow> string \<Rightarrow> string \<Rightarrow> string" where
  "array_of n junk s = s @ [NUL] @ take (n - length s - 1) (junk @ replicate n NUL)"

fun map_arrays :: "(nat \<Rightarrow> string) \<Rightarrow> nat \<Rightarrow> sfile list \<Rightarrow> string list" where
  "map_arrays junk k [] = []"
| "map_arrays junk k (f # fls) =
     array_of PATH_MAX (junk k) (fl_name f) # array_of (MAX_DIGEST_STRLEN + 1) (junk (Suc k)) (fl_digest f) #
     map_arrays junk (k + 2) fls"

definition map_save :: "menv \<Rightarrow> (nat \<Rightarrow> string) \<Rightarrow> (merefs, unit) act" where
  "map_save env junk s = (case sys_open False False False (me_fs s) (map_fname env) of
     (fs, Inl e) \<Rightarrow> Done (s\<lparr>me_st := set_fs (me_st s) fs\<rparr>, Inl (Err e ''open(%s)''))
   | (fs, Inr i) \<Rightarrow> (case Write_strs [] (fd_of fs i False) (map_arrays junk 0 (current_map s)) of
        (f, e) \<Rightarrow> Done (s\<lparr>me_st := set_fs (me_st s) (set_data fs i (bytes f))\<rparr>,
                        case e of None \<Rightarrow> Inr () | Some e \<Rightarrow> Inl e)))"

definition map_get_digest :: "sfile list \<Rightarrow> string \<Rightarrow> string option" where
  "map_get_digest fls fname = map_option fl_digest (file_search fls fname)"

definition map_set :: "string \<Rightarrow> string \<Rightarrow> sfile list \<Rightarrow> sfile list" where
  "map_set fname dig fls = (case file_search fls fname of
     Some _ \<Rightarrow> set_digest_of (sanitize fname) dig fls
   | None \<Rightarrow> file_new fname dig None 0 fls)"

definition map_del :: "string \<Rightarrow> sfile list \<Rightarrow> sfile list" where
  "map_del fname fls = (case file_search fls fname of None \<Rightarrow> fls | Some f \<Rightarrow> file_del f fls)"

section \<open>Remote files\<close>

text \<open>A field that is not found is a null pointer: \<open>sanitize\<close> follows that of the name, \<open>snprintf\<close> prints that of the digest.\<close>

definition add_remote_file :: "header \<Rightarrow> mdir_version \<Rightarrow> merefs \<Rightarrow> merefs outcome" where
  "add_remote_file h version s =
     (if \<not> header_has_type h SC_FILE_TYPE then Done s
      else case field_value h SC_NAME_FIELD of
        None \<Rightarrow> Crash
      | Some nm \<Rightarrow>
          let dig = (case field_value h SC_DIGEST_FIELD of None \<Rightarrow> ''(null)'' | Some d \<Rightarrow> d);
              others = (case file_search (unmatched_files s) nm of
                 None \<Rightarrow> unmatched_files s | Some f \<Rightarrow> file_del f (unmatched_files s))
          in Done (s\<lparr>unmatched_files := file_new nm dig (field_value h SC_RESOURCE_FIELD) version others\<rparr>))"

definition remove_remote_file :: "mdir_version \<Rightarrow> merefs \<Rightarrow> merefs" where
  "remove_remote_file to_del s = (case file_search_by_version (unmatched_files s) to_del of
     None \<Rightarrow> s
   | Some f \<Rightarrow> s\<lparr>unmatched_files := remove1 f (unmatched_files s), removed_files := f # removed_files s\<rparr>)"

fun remote_call :: "listed \<Rightarrow> merefs \<Rightarrow> merefs outcome" where
  "remote_call (PutCb h v) s = add_remote_file h v s"
| "remote_call (RemCb v) s = Done (remove_remote_file v s)"
| "remote_call (ErrCb h v) s = Done s"

fun remote_calls :: "listed list \<Rightarrow> merefs \<Rightarrow> merefs outcome" where
  "remote_calls [] s = Done s"
| "remote_calls (l # ls) s = obind (remote_call l s) (remote_calls ls)"

definition read_mdir :: "(merefs, unit) act" where
  "read_mdir s = (case mdir_patch_list (me_dir s) (me_cursor s) False True True False (me_st s) of
     Crash \<Rightarrow> Crash
   | Raised e \<Rightarrow> Raised e
   | Done (st, Inl e) \<Rightarrow> Done (s\<lparr>me_st := st\<rparr>, Inl e)
   | Done (st, Inr (cursor, calls, e)) \<Rightarrow>
       obind (remote_calls calls (s\<lparr>me_st := st, me_cursor := cursor\<rparr>)) (\<lambda>s.
         Done (s, case e of None \<Rightarrow> Inr () | Some e \<Rightarrow> Inl e)))"

definition unmatch_all :: "merefs \<Rightarrow> merefs" where
  "unmatch_all s = s\<lparr>unmatched_files := unmatched_files s @ matched_files s, matched_files := []\<rparr>"

section \<open>One local file\<close>

definition sys_link :: "int option \<Rightarrow> fs \<Rightarrow> string \<Rightarrow> string \<Rightarrow> fs \<times> int option" where
  "sys_link host_error fs old new = (case resolve fs False old of
     Inl e \<Rightarrow> (fs, Some e)
   | Inr p \<Rightarrow> (case node_at fs p of
        None \<Rightarrow> (fs, Some ENOENT)
      | Some Dir \<Rightarrow> (fs, Some EPERM)
      | Some nd \<Rightarrow> (case resolve fs False new of
           Inl e \<Rightarrow> (fs, Some e)
         | Inr q \<Rightarrow>
             if node_at fs q \<noteq> None then (fs, Some EEXIST)
             else case host_error of Some e \<Rightarrow> (fs, Some e) | None \<Rightarrow> (add_ent fs q nd, None))))"

definition copy_from_cache :: "string \<Rightarrow> string \<Rightarrow> fs \<Rightarrow> fs \<times> err option" where
  "copy_from_cache cache_file fpath fs = (case sys_open True False True fs fpath of
     (fs, Inl e) \<Rightarrow> (fs, Some (Err e ''creat(%s)''))
   | (fs, Inr fd) \<Rightarrow> (case open_input fs cache_file of
        Inl e \<Rightarrow> (fs, Some (Err e ''open(%s)''))
      | Inr inp \<Rightarrow> copy_input inp fd fs))"

definition install :: "menv \<Rightarrow> string \<Rightarrow> string \<Rightarrow> fs \<Rightarrow> fs \<times> err option" where
  "install env rsc fpath fs = (case Mkdir_for_file fs fpath of
     (fs, Some e) \<Rightarrow> (fs, Some e)
   | (fs, None) \<Rightarrow> (case chn_get_file (files_root env) (Some (e_fetch env)) rsc fs of
        (fs, Inl e) \<Rightarrow> (fs, Some e)
      | (fs, Inr cache_file) \<Rightarrow> (case sys_unlink fs fpath of
          (fs, e) \<Rightarrow>
            if e \<noteq> None \<and> e \<noteq> Some ENOENT then (fs, Some (Err (the e) ''unlink(%s)''))
            else (case sys_link (link_errno env cache_file fpath) fs cache_file fpath of
               (fs, None) \<Rightarrow> (fs, None)
             | (fs, Some e) \<Rightarrow>
                 if e = EMLINK \<or> e = EPERM \<or> e = EXDEV then copy_from_cache cache_file fpath fs
                 else (fs, Some (Err e ''link(%s <- %s)''))))))"

definition remote_is_master :: "menv \<Rightarrow> sfile \<Rightarrow> string \<Rightarrow> (merefs, unit) act" where
  "remote_is_master env file fpath =
     bnd (on_files (install env (fl_resource file) fpath)) (\<lambda>_.
       upd_me (\<lambda>s. s\<lparr>next_map := map_set (fl_name file) (fl_digest file) (next_map s)\<rparr>))"

definition known_content :: "merefs \<Rightarrow> string \<Rightarrow> sfile option" where
  "known_content s dig = (case file_search_by_digest (unmatched_files s) dig of
     Some f \<Rightarrow> Some f
   | None \<Rightarrow> (case file_search_by_digest (matched_files s) dig of
        Some f \<Rightarrow> Some f
      | None \<Rightarrow> file_search_by_digest (removed_files s) dig))"

text \<open>The wait for the end of the transfers is part of the exchange.\<close>

definition upload :: "menv \<Rightarrow> string \<Rightarrow> (merefs, string) act" where
  "upload env fpath s =
     obind (chn_send_file_request (files_root env) (putdir_seq env) (Some (e_send env)) (e_uuid env (me_drawn s)) fpath (me_fs s))
       (\<lambda>(fs, r). Done (s\<lparr>me_st := set_fs (me_st s) fs, me_drawn := Suc (me_drawn s)\<rparr>, r))"

definition file_header :: "string \<Rightarrow> string \<Rightarrow> string \<Rightarrow> header" where
  "file_header fname dig rsc =
     header_field_new (header_field_new (header_field_new (header_field_new header_new
       SC_TYPE_FIELD SC_FILE_TYPE) SC_NAME_FIELD fname) SC_DIGEST_FIELD dig) SC_RESOURCE_FIELD rsc"

definition local_is_master :: "menv \<Rightarrow> sfile option \<Rightarrow> string \<Rightarrow> string \<Rightarrow> string \<Rightarrow> (merefs, unit) act" where
  "local_is_master env remote_file fpath fname dig s =
     bnd (case known_content s dig of
            Some f \<Rightarrow> ret (fl_resource f)
          | None \<Rightarrow> upload env fpath) (\<lambda>rsc.
     bnd (on_me_mst (mdir_patch_request (me_dir s) MDIR_ADD (file_header fname dig rsc))) (\<lambda>_.
     bnd (case remote_file of
            None \<Rightarrow> ret ()
          | Some f \<Rightarrow> on_me_mst (mdir_del_request (me_dir s) (fl_version f))) (\<lambda>_.
       upd_me (\<lambda>s. s\<lparr>next_map := map_set fname dig (next_map s)\<rparr>)))) s"

text \<open>
  The name of a backup: from the final NUL backwards, each character moves one place up until the slash that
  precedes the last component, where a dot is put.
\<close>

fun shift_name :: "nat \<Rightarrow> nat \<Rightarrow> string \<Rightarrow> string" where
  "shift_name low 0 bak = bak[0 := CHR ''.'']"
| "shift_name low (Suc c) bak =
     (if low < Suc c \<and> bak ! c \<noteq> CHR ''/'' then shift_name low c (bak[Suc c := bak ! c]) else bak[Suc c := CHR ''.''])"

definition backup_name :: "menv \<Rightarrow> string \<Rightarrow> string outcome" where
  "backup_name env fpath =
     (if PATH_MAX \<le> length fpath + 1 then Crash
      else Done (cstr (shift_name (local_path_len env) (length fpath + 1) (fpath @ [NUL, NUL]))))"

definition conflict :: "menv \<Rightarrow> string \<Rightarrow> (merefs, unit) act" where
  "conflict env fpath s = obind (backup_name env fpath) (\<lambda>bak.
     on_files (\<lambda>fs. case sys_rename (fst (sys_unlink fs bak)) fpath bak of
       (fs, None) \<Rightarrow> (fs, None) | (fs, Some e) \<Rightarrow> (fs, Some (Err e ''rename(%s -> %s)''))) s)"

definition rm_local_file :: "string \<Rightarrow> (merefs, unit) act" where
  "rm_local_file fpath = on_files (\<lambda>fs. case sys_unlink fs fpath of
     (fs, None) \<Rightarrow> (fs, None) | (fs, Some e) \<Rightarrow> (fs, Some (Err e ''unlink(%s)'')))"

text \<open>
  A backup that fails stops what would replace the file, in the first check of \<open>remote_is_master\<close> (the directories that precede
  it makes exist already), but not what deletes it.
\<close>

definition match_local_file :: "menv \<Rightarrow> string \<Rightarrow> string \<Rightarrow> string \<Rightarrow> (merefs, unit) act" where
  "match_local_file env fpath fname dig s =
     (let remote_file = file_search (unmatched_files s) fname;
          map_digest = map_get_digest (current_map s) fname;
          s = (case remote_file of
             None \<Rightarrow> s
           | Some f \<Rightarrow> s\<lparr>unmatched_files := remove1 f (unmatched_files s), matched_files := f # matched_files s\<rparr>);
          keep_map = (\<lambda>d. upd_me (\<lambda>s. s\<lparr>next_map := map_set fname d (next_map s)\<rparr>))
      in case (remote_file, map_digest) of
           (Some f, Some md) \<Rightarrow>
             if dig = md then
               (if dig = fl_digest f then keep_map md s else remote_is_master env f fpath s)
             else if md = fl_digest f then local_is_master env (Some f) fpath fname dig s
             else bnd (conflict env fpath) (\<lambda>_. remote_is_master env f fpath) s
         | (Some f, None) \<Rightarrow>
             if dig = fl_digest f then keep_map dig s
             else bnd (conflict env fpath) (\<lambda>_. remote_is_master env f fpath) s
         | (None, Some md) \<Rightarrow>
             if dig = md then rm_local_file fpath s
             else bnd (attempt (conflict env fpath)) (\<lambda>r. bnd (rm_local_file fpath) (\<lambda>_.
               case r of Inl e \<Rightarrow> (\<lambda>s. Done (s, Inl e)) | Inr _ \<Rightarrow> ret ())) s
         | (None, None) \<Rightarrow> local_is_master env None fpath fname dig s)"

section \<open>The local tree\<close>

text \<open>\<open>snprintf (dirpath + off, size, ...)\<close> into an array that ends somewhere.\<close>

definition snprintf_at :: "string \<Rightarrow> nat \<Rightarrow> 64 word \<Rightarrow> string \<Rightarrow> string outcome" where
  "snprintf_at arr off sz txt =
     (if sz = 0 then Done arr
      else let t = take (unat sz - 1) txt @ [NUL] in
        if off + length t \<le> length arr then Done (take off arr @ t @ drop (off + length t) arr) else Crash)"

text \<open>The size given is that of a pointer, less the length of the path.\<close>

definition room :: "nat \<Rightarrow> 64 word" where
  "room dirlen = 8 - of_nat dirlen"

definition append_name :: "nat \<Rightarrow> string \<Rightarrow> (string \<times> merefs, unit) act" where
  "append_name dirlen nm = (\<lambda>(arr, s).
     obind (snprintf_at arr dirlen (room dirlen) (CHR ''/'' # nm)) (\<lambda>arr. Done ((arr, s), Inr ())))"

definition cut_name :: "nat \<Rightarrow> (string \<times> merefs, unit) act" where
  "cut_name dirlen = (\<lambda>(arr, s). if dirlen < length arr then Done ((arr[dirlen := NUL], s), Inr ()) else Crash)"

definition on_tree :: "(string \<Rightarrow> (merefs, 'a) act) \<Rightarrow> (string \<times> merefs, 'a) act" where
  "on_tree f = (\<lambda>(arr, s). obind (f (cstr arr) s) (\<lambda>(s, r). Done ((arr, s), r)))"

definition sys_readdir_types :: "fs \<Rightarrow> string \<Rightarrow> int + (string \<times> node) list" where
  "sys_readdir_types fs path = (case resolve fs True path of
     Inl e \<Rightarrow> Inl e
   | Inr p \<Rightarrow> (case node_at fs p of
        None \<Rightarrow> Inl ENOENT
      | Some Dir \<Rightarrow> Inr ([(''.'', Dir), (''..'', Dir)] @
          map (\<lambda>(q, nd). (last q, nd)) (filter (\<lambda>(q, _). q \<noteq> [] \<and> butlast q = p) (ents fs)))
      | Some _ \<Rightarrow> Inl ENOTDIR))"

definition open_tree :: "(string \<times> merefs, (string \<times> node) list) act" where
  "open_tree = on_tree (\<lambda>dirpath s. Done (s, case sys_readdir_types (me_fs s) dirpath of
     Inl e \<Rightarrow> Inl (Err e ''opendir(%s)'') | Inr es \<Rightarrow> Inr es))"

definition match_file :: "menv \<Rightarrow> (string \<times> merefs, unit) act" where
  "match_file env = on_tree (\<lambda>dirpath s. case digest_file (e_sha1 env) (me_fs s) dirpath of
     Inl e \<Rightarrow> Done (s, Inl e)
   | Inr dig \<Rightarrow> match_local_file env dirpath (drop (local_path_len env) dirpath) dig s)"

text \<open>
  A directory is listed when it is opened. A path that leaves the array of \<open>PATH_MAX\<close> bytes is a crash, which
  bounds the depth of the recursion.
\<close>

function (sequential) traverse_dir_rec :: "menv \<Rightarrow> nat \<Rightarrow> (string \<times> merefs, unit) act"
  and scan_opened_dir :: "menv \<Rightarrow> nat \<Rightarrow> (string \<times> node) list \<Rightarrow> (string \<times> merefs, unit) act" where
  "traverse_dir_rec env dirlen = bnd open_tree (scan_opened_dir env dirlen)"
| "scan_opened_dir env dirlen [] = ret ()"
| "scan_opened_dir env dirlen ((nm, nd) # es) =
     (if take 1 nm = ''.'' then scan_opened_dir env dirlen es
      else case nd of
        Lnk t \<Rightarrow> scan_opened_dir env dirlen es
      | Dir \<Rightarrow>
          bnd (append_name dirlen nm) (\<lambda>_.
          bnd (if dirlen + 1 + length nm < PATH_MAX then traverse_dir_rec env (dirlen + 1 + length nm) else (\<lambda>_. Crash)) (\<lambda>_.
          bnd (cut_name dirlen) (\<lambda>_. scan_opened_dir env dirlen es)))
      | Reg i \<Rightarrow>
          bnd (append_name dirlen nm) (\<lambda>_.
          bnd (match_file env) (\<lambda>_.
          bnd (cut_name dirlen) (\<lambda>_. scan_opened_dir env dirlen es))))"
  by pat_completeness auto
termination
  by (relation "measures [\<lambda>x. case x of Inl (_, dirlen) \<Rightarrow> PATH_MAX - dirlen | Inr (_, dirlen, _) \<Rightarrow> PATH_MAX - dirlen,
        \<lambda>x. case x of Inl _ \<Rightarrow> 1 | Inr _ \<Rightarrow> 0,
        \<lambda>x. case x of Inl _ \<Rightarrow> 0 | Inr (_, _, es) \<Rightarrow> length es]") auto

declare traverse_dir_rec.simps [simp del] scan_opened_dir.simps [simp del]

text \<open>The array of the path, whose bytes after the path have any value.\<close>

definition traverse_local_path :: "menv \<Rightarrow> string \<Rightarrow> (merefs, unit) act" where
  "traverse_local_path env junk s =
     (if PATH_MAX \<le> length (local_path env) then Crash
      else obind (traverse_dir_rec env (local_path_len env) (array_of PATH_MAX junk (local_path env), s)) (\<lambda>((_, s), r).
        Done (s, r)))"

fun create_files :: "menv \<Rightarrow> sfile list \<Rightarrow> (merefs, unit) act" where
  "create_files env [] s = Done (s, Inr ())"
| "create_files env (f # fls) s = (case map_get_digest (current_map s) (fl_name f) of
     None \<Rightarrow>
       bnd (remote_is_master env f (snpath (local_path env @ ''/'' @ fl_name f))) (\<lambda>_.
       bnd (upd_me (\<lambda>s. s\<lparr>unmatched_files := remove1 f (unmatched_files s), matched_files := f # matched_files s\<rparr>)) (\<lambda>_.
         create_files env fls)) s
   | Some _ \<Rightarrow> bnd (on_me_mst (mdir_del_request (me_dir s) (fl_version f))) (\<lambda>_. create_files env fls) s)"

definition create_unmatched_files :: "menv \<Rightarrow> (merefs, unit) act" where
  "create_unmatched_files env s = create_files env (unmatched_files s) s"

section \<open>The program\<close>

definition merefs_pass :: "menv \<Rightarrow> string \<Rightarrow> (merefs, unit) act" where
  "merefs_pass env junk s =
     bnd read_mdir (\<lambda>_.
     bnd (upd_me (\<lambda>s. s\<lparr>next_map := []\<rparr>)) (\<lambda>_.
     bnd (traverse_local_path env junk) (\<lambda>_.
     bnd (create_unmatched_files env) (\<lambda>_.
       upd_me (\<lambda>s. s\<lparr>current_map := next_map s\<rparr>))))) (unmatch_all s)"

text \<open>\<open>others\<close> gives what happens to the files and to the folder while the program sleeps, for each pass but the last.\<close>

fun merefs_passes :: "menv \<Rightarrow> string \<Rightarrow> (mst \<Rightarrow> mst) list \<Rightarrow> (merefs, unit) act" where
  "merefs_passes env junk [] = merefs_pass env junk"
| "merefs_passes env junk (oth # others) =
     bnd (merefs_pass env junk) (\<lambda>_.
     bnd (upd_me (\<lambda>s. s\<lparr>me_st := oth (me_st s)\<rparr>)) (\<lambda>_. merefs_passes env junk others))"

definition merefs_loop :: "menv \<Rightarrow> string \<Rightarrow> (nat \<Rightarrow> string) \<Rightarrow> (mst \<Rightarrow> mst) list \<Rightarrow> (merefs, unit) act" where
  "merefs_loop env junk pads others =
     bnd (map_load env) (\<lambda>_.
     bnd read_mdir (\<lambda>_.
     bnd (merefs_passes env junk others) (\<lambda>_.
       map_save env pads)))"

definition files_begin :: "mst \<Rightarrow> nat \<Rightarrow> merefs" where
  "files_begin st mp = \<lparr>me_st = st, me_dir = mp, me_cursor = mdir_cursor_ctor, unmatched_files = [], matched_files = [],
     removed_files = [], current_map = [], next_map = [], me_drawn = 0\<rparr>"

definition merefs_main :: "menv \<Rightarrow> string \<Rightarrow> (nat \<Rightarrow> string) \<Rightarrow> (mst \<Rightarrow> mst) list \<Rightarrow> string \<Rightarrow> (mst, merefs) act" where
  "merefs_main env junk pads others tracked_mdir_name =
     bnd (do_err (\<lambda>fs. Mkdir fs (local_path env))) (\<lambda>_.
     bnd (mdir_lookup tracked_mdir_name) (\<lambda>mp st.
       obind (merefs_loop env junk pads others (files_begin st mp)) (\<lambda>(s, r).
         Done (me_st s, case r of Inl e \<Rightarrow> Inl e | Inr _ \<Rightarrow> Inr s))))"

section \<open>The lists fit their structures\<close>

definition file_fits :: "sfile \<Rightarrow> bool" where
  "file_fits f \<longleftrightarrow> length (fl_name f) < PATH_MAX \<and> length (fl_digest f) \<le> MAX_DIGEST_STRLEN \<and>
     length (fl_resource f) < PATH_MAX \<and> take 1 (fl_name f) \<noteq> ''/''"

text \<open>The map that is built has one entry for each name.\<close>

definition all_fit :: "sfile list \<Rightarrow> bool" where
  "all_fit fls \<longleftrightarrow> (\<forall>f \<in> set fls. file_fits f)"

definition lists_fit :: "merefs \<Rightarrow> bool" where
  "lists_fit s \<longleftrightarrow> all_fit (unmatched_files s) \<and> all_fit (matched_files s) \<and> all_fit (removed_files s) \<and>
     all_fit (current_map s) \<and> all_fit (next_map s) \<and> distinct (map fl_name (next_map s))"

lemma all_fit_simps [simp]: "all_fit []" "all_fit (f # fls) = (file_fits f \<and> all_fit fls)"
  "all_fit (xs @ ys) = (all_fit xs \<and> all_fit ys)"
  by (auto simp: all_fit_def)

lemma all_fit_remove1: "all_fit fls \<Longrightarrow> all_fit (remove1 f fls)"
  by (auto simp: all_fit_def dest: notin_set_remove1 [THEN contrapos_nn, rotated])

lemma all_fit_find: "all_fit fls \<Longrightarrow> find P fls = Some f \<Longrightarrow> file_fits f"
  by (auto simp: all_fit_def find_Some_iff)

definition fit_step :: "merefs \<Rightarrow> merefs \<Rightarrow> bool" where
  "fit_step s s' \<longleftrightarrow> (lists_fit s \<longrightarrow> lists_fit s')"

text \<open>While a tree is read, the array of the path holds a string.\<close>

definition tree_ok :: "string \<times> merefs \<Rightarrow> bool" where
  "tree_ok t \<longleftrightarrow> length (fst t) = PATH_MAX \<and> NUL \<in> set (fst t) \<and> lists_fit (snd t)"

definition tree_step :: "string \<times> merefs \<Rightarrow> string \<times> merefs \<Rightarrow> bool" where
  "tree_step t t' \<longleftrightarrow> (tree_ok t \<longrightarrow> tree_ok t')"

interpretation fit: state_order fit_step
  by unfold_locales (auto simp: fit_step_def)

interpretation tree: state_order tree_step
  by unfold_locales (auto simp: tree_step_def fit_step_def)

lemma sanitize_hd: "take 1 (sanitize nm) \<noteq> ''/''"
  by (induction nm) (auto simp: sanitize_def)

lemma sanitize_idem: "take 1 nm \<noteq> ''/'' \<Longrightarrow> sanitize nm = nm"
  by (cases nm) (auto simp: sanitize_def)

lemma take_hd: "0 < n \<Longrightarrow> take 1 (take n s) = take 1 s"
  by (simp add: min_def)

lemma PATH_MAX_bounds [simp]: "0 < PATH_MAX" "Suc 0 < PATH_MAX" "PATH_MAX - Suc 0 < PATH_MAX" "0 < PATH_MAX - Suc 0"
  by (simp_all add: PATH_MAX_def)

lemma file_new_fits: "all_fit fls \<Longrightarrow> all_fit (file_new nm dig r v fls)"
  using sanitize_hd [of nm] by (auto simp: file_new_def file_fits_def take_hd min_def split: option.splits)

lemma set_digest_names [simp]: "map fl_name (set_digest_of nm dig fls) = map fl_name fls"
  by (induction fls) auto

lemma file_fits_digest: "file_fits f \<Longrightarrow> file_fits (f\<lparr>fl_digest := take MAX_DIGEST_STRLEN dig\<rparr>)"
  by (simp add: file_fits_def)

lemma set_digest_fits: "all_fit fls \<Longrightarrow> all_fit (set_digest_of nm dig fls)"
  by (induction fls) (simp_all add: file_fits_digest)

lemma map_set_fits: "all_fit fls \<Longrightarrow> all_fit (map_set nm dig fls)"
  by (cases "file_search fls nm") (simp_all add: map_set_def file_new_fits set_digest_fits)

lemma find_name_none: "file_search fls nm = None \<longleftrightarrow> sanitize nm \<notin> fl_name ` set fls"
  by (force simp: file_search_def find_None_iff)

lemma map_set_distinct:
  assumes "distinct (map fl_name fls)" "length (sanitize nm) < PATH_MAX"
  shows "distinct (map fl_name (map_set nm dig fls))"
  using assms find_name_none [of fls nm] by (auto simp: map_set_def file_new_def split: option.splits)

lemma sanitize_length: "length (sanitize nm) \<le> length nm"
  by (simp add: sanitize_def length_dropWhile_le)

lemma fit_set_map:
  assumes "length nm < PATH_MAX"
  shows "within fit_step (upd_me (\<lambda>s. s\<lparr>next_map := map_set nm dig (next_map s)\<rparr>))"
  using assms map_set_fits map_set_distinct sanitize_length [of nm]
  by (auto simp: within_def upd_me_def fit_step_def lists_fit_def)

lemma fit_mst: "within fit_step (on_me_mst f)" "within fit_step (on_files g)"
  by (auto simp: within_def on_me_mst_def on_files_def fit_step_def lists_fit_def split: outcome.splits)

lemma fit_upload: "within fit_step (upload env fpath)"
  by (auto simp: within_def upload_def fit_step_def lists_fit_def obind_eq_Done)

lemma fit_conflict: "within fit_step (conflict env fpath)"
  using fit_mst(2) by (auto simp: within_def conflict_def obind_eq_Done)

lemma fit_remote_is_master: "length (fl_name f) < PATH_MAX \<Longrightarrow> within fit_step (remote_is_master env f fpath)"
  unfolding remote_is_master_def by (intro fit.within_intros fit_mst fit_set_map)

lemma fit_local_is_master:
  assumes "length fname < PATH_MAX"
  shows "within fit_step (local_is_master env r fpath fname dig)"
proof (rule withinI)
  fix s s' x assume m: "local_is_master env r fpath fname dig s = Done (s', x)"
  have "within fit_step (case known_content t dig of Some f \<Rightarrow> ret (fl_resource f) | None \<Rightarrow> upload env fpath)" for t
    by (auto split: option.splits intro: fit.within_intros fit_upload)
  moreover have "within fit_step (case r of None \<Rightarrow> ret () | Some f \<Rightarrow> on_me_mst (mdir_del_request d (fl_version f)))" for d
    by (auto split: option.splits intro: fit.within_intros fit_mst)
  ultimately show "fit_step s s'"
    using assms m unfolding local_is_master_def
    by (elim withinD [rotated]) (intro fit.within_bnd fit_mst fit_set_map)
qed

lemma matched_fits:
  "lists_fit s \<Longrightarrow> file_fits f \<Longrightarrow>
     lists_fit (s\<lparr>unmatched_files := remove1 f (unmatched_files s), matched_files := f # matched_files s\<rparr>)"
  by (simp add: lists_fit_def all_fit_remove1)

lemma fit_remove: "within fit_step (rm_local_file fpath)"
  by (simp add: rm_local_file_def fit_mst)

lemma fit_match:
  assumes "length fname < PATH_MAX"
  shows "within fit_step (match_local_file env fpath fname dig)"
proof (rule withinI)
  fix s s' x assume m: "match_local_file env fpath fname dig s = Done (s', x)"
  let ?r = "file_search (unmatched_files s) fname" and ?md = "map_get_digest (current_map s) fname"
  have d: "within fit_step (bnd (attempt (conflict env fpath)) (\<lambda>r. bnd (rm_local_file fpath) (\<lambda>_.
               case r of Inl e \<Rightarrow> (\<lambda>s. Done (s, Inl e)) | Inr _ \<Rightarrow> ret ())))"
    by (intro fit.within_intros fit_conflict fit_remove within_sum)
  have l: "within fit_step (local_is_master env r fpath fname dig)" for r by (rule fit_local_is_master [OF assms])
  have k: "within fit_step (upd_me (\<lambda>s. s\<lparr>next_map := map_set fname dd (next_map s)\<rparr>))" for dd by (rule fit_set_map [OF assms])
  show "fit_step s s'"
  proof (cases ?r)
    case None
    show ?thesis
    proof (cases ?md)
      case None
      with m \<open>?r = None\<close> show ?thesis by (auto simp: match_local_file_def dest: withinD [OF l])
    next
      case (Some md)
      with m \<open>?r = None\<close> show ?thesis
        by (auto simp: match_local_file_def Let_def split: if_splits dest: withinD [OF d] withinD [OF fit_remove])
    qed
  next
    case (Some f)
    let ?s = "s\<lparr>unmatched_files := remove1 f (unmatched_files s), matched_files := f # matched_files s\<rparr>"
    have f: "lists_fit s \<Longrightarrow> file_fits f" using Some by (auto simp: file_search_def lists_fit_def dest: all_fit_find)
    have "fit_step ?s s'" if "lists_fit s"
    proof -
      have "length (fl_name f) < PATH_MAX" using f [OF that] by (simp add: file_fits_def)
      then have r: "within fit_step (remote_is_master env f fpath)" by (rule fit_remote_is_master)
      have c: "within fit_step (bnd (conflict env fpath) (\<lambda>_. remote_is_master env f fpath))"
        by (intro fit.within_intros fit_conflict r)
      show ?thesis
      proof (cases ?md)
        case None
        with m Some show ?thesis
          by (auto simp: match_local_file_def Let_def split: if_splits dest: withinD [OF k] withinD [OF c])
      next
        case (Some md)
        with m \<open>?r = Some f\<close> show ?thesis
          by (auto simp: match_local_file_def Let_def split: if_splits dest: withinD [OF k] withinD [OF c] withinD [OF l] withinD [OF r])
      qed
    qed
    with matched_fits f show ?thesis by (auto simp: fit_step_def)
  qed
qed

lemma snprintf_ok: "snprintf_at arr off sz txt = Done b \<Longrightarrow> NUL \<in> set arr \<Longrightarrow> length b = length arr \<and> NUL \<in> set b"
  by (auto simp: snprintf_at_def Let_def split: if_splits)

lemma tree_append: "within tree_step (append_name dirlen nm)"
  using snprintf_ok by (fastforce simp: within_def append_name_def tree_step_def tree_ok_def obind_eq_Done)

lemma tree_cut: "within tree_step (cut_name dirlen)"
  by (auto simp: within_def cut_name_def tree_step_def tree_ok_def set_update_memI split: if_splits)

lemma tree_open: "within tree_step open_tree"
  by (auto simp: within_def open_tree_def on_tree_def tree_step_def)

lemma cstr_short: "NUL \<in> set b \<Longrightarrow> length (cstr b) < length b"
  unfolding cstr_def by (induction b) auto

lemma tree_match: "within tree_step (match_file env)"
proof (rule withinI)
  fix t t' x assume m: "match_file env t = Done (t', x)"
  obtain arr s where t: "t = (arr, s)" by (cases t)
  have "lists_fit s'" if b: "length arr = PATH_MAX" "NUL \<in> set arr" "lists_fit s" and
    "match_local_file env (cstr arr) (drop (local_path_len env) (cstr arr)) dig s = Done (s', r)" for s' dig r
    using that withinD [OF fit_match, of "drop (local_path_len env) (cstr arr)" env "cstr arr" dig s s' r] cstr_short [OF b(2)]
    by (auto simp: fit_step_def)
  with m t show "tree_step t t'"
    by (auto simp: match_file_def on_tree_def tree_step_def tree_ok_def obind_eq_Done split: sum.splits)
qed

lemma tree_traverse:
  "within tree_step (traverse_dir_rec env dirlen)" "within tree_step (scan_opened_dir env dirlen es)"
proof (induction env dirlen and env dirlen es rule: traverse_dir_rec_scan_opened_dir.induct)
  case (1 env dirlen)
  then show ?case by (auto simp: traverse_dir_rec.simps intro: tree.within_bnd tree_open)
next
  case (2 env dirlen)
  then show ?case by (simp add: scan_opened_dir.simps tree.within_same)
next
  case (3 env dirlen nm nd es)
  let ?after = "bnd (cut_name dirlen) (\<lambda>_. scan_opened_dir env dirlen es)"
  show ?case
  proof (cases "take 1 nm = ''.''")
    case True
    with 3 show ?thesis by (simp add: scan_opened_dir.simps)
  next
    case False
    show ?thesis
    proof (cases nd)
      case Dir
      have a: "within tree_step ?after" using "3.IH"(3) [OF False Dir] by (intro tree.within_bnd tree_cut)
      have r: "within tree_step (if dirlen + 1 + length nm < PATH_MAX then traverse_dir_rec env (dirlen + 1 + length nm) else (\<lambda>_. Crash))"
        using "3.IH"(2) [OF False Dir] by (auto simp: within_Crash)
      from False Dir tree.within_bnd [OF tree_append tree.within_bnd [OF r a]] show ?thesis by (simp add: scan_opened_dir.simps)
    next
      case (Reg i)
      have a: "within tree_step ?after" using "3.IH"(4) [OF False Reg] by (intro tree.within_bnd tree_cut)
      from False Reg tree.within_bnd [OF tree_append tree.within_bnd [OF tree_match a]] show ?thesis by (simp add: scan_opened_dir.simps)
    next
      case (Lnk t)
      with 3 False show ?thesis by (simp add: scan_opened_dir.simps)
    qed
  qed
qed

lemma length_array_of: "length s < n \<Longrightarrow> length (array_of n junk s) = n"
  by (simp add: array_of_def)

lemma fit_traverse: "within fit_step (traverse_local_path env junk)"
proof (rule withinI)
  fix s s' x assume "traverse_local_path env junk s = Done (s', x)"
  then obtain arr' where l: "length (local_path env) < PATH_MAX" and
    t: "traverse_dir_rec env (local_path_len env) (array_of PATH_MAX junk (local_path env), s) = Done ((arr', s'), x)"
    by (auto simp: traverse_local_path_def obind_eq_Done split: if_splits)
  have "NUL \<in> set (array_of PATH_MAX junk (local_path env))" by (simp add: array_of_def)
  with withinD [OF tree_traverse(1) t] length_array_of [OF l] show "fit_step s s'"
    by (auto simp: tree_step_def tree_ok_def fit_step_def)
qed

lemma fit_create: "all_fit fls \<Longrightarrow> within fit_step (create_files env fls)"
proof (induction fls)
  case Nil
  then show ?case by (simp add: within_def fit.refl)
next
  case (Cons f fls)
  let ?move = "upd_me (\<lambda>s. s\<lparr>unmatched_files := remove1 f (unmatched_files s), matched_files := f # matched_files s\<rparr>)"
  have m: "within fit_step ?move"
    using Cons.prems matched_fits by (simp add: within_def upd_me_def fit_step_def)
  have n: "length (fl_name f) < PATH_MAX" using Cons.prems by (simp add: file_fits_def)
  have c: "within fit_step (create_files env fls)" using Cons by simp
  have a: "within fit_step (bnd (remote_is_master env f p) (\<lambda>_. bnd ?move (\<lambda>_. create_files env fls)))" for p
    by (rule fit.within_bnd [OF fit_remote_is_master [OF n] fit.within_bnd [OF m c]])
  have b: "within fit_step (bnd (on_me_mst g) (\<lambda>_. create_files env fls))" for g :: "(mst, unit) act"
    by (rule fit.within_bnd [OF fit_mst(1) c])
  show ?case
  proof (rule withinI)
    fix s s' x assume "create_files env (f # fls) s = Done (s', x)"
    with withinD [OF a] withinD [OF b] show "fit_step s s'" by (auto split: option.splits)
  qed
qed

lemma fit_create_unmatched: "within fit_step (create_unmatched_files env)"
proof (rule withinI)
  fix s s' x assume m: "create_unmatched_files env s = Done (s', x)"
  have "fit_step s s'" if "lists_fit s"
    using that m withinD [OF fit_create, of "unmatched_files s" env s s' x] by (auto simp: create_unmatched_files_def lists_fit_def)
  then show "fit_step s s'" by (auto simp: fit_step_def)
qed

lemma add_remote_fits: "lists_fit s \<Longrightarrow> add_remote_file h v s = Done s' \<Longrightarrow> lists_fit s'"
proof -
  assume m: "lists_fit s" "add_remote_file h v s = Done s'"
  let ?u = "\<lambda>nm. case file_search (unmatched_files s) nm of None \<Rightarrow> unmatched_files s | Some f \<Rightarrow> file_del f (unmatched_files s)"
  have u: "all_fit (?u nm)" for nm
    using m(1) by (simp add: lists_fit_def file_del_def all_fit_remove1 split: option.splits)
  consider "s' = s" | nm d where "s' = s\<lparr>unmatched_files := file_new nm d (field_value h SC_RESOURCE_FIELD) v (?u nm)\<rparr>"
    using m(2) by (cases "field_value h SC_NAME_FIELD") (auto simp: add_remote_file_def Let_def split: if_splits)
  then show "lists_fit s'"
  proof cases
    case (2 nm d)
    from m(1) file_new_fits [OF u [of nm]] show ?thesis unfolding 2 by (auto simp: lists_fit_def)
  qed (use m in simp)
qed

lemma remove_remote_fits: "lists_fit s \<Longrightarrow> lists_fit (remove_remote_file v s)"
proof (cases "file_search_by_version (unmatched_files s) v")
  case (Some f)
  assume "lists_fit s"
  with Some show ?thesis
    by (auto simp: remove_remote_file_def lists_fit_def file_search_by_version_def all_fit_remove1 dest: all_fit_find)
qed (simp add: remove_remote_file_def)

lemma remote_call_fits: "lists_fit s \<Longrightarrow> remote_call l s = Done s' \<Longrightarrow> lists_fit s'"
  by (cases l) (auto dest: add_remote_fits remove_remote_fits)

lemma remote_calls_fits: "lists_fit s \<Longrightarrow> remote_calls ls s = Done s' \<Longrightarrow> lists_fit s'"
  by (induction ls arbitrary: s) (auto simp: obind_eq_Done dest: remote_call_fits)

lemma fit_read_mdir: "within fit_step read_mdir"
proof (rule withinI)
  fix s s' x assume m: "read_mdir s = Done (s', x)"
  have k: "lists_fit (s\<lparr>me_st := st\<rparr>) = lists_fit s" "lists_fit (s\<lparr>me_st := st, me_cursor := c\<rparr>) = lists_fit s" for st c
    by (simp_all add: lists_fit_def)
  have "lists_fit s \<Longrightarrow> remote_calls ls (s\<lparr>me_st := st, me_cursor := c\<rparr>) = Done s' \<Longrightarrow> lists_fit s'" for ls st c
    using remote_calls_fits [of "s\<lparr>me_st := st, me_cursor := c\<rparr>"] by (simp add: k)
  with m show "fit_step s s'"
    by (auto simp: read_mdir_def fit_step_def obind_eq_Done k split: outcome.splits sum.splits)
qed

lemma fit_pass: "within fit_step (merefs_pass env junk)"
proof -
  let ?rest = "bnd read_mdir (\<lambda>_. bnd (upd_me (\<lambda>s. s\<lparr>next_map := []\<rparr>)) (\<lambda>_.
     bnd (traverse_local_path env junk) (\<lambda>_. bnd (create_unmatched_files env) (\<lambda>_. upd_me (\<lambda>s. s\<lparr>current_map := next_map s\<rparr>)))))"
  have "within fit_step (upd_me (\<lambda>s. s\<lparr>next_map := []\<rparr>))" "within fit_step (upd_me (\<lambda>s. s\<lparr>current_map := next_map s\<rparr>))"
    by (simp_all add: within_def upd_me_def fit_step_def lists_fit_def)
  then have r: "within fit_step ?rest" by (intro fit.within_bnd fit_read_mdir fit_traverse fit_create_unmatched)
  have u: "fit_step s (unmatch_all s)" for s by (auto simp: fit_step_def lists_fit_def unmatch_all_def)
  show ?thesis by (rule withinI) (auto simp: merefs_pass_def dest!: withinD [OF r] intro: fit.trans [OF u])
qed

lemma fit_passes: "within fit_step (merefs_passes env junk others)"
proof (induction others)
  case (Cons oth others)
  have "within fit_step (upd_me (\<lambda>s. s\<lparr>me_st := oth (me_st s)\<rparr>))"
    by (simp add: within_def upd_me_def fit_step_def lists_fit_def)
  then show ?case unfolding merefs_passes.simps by (intro fit.within_bnd fit_pass Cons)
qed (simp add: fit_pass)

lemma load_loop_fits: "all_fit acc \<Longrightarrow> map_load_loop f acc = Done (fls, e) \<Longrightarrow> all_fit fls"
proof (induction f acc rule: map_load_loop.induct)
  case (1 f acc)
  show ?case
  proof (cases "Read [] f PATH_MAX")
    case (Inl x)
    with "1.prems" show ?thesis by (simp add: map_load_loop.simps)
  next
    case (Inr y)
    obtain path f1 where y: "y = (path, f1)" by (cases y)
    show ?thesis
    proof (cases "Read [] f1 (MAX_DIGEST_STRLEN + 1)")
      case (Inl x)
      with "1.prems" Inr y show ?thesis by (simp add: map_load_loop.simps)
    next
      case (Inr z)
      obtain dig f2 where z: "z = (dig, f2)" by (cases z)
      with "1.prems"(2) \<open>Read [] f PATH_MAX = Inr y\<close> y Inr obtain p d where
        "map_load_loop f2 (file_new p d None 0 acc) = Done (fls, e)"
        by (auto simp: map_load_loop.simps [of f] obind_eq_Done)
      with "1.IH" \<open>Read [] f PATH_MAX = Inr y\<close> y z Inr file_new_fits [OF "1.prems"(1)] show ?thesis by simp
    qed
  qed
qed

lemma fit_load: "within fit_step (map_load env)"
  by (auto simp: within_def map_load_def fit_step_def lists_fit_def obind_eq_Done dest: load_loop_fits [rotated]
      split: prod.splits sum.splits)

lemma fit_save: "within fit_step (map_save env pads)"
  by (auto simp: within_def map_save_def fit_step_def lists_fit_def split: prod.splits sum.splits)

text \<open>
  C0. Whatever the folder, the map and the local tree hold, and wherever the program stops, the names, digests and
  resources of the files it keeps fit the arrays of their structures, no name starts with a slash, and the map that
  is built has at most one entry for each name.
\<close>

theorem merefs_lists_fit:
  "case merefs_loop env junk pads others (files_begin st mp) of Done (s, r) \<Rightarrow> lists_fit s | Raised e \<Rightarrow> True | Crash \<Rightarrow> True"
proof -
  have i: "lists_fit (files_begin st mp)" by (simp add: files_begin_def lists_fit_def)
  have "within fit_step (merefs_loop env junk pads others)"
    unfolding merefs_loop_def by (intro fit.within_bnd fit_load fit_read_mdir fit_passes fit_save)
  from withinD [OF this] i show ?thesis by (auto simp: fit_step_def split: outcome.splits)
qed

section \<open>The map on disk\<close>

text \<open>What the map keeps of a file.\<close>

definition map_entry :: "sfile \<Rightarrow> sfile" where
  "map_entry f = f\<lparr>fl_resource := [], fl_version := 0\<rparr>"

definition storable :: "sfile \<Rightarrow> bool" where
  "storable f \<longleftrightarrow> file_fits f \<and> NUL \<notin> set (fl_name f) \<and> NUL \<notin> set (fl_digest f)"

definition map_text :: "(nat \<Rightarrow> string) \<Rightarrow> nat \<Rightarrow> sfile list \<Rightarrow> string" where
  "map_text junk k fls = concat (map_arrays junk k fls)"

definition RECORD_SIZE :: nat where "RECORD_SIZE = PATH_MAX + (MAX_DIGEST_STRLEN + 1)"

lemma map_text_simps [simp]:
  "map_text junk k [] = []"
  "map_text junk k (f # fls) = array_of PATH_MAX (junk k) (fl_name f) @
     array_of (MAX_DIGEST_STRLEN + 1) (junk (Suc k)) (fl_digest f) @ map_text junk (k + 2) fls"
  by (simp_all add: map_text_def)

lemma length_array_fits:
  "file_fits f \<Longrightarrow> length (array_of PATH_MAX junk (fl_name f)) = PATH_MAX"
  "file_fits f \<Longrightarrow> length (array_of (MAX_DIGEST_STRLEN + 1) junk (fl_digest f)) = MAX_DIGEST_STRLEN + 1"
  "file_fits f \<Longrightarrow> length (array_of (Suc MAX_DIGEST_STRLEN) junk (fl_digest f)) = Suc MAX_DIGEST_STRLEN"
  by (simp_all add: file_fits_def length_array_of)

lemma length_map_text: "\<forall>f \<in> set fls. file_fits f \<Longrightarrow> length (map_text junk k fls) = length fls * RECORD_SIZE"
  by (induction fls arbitrary: k) (simp_all add: length_array_fits RECORD_SIZE_def)

lemma drop_map_text:
  "\<forall>f \<in> set fls. file_fits f \<Longrightarrow> drop (n * RECORD_SIZE) (map_text junk k fls) = map_text junk (k + 2 * n) (drop n fls)"
proof (induction fls arbitrary: k n)
  case (Cons f fls)
  show ?case
  proof (cases n)
    case (Suc m)
    have "drop (Suc m * RECORD_SIZE) (map_text junk k (f # fls)) = drop (m * RECORD_SIZE) (map_text junk (k + 2) fls)"
      using Cons.prems by (simp add: length_array_fits RECORD_SIZE_def)
    with Cons Suc show ?thesis by simp
  qed simp
qed simp

lemma map_text_append: "map_text junk k (a @ b) = map_text junk k a @ map_text junk (k + 2 * length a) b"
  by (induction a arbitrary: k) simp_all

lemma map_text_cong:
  "(\<And>i. k \<le> i \<Longrightarrow> i < k + 2 * length fls \<Longrightarrow> j i = j' i) \<Longrightarrow> map_text j k fls = map_text j' k fls"
proof (induction fls arbitrary: k)
  case (Cons f fls)
  have "map_text j (k + 2) fls = map_text j' (k + 2) fls" by (rule Cons.IH) (simp add: Cons.prems)
  with Cons.prems [of k] Cons.prems [of "Suc k"] show ?case by simp
qed simp

lemma array_string_of: "NUL \<notin> set s \<Longrightarrow> array_string (array_of n junk s) = Done s"
  by (simp add: array_string_def array_of_def cstr_app)

lemma Read_next:
  "length a = n \<Longrightarrow> 0 < n \<Longrightarrow> Read [] \<lparr>bytes = pre @ a @ rest, pos = length pre, o_append = ap\<rparr> n =
     Inr (a, \<lparr>bytes = pre @ a @ rest, pos = length pre + n, o_append = ap\<rparr>)"
  by (simp add: Read_def ReadFrom_def)

lemma Read_end: "0 < n \<Longrightarrow> Read [] \<lparr>bytes = b, pos = length b, o_append = ap\<rparr> n = Inl (Err 0 ''EOF'')"
  by (simp add: Read_def ReadFrom_def)

lemma file_new_entry: "storable f \<Longrightarrow> file_new (fl_name f) (fl_digest f) None 0 fls = map_entry f # fls"
  by (cases f) (auto simp: file_new_def map_entry_def storable_def file_fits_def sanitize_idem)

lemma load_records:
  assumes "\<forall>f \<in> set fls. storable f"
  shows "map_load_loop \<lparr>bytes = pre @ map_text junk k fls, pos = length pre, o_append = ap\<rparr> acc =
     Done (rev (map map_entry fls) @ acc, None)"
  using assms
proof (induction fls arbitrary: pre k acc)
  case Nil
  then show ?case by (simp add: map_load_loop.simps Read_end)
next
  case (Cons f fls)
  let ?a = "array_of PATH_MAX (junk k) (fl_name f)" and ?b = "array_of (MAX_DIGEST_STRLEN + 1) (junk (Suc k)) (fl_digest f)"
  let ?rest = "map_text junk (k + 2) fls"
  let ?f = "\<lambda>p. \<lparr>bytes = pre @ ?a @ ?b @ ?rest, pos = p, o_append = ap\<rparr>"
  have f: "storable f" "file_fits f" using Cons.prems by (auto simp: storable_def)
  have 1: "Read [] (?f (length pre)) PATH_MAX = Inr (?a, ?f (length pre + PATH_MAX))"
    using Read_next [of ?a PATH_MAX pre "?b @ ?rest" ap] f by (simp add: length_array_fits)
  have 2: "Read [] (?f (length pre + PATH_MAX)) (MAX_DIGEST_STRLEN + 1) = Inr (?b, ?f (length pre + PATH_MAX + (MAX_DIGEST_STRLEN + 1)))"
    using Read_next [of ?b "MAX_DIGEST_STRLEN + 1" "pre @ ?a" "?rest" ap] f length_array_fits(1) [OF f(2), of "junk k"]
      length_array_fits(2) [OF f(2), of "junk (Suc k)"] by simp
  have "map_load_loop (?f (length pre + PATH_MAX + (MAX_DIGEST_STRLEN + 1))) (map_entry f # acc) =
      Done (rev (map map_entry fls) @ map_entry f # acc, None)"
    using Cons.IH [of "pre @ ?a @ ?b" "k + 2" "map_entry f # acc"] Cons.prems
      length_array_fits(1) [OF f(2), of "junk k"] length_array_fits(2) [OF f(2), of "junk (Suc k)"] by (simp add: add.assoc)
  moreover have "map_load_loop (?f (length pre)) acc =
      map_load_loop (?f (length pre + PATH_MAX + (MAX_DIGEST_STRLEN + 1))) (map_entry f # acc)"
    using f 1 2 by (subst map_load_loop.simps) (simp add: array_string_of storable_def file_new_entry)
  ultimately show ?case by simp
qed

lemma write_arrays:
  "\<exists>f. Write_strs [] (fd_of fs i False) ss = (f, None) \<and> bytes f = concat ss @ drop (length (concat ss)) (idata fs i)"
  using Write_strs_at [of "fd_of fs i False" ss] by (auto simp: fd_of_def pwrite_bytes_def)

text \<open>
  C0. The map saved at the end of a run is the map loaded by the next one, in the reverse order and whatever bytes fill the
  arrays, followed in the file, and hence preceded in the list, by the entries of a longer former map: the file is not truncated.
\<close>

theorem map_saved_loaded:
  assumes "file_at (me_fs s) (map_fname env) i" "idata (me_fs s) i = map_text old_pads 0 old"
    and "\<forall>f \<in> set (current_map s) \<union> set old. storable f"
  shows "\<exists>s'. map_save env pads s = Done (s', Inr ()) \<and> map_load env s' =
     Done (s'\<lparr>current_map := rev (map map_entry (current_map s @ drop (length (current_map s)) old))\<rparr>, Inr ())"
proof -
  let ?fs = "me_fs s" and ?c = "current_map s"
  let ?text = "map_text pads 0 ?c" and ?stale = "map_text old_pads (2 * length ?c) (drop (length ?c) old)"
  from write_arrays [of ?fs i "map_arrays pads 0 ?c"] obtain f where
    f: "Write_strs [] (fd_of ?fs i False) (map_arrays pads 0 ?c) = (f, None)" "bytes f = ?text @ drop (length ?text) (idata ?fs i)"
    by (auto simp: map_text_def)
  have fits: "\<forall>f \<in> set ?c. file_fits f" "\<forall>f \<in> set old. file_fits f" using assms(3) by (auto simp: storable_def)
  have b: "bytes f = ?text @ ?stale"
    using f(2) assms(2) drop_map_text [OF fits(2), of "length ?c" old_pads 0] length_map_text [OF fits(1), of pads 0] by simp
  let ?s' = "s\<lparr>me_st := set_fs (me_st s) (set_data ?fs i (bytes f))\<rparr>"
  have saved: "map_save env pads s = Done (?s', Inr ())"
    using f(1) sys_open_existing [OF assms(1), of False] by (simp add: map_save_def)
  have at: "file_at (me_fs ?s') (map_fname env) i"
    using assms(1) file_at_ents [of "set_data ?fs i (bytes f)" ?fs] by (simp add: set_fs_def)
  have st: "\<forall>f \<in> set ?c. storable f" "\<forall>f \<in> set (drop (length ?c) old). storable f"
    using assms(3) by (auto dest: in_set_dropD)
  let ?pads = "\<lambda>i. if i < 2 * length ?c then pads i else old_pads i"
  have "map_text ?pads 0 ?c = ?text" by (rule map_text_cong) simp
  moreover have "map_text ?pads (2 * length ?c) (drop (length ?c) old) = ?stale" by (rule map_text_cong) simp
  ultimately have "?text @ ?stale = map_text ?pads 0 (?c @ drop (length ?c) old)" by (simp add: map_text_append)
  with load_records [of "?c @ drop (length ?c) old" "[]" ?pads 0 False "[]"] st
  have "map_load_loop \<lparr>bytes = ?text @ ?stale, pos = 0, o_append = False\<rparr> [] =
      Done (rev (map map_entry (?c @ drop (length ?c) old)), None)"
    by auto
  then have "map_load env ?s' = Done (?s'\<lparr>current_map := rev (map map_entry (?c @ drop (length ?c) old))\<rparr>, Inr ())"
    using sys_open_existing [OF at, of True] b by (simp add: map_load_def fd_of_def set_fs_def)
  with saved show ?thesis by blast
qed

section \<open>Files that stay\<close>

text \<open>A tree in which files were only created.\<close>

definition grows :: "fs \<Rightarrow> fs \<Rightarrow> bool" where
  "grows fs fs' \<longleftrightarrow> (\<forall>x nd. node_at fs x = Some nd \<longrightarrow> node_at fs' x = Some nd) \<and> next_ino fs \<le> next_ino fs' \<and>
     (\<forall>i < next_ino fs. idata fs' i = idata fs i)"

definition holds_file :: "string list \<Rightarrow> nat \<Rightarrow> string \<Rightarrow> fs \<Rightarrow> bool" where
  "holds_file q i d fs \<longleftrightarrow> node_at fs q = Some (Reg i) \<and> idata fs i = d \<and> i < next_ino fs"

lemma grows_refl [simp]: "grows fs fs"
  by (simp add: grows_def)

lemma grows_trans: "grows a b \<Longrightarrow> grows b c \<Longrightarrow> grows a c"
  by (simp add: grows_def)

lemma grows_holds: "grows fs fs' \<Longrightarrow> holds_file q i d fs \<Longrightarrow> holds_file q i d fs'"
  by (auto simp: grows_def holds_file_def)

lemma grows_add: "grows fs (add_ent fs p nd)"
  by (auto simp: grows_def node_at_mono) (simp_all add: add_ent_def)

lemma grows_mkdir: "grows fs (fst (sys_mkdir fs path))"
  using grows_add [of fs] by (auto simp: sys_mkdir_def add_ent_def split: sum.splits)

lemma grows_Mkdir_all: "grows fs (fst (Mkdir_all fs ps))"
proof (induction ps arbitrary: fs)
  case (Cons p ps)
  have "fst (Mkdir_single fs p) = fst (sys_mkdir fs p)" by (auto simp: Mkdir_single_def split: prod.splits option.splits)
  with grows_mkdir [of fs p] grows_trans [OF _ Cons] show ?case by (auto split: prod.splits option.splits)
qed simp

lemma grows_Mkdir_for_file: "grows fs (fst (Mkdir_for_file fs path))"
  by (auto simp: Mkdir_for_file_def Mkdir_def Let_def grows_Mkdir_all split: option.splits)

section \<open>Last components\<close>

lemma walk_snoc:
  assumes "walk n fs False cur (cs @ [c]) = Inr p" "c \<noteq> ''..''"
  shows "\<exists>d. p = d @ [c] \<and> (\<forall>c'. c' \<noteq> ''..'' \<longrightarrow> walk n fs False cur (cs @ [c']) = Inr (d @ [c']))"
proof -
  have "walk n fs fol cur xs = Inr p \<Longrightarrow> \<not> fol \<Longrightarrow> xs = cs @ [c] \<Longrightarrow>
    \<exists>d. p = d @ [c] \<and> (\<forall>c'. c' \<noteq> ''..'' \<longrightarrow> walk n fs False cur (cs @ [c']) = Inr (d @ [c']))" for fol xs
  proof (induction n fs fol cur xs arbitrary: cs rule: walk.induct)
    case (2 n fs fol cur x xs)
    show ?case
    proof (cases cs)
      case Nil
      with 2 assms(2) have x: "x = c" "xs = []" "p = cur @ [c]"
        by (auto split: option.splits node.splits if_splits)
      have "walk n fs False cur [c'] = Inr (cur @ [c'])" if "c' \<noteq> ''..''" for c'
        using that by (auto split: option.splits node.splits)
      with x Nil show ?thesis by auto
    next
      case (Cons y ys)
      with "2.prems" have x: "x = y" "xs = ys @ [c]" by auto
      show ?thesis
      proof (cases "x = ''..''")
        case True
        with "2.IH"(1) [OF True, of ys] "2.prems" x Cons show ?thesis by simp
      next
        case False
        show ?thesis
        proof (cases "node_at fs (cur @ [x])")
          case None
          with "2.prems" x False show ?thesis by simp
        next
          case (Some nd)
          show ?thesis
          proof (cases nd)
            case Dir
            with "2.IH"(2) [OF False Some Dir, of ys] "2.prems" x Cons False Some show ?thesis by simp
          next
            case (Reg k)
            with "2.prems" x False Some show ?thesis by simp
          next
            case (Lnk t)
            with "2.prems" x False Some have "n \<noteq> 0" by (auto split: if_splits)
            with Lnk "2.IH"(3) [OF False Some Lnk, of "comps t @ ys"] "2.prems" x Cons False Some show ?thesis by simp
          qed
        qed
      qed
    qed
  qed simp
  from this [OF assms(1)] show ?thesis by simp
qed

lemma node_at_remove: "q \<noteq> [] \<Longrightarrow> node_at (remove_ent q fs) x = (if x = q then None else node_at fs x)"
proof -
  have "map_of (filter (\<lambda>(k, _). k \<noteq> q) es) x = (if x = q then None else map_of es x)" for es :: "(string list \<times> node) list"
    by (induction es) auto
  then show "q \<noteq> [] \<Longrightarrow> node_at (remove_ent q fs) x = (if x = q then None else node_at fs x)"
    by (auto simp: node_at_def remove_ent_def)
qed

lemma walk_remove:
  assumes "walk n (remove_ent q fs) fol cur cs = Inr r" "\<not> fol" "node_at fs q \<noteq> Some Dir" "q \<noteq> []"
  shows "walk n fs fol cur cs = Inr r"
  using assms
proof (induction n fs fol cur cs rule: walk.induct)
  case (2 n fs fol cur x xs)
  note rem = node_at_remove [OF "2.prems"(4), of fs]
  show ?case
  proof (cases "x = ''..''")
    case True
    with 2 show ?thesis by simp
  next
    case False
    show ?thesis
    proof (cases "cur @ [x] = q")
      case True
      with "2.prems" rem [of q] False show ?thesis by (auto split: if_splits option.splits node.splits)
    next
      case no: False
      show ?thesis
      proof (cases "node_at fs (cur @ [x])")
        case None
        with no rem "2.prems" False show ?thesis by simp
      next
        case (Some nd)
        with no rem 2 False show ?thesis by (cases nd) (simp_all split: if_splits)
      qed
    qed
  qed
qed simp

text \<open>The final link of a path is not followed when there is none.\<close>

lemma walk_follow:
  assumes "walk n fs fol cur cs = w" "\<not> fol" "\<And>r t. w = Inr r \<Longrightarrow> node_at fs r \<noteq> Some (Lnk t)"
  shows "walk n fs True cur cs = w"
  using assms
proof (induction n fs fol cur cs arbitrary: w rule: walk.induct)
  case (2 n fs fol cur x xs)
  show ?case
  proof (cases "x = ''..''")
    case True
    with 2 show ?thesis by simp
  next
    case False
    show ?thesis
    proof (cases "node_at fs (cur @ [x])")
      case None
      with "2.prems" False show ?thesis by auto
    next
      case (Some nd)
      show ?thesis
      proof (cases nd)
        case (Lnk t)
        let ?cur = "if take 1 t = ''/'' then [] else cur"
        show ?thesis
        proof (cases "(xs = [] \<and> \<not> fol) \<or> n = 0")
          case True
          with "2.prems" Some Lnk False show ?thesis by (auto split: if_splits)
        next
          case go: False
          with "2.prems" Some Lnk False have "walk (n - 1) fs fol ?cur (comps t @ xs) = w" by simp
          from "2.IH"(3) [OF False Some Lnk _ _ this] go "2.prems" Some Lnk False show ?thesis by auto
        qed
      qed (use 2 False Some in auto)
    qed
  qed
qed simp

lemma resolve_last:
  assumes "resolve fs False path = Inr p" "comps path = cs @ [c]" "c \<noteq> ''..''"
  shows "p \<noteq> []" "last p = c"
  using assms walk_snoc [of MAXSYMLINKS fs "[]" cs c p] by (auto simp: resolve_def split: if_splits)

lemma unlink_other:
  assumes "holds_file q i d fs" "comps path = cs @ [c]" "c \<noteq> ''..''" "c \<noteq> last q"
  shows "holds_file q i d (fst (sys_unlink fs path))"
proof (cases "resolve fs False path")
  case (Inr p)
  from resolve_last [OF Inr assms(2,3)] assms(4) have "p \<noteq> []" "p \<noteq> q" by auto
  with assms(1) Inr node_at_remove [of p fs] show ?thesis
    by (auto simp: sys_unlink_def holds_file_def remove_ent_def split: option.splits node.splits)
qed (use assms in \<open>simp add: sys_unlink_def\<close>)

lemma unlinked_gone:
  assumes "sys_unlink fs path = (fs', e)" "e = None \<or> e = Some ENOENT" "resolve fs' False path = Inr r" "comps path = cs @ [c]" "c \<noteq> ''..''"
  shows "node_at fs' r = None"
proof (cases "resolve fs False path")
  case (Inl x)
  with assms show ?thesis by (auto simp: sys_unlink_def)
next
  case (Inr p)
  have p: "p \<noteq> []" using resolve_last [OF Inr assms(4,5)] by simp
  show ?thesis
  proof (cases "node_at fs p")
    case None
    with Inr assms show ?thesis by (auto simp: sys_unlink_def)
  next
    case (Some nd)
    with Inr assms(1,2) have fs': "fs' = remove_ent p fs" "nd \<noteq> Dir"
      by (auto simp: sys_unlink_def ENOENT_def EISDIR_def split: node.splits)
    then have "walk MAXSYMLINKS fs False [] (comps path) = Inr r"
      using walk_remove [of MAXSYMLINKS p fs False "[]" "comps path" r] assms(3) Some p by (auto simp: resolve_def split: if_splits)
    with Inr have "r = p" by (auto simp: resolve_def split: if_splits)
    with fs' node_at_remove [OF p] show ?thesis by simp
  qed
qed

lemma resolve_follow:
  assumes "resolve fs False path = w" "\<And>r t. w = Inr r \<Longrightarrow> node_at fs r \<noteq> Some (Lnk t)"
  shows "resolve fs True path = w"
  using assms walk_follow [of MAXSYMLINKS fs False "[]" "comps path" w] by (auto simp: resolve_def split: if_splits)

text \<open>Creating a file where there is none.\<close>

lemma grows_creat:
  assumes "\<And>r. resolve fs False path = Inr r \<Longrightarrow> node_at fs r = None" "sys_open True False True fs path = (fs', x)"
  shows "grows fs fs'" "x = Inr k \<Longrightarrow> next_ino fs \<le> k"
proof -
  have f: "resolve fs True path = resolve fs False path" using resolve_follow [OF refl] assms(1) by fastforce
  have "grows fs fs' \<and> (\<forall>k. x = Inr k \<longrightarrow> next_ino fs \<le> k)"
  proof (cases "resolve fs False path")
    case (Inr r)
    with assms f have "ents fs' = ents (add_ent fs r (Reg (next_ino fs)))" "next_ino fs' = Suc (next_ino fs)"
      "idata fs' = (idata fs)(next_ino fs := [])" "x = Inr (next_ino fs)"
      by (auto simp: sys_open_def Let_def add_ent_def)
    moreover from this have "node_at fs' = node_at (add_ent fs r (Reg (next_ino fs)))" by (auto simp: node_at_def)
    ultimately show ?thesis by (simp add: grows_def node_at_mono)
  qed (use assms f in \<open>auto simp: sys_open_def\<close>)
  then show "grows fs fs'" "x = Inr k \<Longrightarrow> next_ino fs \<le> k" by auto
qed

lemma holds_set_data: "holds_file q i d fs \<Longrightarrow> k \<noteq> i \<Longrightarrow> holds_file q i d (set_data fs k b)"
  by (auto simp: holds_file_def node_at_def split: if_splits)

lemma copy_input_holds: "holds_file q i d fs \<Longrightarrow> k \<noteq> i \<Longrightarrow> holds_file q i d (fst (copy_input inp k fs))"
  by (auto simp: copy_input_def holds_set_data split: sum.splits prod.splits)

lemma copy_from_cache_holds:
  assumes "holds_file q i d fs" "\<And>r. resolve fs False path = Inr r \<Longrightarrow> node_at fs r = None"
  shows "holds_file q i d (fst (copy_from_cache cache path fs))"
proof -
  obtain fs' x where o: "sys_open True False True fs path = (fs', x)" by (cases "sys_open True False True fs path")
  note g = grows_creat [OF assms(2) o]
  have h: "holds_file q i d fs'" using grows_holds [OF g(1) assms(1)] by simp
  show ?thesis
  proof (cases x)
    case (Inr k)
    then have "k \<noteq> i" using g(2) assms(1) by (auto simp: holds_file_def)
    with o Inr h copy_input_holds [OF h] show ?thesis by (auto simp: copy_from_cache_def split: sum.splits)
  qed (use o h in \<open>simp add: copy_from_cache_def\<close>)
qed

lemma grows_link: "grows fs (fst (sys_link he fs old new))"
  by (auto simp: sys_link_def grows_add split: sum.splits option.splits node.splits)

lemma link_failed: "sys_link he fs old new = (fs', Some e) \<Longrightarrow> fs' = fs"
  by (auto simp: sys_link_def split: sum.splits option.splits node.splits if_splits)

definition creates_only :: "exchange \<Rightarrow> bool" where
  "creates_only fetch \<longleftrightarrow> (\<forall>nm fs. grows fs (fst (fetch nm fs)))"

lemma get_file_holds:
  assumes "holds_file q i d fs" "creates_only fetch" "comps (cache_path root nm) = cs @ [c]" "c \<noteq> ''..''" "c \<noteq> last q"
  shows "holds_file q i d (fst (chn_get_file root (Some fetch) nm fs))"
proof -
  have f: "holds_file q i d (fst (fetch nm fs))" using grows_holds [OF _ assms(1)] assms(2) by (simp add: creates_only_def)
  obtain fs' e where fe: "fetch nm fs = (fs', e)" by (cases "fetch nm fs")
  have "holds_file q i d (fst (sys_unlink fs' (cache_path root nm)))"
    by (rule unlink_other [OF _ assms(3-5)]) (use f fe in simp)
  with assms(1) f fe show ?thesis
    by (auto simp: chn_get_file_def Let_def split: sum.splits option.splits prod.splits)
qed

lemma install_holds:
  assumes "holds_file q i d fs" "creates_only (e_fetch env)"
    and "comps (cache_path (files_root env) rsc) = cs @ [c]" "c \<noteq> ''..''" "c \<noteq> last q"
    and "comps fpath = ds @ [b]" "b \<noteq> ''..''" "b \<noteq> last q"
  shows "holds_file q i d (fst (install env rsc fpath fs))"
proof -
  obtain fs1 e1 where 1: "Mkdir_for_file fs fpath = (fs1, e1)" by (cases "Mkdir_for_file fs fpath")
  obtain fs2 e2 where 2: "chn_get_file (files_root env) (Some (e_fetch env)) rsc fs1 = (fs2, e2)"
    by (cases "chn_get_file (files_root env) (Some (e_fetch env)) rsc fs1")
  obtain fs3 e3 where 3: "sys_unlink fs2 fpath = (fs3, e3)" by (cases "sys_unlink fs2 fpath")
  have h1: "holds_file q i d fs1" using grows_holds [OF grows_Mkdir_for_file [of fs fpath] assms(1)] 1 by simp
  have h2: "holds_file q i d fs2" using get_file_holds [OF h1 assms(2-5)] 2 by simp
  have h3: "holds_file q i d fs3" using unlink_other [OF h2 assms(6-8)] 3 by simp
  show ?thesis
  proof (cases "e1 \<noteq> None \<or> (\<exists>e. e2 = Inl e) \<or> (e3 \<noteq> None \<and> e3 \<noteq> Some ENOENT)")
    case True
    with 1 2 3 h1 h2 h3 show ?thesis by (cases e1; cases e2) (auto simp: install_def)
  next
    case False
    then obtain cache where e: "e1 = None" "e2 = Inr cache" "e3 = None \<or> e3 = Some ENOENT" by (cases e2) auto
    obtain fs4 e4 where 4: "sys_link (link_errno env cache fpath) fs3 cache fpath = (fs4, e4)"
      by (cases "sys_link (link_errno env cache fpath) fs3 cache fpath")
    have h4: "holds_file q i d fs4" using grows_holds [OF grows_link [of fs3 "link_errno env cache fpath" cache fpath] h3] 4 by simp
    have "holds_file q i d (fst (copy_from_cache cache fpath fs3))"
      using copy_from_cache_holds [OF h3] unlinked_gone [OF 3 e(3) _ assms(6,7)] by blast
    moreover have "e4 \<noteq> None \<Longrightarrow> fs4 = fs3" using 4 link_failed by auto
    ultimately show ?thesis using 1 2 3 4 e h4 by (auto simp: install_def split: option.splits)
  qed
qed

section \<open>Backups\<close>

lemma shift_name_run:
  "pre \<noteq> [] \<Longrightarrow> last pre = CHR ''/'' \<Longrightarrow> CHR ''/'' \<notin> set w \<Longrightarrow> low < length pre \<Longrightarrow>
     shift_name low (length pre + length w) (pre @ w @ x # rest) = pre @ CHR ''.'' # w @ rest"
proof (induction w arbitrary: x rest rule: rev_induct)
  case Nil
  then obtain ps where "pre = ps @ [CHR ''/'']" by (metis append_butlast_last_id)
  then show ?case by (simp add: nth_append list_update_append)
next
  case (snoc y w)
  let ?c = "length pre + length w"
  have "(pre @ (w @ [y]) @ x # rest) ! ?c = y" by (simp add: nth_append)
  moreover have "(pre @ (w @ [y]) @ x # rest)[Suc ?c := y] = pre @ w @ y # (y # rest)"
    by (simp add: list_update_append)
  ultimately show ?case using snoc by auto
qed

text \<open>The backup of a file has its name, hidden by a dot.\<close>

lemma backup_name_eq:
  assumes "fpath = dir @ ''/'' @ nm" "CHR ''/'' \<notin> set nm" "NUL \<notin> set fpath" "local_path_len env \<le> length dir"
    and "backup_name env fpath = Done bak"
  shows "bak = dir @ ''/'' @ CHR ''.'' # nm"
proof -
  have "shift_name (local_path_len env) (length fpath + 1) (fpath @ [NUL, NUL]) = (dir @ ''/'') @ CHR ''.'' # (nm @ [NUL]) @ []"
    using shift_name_run [of "dir @ ''/''" "nm @ [NUL]" "local_path_len env" NUL "[]"] assms by simp
  moreover have "cstr ((dir @ ''/'') @ CHR ''.'' # (nm @ [NUL]) @ []) = dir @ ''/'' @ CHR ''.'' # nm"
    using cstr_app [of "dir @ ''/'' @ CHR ''.'' # nm" "[]"] assms by simp
  ultimately show ?thesis using assms(5) by (auto simp: backup_name_def split: if_splits)
qed

lemma map_of_moved:
  assumes "map_of es p = Some nd" "map_of es q = None"
  shows "map_of (map (\<lambda>(r, nd). (if take (length p) r = p then q @ drop (length p) r else r, nd)) es) q = Some nd"
  using assms
proof (induction es)
  case (Cons e es)
  obtain r x where e: "e = (r, x)" by (cases e)
  show ?case
  proof (cases "r = p")
    case True
    with Cons.prems e show ?thesis by simp
  next
    case False
    have "r \<noteq> q" using Cons.prems(2) e by auto
    moreover have "q @ drop (length p) r \<noteq> q" if "take (length p) r = p"
      using that False by (metis append_Nil2 append_take_drop_id append_self_conv)
    ultimately show ?thesis using Cons e False by (auto split: if_splits)
  qed
qed simp

lemma move_holds:
  assumes "holds_file p i d fs" "node_at fs q = None" "p \<noteq> []"
  shows "holds_file q i d (move_ents p q fs)"
  using assms map_of_moved [of "ents fs" p "Reg i" q]
  by (auto simp: holds_file_def node_at_def move_ents_def split: if_splits)

text \<open>
  The two calls of a backup: either the file has its hidden name, or it keeps its own, and then the path does not lead to it
  any more (its own backup was one of its directories) or the hidden name is that of a directory.
\<close>

definition backup :: "string \<Rightarrow> string \<Rightarrow> fs \<Rightarrow> fs \<times> int option" where
  "backup fpath bak fs = sys_rename (fst (sys_unlink fs bak)) fpath bak"

lemma unlink_cases:
  assumes "resolve fs False bak = Inr q"
  shows "(fst (sys_unlink fs bak) = fs \<and> (node_at fs q = None \<or> node_at fs q = Some Dir)) \<or>
    (fst (sys_unlink fs bak) = remove_ent q fs \<and> node_at fs q \<noteq> Some Dir)"
  using assms by (auto simp: sys_unlink_def split: option.splits node.splits)

lemma siblings:
  assumes "resolve fs False (dir @ ''/'' @ a) = Inr p" "plain_name a" "plain_name b"
  shows "\<exists>e. p = e @ [a] \<and> resolve fs False (dir @ ''/'' @ b) = Inr (e @ [b])"
proof -
  have "walk MAXSYMLINKS fs False [] (comps dir @ [a]) = Inr p"
    using assms(1) comps_child [OF assms(2), of dir] by (simp add: resolve_def)
  moreover have "a \<noteq> ''..''" "b \<noteq> ''..''" using assms(2,3) by (auto simp: plain_name_def)
  ultimately obtain e where "p = e @ [a]" "walk MAXSYMLINKS fs False [] (comps dir @ [b]) = Inr (e @ [b])"
    using walk_snoc by blast
  then show ?thesis using comps_child [OF assms(3), of dir] by (simp add: resolve_def)
qed

lemma backup_effect:
  assumes "resolve fs False (dir @ ''/'' @ a) = Inr p" "plain_name a" "plain_name b" "a \<noteq> b" "holds_file p i d fs"
    and "q = butlast p @ [b]" "backup (dir @ ''/'' @ a) (dir @ ''/'' @ b) fs = (fs', e)"
  shows "(e = None \<and> holds_file q i d fs') \<or>
    (e \<noteq> None \<and> holds_file p i d fs' \<and> (node_at fs q = Some Dir \<or> (\<exists>x. resolve fs' False (dir @ ''/'' @ a) = Inl x)))"
proof -
  let ?f = "dir @ ''/'' @ a" and ?b = "dir @ ''/'' @ b" and ?fs = "fst (sys_unlink fs (dir @ ''/'' @ b))"
  obtain c where c: "p = c @ [a]" "resolve fs False ?b = Inr (c @ [b])" using siblings [OF assms(1-3)] by blast
  have q: "q = c @ [b]" "q \<noteq> []" "p \<noteq> []" "p \<noteq> q" "take (length p) q \<noteq> p" using assms(4,6) c by auto
  have u: "(?fs = fs \<and> (node_at fs q = None \<or> node_at fs q = Some Dir)) \<or> (?fs = remove_ent q fs \<and> node_at fs q \<noteq> Some Dir)"
    using unlink_cases [OF c(2)] q(1) by simp
  have h: "holds_file p i d ?fs" using u assms(5) q node_at_remove [of q fs p] by (auto simp: holds_file_def remove_ent_def)
  have nq: "node_at ?fs q = None \<or> (?fs = fs \<and> node_at fs q = Some Dir)" using u q node_at_remove [of q fs q] by auto
  show ?thesis
  proof (cases "resolve ?fs False ?f")
    case (Inl x)
    with assms(7) h show ?thesis by (auto simp: backup_def sys_rename_def split: sum.splits)
  next
    case (Inr p')
    have "p' = p"
      using Inr u assms(1) walk_remove [of MAXSYMLINKS q fs False "[]" "comps ?f" p'] q
      by (auto simp: resolve_def split: if_splits)
    with siblings [OF Inr assms(2,3)] c q have b: "resolve ?fs False ?b = Inr q" by auto
    have np: "node_at ?fs p = Some (Reg i)" using h by (simp add: holds_file_def)
    from nq show ?thesis
    proof
      assume n: "node_at ?fs q = None"
      with assms(7) Inr \<open>p' = p\<close> b np q have "e = None" "fs' = move_ents p q ?fs"
        by (auto simp: backup_def sys_rename_def)
      with move_holds [OF h n q(3)] show ?thesis by simp
    next
      assume n: "?fs = fs \<and> node_at fs q = Some Dir"
      with assms(7) Inr \<open>p' = p\<close> b np q have "e = Some EISDIR" "fs' = fs"
        by (auto simp: backup_def sys_rename_def)
      with n h show ?thesis by auto
    qed
  qed
qed

section \<open>Conflicts\<close>

text \<open>
  A local file that is neither what the map says nor what the remote file is, when one of these is
  known and they do not agree: it was changed, and the remote file was changed, removed or added.
\<close>

definition conflicting :: "merefs \<Rightarrow> string \<Rightarrow> string \<Rightarrow> bool" where
  "conflicting s fname dig \<longleftrightarrow> (case (file_search (unmatched_files s) fname, map_get_digest (current_map s) fname) of
     (None, None) \<Rightarrow> False
   | (None, Some md) \<Rightarrow> dig \<noteq> md
   | (Some f, None) \<Rightarrow> dig \<noteq> fl_digest f
   | (Some f, Some md) \<Rightarrow> dig \<noteq> md \<and> md \<noteq> fl_digest f)"

lemma on_files_Done: "on_files f s = Done (s', r) \<Longrightarrow>
    me_fs s' = fst (f (me_fs s)) \<and> (r = Inr () \<longleftrightarrow> snd (f (me_fs s)) = None)"
  by (auto simp: on_files_def on_me_mst_def do_err_def set_fs_def split: prod.splits option.splits)

lemma conflict_effect:
  assumes "conflict env fpath s = Done (s', r)" "fpath = dir @ ''/'' @ nm" "plain_name nm" "hd nm \<noteq> CHR ''.''" "NUL \<notin> set fpath"
    "local_path_len env \<le> length dir" "resolve (me_fs s) False fpath = Inr p" "holds_file p i d (me_fs s)"
    "q = butlast p @ [CHR ''.'' # nm]"
  shows "(r = Inr () \<and> holds_file q i d (me_fs s')) \<or>
    (r \<noteq> Inr () \<and> holds_file p i d (me_fs s') \<and> (node_at (me_fs s) q = Some Dir \<or> (\<exists>x. resolve (me_fs s') False fpath = Inl x)))"
proof -
  have b: "plain_name (CHR ''.'' # nm)" "nm \<noteq> CHR ''.'' # nm" using assms(3,4) by (cases nm; auto simp: plain_name_def)+
  from assms(1) obtain bak where bak: "backup_name env fpath = Done bak" by (auto simp: conflict_def obind_eq_Done)
  then have bk: "bak = dir @ ''/'' @ CHR ''.'' # nm"
    using backup_name_eq [OF assms(2) _ assms(5,6)] assms(3) by (simp add: plain_name_def)
  obtain fs' e where e: "backup fpath bak (me_fs s) = (fs', e)" by (cases "backup fpath bak (me_fs s)")
  have "me_fs s' = fs'" "r = Inr () \<longleftrightarrow> e = None"
    using assms(1) bak e on_files_Done [of _ s s' r] by (auto simp: conflict_def backup_def split: option.splits)
  with backup_effect [of "me_fs s" dir nm p "CHR ''.'' # nm" i d q fs' e] assms b bk e show ?thesis by auto
qed

text \<open>The file of the cache for a remote file does not have the hidden name of the local one.\<close>

definition apart :: "menv \<Rightarrow> string \<Rightarrow> sfile \<Rightarrow> bool" where
  "apart env nm f \<longleftrightarrow> (let cs = comps (cache_path (files_root env) (fl_resource f)) in
     cs \<noteq> [] \<and> last cs \<noteq> ''..'' \<and> last cs \<noteq> CHR ''.'' # nm)"

lemma replace_holds:
  assumes "holds_file q i d (me_fs s)" "creates_only (e_fetch env)" "apart env nm f" "last q = CHR ''.'' # nm"
    "fpath = dir @ ''/'' @ nm" "plain_name nm" "remote_is_master env f fpath s = Done (s', r)"
  shows "holds_file q i d (me_fs s')"
proof -
  let ?cs = "comps (cache_path (files_root env) (fl_resource f))"
  have c: "?cs = butlast ?cs @ [last ?cs]" "last ?cs \<noteq> ''..''" "last ?cs \<noteq> last q"
    using assms(3,4) by (auto simp: apart_def Let_def)
  have b: "comps fpath = comps dir @ [nm]" "nm \<noteq> ''..''" "nm \<noteq> last q"
    using comps_child [OF assms(6)] assms(4-6) by (auto simp: plain_name_def)
  have h: "holds_file q i d (fst (install env (fl_resource f) fpath (me_fs s)))"
    by (rule install_holds [OF assms(1,2) c b])
  from assms(7) obtain t x where t: "on_files (install env (fl_resource f) fpath) s = Done (t, x)" "me_fs s' = me_fs t"
    unfolding remote_is_master_def bnd_def by (auto simp: upd_me_def split: outcome.splits sum.splits)
  with on_files_Done [OF t(1)] h show ?thesis by simp
qed

lemma remove_holds:
  assumes "holds_file q i d (me_fs s)" "last q = CHR ''.'' # nm" "fpath = dir @ ''/'' @ nm" "plain_name nm"
    "rm_local_file fpath s = Done (s', r)"
  shows "holds_file q i d (me_fs s')"
proof -
  have "holds_file q i d (fst (sys_unlink (me_fs s) fpath))"
    using unlink_other [OF assms(1) _ _ , of fpath "comps dir" nm] comps_child [OF assms(4)] assms(2-4) by (auto simp: plain_name_def)
  with on_files_Done [of _ s s' r] assms(5) show ?thesis
    by (auto simp: rm_local_file_def split: prod.splits option.splits)
qed

lemma remove_unresolved:
  "resolve (me_fs s) False fpath = Inl x \<Longrightarrow> rm_local_file fpath s = Done (s', r) \<Longrightarrow> me_fs s' = me_fs s"
  using on_files_Done [of _ s s' r] by (auto simp: rm_local_file_def sys_unlink_def)

text \<open>
  C0. A local change is not lost when it meets a remote one: after a file that differs both from what the map
  says and from the remote file was handled, its content is still under its name, or under its name hidden by a
  dot, whatever the errors. It is assumed that a transfer only creates files, that the resource does not
  have that hidden name in the cache, and, when the remote file was removed, that no directory has the hidden name.
\<close>

theorem conflict_kept:
  assumes "match_local_file env fpath fname dig s = Done (s', r)" "conflicting s fname dig"
    and "fpath = dir @ ''/'' @ nm" "plain_name nm" "hd nm \<noteq> CHR ''.''" "NUL \<notin> set fpath" "local_path_len env \<le> length dir"
    and "resolve (me_fs s) False fpath = Inr p" "holds_file p i d (me_fs s)" "creates_only (e_fetch env)"
    and "\<forall>f. file_search (unmatched_files s) fname = Some f \<longrightarrow> apart env nm f"
    and "file_search (unmatched_files s) fname = None \<longrightarrow> node_at (me_fs s) (butlast p @ [CHR ''.'' # nm]) \<noteq> Some Dir"
  shows "holds_file p i d (me_fs s') \<or> holds_file (butlast p @ [CHR ''.'' # nm]) i d (me_fs s')"
proof -
  define q where "q = butlast p @ [CHR ''.'' # nm]"
  have lq: "last q = CHR ''.'' # nm" by (simp add: q_def)
  note eff = conflict_effect [OF _ assms(3-7) _ _ q_def]
  show ?thesis
  proof (cases "file_search (unmatched_files s) fname")
    case (Some f)
    let ?s = "s\<lparr>unmatched_files := remove1 f (unmatched_files s), matched_files := f # matched_files s\<rparr>"
    have "bnd (conflict env fpath) (\<lambda>_. remote_is_master env f fpath) ?s = Done (s', r)"
      using assms(1,2) Some by (auto simp: match_local_file_def conflicting_def Let_def split: option.splits if_splits)
    then consider e where "conflict env fpath ?s = Done (s', Inl e)" |
      t where "conflict env fpath ?s = Done (t, Inr ())" "remote_is_master env f fpath t = Done (s', r)"
      by (auto simp: bnd_def split: outcome.splits sum.splits)
    then show ?thesis
    proof cases
      case 1
      from eff [OF 1] assms(8,9) show ?thesis by (auto simp: q_def)
    next
      case 2
      from eff [OF 2(1)] assms(8,9) have "holds_file q i d (me_fs t)" by auto
      from replace_holds [OF this assms(10) _ lq assms(3,4) 2(2)] assms(11) Some show ?thesis by (simp add: q_def)
    qed
  next
    case None
    from None assms(1,2) have m: "bnd (attempt (conflict env fpath)) (\<lambda>r. bnd (rm_local_file fpath) (\<lambda>_.
        case r of Inl e \<Rightarrow> (\<lambda>s. Done (s, Inl e)) | Inr _ \<Rightarrow> ret ())) s = Done (s', r)"
      by (auto simp: match_local_file_def conflicting_def Let_def split: option.splits if_splits)
    then obtain t x where t: "conflict env fpath s = Done (t, x)"
      by (auto simp: bnd_def attempt_def split: outcome.splits)
    with m have "bnd (rm_local_file fpath) (\<lambda>_. case x of Inl e \<Rightarrow> (\<lambda>s. Done (s, Inl e)) | Inr _ \<Rightarrow> ret ()) t = Done (s', r)"
      by (simp add: bnd_def [of "attempt _"] attempt_def)
    then obtain y where y: "rm_local_file fpath t = Done (s', y)"
      by (cases x) (auto simp: bnd_def split: outcome.splits sum.splits)
    from eff [OF t assms(8,9)] None assms(12) consider "holds_file q i d (me_fs t)" |
      z where "holds_file p i d (me_fs t)" "resolve (me_fs t) False fpath = Inl z" by (auto simp: q_def)
    then show ?thesis
    proof cases
      case 1
      from remove_holds [OF 1 lq assms(3,4) y] show ?thesis by (simp add: q_def)
    next
      case 2
      with remove_unresolved [OF 2(2) y] show ?thesis by simp
    qed
  qed
qed

text \<open>
  C0. The backup that fails does not stop the removal: when a file changed locally was removed remotely and a directory has
  the hidden name, the error of the backup is reported and the changed file is deleted.
\<close>

theorem backup_directory_loses_file:
  assumes "file_search (unmatched_files s) fname = None" "map_get_digest (current_map s) fname = Some md" "dig \<noteq> md"
    and "fpath = dir @ ''/'' @ nm" "plain_name nm" "hd nm \<noteq> CHR ''.''" "NUL \<notin> set fpath" "local_path_len env \<le> length dir"
    and "length fpath + 1 < PATH_MAX" "resolve (me_fs s) False fpath = Inr p" "node_at (me_fs s) p = Some (Reg i)"
    and "node_at (me_fs s) (butlast p @ [CHR ''.'' # nm]) = Some Dir"
  shows "\<exists>s'. match_local_file env fpath fname dig s = Done (s', Inl (Err EISDIR ''rename(%s -> %s)'')) \<and>
    me_fs s' = remove_ent p (me_fs s)"
proof -
  let ?fs = "me_fs s" and ?q = "butlast p @ [CHR ''.'' # nm]"
  have b: "plain_name (CHR ''.'' # nm)" using assms(5,6) by (cases nm) (auto simp: plain_name_def)
  obtain c where c: "p = c @ [nm]" "resolve ?fs False (dir @ ''/'' @ CHR ''.'' # nm) = Inr (c @ [CHR ''.'' # nm])"
    using siblings [OF _ assms(5) b] assms(4,10) by blast
  obtain bak where bak: "backup_name env fpath = Done bak" using assms(9) by (simp add: backup_name_def)
  have bk: "bak = dir @ ''/'' @ CHR ''.'' # nm"
    using backup_name_eq [OF assms(4) _ assms(7,8) bak] assms(5) by (simp add: plain_name_def)
  have u: "fst (sys_unlink ?fs bak) = ?fs" using c assms(12) bk by (auto simp: sys_unlink_def)
  have "sys_rename ?fs fpath bak = (?fs, Some EISDIR)"
    using c assms(10-12) bk by (auto simp: sys_rename_def)
  then have "conflict env fpath s = Done (s, Inl (Err EISDIR ''rename(%s -> %s)''))"
    using bak u by (simp add: conflict_def on_files_def on_me_mst_def do_err_def set_fs_def)
  moreover have "sys_unlink ?fs fpath = (remove_ent p ?fs, None)" using assms(10,11) by (simp add: sys_unlink_def)
  then have "rm_local_file fpath s = Done (s\<lparr>me_st := (me_st s)\<lparr>m_fs := remove_ent p ?fs\<rparr>\<rparr>, Inr ())"
    by (simp add: rm_local_file_def on_files_def on_me_mst_def do_err_def set_fs_def)
  ultimately show ?thesis using assms(1-3) by (simp add: match_local_file_def bnd_def attempt_def)
qed

section \<open>Files that arrive\<close>

lemma walk_remove_file:
  assumes "walk n fs fol cur cs = Inr r" "\<not> fol" "node_at fs q = None \<or> node_at fs q = Some (Reg j)" "q \<noteq> []"
  shows "walk n (remove_ent q fs) fol cur cs = Inr r"
  using assms
proof (induction n fs fol cur cs rule: walk.induct)
  case (2 n fs fol cur x xs)
  note rem = node_at_remove [OF "2.prems"(4), of fs]
  show ?case
  proof (cases "x = ''..''")
    case True
    with 2 show ?thesis by simp
  next
    case False
    show ?thesis
    proof (cases "cur @ [x] = q")
      case True
      with "2.prems" rem [of q] False show ?thesis by (auto split: if_splits)
    next
      case no: False
      show ?thesis
      proof (cases "node_at fs (cur @ [x])")
        case None
        with no rem "2.prems" False show ?thesis by simp
      next
        case (Some nd)
        with no rem 2 False show ?thesis by (cases nd) (simp_all split: if_splits)
      qed
    qed
  qed
qed simp

lemma resolve_remove_file:
  "resolve fs False path = Inr r \<Longrightarrow> node_at fs q = None \<or> node_at fs q = Some (Reg j) \<Longrightarrow> q \<noteq> [] \<Longrightarrow>
     resolve (remove_ent q fs) False path = Inr r"
  using walk_remove_file [of MAXSYMLINKS fs False "[]" "comps path" r q j] by (simp add: resolve_def split: if_splits)

lemma map_set_get:
  assumes "file_fits f"
  shows "map_get_digest (map_set (fl_name f) (fl_digest f) fls) (fl_name f) = Some (fl_digest f)"
proof -
  have n: "sanitize (fl_name f) = fl_name f" "take (PATH_MAX - 1) (fl_name f) = fl_name f" "take MAX_DIGEST_STRLEN (fl_digest f) = fl_digest f"
    using assms by (auto simp: file_fits_def sanitize_idem)
  have d: "find (\<lambda>f. fl_name f = nm) (set_digest_of nm dig fls) = map_option (\<lambda>f. f\<lparr>fl_digest := take MAX_DIGEST_STRLEN dig\<rparr>) (find (\<lambda>f. fl_name f = nm) fls)"
    for nm dig by (induction fls) auto
  show ?thesis
    using n d by (cases "file_search fls (fl_name f)") (auto simp: map_get_digest_def map_set_def file_search_def file_new_def)
qed

text \<open>
  C0. A remote file whose content is in the cache and whose directories exist is installed without error under the local
  name, which it takes from an older file: the local file is the file of the cache, nothing else of the tree
  changes, and the map has its digest.
\<close>

theorem remote_installed:
  assumes "Mkdir_for_file (me_fs s) fpath = (me_fs s, None)"
    and "resolve (me_fs s) False (cache_path (files_root env) (fl_resource f)) = Inr c" "node_at (me_fs s) c = Some (Reg k)"
    and "resolve (me_fs s) False fpath = Inr p" "node_at (me_fs s) p = None \<or> node_at (me_fs s) p = Some (Reg j)" "p \<noteq> c"
    and "link_errno env (cache_path (files_root env) (fl_resource f)) fpath = None" "file_fits f"
  shows "\<exists>s'. remote_is_master env f fpath s = Done (s', Inr ()) \<and> node_at (me_fs s') = (node_at (me_fs s))(p \<mapsto> Reg k) \<and>
     idata (me_fs s') = idata (me_fs s) \<and> map_get_digest (next_map s') (fl_name f) = Some (fl_digest f)"
proof -
  let ?fs = "me_fs s" and ?cache = "cache_path (files_root env) (fl_resource f)"
  have p: "p \<noteq> []" using assms(5) by (auto simp: node_at_def)
  have "resolve ?fs True ?cache = Inr c" by (rule resolve_follow [OF assms(2)]) (use assms(3) in auto)
  then have g: "chn_get_file (files_root env) (Some (e_fetch env)) (fl_resource f) ?fs = (?fs, Inr ?cache)"
    using assms(3) by (simp add: chn_get_file_def open_input_def)
  define fs2 where "fs2 = fst (sys_unlink ?fs fpath)"
  have u: "sys_unlink ?fs fpath = (fs2, None) \<or> sys_unlink ?fs fpath = (fs2, Some ENOENT)"
    "node_at fs2 = (node_at ?fs)(p := None)" "idata fs2 = idata ?fs"
    "resolve fs2 False ?cache = Inr c" "resolve fs2 False fpath = Inr p"
    using assms(2,4,5) p node_at_remove [OF p, of ?fs] resolve_remove_file [OF _ assms(5) p]
    by (auto simp: fs2_def sys_unlink_def fun_eq_iff remove_ent_def [of p])
  then have "sys_link (link_errno env ?cache fpath) fs2 ?cache fpath = (add_ent fs2 p (Reg k), None)"
    using assms(3,6,7) by (simp add: sys_link_def)
  then have i: "install env (fl_resource f) fpath ?fs = (add_ent fs2 p (Reg k), None)"
    using assms(1) g u(1) by (auto simp: install_def)
  have "node_at (add_ent fs2 p (Reg k)) = (node_at ?fs)(p \<mapsto> Reg k)"
    using u(2) by (auto simp: node_at_add fun_eq_iff split: option.splits)
  moreover have "idata (add_ent fs2 p (Reg k)) = idata ?fs" using u(3) by (simp add: add_ent_def)
  ultimately show ?thesis using i map_set_get [OF assms(8)]
    by (simp add: remote_is_master_def on_files_def on_me_mst_def do_err_def set_fs_def upd_me_def bnd_def)
qed

section \<open>Short paths\<close>

lemma room_short: "6 \<le> n \<Longrightarrow> n \<le> 8 \<Longrightarrow> unat (room n) = 8 - n"
  unfolding room_def by (subst unat_sub) (simp_all add: word_le_nat_alt unat_of_nat)

lemma append_short:
  assumes "6 \<le> length path" "length path \<le> 8" "NUL \<notin> set path" "arr = array_of PATH_MAX junk path"
  shows "\<exists>arr'. append_name (length path) nm (arr, s) = Done ((arr', s), Inr ()) \<and> (cstr arr' = path \<or> cstr arr' = path @ ''/'')"
proof -
  let ?r = "room (length path)"
  obtain t where t: "arr = path @ NUL # t" "100 < length t" using assms(2,4) by (auto simp: array_of_def PATH_MAX_def)
  have r: "unat ?r = 8 - length path" by (rule room_short [OF assms(1,2)])
  consider "length path = 6" | "length path = 7" | "length path = 8" using assms(1,2) by linarith
  then show ?thesis
  proof cases
    case 1
    with r t have "append_name (length path) nm (arr, s) = Done ((path @ [CHR ''/'', NUL] @ tl t, s), Inr ())"
      by (cases t) (auto simp: append_name_def snprintf_at_def unat_eq_zero [symmetric] Let_def)
    with assms(3) cstr_app [of "path @ ''/''" "tl t"] show ?thesis by auto
  next
    case 2
    with r t have "append_name (length path) nm (arr, s) = Done ((arr, s), Inr ())"
      by (auto simp: append_name_def snprintf_at_def unat_eq_zero [symmetric] Let_def)
    with assms(3) t cstr_app show ?thesis by auto
  next
    case 3
    with r have "?r = 0" by (simp add: unat_eq_zero)
    with assms(3) t cstr_app show ?thesis by (auto simp: append_name_def snprintf_at_def)
  qed
qed

lemma comps_slash: "comps (path @ ''/'') = comps path"
  by (simp add: comps_def split_on_slash)

lemma digest_dir:
  assumes "sys_readdir_types fs path = Inr es" "path' = path \<or> path' = path @ ''/''"
  shows "digest_file sha1 fs path' = Inl (Err EISDIR ''Cannot pth_read'')"
proof -
  have "resolve fs True path' = resolve fs True path" using assms by (auto simp: resolve_def comps_slash sys_readdir_types_def)
  with assms(1) show ?thesis
    by (auto simp: sys_readdir_types_def digest_file_def open_input_def split: sum.splits option.splits node.splits)
qed

lemma scan_short:
  assumes "6 \<le> length path" "length path \<le> 8" "NUL \<notin> set path" "sys_readdir_types (me_fs s) path = Inr es0"
    and "\<forall>(nm, nd) \<in> set es. take 1 nm = ''.'' \<or> nd \<noteq> Dir" "\<exists>(nm, nd) \<in> set es. take 1 nm \<noteq> ''.'' \<and> (\<exists>i. nd = Reg i)"
  shows "\<exists>arr'. scan_opened_dir env (length path) es (array_of PATH_MAX junk path, s) =
    Done ((arr', s), Inl (Err EISDIR ''Cannot pth_read''))"
  using assms(5,6)
proof (induction es)
  case (Cons e es)
  obtain nm nd where e: "e = (nm, nd)" by (cases e)
  show ?case
  proof (cases "take 1 nm = ''.'' \<or> (\<exists>t. nd = Lnk t)")
    case True
    then have "scan_opened_dir env (length path) (e # es) = scan_opened_dir env (length path) es"
      using e by (auto simp: scan_opened_dir.simps)
    moreover have "\<exists>(nm, nd) \<in> set es. take 1 nm \<noteq> ''.'' \<and> (\<exists>i. nd = Reg i)" using Cons.prems(2) True e by auto
    ultimately show ?thesis using Cons.IH Cons.prems(1) by simp
  next
    case False
    with Cons.prems e obtain i where nd: "nd = Reg i" by (cases nd) auto
    obtain arr' where a: "append_name (length path) nm (array_of PATH_MAX junk path, s) = Done ((arr', s), Inr ())"
      "cstr arr' = path \<or> cstr arr' = path @ ''/''"
      using append_short [OF assms(1-3) refl] by blast
    have "match_file env (arr', s) = Done ((arr', s), Inl (Err EISDIR ''Cannot pth_read''))"
      using digest_dir [OF assms(4) a(2)] by (simp add: match_file_def on_tree_def)
    with a(1) False nd e show ?thesis by (auto simp: scan_opened_dir.simps)
  qed
qed simp

text \<open>
  C0. The size of a pointer is given for that of the array of the path: a local tree whose path has six to eight
  characters is never synchronised. The first of its files that is not hidden is taken for the directory itself, and the pass
  ends with the error of reading a directory.
\<close>

theorem short_path_fails:
  assumes "6 \<le> length (local_path env)" "length (local_path env) \<le> 8" "NUL \<notin> set (local_path env)"
    and "last (local_path env) \<noteq> CHR ''/''" "sys_readdir_types (me_fs s) (local_path env) = Inr es"
    and "\<forall>(nm, nd) \<in> set es. take 1 nm = ''.'' \<or> nd \<noteq> Dir" "\<exists>(nm, nd) \<in> set es. take 1 nm \<noteq> ''.'' \<and> (\<exists>i. nd = Reg i)"
  shows "traverse_local_path env junk s = Done (s, Inl (Err EISDIR ''Cannot pth_read''))"
proof -
  let ?path = "local_path env" and ?arr = "array_of PATH_MAX junk (local_path env)"
  have "local_path_len env = length ?path"
    using assms(1,4) by (cases ?path rule: rev_cases) (simp_all add: strip_len_def)
  moreover have "cstr ?arr = ?path" using cstr_app [OF assms(3)] by (simp add: array_of_def)
  then have "open_tree (?arr, s) = Done ((?arr, s), Inr es)" using assms(5) by (simp add: open_tree_def on_tree_def)
  moreover obtain arr' where "scan_opened_dir env (length ?path) es (?arr, s) = Done ((arr', s), Inl (Err EISDIR ''Cannot pth_read''))"
    using scan_short [OF assms(1-3,5-7)] by blast
  ultimately show ?thesis using assms(2) by (simp add: traverse_local_path_def traverse_dir_rec.simps PATH_MAX_def)
qed

section \<open>Concrete trees\<close>

definition env_sample :: "string \<Rightarrow> menv" where
  "env_sample path = \<lparr>local_path = path, files_root = ''/f'', putdir_seq = \<lparr>p_size = 8, p_fd = 7\<rparr>, e_sha1 = (\<lambda>s. take 2 s),
     e_uuid = (\<lambda>n. ''u-v''), e_fetch = (\<lambda>nm fs. (fs, Some (Err 0 ''Cannot get file''))), e_send = (\<lambda>nm fs. (fs, None)),
     link_errno = (\<lambda>a b. None)\<rparr>"

definition tree_sample :: "(string list \<times> node) list \<Rightarrow> fs" where
  "tree_sample es = \<lparr>ents = [([''m''], Dir), ([''m'', ''1''], Dir), ([''l''], Dir), ([''f''], Dir)] @ es,
     idata = (\<lambda>i. if i = 2 then ''local'' else if i = 3 then ''remote'' else []), next_ino = 4, pwrite_appends = False\<rparr>"

definition me_sample :: "(string list \<times> node) list \<Rightarrow> merefs" where
  "me_sample es = files_begin (st_sample\<lparr>m_fs := tree_sample es\<rparr>) 0"

definition file_sample :: sfile where
  "file_sample = \<lparr>fl_name = ''a'', fl_digest = ''D'', fl_resource = ''r'', fl_version = 3\<rparr>"

lemmas sample_defs = me_sample_def tree_sample_def env_sample_def file_sample_def files_begin_def st_sample_def fs_empty_def

lemma sample_paths [simp]:
  "resolve fs b ''/m/1'' = walk MAXSYMLINKS fs b [] [''m'', ''1'']" "resolve fs b ''/m/1/.tmp'' = walk MAXSYMLINKS fs b [] [''m'', ''1'', ''.tmp'']"
  "resolve fs b ''/l'' = walk MAXSYMLINKS fs b [] [''l'']" "resolve fs b ''/l/.map'' = walk MAXSYMLINKS fs b [] [''l'', ''.map'']"
  "resolve fs b ''/l/a'' = walk MAXSYMLINKS fs b [] [''l'', ''a'']" "resolve fs b ''/f/r'' = walk MAXSYMLINKS fs b [] [''f'', ''r'']"
  by (simp_all add: resolve_def comps_def)

lemma map_fname_sample: "map_fname (env_sample ''/l'') = ''/l/.map''"
  by (simp add: map_fname_def env_sample_def snpath_def PATH_MAX_def)

theorem map_saved_loaded_witness:
  "\<exists>s'. map_save (env_sample ''/l'') (\<lambda>_. ''junk'') ((me_sample [([''l'', ''.map''], Reg 0)])\<lparr>current_map := [file_sample]\<rparr>) = Done (s', Inr ()) \<and>
     map_load (env_sample ''/l'') s' = Done (s'\<lparr>current_map := [map_entry file_sample]\<rparr>, Inr ())"
proof -
  let ?s = "(me_sample [([''l'', ''.map''], Reg 0)])\<lparr>current_map := [file_sample]\<rparr>"
  have "file_at (me_fs ?s) (map_fname (env_sample ''/l'')) 0"
    unfolding map_fname_sample by (simp add: file_at_def sample_defs node_at_def)
  moreover have "idata (me_fs ?s) 0 = map_text (\<lambda>_. []) 0 []" by (simp add: sample_defs)
  moreover have "\<forall>f \<in> set (current_map ?s) \<union> set []. storable f"
    by (simp add: sample_defs storable_def file_fits_def PATH_MAX_def MAX_DIGEST_STRLEN_def)
  ultimately show ?thesis using map_saved_loaded [of ?s "env_sample ''/l''" 0 "\<lambda>_. []" "[]" "\<lambda>_. ''junk''"] by simp
qed

definition changed_sample :: merefs where
  "changed_sample = (me_sample [([''l'', ''a''], Reg 2), ([''f'', ''r''], Reg 3)])\<lparr>unmatched_files := [file_sample],
     current_map := [file_sample\<lparr>fl_digest := ''B''\<rparr>]\<rparr>"

lemma mkdir_sample: "node_at fs [''l''] = Some Dir \<Longrightarrow> Mkdir_for_file fs ''/l/a'' = (fs, None)"
  by (simp add: Mkdir_for_file_def dir_of_file_def Mkdir_def Mkdir_single_def sys_mkdir_def snpath_def PATH_MAX_def)

lemma backup_sample: "backup_name (env_sample ''/l'') ''/l/a'' = Done ''/l/.a''"
  by (simp add: backup_name_def PATH_MAX_def env_sample_def strip_len_def cstr_def eval_nat_numeral)

lemma cache_sample: "cache_path (files_root (env_sample ''/l'')) ''r'' = ''/f/r''"
  by (simp add: cache_path_def snpath_def PATH_MAX_def env_sample_def)

lemma resolve_backup [simp]: "resolve fs b ''/l/.a'' = walk MAXSYMLINKS fs b [] [''l'', ''.a'']"
  by (simp add: resolve_def comps_def)

lemma changed_done: "\<exists>s'. match_local_file (env_sample ''/l'') ''/l/a'' ''/a'' ''C'' changed_sample = Done (s', Inr ())"
  by (simp add: changed_sample_def match_local_file_def file_search_def sanitize_def sample_defs map_get_digest_def bnd_def
      conflict_def backup_sample [unfolded env_sample_def] on_files_def on_me_mst_def do_err_def sys_unlink_def sys_rename_def node_at_def
      move_ents_def remote_is_master_def install_def mkdir_sample chn_get_file_def cache_sample [unfolded env_sample_def, simplified]
      open_input_def sys_link_def upd_me_def set_fs_def)

lemma changed_facts:
  "conflicting changed_sample ''/a'' ''C''" "resolve (me_fs changed_sample) False ''/l/a'' = Inr [''l'', ''a'']"
  "holds_file [''l'', ''a''] 2 ''local'' (me_fs changed_sample)" "file_search (unmatched_files changed_sample) ''/a'' = Some file_sample"
  by (simp_all add: changed_sample_def conflicting_def file_search_def sanitize_def map_get_digest_def sample_defs node_at_def holds_file_def)

lemma apart_sample: "apart (env_sample ''/l'') ''a'' file_sample"
  using cache_sample by (simp add: apart_def file_sample_def comps_def)

lemma fetch_sample: "creates_only (e_fetch (env_sample path))"
  by (simp add: creates_only_def env_sample_def)

lemma plain_a: "plain_name ''a''"
  by (simp add: plain_name_def)

theorem conflict_kept_witness:
  "\<exists>s'. match_local_file (env_sample ''/l'') ''/l/a'' ''/a'' ''C'' changed_sample = Done (s', Inr ()) \<and>
     (holds_file [''l'', ''a''] 2 ''local'' (me_fs s') \<or> holds_file [''l'', ''.a''] 2 ''local'' (me_fs s'))"
proof -
  obtain s' where s': "match_local_file (env_sample ''/l'') ''/l/a'' ''/a'' ''C'' changed_sample = Done (s', Inr ())"
    using changed_done by blast
  have l: "local_path_len (env_sample ''/l'') \<le> length ''/l''" by (simp add: env_sample_def strip_len_def)
  from conflict_kept [OF s' changed_facts(1) _ plain_a _ _ l changed_facts(2,3) fetch_sample] changed_facts(4) apart_sample s'
  show ?thesis by auto
qed

theorem remote_installed_witness:
  "\<exists>s'. remote_is_master (env_sample ''/l'') file_sample ''/l/a'' changed_sample = Done (s', Inr ()) \<and>
     node_at (me_fs s') = (node_at (me_fs changed_sample))([''l'', ''a''] \<mapsto> Reg 3) \<and>
     idata (me_fs s') = idata (me_fs changed_sample) \<and> map_get_digest (next_map s') ''a'' = Some ''D''"
proof -
  let ?s = changed_sample and ?e = "env_sample ''/l''"
  have "Mkdir_for_file (me_fs ?s) ''/l/a'' = (me_fs ?s, None)"
    by (rule mkdir_sample) (simp add: changed_sample_def sample_defs node_at_def)
  moreover have "resolve (me_fs ?s) False (cache_path (files_root ?e) (fl_resource file_sample)) = Inr [''f'', ''r'']"
    "node_at (me_fs ?s) [''f'', ''r''] = Some (Reg 3)" "node_at (me_fs ?s) [''l'', ''a''] = None \<or> node_at (me_fs ?s) [''l'', ''a''] = Some (Reg 2)"
    using cache_sample by (simp_all add: changed_sample_def file_sample_def) (simp_all add: sample_defs node_at_def)
  moreover have "link_errno ?e (cache_path (files_root ?e) (fl_resource file_sample)) ''/l/a'' = None" by (simp add: env_sample_def)
  moreover have "file_fits file_sample" by (simp add: file_fits_def file_sample_def PATH_MAX_def MAX_DIGEST_STRLEN_def)
  ultimately show ?thesis
    using remote_installed [of ?s "''/l/a''" ?e file_sample "[''f'', ''r'']" 3 "[''l'', ''a'']" 2] changed_facts(2)
    by (simp add: file_sample_def)
qed

definition removed_sample :: merefs where
  "removed_sample = (me_sample [([''l'', ''a''], Reg 2), ([''l'', ''.a''], Dir)])\<lparr>current_map := [file_sample]\<rparr>"

theorem backup_directory_loses_file_witness:
  "\<exists>s'. match_local_file (env_sample ''/l'') ''/l/a'' ''/a'' ''C'' removed_sample = Done (s', Inl (Err EISDIR ''rename(%s -> %s)'')) \<and>
     me_fs s' = remove_ent [''l'', ''a''] (me_fs removed_sample)"
proof -
  have f: "file_search (unmatched_files removed_sample) ''/a'' = None" "map_get_digest (current_map removed_sample) ''/a'' = Some ''D''"
    "resolve (me_fs removed_sample) False ''/l/a'' = Inr [''l'', ''a'']" "node_at (me_fs removed_sample) [''l'', ''a''] = Some (Reg 2)"
    "node_at (me_fs removed_sample) [''l'', ''.a''] = Some Dir"
    by (simp_all add: removed_sample_def file_search_def sanitize_def map_get_digest_def sample_defs node_at_def)
  have l: "local_path_len (env_sample ''/l'') \<le> length ''/l''" by (simp add: env_sample_def strip_len_def)
  from backup_directory_loses_file [OF f(1,2) _ _ plain_a _ _ l _ f(3,4), of "''C''"] f(5)
  show ?thesis by (simp add: PATH_MAX_def)
qed

theorem short_path_fails_witness:
  "traverse_local_path (env_sample ''/local'') [] (me_sample [([''local''], Dir), ([''local'', ''a''], Reg 2)]) =
     Done (me_sample [([''local''], Dir), ([''local'', ''a''], Reg 2)], Inl (Err EISDIR ''Cannot pth_read''))"
proof -
  let ?s = "me_sample [([''local''], Dir), ([''local'', ''a''], Reg 2)]"
  have "sys_readdir_types (me_fs ?s) (local_path (env_sample ''/local'')) = Inr [(''.'', Dir), (''..'', Dir), (''a'', Reg 2)]"
    by (simp add: sys_readdir_types_def sample_defs resolve_def comps_def node_at_def)
  from short_path_fails [OF _ _ _ _ this, of "[]"] show ?thesis by (simp add: env_sample_def)
qed

end
